(* ===== verification/OS_Prelude.thy ===== *)
theory OS_Prelude
  imports Main "HOL-Library.Word"
begin

text \<open>
  Shared vocabulary of the development: the ways a C routine can fail (\<open>err\<close>), results as
  sums with a bind, the first-match scan that most of the table searches of the sources are,
  32-bit words, and generic lemmas on lists and words.
  Theorem collections: \<open>res_iff\<close> unfolds a successful bind, \<open>inv_defs\<close> unfolds the
  invariants of the components.
\<close>

named_theorems res_iff \<open>rules that unfold a successful result of a bind\<close>
named_theorems inv_defs \<open>definitions of the component invariants\<close>

section \<open>Results\<close>

text \<open>
  \<open>Panic\<close> is the kernel's \<open>panic(msg)\<close>, \<open>Abort\<close> a failed \<open>assert\<close>, \<open>OutOfBounds\<close> an access
  outside an array (undefined in C), \<open>Blocks\<close> an operation that would sleep for ever when no
  other process or interrupt runs.
\<close>

datatype err = Panic string | Abort | OutOfBounds | Blocks

type_synonym 'a res = "err + 'a"

definition bindR :: "'a res \<Rightarrow> ('a \<Rightarrow> 'b res) \<Rightarrow> 'b res" where
  "bindR m f = (case m of Inl e \<Rightarrow> Inl e | Inr x \<Rightarrow> f x)"

lemma bindR_simps [simp]:
  "bindR (Inl e) f = Inl e" "bindR (Inr x) f = f x"
  by (simp_all add: bindR_def)

lemma bindR_Inr_iff [res_iff]: "bindR m f = Inr y \<longleftrightarrow> (\<exists>x. m = Inr x \<and> f x = Inr y)"
  by (cases m) auto

lemma bindR_Inl_iff: "bindR m f = Inl e \<longleftrightarrow> m = Inl e \<or> (\<exists>x. m = Inr x \<and> f x = Inl e)"
  by (cases m) auto

lemma bindR_cong [fundef_cong]:
  "m = m' \<Longrightarrow> (\<And>x. m' = Inr x \<Longrightarrow> f x = g x) \<Longrightarrow> bindR m f = bindR m' g"
  by (cases m') auto

section \<open>Counting loops\<close>

text \<open>\<open>for_up n body s\<close> is \<open>for(i = 0; i < n; i++) s = body(i, s);\<close>.\<close>

primrec for_up :: "nat \<Rightarrow> (nat \<Rightarrow> 's \<Rightarrow> 's res) \<Rightarrow> 's \<Rightarrow> 's res" where
  "for_up 0 body s = Inr s"
| "for_up (Suc n) body s = bindR (for_up n body s) (body n)"

lemma for_up_invariant:
  assumes "P 0 s" "\<And>i t. i < n \<Longrightarrow> P i t \<Longrightarrow> \<exists>t'. body i t = Inr t' \<and> P (Suc i) t'"
  shows "\<exists>t. for_up n body s = Inr t \<and> P n t"
  using assms
proof (induction n)
  case (Suc n)
  then obtain t where "for_up n body s = Inr t" "P n t" by (metis less_SucI)
  with Suc.prems(2) [of n t] show ?case by auto
qed auto

lemma for_up_cong [fundef_cong]:
  "n = n' \<Longrightarrow> s = s' \<Longrightarrow> (\<And>i t. i < n' \<Longrightarrow> body i t = body' i t) \<Longrightarrow> for_up n body s = for_up n' body' s'"
proof (induction n arbitrary: n')
  case (Suc n)
  then have "for_up n body s = for_up n body' s'" using Suc.IH [of n] by simp
  with Suc.prems show ?case by (auto simp: bindR_def split: sum.splits)
qed auto

section \<open>First-match scans\<close>

text \<open>
  \<open>scan P xs\<close> is the loop \<open>for(i = 0; i < n; i++) if(P(xs[i])) return i;\<close> with \<open>None\<close>
  for falling off the end.
\<close>

fun scan :: "('a \<Rightarrow> bool) \<Rightarrow> 'a list \<Rightarrow> nat option" where
  "scan P [] = None"
| "scan P (x # xs) = (if P x then Some 0 else map_option Suc (scan P xs))"

lemma scan_None_iff: "scan P xs = None \<longleftrightarrow> (\<forall>x\<in>set xs. \<not> P x)"
  by (induction xs) auto

lemma scan_Some_iff:
  "scan P xs = Some i \<longleftrightarrow> i < length xs \<and> P (xs ! i) \<and> (\<forall>j<i. \<not> P (xs ! j))"
proof (induction xs arbitrary: i)
  case Nil
  then show ?case by simp
next
  case (Cons x xs)
  show ?case
    by (cases i) (auto simp: Cons.IH less_Suc_eq_0_disj)
qed

lemma scan_SomeD: "scan P xs = Some i \<Longrightarrow> i < length xs \<and> P (xs ! i)"
  by (simp add: scan_Some_iff)

lemma scan_complete: "i < length xs \<Longrightarrow> P (xs ! i) \<Longrightarrow> \<exists>j\<le>i. scan P xs = Some j"
proof (induction xs arbitrary: i)
  case (Cons x xs)
  show ?case
  proof (cases "P x")
    case False
    with Cons.prems obtain k where "i = Suc k" "k < length xs" "P (xs ! k)"
      by (cases i) auto
    with Cons.IH False show ?thesis by fastforce
  qed auto
qed simp

section \<open>Words\<close>

type_synonym u32 = "32 word"
type_synonym u8 = "8 word"

type_synonym mem = "u32 \<Rightarrow> u8"

lemma unat_Suc32: "unat (a::u32) + 1 < 2 ^ 32 \<Longrightarrow> unat (a + 1) = unat a + 1"
  by (simp add: unat_word_ariths)

lemma unat_add_of_nat32: "unat (a::u32) + n < 2 ^ 32 \<Longrightarrow> unat (a + of_nat n) = unat a + n"
  by (simp add: unat_word_ariths unat_of_nat take_bit_nat_def)

lemma unat_diff32: "unat (b::u32) \<le> unat a \<Longrightarrow> unat (a - b) = unat a - unat b"
  by (simp add: unat_sub_if')

lemma sint32_uint: "sint (x::u32) = (if uint x < 2 ^ 31 then uint x else uint x - 2 ^ 32)"
proof -
  have "sint x = (uint x + 2 ^ 31) mod 2 ^ 32 - 2 ^ 31"
    by (simp add: sint_uint signed_take_bit_eq_take_bit_shift take_bit_eq_mod)
  moreover have "0 \<le> uint x" "uint x < 2 ^ 32" using uint_lt2p [of x] by simp_all
  moreover have "(uint x + 2 ^ 31) mod 2 ^ 32 = (uint x + 2 ^ 31 - 2 ^ 32) mod 2 ^ 32"
    by (simp only: minus_mod_self2)
  ultimately show ?thesis by (cases "uint x < 2 ^ 31") (simp_all only: if_True if_False, simp_all)
qed

section \<open>Lists\<close>

lemma list_update_eq_iff: "i < length xs \<Longrightarrow> (xs[i := x]) ! j = (if i = j then x else xs ! j)"
  by (cases "j < length xs") (auto simp: nth_list_update)

lemma length_eq_Suc_last: "length xs = Suc n \<Longrightarrow> xs = take n xs @ [xs ! n]"
  by (metis lessI take_Suc_conv_app_nth take_all order_refl)

lemma distinct_filter_nth:
  "(\<And>j j'. j < length xs \<Longrightarrow> j' < length xs \<Longrightarrow> xs ! j = xs ! j' \<Longrightarrow> P (xs ! j) \<Longrightarrow> j = j') \<Longrightarrow>
     distinct (filter P xs)"
proof (induction xs)
  case (Cons x xs)
  have "j = j'" if "j < length xs" "j' < length xs" "xs ! j = xs ! j'" "P (xs ! j)" for j j'
    using Cons.prems [of "Suc j" "Suc j'"] that by simp
  then have "distinct (filter P xs)" by (rule Cons.IH)
  moreover have "x \<notin> set xs" if "P x"
  proof
    assume "x \<in> set xs"
    then obtain k where "k < length xs" "xs ! k = x" by (auto simp: in_set_conv_nth)
    with Cons.prems [of 0 "Suc k"] that show False by simp
  qed
  ultimately show ?case by auto
qed simp

end
