(* ===== verification/CString.thy ===== *)
theory CString
  imports OS_Prelude
begin

text \<open>
  The byte routines of \<open>xv6-public/string.c\<close> and \<open>xv6-public/ulib.c\<close> over a flat byte memory
  addressed by 32-bit pointers: \<open>memset\<close> (through \<open>stosb\<close>/\<open>stosl\<close> of \<open>x86.h\<close>), \<open>memcmp\<close>,
  \<open>memmove\<close> in both versions, \<open>strncmp\<close>, \<open>strncpy\<close>, \<open>safestrcpy\<close>, \<open>strlen\<close>, \<open>strcmp\<close>,
  \<open>strchr\<close>, \<open>atoi\<close> and \<open>gets\<close>.
\<close>

unbundle bit_operations_syntax

section \<open>Filling memory\<close>

primrec stosb :: "nat \<Rightarrow> mem \<Rightarrow> u32 \<Rightarrow> u8 \<Rightarrow> mem" where
  "stosb 0 m d c = m"
| "stosb (Suc n) m d c = stosb n (m(d := c)) (d + 1) c"

text \<open>One \<open>stosl\<close> step stores the four bytes of the word, lowest first.\<close>

primrec stosl :: "nat \<Rightarrow> mem \<Rightarrow> u32 \<Rightarrow> u32 \<Rightarrow> mem" where
  "stosl 0 m d w = m"
| "stosl (Suc n) m d w =
     stosl n (m(d := ucast w, d + 1 := ucast (drop_bit 8 w),
                d + 2 := ucast (drop_bit 16 w), d + 3 := ucast (drop_bit 24 w))) (d + 4) w"

definition memset :: "mem \<Rightarrow> u32 \<Rightarrow> u32 \<Rightarrow> u32 \<Rightarrow> mem" where
  "memset m dst c n =
     (if dst mod 4 = 0 \<and> n mod 4 = 0
      then let c = c AND 0xFF in
           stosl (unat (n div 4)) m dst
             (push_bit 24 c OR push_bit 16 c OR push_bit 8 c OR c)
      else stosb (unat n) m dst (ucast c))"

section \<open>Comparing and copying memory\<close>

primrec memcmp_loop :: "nat \<Rightarrow> mem \<Rightarrow> u32 \<Rightarrow> u32 \<Rightarrow> int" where
  "memcmp_loop 0 m s1 s2 = 0"
| "memcmp_loop (Suc n) m s1 s2 =
     (if m s1 \<noteq> m s2 then uint (m s1) - uint (m s2) else memcmp_loop n m (s1 + 1) (s2 + 1))"

definition memcmp :: "mem \<Rightarrow> u32 \<Rightarrow> u32 \<Rightarrow> u32 \<Rightarrow> int" where
  "memcmp m v1 v2 n = memcmp_loop (unat n) m v1 v2"

primrec copy_up :: "nat \<Rightarrow> mem \<Rightarrow> u32 \<Rightarrow> u32 \<Rightarrow> mem" where
  "copy_up 0 m d s = m"
| "copy_up (Suc n) m d s = copy_up n (m(d := m s)) (d + 1) (s + 1)"

primrec copy_down :: "nat \<Rightarrow> mem \<Rightarrow> u32 \<Rightarrow> u32 \<Rightarrow> mem" where
  "copy_down 0 m d s = m"
| "copy_down (Suc n) m d s = copy_down n (m(d - 1 := m (s - 1))) (d - 1) (s - 1)"

definition memmove :: "mem \<Rightarrow> u32 \<Rightarrow> u32 \<Rightarrow> u32 \<Rightarrow> mem" where
  "memmove m dst src n =
     (if src < dst \<and> src + n > dst
      then copy_down (unat n) m (dst + n) (src + n)
      else copy_up (unat n) m dst src)"

definition memcpy :: "mem \<Rightarrow> u32 \<Rightarrow> u32 \<Rightarrow> u32 \<Rightarrow> mem" where
  "memcpy m dst src n = memmove m dst src n"

text \<open>The user library's \<open>memmove\<close> has a signed count and always copies upwards.\<close>

definition ulib_memmove :: "mem \<Rightarrow> u32 \<Rightarrow> u32 \<Rightarrow> int \<Rightarrow> mem" where
  "ulib_memmove m vdst vsrc n = copy_up (nat n) m vdst vsrc"

section \<open>Strings in memory\<close>

primrec strncmp_loop :: "nat \<Rightarrow> mem \<Rightarrow> u32 \<Rightarrow> u32 \<Rightarrow> int" where
  "strncmp_loop 0 m p q = 0"
| "strncmp_loop (Suc n) m p q =
     (if m p \<noteq> 0 \<and> m p = m q then strncmp_loop n m (p + 1) (q + 1)
      else uint (m p) - uint (m q))"

definition strncmp :: "mem \<Rightarrow> u32 \<Rightarrow> u32 \<Rightarrow> u32 \<Rightarrow> int" where
  "strncmp m p q n = strncmp_loop (unat n) m p q"

primrec strncpy_loop :: "nat \<Rightarrow> mem \<Rightarrow> u32 \<Rightarrow> u32 \<Rightarrow> mem" where
  "strncpy_loop 0 m s t = m"
| "strncpy_loop (Suc n) m s t =
     (let c = m t; m' = m(s := c) in
      if c \<noteq> 0 then strncpy_loop n m' (s + 1) (t + 1) else stosb n m' (s + 1) 0)"

definition strncpy :: "mem \<Rightarrow> u32 \<Rightarrow> u32 \<Rightarrow> int \<Rightarrow> mem" where
  "strncpy m s t n = strncpy_loop (nat n) m s t"

primrec safestrcpy_loop :: "nat \<Rightarrow> mem \<Rightarrow> u32 \<Rightarrow> u32 \<Rightarrow> mem" where
  "safestrcpy_loop 0 m s t = m(s := 0)"
| "safestrcpy_loop (Suc n) m s t =
     (let c = m t; m' = m(s := c) in
      if c \<noteq> 0 then safestrcpy_loop n m' (s + 1) (t + 1) else m'(s + 1 := 0))"

definition safestrcpy :: "mem \<Rightarrow> u32 \<Rightarrow> u32 \<Rightarrow> int \<Rightarrow> mem" where
  "safestrcpy m s t n = (if n \<le> 0 then m else safestrcpy_loop (nat (n - 1)) m s t)"

text \<open>\<open>strlen\<close> runs until it meets a zero byte; \<open>None\<close> is not returning.\<close>

partial_function (option) strlen_loop :: "mem \<Rightarrow> u32 \<Rightarrow> nat \<Rightarrow> nat option" where
  "strlen_loop m s n = (if m (s + of_nat n) \<noteq> 0 then strlen_loop m s (Suc n) else Some n)"

definition strlen :: "mem \<Rightarrow> u32 \<Rightarrow> nat option" where
  "strlen m s = strlen_loop m s 0"

partial_function (option) strcmp :: "mem \<Rightarrow> u32 \<Rightarrow> u32 \<Rightarrow> int option" where
  "strcmp m p q =
     (if m p \<noteq> 0 \<and> m p = m q then strcmp m (p + 1) (q + 1)
      else Some (uint (m p) - uint (m q)))"

partial_function (option) strchr :: "mem \<Rightarrow> u32 \<Rightarrow> u8 \<Rightarrow> u32 option" where
  "strchr m s c =
     (if m s = 0 then Some 0 else if m s = c then Some s else strchr m (s + 1) c)"

partial_function (option) strcpy :: "mem \<Rightarrow> u32 \<Rightarrow> u32 \<Rightarrow> mem option" where
  "strcpy m s t =
     (let m' = m(s := m t) in if m t \<noteq> 0 then strcpy m' (s + 1) (t + 1) else Some m')"

partial_function (option) atoi_loop :: "mem \<Rightarrow> u32 \<Rightarrow> u32 \<Rightarrow> u32 option" where
  "atoi_loop m s n =
     (if 48 \<le> m s \<and> m s \<le> 57 then atoi_loop m (s + 1) (n * 10 + ucast (m s) - 48)
      else Some n)"

definition atoi :: "mem \<Rightarrow> u32 \<Rightarrow> u32 option" where
  "atoi m s = atoi_loop m s 0"

text \<open>
  \<open>gets\<close> takes bytes from descriptor 0, here the list of bytes the reads will deliver (a read
  of an exhausted input returns less than 1), and gives what it stored before the final zero and
  the unread rest.
\<close>

fun gets :: "nat \<Rightarrow> u8 list \<Rightarrow> u8 list \<times> u8 list" where
  "gets lim [] = ([], [])"
| "gets lim (c # inp) =
     (if lim \<le> 1 then ([], c # inp)
      else if c = 10 \<or> c = 13 then ([c], inp)
      else (let (l, r) = gets (lim - 1) inp in (c # l, r)))"

section \<open>What the copies do\<close>

lemma stosb_spec:
  "unat d + n \<le> 2 ^ 32 \<Longrightarrow>
   stosb n m d c a = (if unat d \<le> unat a \<and> unat a < unat d + n then c else m a)"
proof (induction n arbitrary: m d)
  case 0
  then show ?case by auto
next
  case (Suc n)
  show ?case
  proof (cases "n = 0")
    case True
    have "unat d \<le> unat a \<and> unat a < unat d + 1 \<longleftrightarrow> a = d" by (auto simp: word_unat_eq_iff)
    with True show ?thesis by auto
  next
    case False
    with Suc.prems have d1: "unat (d + 1) = unat d + 1" by (simp add: unat_Suc32)
    with Suc.prems have "unat (d + 1) + n \<le> 2 ^ 32" by simp
    from Suc.IH [OF this] d1 show ?thesis by (auto simp: word_unat_eq_iff)
  qed
qed

lemma copy_up_spec:
  "unat d + n \<le> 2 ^ 32 \<Longrightarrow> unat s + n \<le> 2 ^ 32 \<Longrightarrow> d \<le> s \<or> unat s + n \<le> unat d \<Longrightarrow>
   copy_up n m d s a =
     (if unat d \<le> unat a \<and> unat a < unat d + n then m (s + (a - d)) else m a)"
proof (induction n arbitrary: m d s)
  case 0
  then show ?case by auto
next
  case (Suc n)
  show ?case
  proof (cases "n = 0")
    case True
    have "unat d \<le> unat a \<and> unat a < unat d + 1 \<longleftrightarrow> a = d" by (auto simp: word_unat_eq_iff)
    with True show ?thesis by auto
  next
    case False
    with Suc.prems have d1: "unat (d + 1) = unat d + 1" and s1: "unat (s + 1) = unat s + 1"
      by (simp_all add: unat_Suc32)
    have "copy_up n (m(d := m s)) (d + 1) (s + 1) a =
       (if unat (d + 1) \<le> unat a \<and> unat a < unat (d + 1) + n
        then (m(d := m s)) (s + 1 + (a - (d + 1))) else (m(d := m s)) a)"
      by (rule Suc.IH) (use Suc.prems d1 s1 in \<open>auto simp: word_le_nat_alt\<close>)
    moreover have "s + 1 + (a - (d + 1)) = s + (a - d)" by simp
    moreover have "s + (a - d) \<noteq> d" if "unat d + 1 \<le> unat a" "unat a < unat d + Suc n"
    proof -
      from that have "unat (a - d) = unat a - unat d" by (simp add: unat_diff32)
      with that Suc.prems(2) have "unat (s + (a - d)) = unat s + (unat a - unat d)"
        by (simp add: unat_word_ariths)
      with that Suc.prems(3) show ?thesis by (auto simp: word_unat_eq_iff word_le_nat_alt)
    qed
    ultimately have eq: "copy_up (Suc n) m d s a =
       (if unat d + 1 \<le> unat a \<and> unat a < unat d + Suc n then m (s + (a - d)) else (m(d := m s)) a)"
      using d1 by auto
    show ?thesis
    proof (cases "a = d")
      case True
      with eq show ?thesis by simp
    next
      case False
      then have "unat a \<noteq> unat d" by (simp add: word_unat_eq_iff)
      with eq False show ?thesis by auto
    qed
  qed
qed

lemma copy_down_spec:
  "unat d + n \<le> 2 ^ 32 \<Longrightarrow> unat s + n \<le> 2 ^ 32 \<Longrightarrow> s \<le> d \<Longrightarrow>
   copy_down n m (d + of_nat n) (s + of_nat n) a =
     (if unat d \<le> unat a \<and> unat a < unat d + n then m (s + (a - d)) else m a)"
proof (induction n arbitrary: m)
  case 0
  then show ?case by auto
next
  case (Suc n)
  let ?m = "m(d + of_nat n := m (s + of_nat n))"
  have dn: "unat (d + of_nat n) = unat d + n" and sn: "unat (s + of_nat n) = unat s + n"
    using Suc.prems by (simp_all add: unat_add_of_nat32)
  have "copy_down (Suc n) m (d + of_nat (Suc n)) (s + of_nat (Suc n)) a =
        copy_down n ?m (d + of_nat n) (s + of_nat n) a"
    by (simp add: algebra_simps)
  also have "\<dots> = (if unat d \<le> unat a \<and> unat a < unat d + n then ?m (s + (a - d)) else ?m a)"
    by (rule Suc.IH) (use Suc.prems in auto)
  also have "\<dots> = (if unat d \<le> unat a \<and> unat a < unat d + Suc n then m (s + (a - d)) else m a)"
  proof (cases "a = d + of_nat n")
    case True
    with dn show ?thesis by simp
  next
    case False
    have "s + (a - d) \<noteq> d + of_nat n" if "unat d \<le> unat a" "unat a < unat d + n"
    proof -
      from that have "unat (a - d) = unat a - unat d" by (simp add: unat_diff32)
      with that Suc.prems(2) have "unat (s + (a - d)) = unat s + (unat a - unat d)"
        by (simp add: unat_word_ariths)
      with that dn Suc.prems(3) show ?thesis by (auto simp: word_unat_eq_iff word_le_nat_alt)
    qed
    with False dn show ?thesis by (auto simp: word_unat_eq_iff)
  qed
  finally show ?case .
qed

text \<open>
  The kernel's memmove is correct on overlapping regions: when neither region runs past the
  end of the address space, every destination byte gets the byte its source held before the call,
  and no other byte changes.
\<close>

lemma memmove_correct:
  assumes "unat src + unat n < 2 ^ 32" and "unat dst + unat n \<le> 2 ^ 32"
  shows "memmove m dst src n a =
           (if unat dst \<le> unat a \<and> unat a < unat dst + unat n then m (src + (a - dst)) else m a)"
proof (cases "src < dst \<and> src + n > dst")
  case True
  then have "memmove m dst src n = copy_down (unat n) m (dst + of_nat (unat n)) (src + of_nat (unat n))"
    by (simp add: memmove_def)
  with True assms copy_down_spec [of dst "unat n" src m a] show ?thesis by (simp add: less_imp_le)
next
  case False
  have "unat (src + n) = unat src + unat n" using assms(1) by (simp add: unat_word_ariths)
  with False have "dst \<le> src \<or> unat src + unat n \<le> unat dst"
    by (auto simp: word_less_nat_alt word_le_nat_alt)
  with False assms copy_up_spec [of dst "unat n" src m a] show ?thesis
    by (auto simp: memmove_def)
qed

lemma memmove_correct_witness:
  "memmove (\<lambda>a. if a = 1 then 7 else if a = 2 then 9 else 0) 2 1 2 3 = 9"
  using memmove_correct [of 1 2 2 "\<lambda>a. if a = 1 then 7 else if a = 2 then 9 else 0" 3] by simp

section \<open>memset\<close>

lemma stosl_stosb:
  assumes "ucast w = b" "ucast (drop_bit 8 w) = b" "ucast (drop_bit 16 w) = b"
    "ucast (drop_bit 24 w) = b"
  shows "stosl n m d w = stosb (4 * n) m d b"
proof (induction n arbitrary: m d)
  case (Suc n)
  have "stosb (4 * Suc n) m d b =
        stosb (4 * n) (m(d := b, d + 1 := b, d + 1 + 1 := b, d + 1 + 1 + 1 := b)) (d + 1 + 1 + 1 + 1) b"
    by (simp add: numeral_eq_Suc)
  with Suc assms show ?case by (simp add: add.assoc fun_upd_def)
qed simp

lemma replicated_bytes:
  fixes c :: u32
  defines "x \<equiv> c AND 0xFF"
  defines "w \<equiv> push_bit 24 x OR push_bit 16 x OR push_bit 8 x OR x"
  shows "ucast w = (ucast c :: u8)" "ucast (drop_bit 8 w) = (ucast c :: u8)"
    "ucast (drop_bit 16 w) = (ucast c :: u8)" "ucast (drop_bit 24 w) = (ucast c :: u8)"
proof -
  have "(0xFF :: u32) = mask 8" by (simp add: mask_eq_exp_minus_1)
  then have x: "bit x n \<longleftrightarrow> bit c n \<and> n < 8" for n
    unfolding x_def by (simp only: bit_and_iff bit_mask_iff) auto
  show "ucast w = (ucast c :: u8)" "ucast (drop_bit 8 w) = (ucast c :: u8)"
    "ucast (drop_bit 16 w) = (ucast c :: u8)" "ucast (drop_bit 24 w) = (ucast c :: u8)"
    by (rule bit_eqI; auto simp: w_def bit_simps x)+
qed

lemma memset_stosb: "memset m dst c n = stosb (unat n) m dst (ucast c)"
proof (cases "dst mod 4 = 0 \<and> n mod 4 = 0")
  case True
  then have "unat n mod 4 = 0" using unat_mod [of n 4] by simp
  then have "4 * unat (n div 4) = unat n" using mult_div_mod_eq [of 4 "unat n"] by (simp add: unat_div)
  with True show ?thesis
    by (simp only: memset_def Let_def stosl_stosb [OF replicated_bytes] simp_thms if_True)
qed (auto simp: memset_def)

text \<open>
  memset fills exactly its range with the low byte of its second argument, whichever of the
  two string instructions (byte or word stores) the alignment selects.
\<close>

lemma memset_correct:
  assumes "unat dst + unat n \<le> 2 ^ 32"
  shows "memset m dst c n a =
           (if unat dst \<le> unat a \<and> unat a < unat dst + unat n then ucast c else m a)"
  using assms by (simp add: memset_stosb stosb_spec)

lemma memset_correct_witness: "memset (\<lambda>_. 0) 8 0x1FF 4 11 = 0xFF"
  using memset_correct [of 8 4 "\<lambda>_. 0" "0x1FF" 11] by simp

section \<open>safestrcpy\<close>

lemma safestrcpy_loop_frame:
  "unat s + n < 2 ^ 32 \<Longrightarrow> unat a < unat s \<or> unat s + n < unat a \<Longrightarrow>
   safestrcpy_loop n m s t a = m a"
proof (induction n arbitrary: m s t)
  case 0
  then show ?case by auto
next
  case (Suc n)
  then have s1: "unat (s + 1) = unat s + 1" by (simp add: unat_Suc32)
  with Suc.prems Suc.IH [of "s + 1"] show ?case by (auto simp: Let_def word_unat_eq_iff)
qed

lemma safestrcpy_loop_content:
  assumes "unat s + n < 2 ^ 32" "unat t + n < 2 ^ 32" "unat s + n < unat t \<or> unat t + n < unat s"
    "k \<le> n" "\<forall>i<k. m (t + of_nat i) \<noteq> 0" "k = n \<or> m (t + of_nat k) = 0"
  shows "(\<forall>i<k. safestrcpy_loop n m s t (s + of_nat i) = m (t + of_nat i)) \<and>
         safestrcpy_loop n m s t (s + of_nat k) = 0"
  using assms
proof (induction n arbitrary: m s t k)
  case 0
  then show ?case by simp
next
  case (Suc n)
  have s1: "unat (s + 1) = unat s + 1" and t1: "unat (t + 1) = unat t + 1"
    using Suc.prems by (simp_all add: unat_Suc32)
  show ?case
  proof (cases k)
    case 0
    with Suc.prems show ?thesis by simp
  next
    case (Suc j)
    let ?m = "m(s := m t)"
    have mt: "m t \<noteq> 0" using Suc.prems(5) Suc by force
    have ne: "t + 1 + of_nat i \<noteq> s" if "i \<le> n" for i
    proof -
      have "unat (t + 1 + of_nat i) = unat t + 1 + i"
        using that Suc.prems(2) t1 by (simp add: unat_add_of_nat32)
      with that Suc.prems(3) show ?thesis by auto
    qed
    have m1: "?m (t + 1 + of_nat i) = m (t + of_nat (Suc i))" if "i \<le> n" for i
      using ne [OF that] by (simp add: algebra_simps)
    have "(\<forall>i<j. safestrcpy_loop n ?m (s + 1) (t + 1) (s + 1 + of_nat i) = ?m (t + 1 + of_nat i)) \<and>
          safestrcpy_loop n ?m (s + 1) (t + 1) (s + 1 + of_nat j) = 0"
    proof (rule Suc.IH)
      show "\<forall>i<j. ?m (t + 1 + of_nat i) \<noteq> 0" and "j = n \<or> ?m (t + 1 + of_nat j) = 0"
        using Suc.prems(4-6) Suc m1 by auto
    qed (use Suc.prems Suc s1 t1 in auto)
    moreover have "safestrcpy_loop n ?m (s + 1) (t + 1) s = m t"
      using Suc.prems s1 by (subst safestrcpy_loop_frame) auto
    moreover have "safestrcpy_loop (Suc n) m s t = safestrcpy_loop n ?m (s + 1) (t + 1)"
      using mt by (simp add: Let_def)
    ultimately show ?thesis
      using Suc m1 Suc.prems(4)
      by (auto simp: less_Suc_eq_0_disj algebra_simps)
  qed
qed

text \<open>
  safestrcpy into a buffer of n > 0 bytes that does not overlap the source writes only inside
  the buffer, copies the source up to its terminating zero or to n - 1 bytes, and always ends the
  copy with a zero byte.
\<close>

lemma safestrcpy_terminated:
  assumes "0 < n" and "unat s + nat n \<le> 2 ^ 32" and "unat t + nat n \<le> 2 ^ 32"
    and "unat s + nat n \<le> unat t \<or> unat t + nat n \<le> unat s"
    and "k < nat n" and "\<forall>i<k. m (t + of_nat i) \<noteq> 0" and "Suc k = nat n \<or> m (t + of_nat k) = 0"
  shows "(\<forall>i<k. safestrcpy m s t n (s + of_nat i) = m (t + of_nat i)) \<and>
         safestrcpy m s t n (s + of_nat k) = 0 \<and>
         (\<forall>a. unat a < unat s \<or> unat s + nat n \<le> unat a \<longrightarrow> safestrcpy m s t n a = m a)"
proof -
  obtain q where q: "nat n = Suc q" "nat (n - 1) = q"
    using assms(1) by (cases "nat n") auto
  have "safestrcpy m s t n = safestrcpy_loop q m s t"
    using assms(1) q by (simp add: safestrcpy_def)
  with assms q safestrcpy_loop_content [of s q t k m] safestrcpy_loop_frame [of s q _ m t]
  show ?thesis by auto
qed

lemma safestrcpy_terminated_witness:
  "safestrcpy (\<lambda>a. if a = 8 then 65 else if a = 9 then 66 else 1) 0 8 3 0 = 65 \<and>
   safestrcpy (\<lambda>a. if a = 8 then 65 else if a = 9 then 66 else 1) 0 8 3 2 = 0"
proof -
  let ?m = "\<lambda>a :: u32. if a = 8 then 65 else if a = 9 then 66 else (1 :: u8)"
  have "\<forall>i<2. ?m (8 + of_nat i) \<noteq> 0" by simp
  from safestrcpy_terminated [of 3 0 8 2 ?m, OF _ _ _ _ _ this]
  have "(\<forall>i<2. safestrcpy ?m 0 8 3 (0 + of_nat i) = ?m (8 + of_nat i)) \<and> safestrcpy ?m 0 8 3 (0 + of_nat 2) = 0"
    by simp
  then have "safestrcpy ?m 0 8 3 (0 + of_nat 0) = ?m (8 + of_nat 0) \<and> safestrcpy ?m 0 8 3 (0 + of_nat 2) = 0"
    by (meson zero_less_numeral)
  then show ?thesis by simp
qed

end
