(* ===== verification/PrintNum.thy ===== *)
theory PrintNum
  imports OS_Prelude
begin

text \<open>
  Formatted output: \<open>printint\<close> and \<open>cprintf\<close> of \<open>xv6-public/console.c\<close>, \<open>printint\<close> and
  \<open>printf\<close> of \<open>xv6-public/printf.c\<close>. A call gives the characters it sends to \<open>consputc\<close> or
  \<open>putc\<close>, in order. The variadic arguments are a list of 32-bit values and strings, where
  \<open>StrArg None\<close> is a null pointer; running off that list or off the 16-byte digit buffer is
  \<open>OutOfBounds\<close>. The locks around \<open>cprintf\<close> are left to the theory Locks.
\<close>

section \<open>printint\<close>

definition console_digits :: string where "console_digits = ''0123456789abcdef''"
definition user_digits :: string where "user_digits = ''0123456789ABCDEF''"

text \<open>The digit loop; \<open>buf\<close> holds \<open>buf[0..i)\<close> and has room for 16 characters.\<close>

function digit_loop :: "string \<Rightarrow> u32 \<Rightarrow> u32 \<Rightarrow> string \<Rightarrow> string res" where
  "digit_loop digits x base buf =
     (if length buf \<ge> 16 \<or> unat (x mod base) \<ge> length digits then Inl OutOfBounds
      else let buf' = buf @ [digits ! unat (x mod base)]; x' = x div base in
           if x' \<noteq> 0 then digit_loop digits x' base buf' else Inr buf')"
  by pat_completeness auto
termination
  by (relation "measure (\<lambda>(digits, x, base, buf). 16 - length buf)") auto

declare digit_loop.simps [simp del]

definition printint :: "string \<Rightarrow> u32 \<Rightarrow> u32 \<Rightarrow> bool \<Rightarrow> string res" where
  "printint digits xx base sign =
     (let neg = sign \<and> sint xx < 0; x = (if neg then - xx else xx) in
      bindR (digit_loop digits x base []) (\<lambda>buf.
        if neg then (if length buf \<ge> 16 then Inl OutOfBounds else Inr (rev (buf @ ''-'')))
        else Inr (rev buf)))"

section \<open>The two format interpreters\<close>

datatype fmt_arg = IntArg u32 | StrArg "string option"

fun str_arg :: "string option \<Rightarrow> string" where
  "str_arg None = ''(null)''"
| "str_arg (Some s) = s"

text \<open>
  \<open>cprintf\<close>: at a percent sign look at the next character; a percent sign at the very end of the
  format stops the output.
\<close>

fun cprintf :: "string \<Rightarrow> fmt_arg list \<Rightarrow> string res" where
  "cprintf [] args = Inr []"
| "cprintf [c] args = (if c \<noteq> CHR ''%'' then Inr [c] else Inr [])"
| "cprintf (c # d # fmt) args =
     (if c \<noteq> CHR ''%'' then bindR (cprintf (d # fmt) args) (\<lambda>out. Inr (c # out))
      else if d = CHR ''d'' then
        (case args of IntArg x # rest \<Rightarrow>
           bindR (printint console_digits x 10 True) (\<lambda>n. bindR (cprintf fmt rest) (\<lambda>out. Inr (n @ out)))
         | _ \<Rightarrow> Inl OutOfBounds)
      else if d = CHR ''x'' \<or> d = CHR ''p'' then
        (case args of IntArg x # rest \<Rightarrow>
           bindR (printint console_digits x 16 False) (\<lambda>n. bindR (cprintf fmt rest) (\<lambda>out. Inr (n @ out)))
         | _ \<Rightarrow> Inl OutOfBounds)
      else if d = CHR ''s'' then
        (case args of StrArg s # rest \<Rightarrow> bindR (cprintf fmt rest) (\<lambda>out. Inr (str_arg s @ out))
         | _ \<Rightarrow> Inl OutOfBounds)
      else if d = CHR ''%'' then bindR (cprintf fmt args) (\<lambda>out. Inr (CHR ''%'' # out))
      else bindR (cprintf fmt args) (\<lambda>out. Inr (CHR ''%'' # d # out)))"

text \<open>\<open>printf\<close> of the user library reads one character at a time; \<open>pct\<close> is \<open>state == '%'\<close>.\<close>

fun printf :: "bool \<Rightarrow> string \<Rightarrow> fmt_arg list \<Rightarrow> string res" where
  "printf pct [] args = Inr []"
| "printf False (c # fmt) args =
     (if c = CHR ''%'' then printf True fmt args
      else bindR (printf False fmt args) (\<lambda>out. Inr (c # out)))"
| "printf True (c # fmt) args =
     (if c = CHR ''d'' then
        (case args of IntArg x # rest \<Rightarrow>
           bindR (printint user_digits x 10 True) (\<lambda>n. bindR (printf False fmt rest) (\<lambda>out. Inr (n @ out)))
         | _ \<Rightarrow> Inl OutOfBounds)
      else if c = CHR ''x'' \<or> c = CHR ''p'' then
        (case args of IntArg x # rest \<Rightarrow>
           bindR (printint user_digits x 16 False) (\<lambda>n. bindR (printf False fmt rest) (\<lambda>out. Inr (n @ out)))
         | _ \<Rightarrow> Inl OutOfBounds)
      else if c = CHR ''s'' then
        (case args of StrArg s # rest \<Rightarrow> bindR (printf False fmt rest) (\<lambda>out. Inr (str_arg s @ out))
         | _ \<Rightarrow> Inl OutOfBounds)
      else if c = CHR ''c'' then
        (case args of IntArg x # rest \<Rightarrow>
           bindR (printf False fmt rest) (\<lambda>out. Inr (char_of (unat x mod 256) # out))
         | _ \<Rightarrow> Inl OutOfBounds)
      else if c = CHR ''%'' then bindR (printf False fmt args) (\<lambda>out. Inr (c # out))
      else bindR (printf False fmt args) (\<lambda>out. Inr (CHR ''%'' # c # out)))"

section \<open>Reading the numbers back\<close>

definition digit_val :: "char \<Rightarrow> nat" where
  "digit_val c = (let k = of_char c in if k \<le> 57 then k - 48 else if k \<le> 70 then k - 55 else k - 87)"

definition num_val :: "nat \<Rightarrow> string \<Rightarrow> nat" where
  "num_val base s = foldl (\<lambda>v c. v * base + digit_val c) 0 s"

fun int_val :: "string \<Rightarrow> int" where
  "int_val [] = 0"
| "int_val (c # s) = (if c = CHR ''-'' then - int (num_val 10 s) else int (num_val 10 (c # s)))"

lemma num_val_snoc: "num_val b (s @ [c]) = num_val b s * b + digit_val c"
  by (simp add: num_val_def)

lemma digits_val:
  assumes "d < 16" "digits = console_digits \<or> digits = user_digits"
  shows "digit_val (digits ! d) = d \<and> digits ! d \<noteq> CHR ''-''"
proof -
  have "list_all (\<lambda>d. digit_val (console_digits ! d) = d \<and> console_digits ! d \<noteq> CHR ''-'' \<and>
                     digit_val (user_digits ! d) = d \<and> user_digits ! d \<noteq> CHR ''-'') [0..<16]"
    by code_simp
  with assms show ?thesis by (auto simp: list_all_iff)
qed

lemma length_digits [simp]: "length console_digits = 16" "length user_digits = 16"
  by (simp_all add: console_digits_def user_digits_def)

lemma digit_loop_spec:
  assumes "digits = console_digits \<or> digits = user_digits" "2 \<le> unat base" "unat base \<le> 16"
    "unat x < unat base ^ Suc k" "length buf + Suc k \<le> 16"
  shows "\<exists>ds. digit_loop digits x base buf = Inr (buf @ ds) \<and> ds \<noteq> [] \<and> length ds \<le> Suc k \<and>
              num_val (unat base) (rev ds) = unat x \<and> CHR ''-'' \<notin> set ds"
  using assms
proof (induction k arbitrary: x buf)
  case 0
  let ?c = "digits ! unat (x mod base)"
  have x: "unat (x mod base) = unat x" "unat (x div base) = 0"
    using 0 by (simp_all add: unat_mod unat_div)
  then have "x div base = 0" by (simp add: unat_eq_zero)
  with 0 x digits_val [of "unat x" digits] have "digit_loop digits x base buf = Inr (buf @ [?c])"
    "num_val (unat base) [?c] = unat x" "?c \<noteq> CHR ''-''"
    by (auto simp: digit_loop.simps [of digits x base buf] num_val_def Let_def)
  then show ?case by (intro exI [of _ "[?c]"]) auto
next
  case (Suc k)
  let ?c = "digits ! unat (x mod base)"
  have m: "unat (x mod base) = unat x mod unat base" "unat (x mod base) < 16"
    using Suc.prems by (simp_all add: unat_mod) (metis mod_less_divisor less_le_trans neq0_conv not_numeral_le_zero)
  have q: "unat (x div base) < unat base ^ Suc k"
    using Suc.prems(2,4) by (simp add: unat_div less_mult_imp_div_less mult.commute mult.assoc)
  have c: "digit_val ?c = unat x mod unat base" "?c \<noteq> CHR ''-''"
    using digits_val [OF m(2) Suc.prems(1)] m(1) by simp_all
  have unfold: "digit_loop digits x base buf =
      (if x div base \<noteq> 0 then digit_loop digits (x div base) base (buf @ [?c]) else Inr (buf @ [?c]))"
    using Suc.prems m by (subst digit_loop.simps) (auto simp: Let_def)
  show ?case
  proof (cases "x div base = 0")
    case True
    then have "unat x div unat base = 0" by (metis unat_0 unat_div)
    then have "unat x mod unat base = unat x"
      by (metis mult_0_right add_0 mult_div_mod_eq)
    with True unfold c show ?thesis
      by (intro exI [of _ "[?c]"]) (auto simp: num_val_def)
  next
    case False
    from Suc.IH [of "x div base" "buf @ [?c]"] Suc.prems q
    obtain ds where ds: "digit_loop digits (x div base) base (buf @ [?c]) = Inr ((buf @ [?c]) @ ds)"
      "length ds \<le> Suc k" "num_val (unat base) (rev ds) = unat (x div base)" "CHR ''-'' \<notin> set ds"
      by auto
    have "num_val (unat base) (rev (?c # ds)) = unat x"
      using ds(3) c(1) by (simp add: num_val_snoc unat_div)
    with False unfold ds c show ?thesis
      by (intro exI [of _ "?c # ds"]) auto
  qed
qed


section \<open>The two interpreters agree\<close>

fun no_directive :: "char set \<Rightarrow> string \<Rightarrow> bool" where
  "no_directive D (c # d # fmt) =
     (if c = CHR ''%'' then d \<notin> D \<and> no_directive D fmt else no_directive D (d # fmt))"
| "no_directive D fmt = True"

lemma digit_loop_decimal: "digit_loop user_digits x 10 buf = digit_loop console_digits x 10 buf"
proof (induction "16 - length buf" arbitrary: x buf rule: less_induct)
  case less
  have d: "user_digits ! unat (x mod 10) = console_digits ! unat (x mod 10)"
  proof -
    have "list_all (\<lambda>d. user_digits ! d = console_digits ! d) [0..<10]" by code_simp
    moreover have "unat (x mod 10) < 10" by (simp add: unat_mod)
    ultimately show ?thesis by (auto simp: list_all_iff)
  qed
  show ?case
  proof (cases "length buf \<ge> 16")
    case False
    then have "digit_loop user_digits (x div 10) 10 (buf @ [console_digits ! unat (x mod 10)]) =
               digit_loop console_digits (x div 10) 10 (buf @ [console_digits ! unat (x mod 10)])"
      by (intro less) simp
    with d show ?thesis
      by (simp add: digit_loop.simps [of _ x 10 buf] Let_def)
  qed (simp add: digit_loop.simps)
qed

lemma printint_decimal_digits:
  "printint user_digits x 10 s = printint console_digits x 10 s"
  by (simp add: printint_def digit_loop_decimal)

text \<open>
  The kernel's cprintf and the user library's printf, one written with look-ahead and one as
  a character-at-a-time state machine, print the same characters (and fail on the same argument
  lists) for every format that uses neither the hexadecimal directives, whose digits differ in
  case, nor the character directive that only printf has.
\<close>

lemma cprintf_printf_agree:
  assumes "no_directive {CHR ''x'', CHR ''p'', CHR ''c''} fmt"
  shows "printf False fmt args = cprintf fmt args"
  using assms
proof (induction "{CHR ''x'', CHR ''p'', CHR ''c''}" fmt arbitrary: args rule: no_directive.induct)
  case (1 c d fmt)
  show ?case
  proof (cases "c = CHR ''%''")
    case True
    with 1 have rec: "printf False fmt args = cprintf fmt args" for args by simp
    from True 1(3) have "d \<noteq> CHR ''x''" "d \<noteq> CHR ''p''" "d \<noteq> CHR ''c''" by simp_all
    with True show ?thesis by (simp add: rec printint_decimal_digits split: list.splits fmt_arg.splits)
  qed (use 1 in simp)
qed auto

lemma cprintf_printf_agree_witness:
  "printf False ''a%d%s'' [IntArg 5, StrArg None] = cprintf ''a%d%s'' [IntArg 5, StrArg None]"
  by (rule cprintf_printf_agree) simp

end
