(* ===== verification/Block_Cache.thy ===== *)
theory Block_Cache
  imports OS_Prelude
begin

text \<open>
  The interface between the buffer cache and its clients. A disk block is its 512 bytes as a
  function of the position; 32-bit fields are read and written little-endian. The locale
  \<open>block_cache\<close> lists what \<open>bread\<close>, \<open>bwrite\<close>, \<open>brelse\<close> and the marking of a buffer as dirty
  promise about five views of a cache: the content a reader sees, the disk, the blocks held by
  the process, the blocks pinned by their dirty mark, and the sequence of disk writes. Its lemmas
  are the access patterns of the logging layer.
\<close>

type_synonym block = "nat \<Rightarrow> u8"
type_synonym bkey = "nat \<times> nat"

section \<open>Fields of a block\<close>

unbundle bit_operations_syntax

definition get32 :: "block \<Rightarrow> nat \<Rightarrow> u32" where
  "get32 b off = ucast (b off) OR push_bit 8 (ucast (b (off + 1))) OR
                 push_bit 16 (ucast (b (off + 2))) OR push_bit 24 (ucast (b (off + 3)))"

definition put32 :: "block \<Rightarrow> nat \<Rightarrow> u32 \<Rightarrow> block" where
  "put32 b off w = b(off := ucast w, off + 1 := ucast (drop_bit 8 w),
                     off + 2 := ucast (drop_bit 16 w), off + 3 := ucast (drop_bit 24 w))"

lemma bytes_of_word:
  fixes w :: u32
  shows "ucast (ucast w :: u8) OR push_bit 8 (ucast (ucast (drop_bit 8 w) :: u8)) OR
         push_bit 16 (ucast (ucast (drop_bit 16 w) :: u8)) OR
         push_bit 24 (ucast (ucast (drop_bit 24 w) :: u8)) = w"
proof (rule bit_eqI)
  fix n assume "possible_bit TYPE(32 word) n"
  then consider "n < 8" | "8 \<le> n \<and> n < 16" | "16 \<le> n \<and> n < 24" | "24 \<le> n \<and> n < 32" by fastforce
  then show "bit (ucast (ucast w :: u8) OR push_bit 8 (ucast (ucast (drop_bit 8 w) :: u8)) OR
         push_bit 16 (ucast (ucast (drop_bit 16 w) :: u8)) OR
         push_bit 24 (ucast (ucast (drop_bit 24 w) :: u8)) :: u32) n = bit w n"
    by cases (auto simp: bit_simps)
qed

lemma get_put32 [simp]: "get32 (put32 b off w) off = w"
  by (simp add: get32_def put32_def bytes_of_word)

lemma get_put32_other [simp]:
  "off' + 4 \<le> off \<or> off + 4 \<le> off' \<Longrightarrow> get32 (put32 b off w) off' = get32 b off'"
  by (auto simp: get32_def put32_def)

section \<open>Sequences of block writes\<close>

definition apply_writes :: "(bkey \<times> block) list \<Rightarrow> (bkey \<Rightarrow> block) \<Rightarrow> bkey \<Rightarrow> block" where
  "apply_writes ws = fold (\<lambda>(k, x) d. d(k := x)) ws"

lemma apply_writes_simps [simp]:
  "apply_writes [] d = d" "apply_writes ((k, x) # ws) d = apply_writes ws (d(k := x))"
  "apply_writes (us @ ws) d = apply_writes ws (apply_writes us d)"
  by (simp_all add: apply_writes_def)

lemma apply_writes_other: "k \<notin> fst ` set ws \<Longrightarrow> apply_writes ws d k = d k"
  by (induction ws arbitrary: d) auto

lemma apply_writes_in:
  "(k, x) \<in> set ws \<Longrightarrow> distinct (map fst ws) \<Longrightarrow> apply_writes ws d k = x"
proof (induction ws arbitrary: d)
  case (Cons w ws)
  then show ?case using apply_writes_other [of k ws] by (cases w) (auto simp: image_iff)
qed simp

lemma prefix_cases:
  assumes "p @ q = xs @ ys"
  obtains (left) p' where "p @ p' = xs" | (right) p' where "p = xs @ p'" "p' @ q = ys"
  using assms by (auto simp: append_eq_append_conv2)

section \<open>The interface\<close>

locale block_cache =
  fixes rd :: "'s \<Rightarrow> nat \<Rightarrow> nat \<Rightarrow> (nat \<times> 's) res"
    and wr :: "'s \<Rightarrow> nat \<Rightarrow> 's res"
    and rel :: "'s \<Rightarrow> nat \<Rightarrow> 's res"
    and put :: "'s \<Rightarrow> nat \<Rightarrow> block \<Rightarrow> 's"
    and mark :: "'s \<Rightarrow> nat \<Rightarrow> 's"
    and get :: "'s \<Rightarrow> nat \<Rightarrow> block"
    and inv :: "'s \<Rightarrow> bool"
    and holding :: "'s \<Rightarrow> nat \<Rightarrow> bkey \<Rightarrow> bool"
    and held :: "'s \<Rightarrow> bkey set"
    and pins :: "'s \<Rightarrow> bkey set"
    and cont :: "'s \<Rightarrow> bkey \<Rightarrow> block"
    and dsk :: "'s \<Rightarrow> bkey \<Rightarrow> block"
    and tr :: "'s \<Rightarrow> (bkey \<times> block) list"
    and vk :: "bkey \<Rightarrow> bool"
    and cap :: nat
  assumes read_law: "inv s \<Longrightarrow> vk (d, b) \<Longrightarrow> (d, b) \<notin> held s \<Longrightarrow>
      (d, b) \<in> pins s \<or> card (held s \<union> pins s) < cap \<Longrightarrow>
      \<exists>i s'. rd s d b = Inr (i, s') \<and> inv s' \<and> holding s' i (d, b) \<and> get s' i = cont s (d, b) \<and>
        cont s' = cont s \<and> dsk s' = dsk s \<and> tr s' = tr s \<and> held s' = insert (d, b) (held s) \<and>
        pins s' = pins s \<and> (\<forall>j k. holding s j k \<longrightarrow> holding s' j k \<and> get s' j = get s j)"
    and put_law: "inv s \<Longrightarrow> holding s i k \<Longrightarrow>
      inv (put s i x) \<and> cont (put s i x) = (cont s)(k := x) \<and> dsk (put s i x) = dsk s \<and>
      tr (put s i x) = tr s \<and> held (put s i x) = held s \<and> pins (put s i x) = pins s \<and>
      holding (put s i x) = holding s \<and> get (put s i x) = (get s)(i := x)"
    and mark_law: "inv s \<Longrightarrow> holding s i k \<Longrightarrow>
      inv (mark s i) \<and> cont (mark s i) = cont s \<and> dsk (mark s i) = dsk s \<and> tr (mark s i) = tr s \<and>
      held (mark s i) = held s \<and> pins (mark s i) = insert k (pins s) \<and>
      holding (mark s i) = holding s \<and> get (mark s i) = get s"
    and write_law: "inv s \<Longrightarrow> holding s i k \<Longrightarrow>
      \<exists>s'. wr s i = Inr s' \<and> inv s' \<and> cont s' = cont s \<and> dsk s' = (dsk s)(k := get s i) \<and>
        tr s' = tr s @ [(k, get s i)] \<and> held s' = held s \<and> pins s' = pins s - {k} \<and>
        holding s' = holding s \<and> get s' = get s"
    and release_law: "inv s \<Longrightarrow> holding s i k \<Longrightarrow> k \<in> pins s \<or> dsk s k = get s i \<Longrightarrow>
      \<exists>s'. rel s i = Inr s' \<and> inv s' \<and> cont s' = cont s \<and> dsk s' = dsk s \<and> tr s' = tr s \<and>
        held s' = held s - {k} \<and> pins s' = pins s \<and>
        (\<forall>j k'. k' \<noteq> k \<longrightarrow> holding s' j k' = holding s j k') \<and> get s' = get s"
    and clean_law: "inv s \<Longrightarrow> k \<notin> held s \<Longrightarrow> k \<notin> pins s \<Longrightarrow> cont s k = dsk s k"
    and holding_inj: "inv s \<Longrightarrow> holding s i k \<Longrightarrow> holding s i k' \<Longrightarrow> k = k'"
begin

text \<open>Read a block and release it.\<close>

lemma read_release:
  assumes s: "inv s" "held s = {}" "vk (d, b)" "card (pins s) < cap"
  shows "\<exists>i s1 s'. rd s d b = Inr (i, s1) \<and> get s1 i = cont s (d, b) \<and> rel s1 i = Inr s' \<and>
           inv s' \<and> held s' = {} \<and> pins s' = pins s \<and> cont s' = cont s \<and> dsk s' = dsk s \<and> tr s' = tr s"
proof -
  obtain i s1 where r: "rd s d b = Inr (i, s1)" "inv s1" "holding s1 i (d, b)" "get s1 i = cont s (d, b)"
      "cont s1 = cont s" "dsk s1 = dsk s" "tr s1 = tr s" "held s1 = {(d, b)}" "pins s1 = pins s"
    using read_law [of s d b] s by auto
  have "(d, b) \<in> pins s1 \<or> dsk s1 (d, b) = get s1 i"
    using clean_law [OF s(1), of "(d, b)"] s(2) r by auto
  then obtain s' where "rel s1 i = Inr s'" "inv s'" "cont s' = cont s1" "dsk s' = dsk s1"
      "tr s' = tr s1" "held s' = held s1 - {(d, b)}" "pins s' = pins s1"
    using release_law [OF r(2,3)] by blast
  with r show ?thesis by (intro exI [of _ i] exI [of _ s1] exI [of _ s']) auto
qed

text \<open>Read a block, change its data, write it out, release it.\<close>

lemma read_modify_write:
  assumes s: "inv s" "held s = {}" "vk (d, b)" "card (pins s) < cap"
  shows "\<exists>i s1 s2 s'. rd s d b = Inr (i, s1) \<and> get s1 i = cont s (d, b) \<and>
           wr (put s1 i (f (get s1 i))) i = Inr s2 \<and> rel s2 i = Inr s' \<and>
           inv s' \<and> held s' = {} \<and> pins s' = pins s - {(d, b)} \<and>
           cont s' = (cont s)((d, b) := f (cont s (d, b))) \<and>
           dsk s' = (dsk s)((d, b) := f (cont s (d, b))) \<and>
           tr s' = tr s @ [((d, b), f (cont s (d, b)))]"
proof -
  let ?x = "f (cont s (d, b))"
  obtain i s1 where r: "rd s d b = Inr (i, s1)" "inv s1" "holding s1 i (d, b)" "get s1 i = cont s (d, b)"
      "cont s1 = cont s" "dsk s1 = dsk s" "tr s1 = tr s" "held s1 = {(d, b)}" "pins s1 = pins s"
    using read_law [of s d b] s by auto
  have p: "inv (put s1 i ?x)" "cont (put s1 i ?x) = (cont s)((d, b) := ?x)" "dsk (put s1 i ?x) = dsk s"
      "tr (put s1 i ?x) = tr s" "held (put s1 i ?x) = {(d, b)}" "pins (put s1 i ?x) = pins s"
      "holding (put s1 i ?x) i (d, b)" "get (put s1 i ?x) i = ?x"
    using put_law [OF r(2,3), of ?x] r by auto
  obtain s2 where w: "wr (put s1 i ?x) i = Inr s2" "inv s2" "cont s2 = (cont s)((d, b) := ?x)"
      "dsk s2 = (dsk s)((d, b) := ?x)" "tr s2 = tr s @ [((d, b), ?x)]" "held s2 = {(d, b)}"
      "pins s2 = pins s - {(d, b)}" "holding s2 i (d, b)" "get s2 i = ?x"
    using write_law [OF p(1,7)] p by auto
  have "dsk s2 (d, b) = get s2 i" using w by simp
  then obtain s' where "rel s2 i = Inr s'" "inv s'" "cont s' = cont s2" "dsk s' = dsk s2" "tr s' = tr s2"
      "held s' = held s2 - {(d, b)}" "pins s' = pins s2"
    using release_law [OF w(2,8)] by blast
  with r w show ?thesis by (intro exI [of _ i] exI [of _ s1] exI [of _ s2] exI [of _ s']) auto
qed

text \<open>Two held buffers: copy the first block into the second one's buffer and write that out, or
  the other way round.\<close>

lemma read_two:
  assumes s: "inv s" "held s = {}" "vk (d, a)" "vk (d, b)" "a \<noteq> b" "card (pins s) < cap"
    "(d, b) \<in> pins s \<or> card (insert (d, a) (pins s)) < cap"
  shows "\<exists>i s1 j s2. rd s d a = Inr (i, s1) \<and> rd s1 d b = Inr (j, s2) \<and> inv s2 \<and> i \<noteq> j \<and>
           holding s2 i (d, a) \<and> holding s2 j (d, b) \<and> get s2 i = cont s (d, a) \<and>
           get s2 j = cont s (d, b) \<and> cont s2 = cont s \<and> dsk s2 = dsk s \<and> tr s2 = tr s \<and>
           held s2 = {(d, a), (d, b)} \<and> pins s2 = pins s"
proof -
  obtain i s1 where r: "rd s d a = Inr (i, s1)" "inv s1" "holding s1 i (d, a)" "get s1 i = cont s (d, a)"
      "cont s1 = cont s" "dsk s1 = dsk s" "tr s1 = tr s" "held s1 = {(d, a)}" "pins s1 = pins s"
    using read_law [of s d a] s by auto
  obtain j s2 where q: "rd s1 d b = Inr (j, s2)" "inv s2" "holding s2 j (d, b)" "get s2 j = cont s1 (d, b)"
      "cont s2 = cont s1" "dsk s2 = dsk s1" "tr s2 = tr s1" "held s2 = insert (d, b) (held s1)"
      "pins s2 = pins s1" "\<forall>j k. holding s1 j k \<longrightarrow> holding s2 j k \<and> get s2 j = get s1 j"
    using read_law [of s1 d b] s r by auto
  have hi: "holding s2 i (d, a)" "get s2 i = cont s (d, a)" using q(10) r(3,4) by auto
  then have "i \<noteq> j" using holding_inj [OF q(2) hi(1)] q(3) s(5) by blast
  moreover have "held s2 = {(d, a), (d, b)}" using q(8) r(8) by auto
  ultimately show ?thesis using r q hi by metis
qed

lemma copy_write:
  assumes s: "inv s2" "i \<noteq> j" "holding s2 i ks" "holding s2 j kd" "ks \<noteq> kd" "held s2 = {ks, kd}"
    "ks \<in> pins s2 \<or> dsk s2 ks = get s2 i"
  shows "\<exists>s3 s4 s'. wr (put s2 j (get s2 i)) j = Inr s3 \<and> rel s3 i = Inr s4 \<and> rel s4 j = Inr s' \<and>
           inv s' \<and> held s' = {} \<and> pins s' = pins s2 - {kd} \<and> cont s' = (cont s2)(kd := get s2 i) \<and>
           dsk s' = (dsk s2)(kd := get s2 i) \<and> tr s' = tr s2 @ [(kd, get s2 i)]"
proof -
  let ?x = "get s2 i" let ?p = "put s2 j ?x"
  have p: "inv ?p" "cont ?p = (cont s2)(kd := ?x)" "dsk ?p = dsk s2" "tr ?p = tr s2" "held ?p = {ks, kd}"
      "pins ?p = pins s2" "holding ?p i ks" "holding ?p j kd" "get ?p j = ?x" "get ?p i = ?x"
    using put_law [OF s(1,4), of ?x] s by auto
  obtain s3 where w: "wr ?p j = Inr s3" "inv s3" "cont s3 = cont ?p" "dsk s3 = (dsk s2)(kd := ?x)"
      "tr s3 = tr s2 @ [(kd, ?x)]" "held s3 = {ks, kd}" "pins s3 = pins s2 - {kd}"
      "holding s3 i ks" "holding s3 j kd" "get s3 i = ?x" "get s3 j = ?x"
    using write_law [OF p(1,8)] p by auto
  have "ks \<in> pins s3 \<or> dsk s3 ks = get s3 i" using s(5,7) w by auto
  then obtain s4 where r: "rel s3 i = Inr s4" "inv s4" "cont s4 = cont s3" "dsk s4 = dsk s3" "tr s4 = tr s3"
      "held s4 = {kd}" "pins s4 = pins s3" "holding s4 j kd" "get s4 j = ?x"
    using release_law [OF w(2,8)] w s(5) by (auto simp del: split_paired_All)
  have "dsk s4 kd = get s4 j" using r w by simp
  then obtain s' where "rel s4 j = Inr s'" "inv s'" "cont s' = cont s4" "dsk s' = dsk s4" "tr s' = tr s4"
      "held s' = {}" "pins s' = pins s4"
    using release_law [OF r(2,8)] r by auto
  with p w r show ?thesis by (intro exI [of _ s3] exI [of _ s4] exI [of _ s']) auto
qed

text \<open>A block copy through two buffers, the source buffer read first or the destination's.\<close>

lemma copy_step_src_first:
  assumes s: "inv s" "held s = {}" "vk (d, a)" "vk (d, b)" "a \<noteq> b" "card (pins s) < cap"
    "(d, b) \<in> pins s \<or> card (insert (d, a) (pins s)) < cap"
  shows "\<exists>i s1 j s2 s3 s4 s'. rd s d a = Inr (i, s1) \<and> rd s1 d b = Inr (j, s2) \<and>
           wr (put s2 j (get s2 i)) j = Inr s3 \<and> rel s3 i = Inr s4 \<and> rel s4 j = Inr s' \<and>
           inv s' \<and> held s' = {} \<and> pins s' = pins s - {(d, b)} \<and>
           cont s' = (cont s)((d, b) := cont s (d, a)) \<and> dsk s' = (dsk s)((d, b) := cont s (d, a)) \<and>
           tr s' = tr s @ [((d, b), cont s (d, a))]"
proof -
  obtain i s1 j s2 where r: "rd s d a = Inr (i, s1)" "rd s1 d b = Inr (j, s2)" "inv s2" "i \<noteq> j"
      "holding s2 i (d, a)" "holding s2 j (d, b)" "get s2 i = cont s (d, a)" "cont s2 = cont s"
      "dsk s2 = dsk s" "tr s2 = tr s" "held s2 = {(d, a), (d, b)}" "pins s2 = pins s"
    using read_two [OF s] by blast
  have "(d, a) \<in> pins s2 \<or> dsk s2 (d, a) = get s2 i"
    using clean_law [OF s(1), of "(d, a)"] s(2) r by auto
  from copy_write [OF r(3-6) _ r(11) this] s(5) r show ?thesis by fastforce
qed

lemma copy_step_dst_first:
  assumes s: "inv s" "held s = {}" "vk (d, a)" "vk (d, b)" "a \<noteq> b" "card (pins s) < cap"
    "(d, b) \<in> pins s \<or> card (insert (d, a) (pins s)) < cap"
  shows "\<exists>i s1 j s2 s3 s4 s'. rd s d a = Inr (i, s1) \<and> rd s1 d b = Inr (j, s2) \<and>
           wr (put s2 i (get s2 j)) i = Inr s3 \<and> rel s3 j = Inr s4 \<and> rel s4 i = Inr s' \<and>
           inv s' \<and> held s' = {} \<and> pins s' = pins s - {(d, a)} \<and>
           cont s' = (cont s)((d, a) := cont s (d, b)) \<and> dsk s' = (dsk s)((d, a) := cont s (d, b)) \<and>
           tr s' = tr s @ [((d, a), cont s (d, b))]"
proof -
  obtain i s1 j s2 where r: "rd s d a = Inr (i, s1)" "rd s1 d b = Inr (j, s2)" "inv s2" "i \<noteq> j"
      "holding s2 i (d, a)" "holding s2 j (d, b)" "get s2 j = cont s (d, b)" "cont s2 = cont s"
      "dsk s2 = dsk s" "tr s2 = tr s" "held s2 = {(d, a), (d, b)}" "pins s2 = pins s"
    using read_two [OF s] by blast
  have "(d, b) \<in> pins s2 \<or> dsk s2 (d, b) = get s2 j"
    using clean_law [OF s(1), of "(d, b)"] s(2) r by auto
  moreover have "held s2 = {(d, b), (d, a)}" using r(11) by auto
  ultimately show ?thesis
    using copy_write [OF r(3) r(4)[symmetric] r(6,5)] s(5) r by fastforce
qed

text \<open>A loop of copies whose sources and destinations do not overlap.\<close>

lemma copy_loop:
  assumes init: "inv c" "held c = {}"
    and disj: "\<And>i j. i < n \<Longrightarrow> j < n \<Longrightarrow> src i \<noteq> dst j"
    and step: "\<And>i s. i < n \<Longrightarrow> inv s \<Longrightarrow> held s = {} \<Longrightarrow> pins s = pins c - dst ` {..<i} \<Longrightarrow>
      \<exists>s'. body i s = Inr s' \<and> inv s' \<and> held s' = {} \<and> pins s' = pins s - {dst i} \<and>
        cont s' = (cont s)(dst i := cont s (src i)) \<and> dsk s' = (dsk s)(dst i := cont s (src i)) \<and>
        tr s' = tr s @ [(dst i, cont s (src i))]"
  defines "W \<equiv> \<lambda>t. map (\<lambda>i. (dst i, cont c (src i))) [0..<t]"
  shows "\<exists>s'. for_up n body c = Inr s' \<and> inv s' \<and> held s' = {} \<and> pins s' = pins c - dst ` {..<n} \<and>
           cont s' = apply_writes (W n) (cont c) \<and> dsk s' = apply_writes (W n) (dsk c) \<and>
           tr s' = tr c @ W n"
proof (rule for_up_invariant)
  show "inv c \<and> held c = {} \<and> pins c = pins c - dst ` {..<0} \<and> cont c = apply_writes (W 0) (cont c) \<and>
    dsk c = apply_writes (W 0) (dsk c) \<and> tr c = tr c @ W 0"
    using init by (simp add: W_def)
next
  fix i s assume i: "i < n"
    and s: "inv s \<and> held s = {} \<and> pins s = pins c - dst ` {..<i} \<and> cont s = apply_writes (W i) (cont c) \<and>
      dsk s = apply_writes (W i) (dsk c) \<and> tr s = tr c @ W i"
  have "src i \<notin> fst ` set (W i)" using disj i by (force simp: W_def)
  then have "cont s (src i) = cont c (src i)" using s by (simp add: apply_writes_other)
  moreover obtain s' where "body i s = Inr s'" "inv s'" "held s' = {}" "pins s' = pins s - {dst i}"
    "cont s' = (cont s)(dst i := cont s (src i))" "dsk s' = (dsk s)(dst i := cont s (src i))"
    "tr s' = tr s @ [(dst i, cont s (src i))]"
    using step [of i s] i s by blast
  ultimately show "\<exists>t'. body i s = Inr t' \<and> inv t' \<and> held t' = {} \<and> pins t' = pins c - dst ` {..<Suc i} \<and>
    cont t' = apply_writes (W (Suc i)) (cont c) \<and> dsk t' = apply_writes (W (Suc i)) (dsk c) \<and>
    tr t' = tr c @ W (Suc i)"
    using s by (auto simp: W_def lessThan_Suc)
qed

end

end
