(* ===== verification/Bio.thy ===== *)
theory Bio
  imports Block_Cache
begin

text \<open>
  The buffer cache of \<open>xv6-public/bio.c\<close> over the disk driver of \<open>xv6-public/ide.c\<close>, as one
  process sees it. The doubly linked list through \<open>bcache.head\<close> is the list \<open>mru\<close> of buffer
  indices, most recently used first. A block is its 512 bytes as a function of the byte's
  position. Waiting for the disk is running the interrupt handler until the request is done.
  \<open>wtrace\<close> records, for the crash theorems, the block writes in the order the disk gets them.
\<close>

section \<open>State\<close>

record buf =
  b_valid :: bool
  b_dirty :: bool
  b_dev :: nat
  b_blockno :: nat
  b_locked :: bool
  b_refcnt :: nat
  b_data :: block

record bcache =
  bufs :: "buf list"
  mru :: "nat list"
  idequeue :: "nat list"
  havedisk1 :: bool
  disk :: "bkey \<Rightarrow> block"
  wtrace :: "(bkey \<times> block) list"

definition NBUF :: nat where "NBUF = 30"
definition FSSIZE :: nat where "FSSIZE = 1000"

definition bkey_of :: "buf \<Rightarrow> bkey" where
  "bkey_of b = (b_dev b, b_blockno b)"

definition upd_buf :: "nat \<Rightarrow> (buf \<Rightarrow> buf) \<Rightarrow> bcache \<Rightarrow> bcache" where
  "upd_buf i f s = s\<lparr>bufs := (bufs s)[i := f (bufs s ! i)]\<rparr>"

text \<open>Memory starts zeroed; each insertion of \<open>binit\<close> goes to the head of the list.\<close>

definition binit :: "(bkey \<Rightarrow> block) \<Rightarrow> bcache" where
  "binit d = \<lparr>bufs = replicate NBUF \<lparr>b_valid = False, b_dirty = False, b_dev = 0, b_blockno = 0,
                b_locked = False, b_refcnt = 0, b_data = (\<lambda>_. 0)\<rparr>,
              mru = fold (\<lambda>i l. i # l) [0..<NBUF] [],
              idequeue = [], havedisk1 = True, disk = d, wtrace = []\<rparr>"

section \<open>The disk driver\<close>

definition idestart :: "bcache \<Rightarrow> nat \<Rightarrow> bcache res" where
  "idestart s i =
     (let b = bufs s ! i in
      if b_blockno b \<ge> FSSIZE then Inl (Panic ''incorrect blockno'')
      else if b_dirty b
      then Inr (s\<lparr>disk := (disk s)(bkey_of b := b_data b), wtrace := wtrace s @ [(bkey_of b, b_data b)]\<rparr>)
      else Inr s)"

definition ideintr :: "bcache \<Rightarrow> bcache res" where
  "ideintr s =
     (case idequeue s of
        [] \<Rightarrow> Inr s
      | i # q \<Rightarrow>
          let s1 = s\<lparr>idequeue := q\<rparr>;
              s2 = (if \<not> b_dirty (bufs s ! i)
                    then upd_buf i (\<lambda>b. b\<lparr>b_data := disk s (bkey_of b)\<rparr>) s1 else s1);
              s3 = upd_buf i (\<lambda>b. b\<lparr>b_valid := True, b_dirty := False\<rparr>) s2
          in (case q of [] \<Rightarrow> Inr s3 | j # _ \<Rightarrow> idestart s3 j))"

primrec ide_wait :: "nat \<Rightarrow> nat \<Rightarrow> bcache \<Rightarrow> bcache res" where
  "ide_wait 0 i s =
     (if b_valid (bufs s ! i) \<and> \<not> b_dirty (bufs s ! i) then Inr s else Inl Blocks)"
| "ide_wait (Suc n) i s =
     (if b_valid (bufs s ! i) \<and> \<not> b_dirty (bufs s ! i) then Inr s
      else bindR (ideintr s) (ide_wait n i))"

definition iderw :: "bcache \<Rightarrow> nat \<Rightarrow> bcache res" where
  "iderw s i =
     (let b = bufs s ! i in
      if \<not> b_locked b then Inl (Panic ''iderw: buf not locked'')
      else if b_valid b \<and> \<not> b_dirty b then Inl (Panic ''iderw: nothing to do'')
      else if b_dev b \<noteq> 0 \<and> \<not> havedisk1 s then Inl (Panic ''iderw: ide disk 1 not present'')
      else let s1 = s\<lparr>idequeue := idequeue s @ [i]\<rparr> in
           bindR (if idequeue s = [] then idestart s1 i else Inr s1) (\<lambda>s2.
             ide_wait (length (idequeue s2)) i s2))"

section \<open>The cache\<close>

definition bget :: "bcache \<Rightarrow> nat \<Rightarrow> nat \<Rightarrow> (nat \<times> bcache) res" where
  "bget s dev blockno =
     (case find (\<lambda>i. b_dev (bufs s ! i) = dev \<and> b_blockno (bufs s ! i) = blockno) (mru s) of
        Some i \<Rightarrow>
          let s1 = upd_buf i (\<lambda>b. b\<lparr>b_refcnt := b_refcnt b + 1\<rparr>) s in
          if b_locked (bufs s ! i) then Inl Blocks
          else Inr (i, upd_buf i (\<lambda>b. b\<lparr>b_locked := True\<rparr>) s1)
      | None \<Rightarrow>
          (case find (\<lambda>i. b_refcnt (bufs s ! i) = 0 \<and> \<not> b_dirty (bufs s ! i)) (rev (mru s)) of
             Some i \<Rightarrow>
               let s1 = upd_buf i (\<lambda>b. b\<lparr>b_dev := dev, b_blockno := blockno, b_valid := False,
                                         b_dirty := False, b_refcnt := 1\<rparr>) s in
               if b_locked (bufs s ! i) then Inl Blocks
               else Inr (i, upd_buf i (\<lambda>b. b\<lparr>b_locked := True\<rparr>) s1)
           | None \<Rightarrow> Inl (Panic ''bget: no buffers'')))"

definition bread :: "bcache \<Rightarrow> nat \<Rightarrow> nat \<Rightarrow> (nat \<times> bcache) res" where
  "bread s dev blockno =
     bindR (bget s dev blockno) (\<lambda>(i, s1).
       if \<not> b_valid (bufs s1 ! i) then bindR (iderw s1 i) (\<lambda>s2. Inr (i, s2)) else Inr (i, s1))"

definition bwrite :: "bcache \<Rightarrow> nat \<Rightarrow> bcache res" where
  "bwrite s i =
     (if \<not> b_locked (bufs s ! i) then Inl (Panic ''bwrite'')
      else iderw (upd_buf i (\<lambda>b. b\<lparr>b_dirty := True\<rparr>) s) i)"

definition brelse :: "bcache \<Rightarrow> nat \<Rightarrow> bcache res" where
  "brelse s i =
     (if \<not> b_locked (bufs s ! i) then Inl (Panic ''brelse'')
      else let s1 = upd_buf i (\<lambda>b. b\<lparr>b_locked := False, b_refcnt := b_refcnt b - 1\<rparr>) s in
           if b_refcnt (bufs s1 ! i) = 0 then Inr (s1\<lparr>mru := i # remove1 i (mru s1)\<rparr>) else Inr s1)"

section \<open>Invariant and abstraction\<close>

definition valid_key :: "bkey \<Rightarrow> bool" where
  "valid_key k \<longleftrightarrow> fst k \<noteq> 0 \<and> snd k < FSSIZE"

definition buf_ok :: "(bkey \<Rightarrow> block) \<Rightarrow> buf \<Rightarrow> bool" where
  "buf_ok d b \<longleftrightarrow>
     b_refcnt b = (if b_locked b then 1 else 0) \<and>
     (b_locked b \<or> b_dirty b \<longrightarrow> b_valid b \<and> valid_key (bkey_of b)) \<and>
     (\<not> b_locked b \<and> b_valid b \<and> \<not> b_dirty b \<longrightarrow> b_data b = d (bkey_of b))"

definition bcache_inv :: "bcache \<Rightarrow> bool" where
  "bcache_inv s \<longleftrightarrow>
     length (bufs s) = NBUF \<and> distinct (mru s) \<and> set (mru s) = {0..<NBUF} \<and>
     idequeue s = [] \<and> havedisk1 s \<and>
     (\<forall>i<NBUF. buf_ok (disk s) (bufs s ! i)) \<and>
     (\<forall>i<NBUF. \<forall>j<NBUF. b_dev (bufs s ! i) \<noteq> 0 \<longrightarrow>
        bkey_of (bufs s ! i) = bkey_of (bufs s ! j) \<longrightarrow> i = j)"

text \<open>\<open>held s k\<close> is the buffer locked for block \<open>k\<close>, \<open>pinned\<close> the dirty blocks, \<open>content\<close> what a read of
  a block gives: the cached copy if there is a valid one, the disk's otherwise.\<close>

definition holds :: "bcache \<Rightarrow> nat \<Rightarrow> bkey \<Rightarrow> bool" where
  "holds s i k \<longleftrightarrow> i < NBUF \<and> b_locked (bufs s ! i) \<and> bkey_of (bufs s ! i) = k"

definition held_keys :: "bcache \<Rightarrow> bkey set" where
  "held_keys s = bkey_of ` {b \<in> set (bufs s). b_locked b}"

definition pinned :: "bcache \<Rightarrow> bkey set" where
  "pinned s = bkey_of ` {b \<in> set (bufs s). b_dirty b}"

definition content :: "bcache \<Rightarrow> bkey \<Rightarrow> block" where
  "content s k =
     (case find (\<lambda>i. b_valid (bufs s ! i) \<and> bkey_of (bufs s ! i) = k) (mru s) of
        Some i \<Rightarrow> b_data (bufs s ! i) | None \<Rightarrow> disk s k)"

definition set_data :: "bcache \<Rightarrow> nat \<Rightarrow> block \<Rightarrow> bcache" where
  "set_data s i d = upd_buf i (\<lambda>b. b\<lparr>b_data := d\<rparr>) s"

definition buf_data :: "bcache \<Rightarrow> nat \<Rightarrow> block" where
  "buf_data s i = b_data (bufs s ! i)"

definition mark_dirty :: "bcache \<Rightarrow> nat \<Rightarrow> bcache" where
  "mark_dirty s i = upd_buf i (\<lambda>b. b\<lparr>b_dirty := True\<rparr>) s"

section \<open>Facts about single buffers\<close>

lemma fst_bkey_of [simp]: "fst (bkey_of b) = b_dev b" "snd (bkey_of b) = b_blockno b"
  by (simp_all add: bkey_of_def)

lemma upd_buf_sel [simp]:
  "mru (upd_buf i f s) = mru s" "idequeue (upd_buf i f s) = idequeue s"
  "havedisk1 (upd_buf i f s) = havedisk1 s" "disk (upd_buf i f s) = disk s"
  "wtrace (upd_buf i f s) = wtrace s" "length (bufs (upd_buf i f s)) = length (bufs s)"
  by (simp_all add: upd_buf_def)

lemma nth_upd_buf:
  "i < length (bufs s) \<Longrightarrow> bufs (upd_buf i f s) ! j = (if i = j then f (bufs s ! j) else bufs s ! j)"
  by (simp add: upd_buf_def nth_list_update)

lemma bcache_invD:
  assumes "bcache_inv s"
  shows "length (bufs s) = NBUF" "idequeue s = []" "havedisk1 s" "set (mru s) = {0..<NBUF}"
    "distinct (mru s)" "i < NBUF \<Longrightarrow> buf_ok (disk s) (bufs s ! i)"
  using assms by (auto simp: bcache_inv_def)

lemma bcache_inv_uniq:
  "bcache_inv s \<Longrightarrow> i < NBUF \<Longrightarrow> j < NBUF \<Longrightarrow> b_dev (bufs s ! i) \<noteq> 0 \<Longrightarrow>
   bkey_of (bufs s ! i) = bkey_of (bufs s ! j) \<Longrightarrow> i = j"
  by (simp add: bcache_inv_def)

definition active :: "buf \<Rightarrow> bool" where
  "active b \<longleftrightarrow> b_locked b \<or> b_dirty b"

lemma active_ok: "buf_ok d b \<Longrightarrow> active b \<Longrightarrow> b_valid b \<and> b_dev b \<noteq> 0 \<and> valid_key (bkey_of b)"
  by (auto simp: buf_ok_def active_def valid_key_def bkey_of_def)

lemma active_uniq:
  "bcache_inv s \<Longrightarrow> i < NBUF \<Longrightarrow> j < NBUF \<Longrightarrow> active (bufs s ! i) \<Longrightarrow>
   bkey_of (bufs s ! i) = bkey_of (bufs s ! j) \<Longrightarrow> i = j"
  by (meson active_ok bcache_invD(6) bcache_inv_uniq)

lemma content_active:
  assumes "bcache_inv s" "i < NBUF" "active (bufs s ! i)"
  shows "content s (bkey_of (bufs s ! i)) = b_data (bufs s ! i)"
proof -
  let ?P = "\<lambda>j. b_valid (bufs s ! j) \<and> bkey_of (bufs s ! j) = bkey_of (bufs s ! i)"
  have "?P i" using active_ok bcache_invD(6) assms by blast
  have "find ?P (mru s) \<noteq> None"
    using \<open>?P i\<close> assms(2) bcache_invD(4) [OF assms(1)] by (auto simp: find_None_iff)
  then obtain j where j: "find ?P (mru s) = Some j" by blast
  then have "j \<in> set (mru s)" "?P j" by (auto simp: find_Some_iff)
  then have "i = j" using active_uniq assms bcache_invD(4) by (metis atLeastLessThan_iff)
  with j show ?thesis by (simp add: content_def)
qed

lemma content_inactive:
  assumes "bcache_inv s" "\<forall>i<NBUF. bkey_of (bufs s ! i) = k \<longrightarrow> \<not> active (bufs s ! i)"
  shows "content s k = disk s k"
proof (cases "find (\<lambda>j. b_valid (bufs s ! j) \<and> bkey_of (bufs s ! j) = k) (mru s)")
  case (Some j)
  then have "j \<in> set (mru s)" "b_valid (bufs s ! j)" "bkey_of (bufs s ! j) = k"
    by (auto simp: find_Some_iff)
  moreover from this have "j < NBUF" using bcache_invD(4) [OF assms(1)] by simp
  ultimately show ?thesis
    using Some assms(2) bcache_invD(6) [OF assms(1), of j]
    by (auto simp: content_def buf_ok_def active_def)
qed (simp add: content_def)

lemma held_keys_iff: "length (bufs s) = NBUF \<Longrightarrow> k \<in> held_keys s \<longleftrightarrow> (\<exists>i. holds s i k)"
  by (auto simp: held_keys_def holds_def image_iff in_set_conv_nth Bex_def)

lemma pinned_iff:
  "length (bufs s) = NBUF \<Longrightarrow>
   k \<in> pinned s \<longleftrightarrow> (\<exists>i<NBUF. b_dirty (bufs s ! i) \<and> bkey_of (bufs s ! i) = k)"
  by (auto simp: pinned_def image_iff in_set_conv_nth Bex_def)

lemma holds_content: "bcache_inv s \<Longrightarrow> holds s i k \<Longrightarrow> content s k = buf_data s i"
  using content_active by (auto simp: holds_def active_def buf_data_def)

lemma holds_key: "bcache_inv s \<Longrightarrow> holds s i k \<Longrightarrow> valid_key k"
  using active_ok bcache_invD(6) by (fastforce simp: holds_def active_def)

lemma holds_inj: "bcache_inv s \<Longrightarrow> holds s i k \<Longrightarrow> holds s j k \<Longrightarrow> i = j"
  using active_uniq by (auto simp: holds_def active_def)

text \<open>How a change of one buffer, and of the disk under that buffer's block, changes the views.\<close>

lemma views_change:
  assumes inv: "bcache_inv s" and inv': "bcache_inv s'" and i: "i < NBUF"
    and same: "\<And>j. j < NBUF \<Longrightarrow> j \<noteq> i \<Longrightarrow> bufs s' ! j = bufs s ! j"
    and k: "bkey_of (bufs s' ! i) = k" "fst k \<noteq> 0"
    and old: "bkey_of (bufs s ! i) = k \<or> \<not> active (bufs s ! i)"
    and d: "\<And>k'. k' \<noteq> k \<Longrightarrow> disk s' k' = disk s k'"
  shows "content s' = (content s)(k := if active (bufs s' ! i) then b_data (bufs s' ! i) else disk s' k)"
proof
  fix k'
  show "content s' k' = ((content s)(k := if active (bufs s' ! i) then b_data (bufs s' ! i) else disk s' k)) k'"
  proof (cases "k' = k")
    case True
    have "b_dev (bufs s' ! i) \<noteq> 0" using k by auto
    then have other: "j = i" if "j < NBUF" "bkey_of (bufs s' ! j) = k" for j
      using bcache_inv_uniq [OF inv' i that(1)] k(1) that(2) by simp
    show ?thesis
    proof (cases "active (bufs s' ! i)")
      case True
      then show ?thesis using content_active [OF inv' i] k \<open>k' = k\<close> by auto
    next
      case False
      then have "\<not> active (bufs s' ! j)" if "j < NBUF" "bkey_of (bufs s' ! j) = k" for j
        using other that by blast
      then have "content s' k = disk s' k" by (intro content_inactive [OF inv']) auto
      with False \<open>k' = k\<close> show ?thesis by simp
    qed
  next
    case False
    show ?thesis
    proof (cases "\<exists>j<NBUF. active (bufs s ! j) \<and> bkey_of (bufs s ! j) = k'")
      case True
      then obtain j where j: "j < NBUF" "active (bufs s ! j)" "bkey_of (bufs s ! j) = k'" by blast
      with old False have "j \<noteq> i" by auto
      with j same content_active [OF inv j(1,2)] content_active [OF inv' j(1)] False
      show ?thesis by auto
    next
      case no: False
      have "content s k' = disk s k'" using no by (intro content_inactive [OF inv]) auto
      moreover have "\<not> active (bufs s' ! j)" if "j < NBUF" "bkey_of (bufs s' ! j) = k'" for j
        using that no same [of j] k(1) \<open>k' \<noteq> k\<close> by (cases "j = i") auto
      then have "content s' k' = disk s' k'" by (intro content_inactive [OF inv']) auto
      ultimately show ?thesis using False d by simp
    qed
  qed
qed

section \<open>The driver on a single request\<close>

lemma iderw_read:
  assumes "i < length (bufs s)" "idequeue s = []" "havedisk1 s" "b_locked (bufs s ! i)"
    "\<not> b_valid (bufs s ! i)" "\<not> b_dirty (bufs s ! i)" "b_blockno (bufs s ! i) < FSSIZE"
  shows "iderw s i = Inr (upd_buf i (\<lambda>b. b\<lparr>b_data := disk s (bkey_of b), b_valid := True, b_dirty := False\<rparr>) s)"
  using assms
  by (cases s) (simp add: iderw_def idestart_def ideintr_def upd_buf_def Let_def)

lemma iderw_write:
  assumes "i < length (bufs s)" "idequeue s = []" "havedisk1 s" "b_locked (bufs s ! i)"
    "b_dirty (bufs s ! i)" "b_blockno (bufs s ! i) < FSSIZE"
  shows "iderw s i = Inr (upd_buf i (\<lambda>b. b\<lparr>b_valid := True, b_dirty := False\<rparr>)
           (s\<lparr>disk := (disk s)(bkey_of (bufs s ! i) := b_data (bufs s ! i)),
              wtrace := wtrace s @ [(bkey_of (bufs s ! i), b_data (bufs s ! i))]\<rparr>))"
  using assms
  by (cases s) (simp add: iderw_def idestart_def ideintr_def upd_buf_def Let_def)

section \<open>Getting a buffer\<close>

text \<open>What \<open>bget\<close> changes: one unlocked buffer gets locked for the block, after being recycled if the
  block was not cached.\<close>

definition bget_result :: "bcache \<Rightarrow> bkey \<Rightarrow> nat \<Rightarrow> buf \<Rightarrow> bcache \<Rightarrow> bool" where
  "bget_result s k i b s' \<longleftrightarrow>
     i < NBUF \<and> s' = s\<lparr>bufs := (bufs s)[i := b]\<rparr> \<and> \<not> b_locked (bufs s ! i) \<and>
     bkey_of b = k \<and> b_locked b \<and> b_refcnt b = 1 \<and>
     (b_valid b \<longrightarrow> bkey_of (bufs s ! i) = k \<and> b_valid (bufs s ! i) \<and>
        b_data b = b_data (bufs s ! i) \<and> b_dirty b = b_dirty (bufs s ! i)) \<and>
     (\<not> b_valid b \<longrightarrow> \<not> b_dirty b \<and> \<not> b_dirty (bufs s ! i)) \<and>
     (bkey_of (bufs s ! i) \<noteq> k \<longrightarrow> (\<forall>j<NBUF. bkey_of (bufs s ! j) \<noteq> k))"

lemma finite_keys [simp]: "finite (held_keys s)" "finite (pinned s)"
  by (simp_all add: held_keys_def pinned_def)

lemma free_buffer:
  assumes inv: "bcache_inv s" and room: "card (held_keys s \<union> pinned s) < NBUF"
  shows "\<exists>i<NBUF. \<not> active (bufs s ! i)"
proof (rule ccontr)
  assume "\<not> ?thesis"
  then have act: "active (bufs s ! i)" if "i < NBUF" for i using that by blast
  let ?f = "\<lambda>i. bkey_of (bufs s ! i)"
  have "inj_on ?f {0..<NBUF}"
    using active_uniq [OF inv] act by (auto simp: inj_on_def)
  then have "card (?f ` {0..<NBUF}) = NBUF" by (simp add: card_image)
  moreover have "?f ` {0..<NBUF} \<subseteq> held_keys s \<union> pinned s"
  proof
    fix k assume "k \<in> ?f ` {0..<NBUF}"
    then obtain i where i: "i < NBUF" "k = bkey_of (bufs s ! i)" by auto
    with act [OF i(1)] show "k \<in> held_keys s \<union> pinned s"
      using bcache_invD(1) [OF inv] nth_mem [of i "bufs s"]
      by (auto simp: held_keys_def pinned_def active_def)
  qed
  then have "card (?f ` {0..<NBUF}) \<le> card (held_keys s \<union> pinned s)"
    by (intro card_mono) auto
  ultimately show False using room by simp
qed

lemma bget_spec:
  assumes inv: "bcache_inv s" and nh: "(dev, bn) \<notin> held_keys s"
    and room: "(dev, bn) \<in> pinned s \<or> card (held_keys s \<union> pinned s) < NBUF"
  shows "\<exists>i b s'. bget s dev bn = Inr (i, s') \<and> bget_result s (dev, bn) i b s'"
proof (cases "find (\<lambda>i. b_dev (bufs s ! i) = dev \<and> b_blockno (bufs s ! i) = bn) (mru s)")
  case (Some i)
  let ?b = "bufs s ! i"
  from Some have i: "i < NBUF" "bkey_of ?b = (dev, bn)"
    using bcache_invD(4) [OF inv] by (auto simp: find_Some_iff bkey_of_def)
  then have unl: "\<not> b_locked ?b"
    using nh bcache_invD(1) [OF inv] by (auto simp: held_keys_iff holds_def)
  have "buf_ok (disk s) ?b" using bcache_invD(6) [OF inv i(1)] .
  then have "b_refcnt ?b = 0" "\<not> b_valid ?b \<longrightarrow> \<not> b_dirty ?b" using unl by (auto simp: buf_ok_def)
  with Some i unl bcache_invD(1) [OF inv] show ?thesis
    by (intro exI [of _ i] exI [of _ "?b\<lparr>b_refcnt := 1, b_locked := True\<rparr>"] exI)
      (auto simp: bget_def bget_result_def upd_buf_def bkey_of_def)
next
  case None
  then have nk: "bkey_of (bufs s ! j) \<noteq> (dev, bn)" if "j < NBUF" for j
    using that bcache_invD(4) [OF inv] by (auto simp: find_None_iff bkey_of_def)
  then have "(dev, bn) \<notin> pinned s" using bcache_invD(1) [OF inv] by (auto simp: pinned_iff)
  then obtain j where j: "j < NBUF" "\<not> active (bufs s ! j)"
    using free_buffer [OF inv] room by blast
  then have "b_refcnt (bufs s ! j) = 0" "\<not> b_dirty (bufs s ! j)"
    using bcache_invD(6) [OF inv j(1)] by (auto simp: active_def buf_ok_def)
  then have "find (\<lambda>i. b_refcnt (bufs s ! i) = 0 \<and> \<not> b_dirty (bufs s ! i)) (rev (mru s)) \<noteq> None"
    using j bcache_invD(4) [OF inv] by (auto simp: find_None_iff)
  then obtain i where f: "find (\<lambda>i. b_refcnt (bufs s ! i) = 0 \<and> \<not> b_dirty (bufs s ! i)) (rev (mru s)) = Some i"
    by blast
  let ?b = "bufs s ! i"
  from f have "i \<in> set (mru s)" "b_refcnt ?b = 0" "\<not> b_dirty ?b"
    by (auto simp: find_Some_iff rev_nth)
  then have i: "i < NBUF" "\<not> b_locked ?b"
    using bcache_invD(4) [OF inv] bcache_invD(6) [OF inv, of i] by (auto simp: buf_ok_def split: if_splits)
  with None f nk \<open>\<not> b_dirty ?b\<close> bcache_invD(1) [OF inv] show ?thesis
    by (intro exI [of _ i] exI [of _ "?b\<lparr>b_dev := dev, b_blockno := bn, b_valid := False,
           b_dirty := False, b_refcnt := 1, b_locked := True\<rparr>"] exI)
      (auto simp: bget_def bget_result_def upd_buf_def bkey_of_def)
qed

section \<open>The operations keep the invariant\<close>

lemma inv_update:
  assumes inv: "bcache_inv s" and i: "i < NBUF"
    and s': "bufs s' = (bufs s)[i := b]" "set (mru s') = set (mru s)" "distinct (mru s')"
      "idequeue s' = []" "havedisk1 s'"
    and ok: "buf_ok (disk s') b"
    and others: "\<And>j. j < NBUF \<Longrightarrow> j \<noteq> i \<Longrightarrow> bkey_of (bufs s ! j) \<noteq> bkey_of b"
    and d: "\<And>k. k \<noteq> bkey_of b \<Longrightarrow> disk s' k = disk s k"
  shows "bcache_inv s'"
proof -
  have len: "length (bufs s) = NBUF" and mru: "set (mru s) = {0..<NBUF}" using inv by (auto dest: bcache_invD)
  have nth: "bufs s' ! j = (if j = i then b else bufs s ! j)" if "j < NBUF" for j
    using that len s'(1) by (auto simp: nth_list_update)
  have "buf_ok (disk s') (bufs s' ! j)" if "j < NBUF" for j
  proof (cases "j = i")
    case False
    with bcache_invD(6) [OF inv that] nth [OF that] d [OF others [OF that False]]
    show ?thesis by (simp add: buf_ok_def)
  qed (use ok nth that in simp)
  moreover have "j1 = j2" if "j1 < NBUF" "j2 < NBUF" "b_dev (bufs s' ! j1) \<noteq> 0"
    "bkey_of (bufs s' ! j1) = bkey_of (bufs s' ! j2)" for j1 j2
    using that nth others bcache_inv_uniq [OF inv, of j1 j2] by (metis (full_types))
  ultimately show ?thesis
    using len mru s' by (simp add: bcache_inv_def)
qed

text \<open>The buffer an operation works on is the only one with its block number.\<close>

lemma other_keys:
  "bcache_inv s \<Longrightarrow> i < NBUF \<Longrightarrow> fst (bkey_of (bufs s ! i)) \<noteq> 0 \<Longrightarrow> j < NBUF \<Longrightarrow> j \<noteq> i \<Longrightarrow>
   bkey_of (bufs s ! j) \<noteq> bkey_of (bufs s ! i)"
  using bcache_inv_uniq [of s i j] by auto

lemma views_update:
  assumes len: "length (bufs s) = NBUF" and i: "i < NBUF" and s': "bufs s' = (bufs s)[i := b]"
    and key: "bkey_of b = k" and old: "bkey_of (bufs s ! i) = k \<or> \<not> active (bufs s ! i)"
    and others: "\<And>j. j < NBUF \<Longrightarrow> j \<noteq> i \<Longrightarrow> bkey_of (bufs s ! j) \<noteq> k"
  shows "held_keys s' = (if b_locked b then insert k (held_keys s) else held_keys s - {k})"
    and "pinned s' = (if b_dirty b then insert k (pinned s) else pinned s - {k})"
    and "holds s' j k' = (if j = i then b_locked b \<and> k' = k else holds s j k')"
proof -
  have len': "length (bufs s') = NBUF" using len s' by simp
  have nth: "bufs s' ! j = (if j = i then b else bufs s ! j)" if "j < NBUF" for j
    using that len s' by (auto simp: nth_list_update)
  show h: "holds s' j k' = (if j = i then b_locked b \<and> k' = k else holds s j k')" for j k'
    using nth i key by (auto simp: holds_def)
  have hi: "holds s i k' \<Longrightarrow> k' = k" for k' using old by (auto simp: holds_def active_def)
  have hk: "holds s j k \<Longrightarrow> j = i" for j using others by (auto simp: holds_def)
  show "held_keys s' = (if b_locked b then insert k (held_keys s) else held_keys s - {k})"
  proof (rule set_eqI)
    fix k'
    have "k' \<in> held_keys s' \<longleftrightarrow> (b_locked b \<and> k' = k) \<or> (\<exists>j. j \<noteq> i \<and> holds s j k')"
      unfolding held_keys_iff [OF len'] using h by auto
    moreover have "(\<exists>j. j \<noteq> i \<and> holds s j k') \<longleftrightarrow> k' \<in> held_keys s \<and> k' \<noteq> k"
      unfolding held_keys_iff [OF len] by (metis hi hk)
    ultimately show "k' \<in> held_keys s' \<longleftrightarrow> k' \<in> (if b_locked b then insert k (held_keys s) else held_keys s - {k})"
      by auto
  qed
  have pi: "b_dirty (bufs s ! i) \<Longrightarrow> bkey_of (bufs s ! i) = k" using old by (auto simp: active_def)
  show "pinned s' = (if b_dirty b then insert k (pinned s) else pinned s - {k})"
  proof (rule set_eqI)
    fix k'
    have "k' \<in> pinned s' \<longleftrightarrow> (b_dirty b \<and> k' = k) \<or> (\<exists>j<NBUF. j \<noteq> i \<and> b_dirty (bufs s ! j) \<and> bkey_of (bufs s ! j) = k')"
      unfolding pinned_iff [OF len'] by (metis i nth key)
    moreover have "(\<exists>j<NBUF. j \<noteq> i \<and> b_dirty (bufs s ! j) \<and> bkey_of (bufs s ! j) = k') \<longleftrightarrow> k' \<in> pinned s \<and> k' \<noteq> k"
      using pi others by (auto simp: pinned_iff [OF len])
    ultimately show "k' \<in> pinned s' \<longleftrightarrow> k' \<in> (if b_dirty b then insert k (pinned s) else pinned s - {k})"
      by auto
  qed
qed

text \<open>Reading a block.\<close>

definition bread_post :: "bcache \<Rightarrow> bkey \<Rightarrow> nat \<Rightarrow> bcache \<Rightarrow> bool" where
  "bread_post s k i s' \<longleftrightarrow>
     bcache_inv s' \<and> holds s' i k \<and> buf_data s' i = content s k \<and> content s' = content s \<and>
     disk s' = disk s \<and> wtrace s' = wtrace s \<and> held_keys s' = insert k (held_keys s) \<and>
     pinned s' = pinned s \<and>
     (\<forall>j k'. holds s j k' \<longrightarrow> holds s' j k' \<and> buf_data s' j = buf_data s j)"

lemma bread_post_of_update:
  assumes inv: "bcache_inv s" and k: "valid_key k" and i: "i < NBUF" "\<not> b_locked (bufs s ! i)"
    and s': "s' = s\<lparr>bufs := (bufs s)[i := b]\<rparr>"
    and b: "bkey_of b = k" "b_locked b" "b_refcnt b = 1" "b_valid b"
    and old: "bkey_of (bufs s ! i) = k \<or> \<not> active (bufs s ! i)"
      "bkey_of (bufs s ! i) \<noteq> k \<longrightarrow> (\<forall>j<NBUF. bkey_of (bufs s ! j) \<noteq> k)"
    and dirty: "b_dirty b \<longleftrightarrow> b_dirty (bufs s ! i)" and data: "b_data b = content s k"
  shows "bread_post s k i s'"
proof -
  have k0: "fst k \<noteq> 0" using k by (simp add: valid_key_def)
  have len: "length (bufs s) = NBUF" using inv by (rule bcache_invD)
  have others: "bkey_of (bufs s ! j) \<noteq> k" if "j < NBUF" "j \<noteq> i" for j
    using other_keys [OF inv i(1) _ that] old(2) that k0 by (cases "bkey_of (bufs s ! i) = k") auto
  have inv': "bcache_inv s'"
    by (rule inv_update [OF inv i(1), of s' b])
      (use inv b others s' k in \<open>auto simp: buf_ok_def bcache_inv_def\<close>)
  have nth: "bufs s' ! j = (if j = i then b else bufs s ! j)" if "j < NBUF" for j
    using that len s' by (auto simp: nth_list_update)
  note v = views_update [OF len i(1) _ b(1) old(1) others, of s']
  have "content s' = (content s)(k := if active (bufs s' ! i) then b_data (bufs s' ! i) else disk s' k)"
    by (rule views_change [OF inv inv' i(1)]) (use nth i b old k0 s' in auto)
  then have cont: "content s' = content s"
    using nth [OF i(1)] b(2) data by (auto simp: active_def)
  have held: "held_keys s' = insert k (held_keys s)" and hs: "holds s' j k' = (if j = i then k' = k else holds s j k')" for j k'
    using v(1,3) b(2) s' by auto
  have pin: "pinned s' = pinned s"
  proof (cases "b_dirty b")
    case True
    with dirty old(1) have "k \<in> pinned s"
      using i(1) by (auto simp: pinned_iff [OF len] active_def)
    with True v(2) s' show ?thesis by auto
  next
    case False
    with dirty others have "k \<notin> pinned s" by (auto simp: pinned_iff [OF len])
    with False v(2) s' show ?thesis by auto
  qed
  have keep: "holds s' j k' \<and> buf_data s' j = buf_data s j" if "holds s j k'" for j k'
  proof -
    have "j \<noteq> i" "j < NBUF" using that i(2) by (auto simp: holds_def)
    with that hs nth show ?thesis by (simp add: buf_data_def)
  qed
  show ?thesis
    using inv' hs nth [OF i(1)] data cont s' held pin keep
    by (simp add: bread_post_def buf_data_def)
qed

lemma bread_spec:
  assumes inv: "bcache_inv s" and k: "valid_key (dev, bn)" and nh: "(dev, bn) \<notin> held_keys s"
    and room: "(dev, bn) \<in> pinned s \<or> card (held_keys s \<union> pinned s) < NBUF"
  shows "\<exists>i s'. bread s dev bn = Inr (i, s') \<and> bread_post s (dev, bn) i s'"
proof -
  let ?k = "(dev, bn)"
  have len: "length (bufs s) = NBUF" using inv by (rule bcache_invD)
  obtain i b s1 where g: "bget s dev bn = Inr (i, s1)" and r: "bget_result s ?k i b s1"
    using bget_spec [OF inv nh room] by blast
  have i: "i < NBUF" and s1: "s1 = s\<lparr>bufs := (bufs s)[i := b]\<rparr>" and nth: "bufs s1 ! i = b"
    using r len by (auto simp: bget_result_def)
  show ?thesis
  proof (cases "b_valid b")
    case True
    have ok: "buf_ok (disk s) (bufs s ! i)" using bcache_invD(6) [OF inv i] .
    have key: "bkey_of (bufs s ! i) = ?k" using r True by (simp add: bget_result_def)
    have "content s ?k = b_data (bufs s ! i)"
    proof (cases "active (bufs s ! i)")
      case True
      then show ?thesis using content_active [OF inv i] key by simp
    next
      case False
      have "\<not> active (bufs s ! j)" if "j < NBUF" "bkey_of (bufs s ! j) = ?k" for j
        using bcache_inv_uniq [OF inv i that(1)] that key k False
        by (metis fst_bkey_of(1) valid_key_def)
      then have "content s ?k = disk s ?k" by (intro content_inactive [OF inv]) auto
      with ok False r True key show ?thesis by (auto simp: buf_ok_def active_def bget_result_def)
    qed
    then have "bread_post s ?k i s1"
      by (intro bread_post_of_update [OF inv k i _ s1])
        (use r True key in \<open>auto simp: bget_result_def\<close>)
    with g True nth show ?thesis by (auto simp: bread_def)
  next
    case False
    let ?b = "b\<lparr>b_data := disk s ?k, b_valid := True, b_dirty := False\<rparr>"
    let ?s = "s\<lparr>bufs := (bufs s)[i := ?b]\<rparr>"
    have key: "bkey_of b = ?k" using r by (simp add: bget_result_def)
    then have "b_blockno b < FSSIZE" using k by (auto simp: bkey_of_def valid_key_def)
    then have "iderw s1 i = Inr ?s"
      using iderw_read [of i s1] i len r s1 nth key False inv
      by (auto simp: bget_result_def bcache_inv_def upd_buf_def)
    moreover have "bread_post s ?k i ?s"
    proof (rule bread_post_of_update [OF inv k i])
      show old: "bkey_of (bufs s ! i) = ?k \<or> \<not> active (bufs s ! i)"
        using r False by (auto simp: bget_result_def active_def)
      have "\<not> active (bufs s ! j)" if "j < NBUF" "bkey_of (bufs s ! j) = ?k" for j
      proof -
        have "bkey_of (bufs s ! i) = ?k" using that r by (auto simp: bget_result_def)
        moreover from this have "b_dev (bufs s ! i) \<noteq> 0"
          using k by (metis fst_bkey_of(1) valid_key_def)
        ultimately have "i = j" using bcache_inv_uniq [OF inv i that(1)] that(2) by simp
        with r False show ?thesis by (auto simp: bget_result_def active_def)
      qed
      then have "content s ?k = disk s ?k" by (intro content_inactive [OF inv]) auto
      then show "b_data ?b = content s ?k" by simp
    qed (use r False in \<open>auto simp: bget_result_def bkey_of_def\<close>)
    ultimately show ?thesis using g False nth by (auto simp: bread_def)
  qed
qed

text \<open>Writing into the data of a held buffer, writing it out, releasing it.\<close>

lemma held_facts:
  assumes "bcache_inv s" "holds s i k"
  shows "i < NBUF" "bkey_of (bufs s ! i) = k" "b_locked (bufs s ! i)" "b_valid (bufs s ! i)"
    "valid_key k" "fst k \<noteq> 0" "b_refcnt (bufs s ! i) = 1"
    "\<And>j. j < NBUF \<Longrightarrow> j \<noteq> i \<Longrightarrow> bkey_of (bufs s ! j) \<noteq> k" "length (bufs s) = NBUF"
    "active (bufs s ! i)"
proof -
  show i: "i < NBUF" and k: "bkey_of (bufs s ! i) = k" and l: "b_locked (bufs s ! i)"
    using assms(2) by (auto simp: holds_def)
  show "b_valid (bufs s ! i)" "valid_key k" "b_refcnt (bufs s ! i) = 1"
    using bcache_invD(6) [OF assms(1) i] k l by (auto simp: buf_ok_def)
  then show "fst k \<noteq> 0" by (simp add: valid_key_def)
  with other_keys [OF assms(1) i] k show "\<And>j. j < NBUF \<Longrightarrow> j \<noteq> i \<Longrightarrow> bkey_of (bufs s ! j) \<noteq> k" by auto
  show "length (bufs s) = NBUF" using assms(1) by (rule bcache_invD)
  show "active (bufs s ! i)" using l by (simp add: active_def)
qed

lemma set_data_spec:
  assumes inv: "bcache_inv s" and h: "holds s i k"
  shows "bcache_inv (set_data s i d)" "content (set_data s i d) = (content s)(k := d)"
    "disk (set_data s i d) = disk s" "wtrace (set_data s i d) = wtrace s"
    "held_keys (set_data s i d) = held_keys s" "pinned (set_data s i d) = pinned s"
    "holds (set_data s i d) j k' = holds s j k'"
    "buf_data (set_data s i d) j = (if j = i then d else buf_data s j)"
proof -
  note f = held_facts [OF inv h]
  let ?b = "bufs s ! i" let ?b' = "?b\<lparr>b_data := d\<rparr>" let ?s = "set_data s i d"
  have s': "bufs ?s = (bufs s)[i := ?b']" by (simp add: set_data_def upd_buf_def)
  show sel: "disk ?s = disk s" "wtrace ?s = wtrace s" by (simp_all add: set_data_def)
  have key: "bkey_of ?b' = k" using f(2) by (simp add: bkey_of_def)
  show inv': "bcache_inv ?s"
    by (rule inv_update [OF inv f(1) s'])
      (use inv f key bcache_invD(6) [OF inv f(1)] in \<open>auto simp: set_data_def bcache_inv_def buf_ok_def\<close>)
  have nth: "bufs ?s ! j = (if j = i then ?b' else bufs s ! j)" for j
    using f(1,9) by (simp add: set_data_def nth_upd_buf)
  have "content ?s = (content s)(k := if active (bufs ?s ! i) then b_data (bufs ?s ! i) else disk ?s k)"
    by (rule views_change [OF inv inv' f(1)]) (use nth f key sel in auto)
  then show "content ?s = (content s)(k := d)" using nth f(3) by (simp add: active_def)
  note v = views_update [OF f(9,1) s' key _ f(8)]
  have "k \<in> held_keys s" using h held_keys_iff [OF f(9)] by blast
  with v(1) f(2,3) show "held_keys ?s = held_keys s" by auto
  have dirty: "k \<in> pinned s \<longleftrightarrow> b_dirty ?b'" using pinned_iff [OF f(9)] f(1,2,8) by (simp, metis)
  show "pinned ?s = pinned s"
    using v(2) f(2) dirty by auto
  show "holds ?s j k' = holds s j k'" for j k'
    using v(3) f by (auto simp: holds_def)
  show "buf_data ?s j = (if j = i then d else buf_data s j)" for j
    using nth by (simp add: buf_data_def)
qed

lemma mark_dirty_spec:
  assumes inv: "bcache_inv s" and h: "holds s i k"
  shows "bcache_inv (mark_dirty s i)" "content (mark_dirty s i) = content s"
    "disk (mark_dirty s i) = disk s" "wtrace (mark_dirty s i) = wtrace s"
    "held_keys (mark_dirty s i) = held_keys s" "pinned (mark_dirty s i) = insert k (pinned s)"
    "holds (mark_dirty s i) j k' = holds s j k'" "buf_data (mark_dirty s i) j = buf_data s j"
proof -
  note f = held_facts [OF inv h]
  let ?b = "bufs s ! i" let ?b' = "?b\<lparr>b_dirty := True\<rparr>" let ?s = "mark_dirty s i"
  have s': "bufs ?s = (bufs s)[i := ?b']" by (simp add: mark_dirty_def upd_buf_def)
  show sel: "disk ?s = disk s" "wtrace ?s = wtrace s" by (simp_all add: mark_dirty_def)
  have key: "bkey_of ?b' = k" using f(2) by (simp add: bkey_of_def)
  show inv': "bcache_inv ?s"
    by (rule inv_update [OF inv f(1) s'])
      (use inv f key bcache_invD(6) [OF inv f(1)] in \<open>auto simp: mark_dirty_def bcache_inv_def buf_ok_def\<close>)
  have nth: "bufs ?s ! j = (if j = i then ?b' else bufs s ! j)" for j
    using f(1,9) by (simp add: mark_dirty_def nth_upd_buf)
  have "content ?s = (content s)(k := if active (bufs ?s ! i) then b_data (bufs ?s ! i) else disk ?s k)"
    by (rule views_change [OF inv inv' f(1)]) (use nth f key sel in auto)
  then show "content ?s = content s"
    using nth f(3) content_active [OF inv f(1,10)] f(2) by (simp add: active_def fun_upd_idem)
  note v = views_update [OF f(9,1) s' key _ f(8)]
  have "k \<in> held_keys s" using h held_keys_iff [OF f(9)] by blast
  with v(1) f(2,3) show "held_keys ?s = held_keys s" by auto
  show "pinned ?s = insert k (pinned s)" using v(2) f(2) by auto
  show "holds ?s j k' = holds s j k'" for j k'
    using v(3) f by (auto simp: holds_def)
  show "buf_data ?s j = buf_data s j" for j
    using nth by (simp add: buf_data_def)
qed

lemma bwrite_spec:
  assumes inv: "bcache_inv s" and h: "holds s i k"
  shows "\<exists>s'. bwrite s i = Inr s' \<and> bcache_inv s' \<and> content s' = content s \<and>
           disk s' = (disk s)(k := buf_data s i) \<and> wtrace s' = wtrace s @ [(k, buf_data s i)] \<and>
           held_keys s' = held_keys s \<and> pinned s' = pinned s - {k} \<and>
           (\<forall>j k'. holds s' j k' = holds s j k') \<and> (\<forall>j. buf_data s' j = buf_data s j)"
proof -
  note f = held_facts [OF inv h]
  note m = mark_dirty_spec [OF inv h]
  let ?b = "bufs s ! i" let ?b' = "?b\<lparr>b_valid := True, b_dirty := False\<rparr>"
  define s1 where "s1 = s\<lparr>bufs := (bufs s)[i := ?b'], disk := (disk s)(k := buf_data s i),
                          wtrace := wtrace s @ [(k, buf_data s i)]\<rparr>"
  have "b_blockno ?b < FSSIZE" using f(2,5) by (auto simp: valid_key_def bkey_of_def)
  then have "iderw (mark_dirty s i) i = Inr s1"
    using iderw_write [of i "mark_dirty s i"] f inv
    by (simp add: mark_dirty_def nth_upd_buf bcache_inv_def)
      (simp add: s1_def upd_buf_def buf_data_def bkey_of_def)
  then have w: "bwrite s i = Inr s1" using f(3) by (simp add: bwrite_def mark_dirty_def)
  have s': "bufs s1 = (bufs s)[i := ?b']" and d: "disk s1 = (disk s)(k := buf_data s i)"
    by (simp_all add: s1_def)
  have key: "bkey_of ?b' = k" using f(2) by (simp add: bkey_of_def)
  have inv1: "bcache_inv s1"
    by (rule inv_update [OF inv f(1) s'])
      (use inv f key bcache_invD(6) [OF inv f(1)] in \<open>auto simp: s1_def bcache_inv_def buf_ok_def\<close>)
  have nth: "bufs s1 ! j = (if j = i then ?b' else bufs s ! j)" for j
    using f(1,9) by (auto simp: s1_def nth_list_update)
  have "content s1 = (content s)(k := if active (bufs s1 ! i) then b_data (bufs s1 ! i) else disk s1 k)"
    by (rule views_change [OF inv inv1 f(1)]) (use nth f key d in auto)
  then have c: "content s1 = content s"
    using nth f(3) content_active [OF inv f(1,10)] f(2) by (simp add: active_def fun_upd_idem)
  note v = views_update [OF f(9,1) s' key _ f(8)]
  have "k \<in> held_keys s" using h held_keys_iff [OF f(9)] by blast
  with v(1,2) f(2,3) have "held_keys s1 = held_keys s" "pinned s1 = pinned s - {k}" by auto
  moreover have "holds s1 j k' = holds s j k'" for j k'
    using v(3) f(1,2,3) by (auto simp: holds_def)
  ultimately
  show ?thesis using w inv1 c d nth by (auto simp: s1_def buf_data_def)
qed

lemma brelse_spec:
  assumes inv: "bcache_inv s" and h: "holds s i k" and cl: "k \<in> pinned s \<or> disk s k = buf_data s i"
  shows "\<exists>s'. brelse s i = Inr s' \<and> bcache_inv s' \<and> content s' = content s \<and> disk s' = disk s \<and>
           wtrace s' = wtrace s \<and> held_keys s' = held_keys s - {k} \<and> pinned s' = pinned s \<and>
           (\<forall>j k'. k' \<noteq> k \<longrightarrow> holds s' j k' = holds s j k') \<and> (\<forall>j. buf_data s' j = buf_data s j)"
proof -
  note f = held_facts [OF inv h]
  let ?b = "bufs s ! i" let ?b' = "?b\<lparr>b_locked := False, b_refcnt := 0\<rparr>"
  define s1 where "s1 = s\<lparr>bufs := (bufs s)[i := ?b'], mru := i # remove1 i (mru s)\<rparr>"
  have w: "brelse s i = Inr s1"
    using f by (simp add: brelse_def s1_def upd_buf_def Let_def)
  have s': "bufs s1 = (bufs s)[i := ?b']" and d: "disk s1 = disk s"
    by (simp_all add: s1_def)
  have key: "bkey_of ?b' = k" using f(2) by (simp add: bkey_of_def)
  have i: "i \<in> set (mru s)" using f(1) bcache_invD(4) [OF inv] by simp
  have dirty: "k \<in> pinned s \<longleftrightarrow> b_dirty ?b" using pinned_iff [OF f(9)] f(1,2,8) by metis
  have inv1: "bcache_inv s1"
    by (rule inv_update [OF inv f(1) s'])
      (use inv f key i cl dirty bcache_invD(5) [OF inv] bcache_invD(6) [OF inv f(1)] in
        \<open>auto simp: s1_def bcache_inv_def buf_ok_def buf_data_def\<close>)
  have nth: "bufs s1 ! j = (if j = i then ?b' else bufs s ! j)" for j
    using f(1,9) by (auto simp: s1_def nth_list_update)
  have "content s1 = (content s)(k := if active (bufs s1 ! i) then b_data (bufs s1 ! i) else disk s1 k)"
    by (rule views_change [OF inv inv1 f(1)]) (use nth f key d in auto)
  then have c: "content s1 = content s"
    using nth f(3) content_active [OF inv f(1,10)] f(2) cl d dirty
    by (auto simp: active_def buf_data_def)
  note v = views_update [OF f(9,1) s' key _ f(8)]
  have "held_keys s1 = held_keys s - {k}" "k' \<noteq> k \<Longrightarrow> holds s1 j k' = holds s j k'" for j k'
    using v f(2,3) by (auto simp: holds_def)
  moreover have "pinned s1 = pinned s" using v(2) f(2) dirty by auto
  ultimately show ?thesis using w inv1 c d nth by (auto simp: s1_def buf_data_def)
qed

section \<open>Properties\<close>

lemma mru_binit: "fold (\<lambda>i l. i # l) xs ys = rev xs @ ys"
  by (induction xs arbitrary: ys) auto

lemma binit_inv: "bcache_inv (binit d)"
  by (auto simp: bcache_inv_def binit_def mru_binit buf_ok_def)

text \<open>Between two requests no process holds a buffer; the cache then answers from the disk alone.\<close>

lemma binit_views:
  "held_keys (binit d) = {}" "pinned (binit d) = {}" "content (binit d) = d"
proof -
  have b: "b \<in> set (bufs (binit d)) \<Longrightarrow> \<not> b_locked b \<and> \<not> b_dirty b" for b
    by (auto simp: binit_def)
  then show "held_keys (binit d) = {}" "pinned (binit d) = {}"
    by (auto simp: held_keys_def pinned_def)
  have "bufs (binit d) ! i = (bufs (binit d) ! 0)" if "i < NBUF" for i
    using that by (simp add: binit_def)
  then have "\<not> b_valid (bufs (binit d) ! i)" if "i < NBUF" for i
    using that by (simp add: binit_def)
  then have "find (\<lambda>i. b_valid (bufs (binit d) ! i) \<and> bkey_of (bufs (binit d) ! i) = k) (mru (binit d)) = None" for k
    using bcache_invD(4) [OF binit_inv, of d] by (auto simp: find_None_iff)
  then show "content (binit d) = d" by (auto simp: content_def binit_def)
qed

interpretation bc: block_cache bread bwrite brelse set_data mark_dirty buf_data bcache_inv holds
  held_keys pinned content disk wtrace valid_key NBUF
proof
  fix s dev b
  assume "bcache_inv s" "valid_key (dev, b)" "(dev, b) \<notin> held_keys s"
    "(dev, b) \<in> pinned s \<or> card (held_keys s \<union> pinned s) < NBUF"
  then show "\<exists>i s'. bread s dev b = Inr (i, s') \<and> bcache_inv s' \<and> holds s' i (dev, b) \<and>
      buf_data s' i = content s (dev, b) \<and> content s' = content s \<and> disk s' = disk s \<and>
      wtrace s' = wtrace s \<and> held_keys s' = insert (dev, b) (held_keys s) \<and> pinned s' = pinned s \<and>
      (\<forall>j k. holds s j k \<longrightarrow> holds s' j k \<and> buf_data s' j = buf_data s j)"
    using bread_spec by (fastforce simp: bread_post_def simp del: split_paired_All)
next
  fix s i k x assume "bcache_inv s" "holds s i k"
  note p = set_data_spec [OF this, of x] and m = mark_dirty_spec [OF this]
  show "bcache_inv (set_data s i x) \<and> content (set_data s i x) = (content s)(k := x) \<and>
    disk (set_data s i x) = disk s \<and> wtrace (set_data s i x) = wtrace s \<and>
    held_keys (set_data s i x) = held_keys s \<and> pinned (set_data s i x) = pinned s \<and>
    holds (set_data s i x) = holds s \<and> buf_data (set_data s i x) = (buf_data s)(i := x)"
    using p(1-6) p(7) p(8) by (auto intro!: ext)
  show "bcache_inv (mark_dirty s i) \<and> content (mark_dirty s i) = content s \<and>
    disk (mark_dirty s i) = disk s \<and> wtrace (mark_dirty s i) = wtrace s \<and>
    held_keys (mark_dirty s i) = held_keys s \<and> pinned (mark_dirty s i) = insert k (pinned s) \<and>
    holds (mark_dirty s i) = holds s \<and> buf_data (mark_dirty s i) = buf_data s"
    using m by (auto intro!: ext)
next
  fix s i k assume "bcache_inv s" "holds s i k"
  from bwrite_spec [OF this] show "\<exists>s'. bwrite s i = Inr s' \<and> bcache_inv s' \<and> content s' = content s \<and>
    disk s' = (disk s)(k := buf_data s i) \<and> wtrace s' = wtrace s @ [(k, buf_data s i)] \<and>
    held_keys s' = held_keys s \<and> pinned s' = pinned s - {k} \<and> holds s' = holds s \<and>
    buf_data s' = buf_data s"
    by (simp add: fun_eq_iff)
next
  fix s i k assume "bcache_inv s" "holds s i k" "k \<in> pinned s \<or> disk s k = buf_data s i"
  from brelse_spec [OF this] show "\<exists>s'. brelse s i = Inr s' \<and> bcache_inv s' \<and> content s' = content s \<and>
    disk s' = disk s \<and> wtrace s' = wtrace s \<and> held_keys s' = held_keys s - {k} \<and>
    pinned s' = pinned s \<and> (\<forall>j k'. k' \<noteq> k \<longrightarrow> holds s' j k' = holds s j k') \<and> buf_data s' = buf_data s"
    by (simp only: fun_eq_iff [of "buf_data x" "buf_data y" for x y])
next
  fix s k assume "bcache_inv s" "k \<notin> held_keys s" "k \<notin> pinned s"
  then show "content s k = disk s k"
    using content_inactive [of s k] by (auto simp: holds_def held_keys_iff pinned_iff bcache_inv_def active_def)
next
  fix s i k k' assume "holds s i k" "holds s i k'"
  then show "k = k'" by (simp add: holds_def)
qed

text \<open>
  C12. A read through the cache is transparent. In any state of the cache that satisfies the
  invariant, \<open>bread\<close> of a block nobody holds, with a buffer to spare, returns a locked buffer for that
  very block whose data is the block's content (the pinned copy if there is one, the disk's block
  otherwise), writes nothing to the disk, and does not change what any other block reads as, evicted
  ones included.
\<close>

theorem bread_returns_content:
  assumes "bcache_inv s" "valid_key (dev, bn)" "(dev, bn) \<notin> held_keys s"
    "(dev, bn) \<in> pinned s \<or> card (held_keys s \<union> pinned s) < NBUF"
  shows "\<exists>i s'. bread s dev bn = Inr (i, s') \<and> bcache_inv s' \<and> holds s' i (dev, bn) \<and>
           b_data (bufs s' ! i) = content s (dev, bn) \<and> content s' = content s \<and>
           disk s' = disk s \<and> wtrace s' = wtrace s \<and> pinned s' = pinned s"
  using bread_spec [OF assms] by (auto simp: bread_post_def buf_data_def simp del: split_paired_All)

theorem bread_returns_content_witness:
  "\<exists>i s'. bread (binit (\<lambda>k _. if k = (1, 5) then 9 else 0)) 1 5 = Inr (i, s') \<and>
     holds s' i (1, 5) \<and> b_data (bufs s' ! i) = (\<lambda>_. 9)"
proof -
  have "valid_key (1, 5)" by (simp add: valid_key_def FSSIZE_def)
  with bread_returns_content [OF binit_inv, of 1 5 "\<lambda>k _. if k = (1, 5) then 9 else 0"]
  show ?thesis by (fastforce simp: binit_views NBUF_def fun_eq_iff)
qed

text \<open>
  \<open>bget\<close> gives up only when it has to, and then always: for a block that is not cached it
  panics with "no buffers" exactly when every one of the buffers is in use or dirty.
\<close>

lemma bget_panics_iff_full:
  assumes inv: "bcache_inv s" and miss: "\<And>i. i < NBUF \<Longrightarrow> bkey_of (bufs s ! i) \<noteq> (dev, bn)"
  shows "bget s dev bn = Inl (Panic ''bget: no buffers'') \<longleftrightarrow>
           (\<forall>i<NBUF. b_refcnt (bufs s ! i) \<noteq> 0 \<or> b_dirty (bufs s ! i))"
proof -
  have m: "set (mru s) = {0..<NBUF}" using bcache_invD(4) [OF inv] .
  have "find (\<lambda>i. b_dev (bufs s ! i) = dev \<and> b_blockno (bufs s ! i) = bn) (mru s) = None"
    using miss m by (fastforce simp: find_None_iff bkey_of_def)
  moreover have "find (\<lambda>i. b_refcnt (bufs s ! i) = 0 \<and> \<not> b_dirty (bufs s ! i)) (rev (mru s)) = None \<longleftrightarrow>
      (\<forall>i<NBUF. b_refcnt (bufs s ! i) \<noteq> 0 \<or> b_dirty (bufs s ! i))"
    using m by (auto simp: find_None_iff)
  ultimately show ?thesis by (auto simp: bget_def Let_def split: option.splits)
qed

lemma bget_panics_iff_full_witness:
  "bget (binit (\<lambda>_ _. 0)) 1 5 \<noteq> Inl (Panic ''bget: no buffers'')"
proof -
  have "bkey_of (bufs (binit (\<lambda>_ _. 0)) ! i) \<noteq> (1, 5)" if "i < NBUF" for i
    using that by (simp add: binit_def bkey_of_def)
  from bget_panics_iff_full [OF binit_inv this] show ?thesis
    by (auto simp: binit_def intro!: exI [of _ 0] simp: NBUF_def)
qed

end
