(* ===== verification/Log.thy ===== *)
theory Log
  imports Bio
begin

text \<open>
  The write-ahead log of \<open>xv6-public/log.c\<close>, with \<open>readsb\<close> of \<open>fs.c\<close>, over the buffer cache. Disk
  writes reach the disk one block at a time and in order; the ghost list \<open>wtrace\<close> of the cache
  is that order, so a crash during an operation leaves the disk after some prefix of the writes the
  operation appends to it. The first lemmas describe the loops, the properties are the atomicity
  of a commit, the idempotence of recovery and the reservation of log space.
\<close>

section \<open>State\<close>

definition LOGSIZE :: nat where "LOGSIZE = 30"
definition MAXOPBLOCKS :: nat where "MAXOPBLOCKS = 10"

record superblock =
  sb_size :: u32
  sb_nblocks :: u32
  sb_ninodes :: u32
  sb_nlog :: u32
  sb_logstart :: u32
  sb_inodestart :: u32
  sb_bmapstart :: u32

record log =
  l_start :: nat
  l_size :: int
  l_outstanding :: int
  l_committing :: bool
  l_dev :: nat
  l_n :: int
  l_block :: "u32 list"

section \<open>Operations\<close>

definition readsb :: "bcache \<Rightarrow> nat \<Rightarrow> (superblock \<times> bcache) res" where
  "readsb c dev =
     bindR (bread c dev 1) (\<lambda>(i, c1).
       let d = buf_data c1 i;
           sb = \<lparr>sb_size = get32 d 0, sb_nblocks = get32 d 4, sb_ninodes = get32 d 8, sb_nlog = get32 d 12,
                 sb_logstart = get32 d 16, sb_inodestart = get32 d 20, sb_bmapstart = get32 d 24\<rparr>
       in bindR (brelse c1 i) (\<lambda>c2. Inr (sb, c2)))"

definition install_body :: "log \<Rightarrow> nat \<Rightarrow> bcache \<Rightarrow> bcache res" where
  "install_body l tail c =
     (if tail \<ge> length (l_block l) then Inl OutOfBounds
      else bindR (bread c (l_dev l) (l_start l + tail + 1)) (\<lambda>(lb, c1).
           bindR (bread c1 (l_dev l) (unat (l_block l ! tail))) (\<lambda>(db, c2).
           bindR (bwrite (set_data c2 db (buf_data c2 lb)) db) (\<lambda>c3.
           bindR (brelse c3 lb) (\<lambda>c4. brelse c4 db)))))"

definition install_trans :: "log \<Rightarrow> bcache \<Rightarrow> bcache res" where
  "install_trans l c = for_up (nat (l_n l)) (install_body l) c"

definition read_head :: "log \<Rightarrow> bcache \<Rightarrow> (log \<times> bcache) res" where
  "read_head l c =
     bindR (bread c (l_dev l) (l_start l)) (\<lambda>(i, c1).
       let lh = buf_data c1 i; l1 = l\<lparr>l_n := sint (get32 lh 0)\<rparr> in
       bindR (for_up (nat (l_n l1)) (\<lambda>i bs. if i \<ge> length bs then Inl OutOfBounds
                                         else Inr (bs[i := get32 lh (4 + 4 * i)])) (l_block l1)) (\<lambda>bs.
       bindR (brelse c1 i) (\<lambda>c2. Inr (l1\<lparr>l_block := bs\<rparr>, c2))))"

definition head_block :: "log \<Rightarrow> block \<Rightarrow> block res" where
  "head_block l hb =
     for_up (nat (l_n l)) (\<lambda>i hb. if i \<ge> length (l_block l) then Inl OutOfBounds
                                else Inr (put32 hb (4 + 4 * i) (l_block l ! i)))
       (put32 hb 0 (word_of_int (l_n l)))"

definition write_head :: "log \<Rightarrow> bcache \<Rightarrow> bcache res" where
  "write_head l c =
     bindR (bread c (l_dev l) (l_start l)) (\<lambda>(i, c1).
     bindR (head_block l (buf_data c1 i)) (\<lambda>hb.
     bindR (bwrite (set_data c1 i hb) i) (\<lambda>c2. brelse c2 i)))"

definition recover_from_log :: "log \<Rightarrow> bcache \<Rightarrow> (log \<times> bcache) res" where
  "recover_from_log l c =
     bindR (read_head l c) (\<lambda>(l1, c1).
     bindR (install_trans l1 c1) (\<lambda>c2.
     bindR (write_head (l1\<lparr>l_n := 0\<rparr>) c2) (\<lambda>c3. Inr (l1\<lparr>l_n := 0\<rparr>, c3))))"

text \<open>The kernel's static \<open>log\<close> starts zeroed.\<close>

definition log_zero :: log where
  "log_zero = \<lparr>l_start = 0, l_size = 0, l_outstanding = 0, l_committing = False, l_dev = 0, l_n = 0,
               l_block = replicate LOGSIZE 0\<rparr>"

definition initlog :: "bcache \<Rightarrow> nat \<Rightarrow> (log \<times> bcache) res" where
  "initlog c dev =
     bindR (readsb c dev) (\<lambda>(sb, c1).
       recover_from_log (log_zero\<lparr>l_start := unat (sb_logstart sb), l_size := sint (sb_nlog sb),
                                  l_dev := dev\<rparr>) c1)"

text \<open>One round of the loop of \<open>begin_op\<close>: \<open>None\<close> is a \<open>sleep\<close> on the log.\<close>

definition begin_op :: "log \<Rightarrow> log option" where
  "begin_op l =
     (if l_committing l then None
      else if l_n l + (l_outstanding l + 1) * int MAXOPBLOCKS > int LOGSIZE then None
      else Some (l\<lparr>l_outstanding := l_outstanding l + 1\<rparr>))"

definition write_log_body :: "log \<Rightarrow> nat \<Rightarrow> bcache \<Rightarrow> bcache res" where
  "write_log_body l tail c =
     (if tail \<ge> length (l_block l) then Inl OutOfBounds
      else bindR (bread c (l_dev l) (l_start l + tail + 1)) (\<lambda>(tb, c1).
           bindR (bread c1 (l_dev l) (unat (l_block l ! tail))) (\<lambda>(fb, c2).
           bindR (bwrite (set_data c2 tb (buf_data c2 fb)) tb) (\<lambda>c3.
           bindR (brelse c3 fb) (\<lambda>c4. brelse c4 tb)))))"

definition write_log :: "log \<Rightarrow> bcache \<Rightarrow> bcache res" where
  "write_log l c = for_up (nat (l_n l)) (write_log_body l) c"

definition commit :: "log \<Rightarrow> bcache \<Rightarrow> (log \<times> bcache) res" where
  "commit l c =
     (if l_n l > 0 then
        bindR (write_log l c) (\<lambda>c1.
        bindR (write_head l c1) (\<lambda>c2.
        bindR (install_trans l c2) (\<lambda>c3.
        bindR (write_head (l\<lparr>l_n := 0\<rparr>) c3) (\<lambda>c4. Inr (l\<lparr>l_n := 0\<rparr>, c4)))))
      else Inr (l, c))"

definition end_op :: "log \<Rightarrow> bcache \<Rightarrow> (log \<times> bcache) res" where
  "end_op l c =
     (let l1 = l\<lparr>l_outstanding := l_outstanding l - 1\<rparr> in
      if l_committing l1 then Inl (Panic ''log.committing'')
      else if l_outstanding l1 = 0
      then bindR (commit (l1\<lparr>l_committing := True\<rparr>) c) (\<lambda>(l2, c2). Inr (l2\<lparr>l_committing := False\<rparr>, c2))
      else Inr (l1, c))"

definition log_write :: "log \<Rightarrow> bcache \<Rightarrow> nat \<Rightarrow> (log \<times> bcache) res" where
  "log_write l c b =
     (let bn = b_blockno (bufs c ! b) in
      if l_n l \<ge> int LOGSIZE \<or> l_n l \<ge> l_size l - 1 then Inl (Panic ''too big a transaction'')
      else if l_outstanding l < 1 then Inl (Panic ''log_write outside of trans'')
      else let i = (case scan (\<lambda>w. w = of_nat bn) (take (nat (l_n l)) (l_block l)) of
                      Some i \<Rightarrow> i | None \<Rightarrow> nat (l_n l));
               l1 = l\<lparr>l_block := (l_block l)[i := of_nat bn]\<rparr>;
               l2 = (if int i = l_n l then l1\<lparr>l_n := l_n l + 1\<rparr> else l1)
           in Inr (l2, mark_dirty c b))"

section \<open>The writes of the log\<close>

text \<open>The blocks of a log: its header, its slots, and the home locations of the logged blocks.\<close>

definition hdr :: "log \<Rightarrow> bkey" where
  "hdr l = (l_dev l, l_start l)"

definition slot :: "log \<Rightarrow> nat \<Rightarrow> bkey" where
  "slot l i = (l_dev l, l_start l + i + 1)"

definition home :: "log \<Rightarrow> nat \<Rightarrow> bkey" where
  "home l i = (l_dev l, unat (l_block l ! i))"

definition in_log :: "log \<Rightarrow> bkey \<Rightarrow> bool" where
  "in_log l k \<longleftrightarrow> fst k = l_dev l \<and> l_start l \<le> snd k \<and> int (snd k) < int (l_start l) + l_size l"

definition log_wf :: "log \<Rightarrow> bool" where
  "log_wf l \<longleftrightarrow> l_dev l \<noteq> 0 \<and> length (l_block l) = LOGSIZE \<and> 0 \<le> l_n l \<and> l_n l < l_size l \<and>
     l_size l \<le> int LOGSIZE \<and> l_start l + nat (l_size l) \<le> FSSIZE \<and>
     (\<forall>i<nat (l_n l). valid_key (home l i) \<and> \<not> in_log l (home l i)) \<and>
     distinct (take (nat (l_n l)) (l_block l))"

text \<open>The header block a \<open>write_head\<close> makes of the block \<open>b\<close>.\<close>

fun put_entries :: "u32 list \<Rightarrow> nat \<Rightarrow> block \<Rightarrow> block" where
  "put_entries bs 0 b = b"
| "put_entries bs (Suc n) b = put32 (put_entries bs n b) (4 + 4 * n) (bs ! n)"

definition head_of :: "log \<Rightarrow> block \<Rightarrow> block" where
  "head_of l b = put_entries (l_block l) (nat (l_n l)) (put32 b 0 (word_of_int (l_n l)))"

lemma head_block_eq:
  assumes "nat (l_n l) \<le> length (l_block l)"
  shows "head_block l b = Inr (head_of l b)"
proof -
  have "m \<le> length (l_block l) \<Longrightarrow>
    for_up m (\<lambda>i hb. if i \<ge> length (l_block l) then Inl OutOfBounds
                     else Inr (put32 hb (4 + 4 * i) (l_block l ! i))) c =
      Inr (put_entries (l_block l) m c)" for m c
    by (induction m) auto
  with assms show ?thesis by (simp add: head_block_def head_of_def)
qed

lemma get_put_entries:
  "get32 (put_entries bs n b) 0 = get32 b 0"
  "i < n \<Longrightarrow> get32 (put_entries bs n b) (4 + 4 * i) = bs ! i"
  by (induction n) (auto simp: less_Suc_eq)

lemma get_head_of:
  "get32 (head_of l b) 0 = word_of_int (l_n l)"
  "i < nat (l_n l) \<Longrightarrow> get32 (head_of l b) (4 + 4 * i) = l_block l ! i"
  by (simp_all add: head_of_def get_put_entries)

lemma sint_small: "0 \<le> n \<Longrightarrow> n \<le> int LOGSIZE \<Longrightarrow> sint (word_of_int n :: u32) = n"
  by (simp add: sint32_uint LOGSIZE_def uint_word_of_int_eq take_bit_eq_mod)

lemma log_wfD:
  assumes "log_wf l"
  shows "valid_key (hdr l)" "in_log l (hdr l)" "nat (l_n l) \<le> length (l_block l)"
    "i < nat (l_n l) \<Longrightarrow> valid_key (home l i)" "i < nat (l_n l) \<Longrightarrow> \<not> in_log l (home l i)"
    "i < nat (l_n l) \<Longrightarrow> valid_key (slot l i)" "i < nat (l_n l) \<Longrightarrow> in_log l (slot l i)"
    "i < nat (l_n l) \<Longrightarrow> slot l i \<noteq> home l j \<or> nat (l_n l) \<le> j"
    "i < nat (l_n l) \<Longrightarrow> hdr l \<noteq> home l i" "hdr l \<noteq> slot l j"
    "nat (l_n l) < NBUF"
proof -
  show inl: "i < nat (l_n l) \<Longrightarrow> in_log l (slot l i)" for i
    using assms by (auto simp: log_wf_def slot_def in_log_def)
  show nin: "i < nat (l_n l) \<Longrightarrow> \<not> in_log l (home l i)" for i
    using assms by (simp add: log_wf_def)
  show "in_log l (hdr l)" using assms by (auto simp: log_wf_def hdr_def in_log_def)
  with nin [of i] show "i < nat (l_n l) \<Longrightarrow> hdr l \<noteq> home l i" by metis
  show "i < nat (l_n l) \<Longrightarrow> slot l i \<noteq> home l j \<or> nat (l_n l) \<le> j"
    using inl [of i] nin [of j] by (metis not_less)
qed (use assms in \<open>auto simp: log_wf_def hdr_def slot_def in_log_def valid_key_def NBUF_def LOGSIZE_def\<close>)

lemma home_inj:
  assumes "log_wf l"
  shows "inj_on (home l) {..<nat (l_n l)}"
proof (rule inj_onI)
  fix x y assume "x \<in> {..<nat (l_n l)}" "y \<in> {..<nat (l_n l)}" "home l x = home l y"
  moreover have "nat (l_n l) \<le> length (l_block l)" "distinct (take (nat (l_n l)) (l_block l))"
    using assms by (auto simp: log_wf_def)
  ultimately show "x = y"
    using nth_eq_iff_index_eq [of "take (nat (l_n l)) (l_block l)" x y]
    by (simp add: home_def word_unat_eq_iff)
qed

text \<open>The four groups of writes of a commit and the disks they lead to.\<close>

definition W_slots :: "log \<Rightarrow> (bkey \<Rightarrow> block) \<Rightarrow> (bkey \<times> block) list" where
  "W_slots l ct = map (\<lambda>i. (slot l i, ct (home l i))) [0..<nat (l_n l)]"

definition W_homes :: "log \<Rightarrow> (bkey \<Rightarrow> block) \<Rightarrow> (bkey \<times> block) list" where
  "W_homes l ct = map (\<lambda>i. (home l i, ct (slot l i))) [0..<nat (l_n l)]"

definition W_head :: "log \<Rightarrow> (bkey \<Rightarrow> block) \<Rightarrow> (bkey \<times> block) list" where
  "W_head l ct = [(hdr l, head_of l (ct (hdr l)))]"

definition idle :: "bcache \<Rightarrow> bool" where
  "idle c \<longleftrightarrow> bcache_inv c \<and> held_keys c = {}"

lemma write_head_spec:
  assumes "log_wf l" "idle c" "card (pinned c) < NBUF"
  shows "\<exists>c'. write_head l c = Inr c' \<and> idle c' \<and> pinned c' = pinned c - {hdr l} \<and>
           content c' = apply_writes (W_head l (content c)) (content c) \<and>
           disk c' = apply_writes (W_head l (content c)) (disk c) \<and>
           wtrace c' = wtrace c @ W_head l (content c)"
  using bc.read_modify_write [of c "l_dev l" "l_start l" "head_of l"] assms log_wfD(1,3) [OF assms(1)]
  by (auto simp: idle_def write_head_def head_block_eq W_head_def hdr_def)

lemma write_log_spec:
  assumes wf: "log_wf l" and c: "idle c" and pin: "pinned c = home l ` {..<nat (l_n l)}"
  shows "\<exists>c'. write_log l c = Inr c' \<and> idle c' \<and> pinned c' = pinned c \<and>
           content c' = apply_writes (W_slots l (content c)) (content c) \<and>
           disk c' = apply_writes (W_slots l (content c)) (disk c) \<and>
           wtrace c' = wtrace c @ W_slots l (content c)"
proof -
  let ?n = "nat (l_n l)"
  note D = log_wfD [OF wf]
  have sl: "slot l i \<notin> pinned c" if "i < ?n" for i using D(8) [OF that] by (force simp: pin)
  have card: "card (pinned c) < NBUF"
    using card_image_le [of "{..<?n}" "home l"] D(11) by (simp add: pin)
  have step: "\<exists>s'. write_log_body l i s = Inr s' \<and> bcache_inv s' \<and> held_keys s' = {} \<and>
      pinned s' = pinned s - {slot l i} \<and> content s' = (content s)(slot l i := content s (home l i)) \<and>
      disk s' = (disk s)(slot l i := content s (home l i)) \<and>
      wtrace s' = wtrace s @ [(slot l i, content s (home l i))]"
    if i: "i < ?n" and s: "bcache_inv s" "held_keys s = {}" "pinned s = pinned c - slot l ` {..<i}" for i s
  proof -
    have p: "pinned s = pinned c" using sl i s(3) by auto
    then have "home l i \<in> pinned s" using i by (simp add: pin)
    moreover have "slot l i \<noteq> home l i" "card (pinned s) < NBUF" using D(8) [OF i, of i] i card p by auto
    ultimately show ?thesis
      using bc.copy_step_dst_first [of s "l_dev l" "l_start l + i + 1" "unat (l_block l ! i)", OF s(1,2)]
        i D(3) D(4,6) [OF i]
      by (simp add: write_log_body_def slot_def home_def) (elim exE conjE, simp)
  qed
  have last: "pinned c - slot l ` {..<?n} = pinned c" using sl by auto
  have disj: "home l i \<noteq> slot l j" if "i < ?n" "j < ?n" for i j
    using D(8) [of j i] that by auto
  have c0: "bcache_inv c" "held_keys c = {}" using c by (simp_all add: idle_def)
  have "\<exists>s'. for_up ?n (write_log_body l) c = Inr s' \<and> bcache_inv s' \<and> held_keys s' = {} \<and>
      pinned s' = pinned c - slot l ` {..<?n} \<and>
      content s' = apply_writes (W_slots l (content c)) (content c) \<and>
      disk s' = apply_writes (W_slots l (content c)) (disk c) \<and> wtrace s' = wtrace c @ W_slots l (content c)"
    unfolding W_slots_def by (rule bc.copy_loop [OF c0]) (erule (1) disj, erule (3) step)
  then show ?thesis using last by (auto simp: idle_def write_log_def)
qed

lemma install_trans_spec:
  assumes wf: "log_wf l" and c: "idle c"
    and pin: "pinned c = {} \<or> pinned c = home l ` {..<nat (l_n l)}"
  shows "\<exists>c'. install_trans l c = Inr c' \<and> idle c' \<and> pinned c' = {} \<and>
           content c' = apply_writes (W_homes l (content c)) (content c) \<and>
           disk c' = apply_writes (W_homes l (content c)) (disk c) \<and>
           wtrace c' = wtrace c @ W_homes l (content c)"
proof -
  let ?n = "nat (l_n l)"
  note D = log_wfD [OF wf]
  have card: "card (pinned c) < NBUF"
    using card_image_le [of "{..<?n}" "home l"] D(11) pin by (auto simp: NBUF_def)
  have step: "\<exists>s'. install_body l i s = Inr s' \<and> bcache_inv s' \<and> held_keys s' = {} \<and>
      pinned s' = pinned s - {home l i} \<and> content s' = (content s)(home l i := content s (slot l i)) \<and>
      disk s' = (disk s)(home l i := content s (slot l i)) \<and>
      wtrace s' = wtrace s @ [(home l i, content s (slot l i))]"
    if i: "i < ?n" and s: "bcache_inv s" "held_keys s = {}" "pinned s = pinned c - home l ` {..<i}" for i s
  proof -
    have "home l i \<notin> home l ` {..<i}" using inj_onD [OF home_inj [OF wf], of _ i] i by force
    then have "home l i \<in> pinned s \<or> card (insert (slot l i) (pinned s)) < NBUF"
      using pin s(3) i by (auto simp: NBUF_def)
    moreover have "card (pinned s) < NBUF"
      using card_mono [of "pinned c" "pinned s"] s(3) card by simp
    moreover have "slot l i \<noteq> home l i" using D(8) [OF i, of i] i by auto
    ultimately show ?thesis
      using bc.copy_step_src_first [of s "l_dev l" "l_start l + i + 1" "unat (l_block l ! i)", OF s(1,2)]
        i D(3) D(4,6) [OF i]
      by (simp add: install_body_def slot_def home_def) (elim exE conjE, simp)
  qed
  have last: "pinned c - home l ` {..<?n} = {}" using pin by auto
  have disj: "slot l i \<noteq> home l j" if "i < ?n" "j < ?n" for i j
    using D(8) [of i j] that by auto
  have c0: "bcache_inv c" "held_keys c = {}" using c by (simp_all add: idle_def)
  have "\<exists>s'. for_up ?n (install_body l) c = Inr s' \<and> bcache_inv s' \<and> held_keys s' = {} \<and>
      pinned s' = pinned c - home l ` {..<?n} \<and>
      content s' = apply_writes (W_homes l (content c)) (content c) \<and>
      disk s' = apply_writes (W_homes l (content c)) (disk c) \<and> wtrace s' = wtrace c @ W_homes l (content c)"
    unfolding W_homes_def by (rule bc.copy_loop [OF c0]) (erule (1) disj, erule (3) step)
  then show ?thesis using last by (auto simp: idle_def install_trans_def)
qed

section \<open>Commit and recovery\<close>

definition commit_writes :: "log \<Rightarrow> (bkey \<Rightarrow> block) \<Rightarrow> (bkey \<times> block) list" where
  "commit_writes l ct =
     W_slots l ct @ [(hdr l, head_of l (ct (hdr l)))] @
     map (\<lambda>i. (home l i, ct (home l i))) [0..<nat (l_n l)] @
     [(hdr l, head_of (l\<lparr>l_n := 0\<rparr>) (head_of l (ct (hdr l))))]"

definition log_ready :: "log \<Rightarrow> bcache \<Rightarrow> bool" where
  "log_ready l c \<longleftrightarrow> log_wf l \<and> idle c \<and> pinned c = home l ` {..<nat (l_n l)}"

lemma W_keys [simp]:
  "fst ` set (W_slots l ct) = slot l ` {..<nat (l_n l)}"
  "fst ` set (W_homes l ct) = home l ` {..<nat (l_n l)}"
  "fst ` set (W_head l ct) = {hdr l}"
  by (force simp: W_slots_def W_homes_def W_head_def)+

lemma slot_inj [simp]: "slot l i = slot l j \<longleftrightarrow> i = j"
  by (simp add: slot_def)

lemma apply_W_slots:
  "i < nat (l_n l) \<Longrightarrow> apply_writes (W_slots l ct) d (slot l i) = ct (home l i)"
  by (rule apply_writes_in) (auto simp: W_slots_def comp_def distinct_map inj_on_def)

lemma apply_homes:
  assumes "log_wf l" "i < nat (l_n l)"
  shows "apply_writes (map (\<lambda>i. (home l i, f i)) [0..<nat (l_n l)]) d (home l i) = f i"
  by (rule apply_writes_in)
    (use assms home_inj [OF assms(1)] in \<open>auto simp: comp_def distinct_map lessThan_atLeast0\<close>)

lemma log_wf_clear: "log_wf l \<Longrightarrow> log_wf (l\<lparr>l_n := 0\<rparr>)"
  by (auto simp: log_wf_def)

lemma log_sel_clear [simp]:
  "hdr (l_n_update f l) = hdr l" "slot (l_n_update f l) = slot l" "home (l_n_update f l) = home l"
  "in_log (l_n_update f l) = in_log l"
  by (simp_all add: hdr_def slot_def home_def in_log_def fun_eq_iff)

lemma commit_spec:
  assumes r: "log_ready l c" and n: "0 < l_n l"
  shows "\<exists>c'. commit l c = Inr (l\<lparr>l_n := 0\<rparr>, c') \<and> idle c' \<and> pinned c' = {} \<and>
           content c' = apply_writes (commit_writes l (content c)) (content c) \<and>
           disk c' = apply_writes (commit_writes l (content c)) (disk c) \<and>
           wtrace c' = wtrace c @ commit_writes l (content c)"
proof -
  let ?l0 = "l\<lparr>l_n := 0\<rparr>" let ?n = "nat (l_n l)"
  have wf: "log_wf l" and c: "idle c" and pin: "pinned c = home l ` {..<?n}"
    using r by (auto simp: log_ready_def)
  note D = log_wfD [OF wf]
  have card: "card (pinned c) < NBUF"
    using card_image_le [of "{..<?n}" "home l"] D(11) by (simp add: pin)
  obtain c1 where c1: "write_log l c = Inr c1" "idle c1" "pinned c1 = pinned c"
      "content c1 = apply_writes (W_slots l (content c)) (content c)"
      "disk c1 = apply_writes (W_slots l (content c)) (disk c)"
      "wtrace c1 = wtrace c @ W_slots l (content c)"
    using write_log_spec [OF wf c pin] by blast
  have h1: "content c1 (hdr l) = content c (hdr l)"
    using D(10) by (simp add: c1(4) apply_writes_other image_iff)
  obtain c2 where c2: "write_head l c1 = Inr c2" "idle c2" "pinned c2 = pinned c1 - {hdr l}"
      "content c2 = apply_writes (W_head l (content c1)) (content c1)"
      "disk c2 = apply_writes (W_head l (content c1)) (disk c1)"
      "wtrace c2 = wtrace c1 @ W_head l (content c1)"
    using write_head_spec [OF wf c1(2)] c1(3) card by auto
  have "hdr l \<notin> pinned c1" using c1(3) pin D(9) by auto
  then have pin2: "pinned c2 = home l ` {..<?n}" using c2(3) c1(3) pin by simp
  have s2: "content c2 (slot l i) = content c (home l i)" if "i < ?n" for i
    using c2(4) c1(4) apply_W_slots [OF that] D(10) [of i] by (simp add: W_head_def)
  obtain c3 where c3: "install_trans l c2 = Inr c3" "idle c3" "pinned c3 = {}"
      "content c3 = apply_writes (W_homes l (content c2)) (content c2)"
      "disk c3 = apply_writes (W_homes l (content c2)) (disk c2)"
      "wtrace c3 = wtrace c2 @ W_homes l (content c2)"
    using install_trans_spec [OF wf c2(2)] pin2 by blast
  have w3: "W_homes l (content c2) = map (\<lambda>i. (home l i, content c (home l i))) [0..<?n]"
    using s2 by (simp add: W_homes_def)
  have "content c3 (hdr l) = content c2 (hdr l)"
    using D(9) by (simp add: c3(4) apply_writes_other image_iff)
  then have h3: "content c3 (hdr l) = head_of l (content c (hdr l))"
    using c2(4) h1 by (simp add: W_head_def)
  obtain c4 where c4: "write_head ?l0 c3 = Inr c4" "idle c4" "pinned c4 = pinned c3 - {hdr l}"
      "content c4 = apply_writes (W_head ?l0 (content c3)) (content c3)"
      "disk c4 = apply_writes (W_head ?l0 (content c3)) (disk c3)"
      "wtrace c4 = wtrace c3 @ W_head ?l0 (content c3)"
    using write_head_spec [OF log_wf_clear [OF wf] c3(2)] c3(3) by (auto simp: NBUF_def)
  have w4: "W_head ?l0 (content c3) = [(hdr l, head_of ?l0 (head_of l (content c (hdr l))))]"
    using h3 by (simp add: W_head_def)
  have w2: "W_head l (content c1) = [(hdr l, head_of l (content c (hdr l)))]"
    using h1 by (simp add: W_head_def)
  show ?thesis
    using n c1(1,4-) c2(1,4-) c3(1,3-) c4 w2 w3 w4 by (simp add: commit_def commit_writes_def)
qed

text \<open>The log a disk describes, and the writes of its recovery.\<close>

definition disk_log :: "log \<Rightarrow> (bkey \<Rightarrow> block) \<Rightarrow> log" where
  "disk_log l d =
     (let n = sint (get32 (d (hdr l)) 0) in
      l\<lparr>l_n := n, l_block := map (\<lambda>i. get32 (d (hdr l)) (4 + 4 * i)) [0..<nat n] @ drop (nat n) (l_block l)\<rparr>)"

definition recover_writes :: "log \<Rightarrow> (bkey \<Rightarrow> block) \<Rightarrow> (bkey \<times> block) list" where
  "recover_writes l d =
     (let l1 = disk_log l d in
      W_homes l1 d @ [(hdr l, head_of (l1\<lparr>l_n := 0\<rparr>) (d (hdr l)))])"

lemma disk_log_sel [simp]:
  "l_dev (disk_log l d) = l_dev l" "l_start (disk_log l d) = l_start l" "l_size (disk_log l d) = l_size l"
  "hdr (disk_log l d) = hdr l" "slot (disk_log l d) = slot l" "in_log (disk_log l d) = in_log l"
  by (simp_all add: disk_log_def Let_def hdr_def slot_def in_log_def fun_eq_iff)

lemma idle_content: "idle c \<Longrightarrow> pinned c = {} \<Longrightarrow> content c = disk c"
  using bc.clean_law by (simp add: idle_def fun_eq_iff)

lemma read_entries:
  "n \<le> length bs \<Longrightarrow>
   for_up n (\<lambda>i bs. if i \<ge> length bs then Inl OutOfBounds else Inr (bs[i := f i])) bs =
     Inr (map f [0..<n] @ drop n bs)"
proof (induction n)
  case (Suc n)
  then have "drop n bs = bs ! n # drop (Suc n) bs" by (simp add: Cons_nth_drop_Suc)
  with Suc show ?case by (simp add: list_update_append)
qed auto

lemma read_head_spec:
  assumes l: "length (l_block l) = LOGSIZE" and wf: "log_wf (disk_log l (disk c))"
    and c: "idle c" "pinned c = {}"
  shows "\<exists>c'. read_head l c = Inr (disk_log l (disk c), c') \<and> idle c' \<and> pinned c' = {} \<and>
           disk c' = disk c \<and> wtrace c' = wtrace c"
proof -
  have k: "valid_key (l_dev l, l_start l)" using log_wfD(1) [OF wf] by (simp add: hdr_def)
  obtain i c1 c' where r: "bread c (l_dev l) (l_start l) = Inr (i, c1)" "brelse c1 i = Inr c'"
      "buf_data c1 i = disk c (hdr l)" "idle c'" "pinned c' = {}" "disk c' = disk c" "wtrace c' = wtrace c"
    using bc.read_release [OF _ _ k, of c] c idle_content [OF c] by (auto simp: idle_def NBUF_def hdr_def)
  let ?n = "sint (get32 (disk c (hdr l)) 0)"
  have "nat ?n \<le> LOGSIZE" using wf by (simp add: log_wf_def disk_log_def Let_def)
  then show ?thesis
    using r l by (simp add: read_head_def Let_def read_entries disk_log_def)
qed

lemma recover_spec:
  assumes l: "length (l_block l) = LOGSIZE" and wf: "log_wf (disk_log l (disk c))"
    and c: "idle c" "pinned c = {}"
  shows "\<exists>c'. recover_from_log l c = Inr ((disk_log l (disk c))\<lparr>l_n := 0\<rparr>, c') \<and> idle c' \<and>
           pinned c' = {} \<and> disk c' = apply_writes (recover_writes l (disk c)) (disk c) \<and>
           wtrace c' = wtrace c @ recover_writes l (disk c)"
proof -
  let ?l = "disk_log l (disk c)"
  obtain c1 where c1: "read_head l c = Inr (?l, c1)" "idle c1" "pinned c1 = {}" "disk c1 = disk c"
      "wtrace c1 = wtrace c"
    using read_head_spec [OF assms] by blast
  have ct1: "content c1 = disk c" using idle_content c1 by simp
  obtain c2 where c2: "install_trans ?l c1 = Inr c2" "idle c2" "pinned c2 = {}"
      "disk c2 = apply_writes (W_homes ?l (disk c)) (disk c)"
      "wtrace c2 = wtrace c @ W_homes ?l (disk c)"
    using install_trans_spec [OF wf c1(2)] c1 ct1 by auto
  have ct2: "content c2 = disk c2" using idle_content c2 by simp
  have h: "disk c2 (hdr l) = disk c (hdr l)"
    using log_wfD(9) [OF wf] by (auto simp add: c2(4) apply_writes_other image_iff)
  obtain c3 where "write_head (?l\<lparr>l_n := 0\<rparr>) c2 = Inr c3" "idle c3" "pinned c3 = pinned c2 - {hdr l}"
      "disk c3 = apply_writes (W_head (?l\<lparr>l_n := 0\<rparr>) (disk c2)) (disk c2)"
      "wtrace c3 = wtrace c2 @ W_head (?l\<lparr>l_n := 0\<rparr>) (disk c2)"
    using write_head_spec [OF log_wf_clear [OF wf] c2(2)] c2(3) ct2 by (auto simp: NBUF_def)
  with c1 c2 h show ?thesis
    by (simp add: recover_from_log_def recover_writes_def Let_def W_head_def)
qed

section \<open>The crash argument\<close>

text \<open>Outside the log area a recovery changes exactly the home locations, to the logged blocks.\<close>

lemma recovered_home:
  assumes wf: "log_wf (disk_log l d)" and i: "i < nat (l_n (disk_log l d))"
  shows "apply_writes (recover_writes l d) d (home (disk_log l d) i) = d (slot l i)"
  using apply_homes [OF wf i] log_wfD(9) [OF wf i] by (simp add: recover_writes_def Let_def W_homes_def)

lemma recovered_other:
  assumes "k \<notin> home (disk_log l d) ` {..<nat (l_n (disk_log l d))}" "k \<noteq> hdr l"
  shows "apply_writes (recover_writes l d) d k = d k"
  using assms by (simp add: recover_writes_def Let_def apply_writes_other)

lemma disk_log_empty:
  "sint (get32 (d (hdr l)) 0) = 0 \<Longrightarrow> disk_log l d = l\<lparr>l_n := 0\<rparr>"
  by (simp add: disk_log_def)

lemma recovered_empty:
  assumes "sint (get32 (d (hdr l)) 0) = 0" "k \<noteq> hdr l"
  shows "apply_writes (recover_writes l d) d k = d k"
  using assms by (intro recovered_other) (simp_all add: disk_log_empty)

definition same_area :: "log \<Rightarrow> log \<Rightarrow> bool" where
  "same_area l m \<longleftrightarrow> l_dev m = l_dev l \<and> l_start m = l_start l \<and> l_size m = l_size l \<and>
     length (l_block m) = LOGSIZE"

lemma same_areaD:
  "same_area l m \<Longrightarrow> hdr m = hdr l" "same_area l m \<Longrightarrow> slot m = slot l" "same_area l m \<Longrightarrow> in_log m = in_log l"
  by (auto simp: same_area_def hdr_def slot_def in_log_def fun_eq_iff)

lemma disk_log_head_of:
  assumes m: "same_area l m" and wf: "log_wf l" and d: "d (hdr l) = head_of l b"
  shows "l_n (disk_log m d) = l_n l" "i < nat (l_n l) \<Longrightarrow> home (disk_log m d) i = home l i"
    "log_wf (disk_log m d)"
proof -
  have n0: "0 \<le> l_n l" "l_n l \<le> int LOGSIZE" "nat (l_n l) \<le> LOGSIZE" using wf by (auto simp: log_wf_def)
  have sn: "sint (get32 (d (hdr m)) 0) = l_n l"
    using d same_areaD(1) [OF m] n0 by (simp add: get_head_of sint_small)
  then show n: "l_n (disk_log m d) = l_n l" by (simp add: disk_log_def Let_def)
  have blk: "i < nat (l_n l) \<Longrightarrow> l_block (disk_log m d) ! i = l_block l ! i" for i
    using sn d same_areaD(1) [OF m] by (simp add: disk_log_def Let_def nth_append get_head_of)
  then show h: "i < nat (l_n l) \<Longrightarrow> home (disk_log m d) i = home l i" for i
    using m by (simp add: home_def same_area_def)
  have len: "length (l_block (disk_log m d)) = LOGSIZE"
    using m n0 sn by (simp add: disk_log_def Let_def same_area_def)
  have "take (nat (l_n l)) (l_block (disk_log m d)) = take (nat (l_n l)) (l_block l)"
    using blk n0(3) len wf by (auto simp: log_wf_def list_eq_iff_nth_eq)
  then show "log_wf (disk_log m d)"
    using wf h n len m by (simp add: log_wf_def same_area_def in_log_def)
qed

lemma log_wf_disk_empty:
  assumes "same_area l m" "log_wf l" "sint (get32 (d (hdr l)) 0) = 0"
  shows "log_wf (disk_log m d)"
proof -
  have "disk_log m d = m\<lparr>l_n := 0\<rparr>"
    using assms same_areaD(1) [OF assms(1)] by (simp add: disk_log_empty)
  with assms show ?thesis by (auto simp: same_area_def log_wf_def)
qed

lemma head_of_clear: "sint (get32 (head_of (l\<lparr>l_n := 0\<rparr>) b) 0) = 0"
  by (simp add: get_head_of)

text \<open>What a recovery finds on a disk that was written up to some point of a commit.\<close>

definition committed_to :: "log \<Rightarrow> (bkey \<Rightarrow> block) \<Rightarrow> bcache \<Rightarrow> log \<Rightarrow> bool" where
  "committed_to m d c l \<longleftrightarrow>
     (\<forall>k. \<not> in_log l k \<longrightarrow> apply_writes (recover_writes m d) d k = content c k)"

lemma target_disk:
  assumes "log_ready l c" "\<not> in_log l k" "k \<notin> home l ` {..<nat (l_n l)}"
  shows "disk c k = content c k"
  using assms bc.clean_law [of c k] by (simp add: log_ready_def idle_def)

lemma crash_before:
  assumes r: "log_ready l c" and m: "same_area l m" and e: "sint (get32 (disk c (hdr l)) 0) = 0"
    and p: "p @ q = W_slots l (content c)"
  shows "log_wf (disk_log m (apply_writes p (disk c)))"
    "\<not> in_log l k \<Longrightarrow> apply_writes (recover_writes m (apply_writes p (disk c))) (apply_writes p (disk c)) k = disk c k"
proof -
  have wf: "log_wf l" using r by (simp add: log_ready_def)
  note D = log_wfD [OF wf]
  have keys: "fst ` set p \<subseteq> slot l ` {..<nat (l_n l)}"
    using W_keys(1) [of l "content c"] p [symmetric] by auto
  then have "hdr l \<notin> fst ` set p" using D(10) by blast
  then have h: "apply_writes p (disk c) (hdr l) = disk c (hdr l)" by (rule apply_writes_other)
  then show "log_wf (disk_log m (apply_writes p (disk c)))"
    using log_wf_disk_empty [OF m wf] e by simp
  assume k: "\<not> in_log l k"
  then have "k \<notin> fst ` set p" "k \<noteq> hdr l" using keys D(2,7) by auto
  then show "apply_writes (recover_writes m (apply_writes p (disk c))) (apply_writes p (disk c)) k = disk c k"
    using recovered_empty [of "apply_writes p (disk c)" m k] same_areaD(1) [OF m] h e
    by (simp add: apply_writes_other)
qed

lemma crash_after:
  assumes r: "log_ready l c" and m: "same_area l m"
    and p: "p @ q = map (\<lambda>i. (home l i, content c (home l i))) [0..<nat (l_n l)]"
  defines "d \<equiv> apply_writes p (apply_writes [(hdr l, head_of l (content c (hdr l)))]
                 (apply_writes (W_slots l (content c)) (disk c)))"
  shows "log_wf (disk_log m d)" "committed_to m d c l"
proof -
  let ?n = "nat (l_n l)"
  have wf: "log_wf l" using r by (simp add: log_ready_def)
  note D = log_wfD [OF wf]
  have "fst ` set (p @ q) = home l ` {..<?n}" unfolding p by force
  then have keys: "fst ` set p \<subseteq> home l ` {..<?n}" by auto
  have nh: "hdr l \<notin> fst ` set p" using keys D(9) by blast
  then have h: "d (hdr l) = head_of l (content c (hdr l))" by (simp add: d_def apply_writes_other)
  note L = disk_log_head_of [OF m wf, of d "content c (hdr l)", OF h]
  show wfd: "log_wf (disk_log m d)" by (rule L(3))
  have sl: "d (slot l i) = content c (home l i)" if "i < ?n" for i
  proof -
    have "slot l i \<notin> fst ` set p" using keys D(8) [OF that] by force
    then show ?thesis
      using D(10) [of i] apply_W_slots [OF that] by (simp add: d_def apply_writes_other)
  qed
  have "apply_writes (recover_writes m d) d k = content c k" if k: "\<not> in_log l k" for k
  proof (cases "k \<in> home l ` {..<?n}")
    case True
    then obtain i where i: "i < ?n" "k = home l i" by auto
    with recovered_home [OF wfd, of i] L(1,2) same_areaD(2) [OF m] sl show ?thesis by simp
  next
    case False
    have "k \<noteq> hdr l" "k \<notin> fst ` set p" "k \<notin> slot l ` {..<?n}" using k D(2,7) keys False by auto
    then have "d k = content c k"
      using target_disk [OF r k False] by (simp add: d_def apply_writes_other)
    moreover have "home (disk_log m d) ` {..<?n} = home l ` {..<?n}" using L(2) by (intro image_cong) auto
    ultimately show ?thesis
      using recovered_other [of k m d] L(1) False \<open>k \<noteq> hdr l\<close> same_areaD(1) [OF m] by simp
  qed
  then show "committed_to m d c l" by (simp add: committed_to_def)
qed

lemma crash_end:
  assumes r: "log_ready l c" and m: "same_area l m"
  defines "d \<equiv> apply_writes (commit_writes l (content c)) (disk c)"
  shows "log_wf (disk_log m d)" "committed_to m d c l"
proof -
  let ?n = "nat (l_n l)"
  have wf: "log_wf l" using r by (simp add: log_ready_def)
  note D = log_wfD [OF wf]
  have h: "sint (get32 (d (hdr l)) 0) = 0" by (simp add: d_def commit_writes_def head_of_clear)
  then show "log_wf (disk_log m d)" by (rule log_wf_disk_empty [OF m wf])
  have "apply_writes (recover_writes m d) d k = content c k" if k: "\<not> in_log l k" for k
  proof -
    have kh: "k \<noteq> hdr l" "k \<notin> slot l ` {..<?n}" using k D(2,7) by auto
    have "d k = content c k"
    proof (cases "k \<in> home l ` {..<?n}")
      case True
      then show ?thesis using apply_homes [OF wf] kh by (auto simp: d_def commit_writes_def)
    next
      case False
      then have "k \<notin> fst ` (\<lambda>i. (home l i, content c (home l i))) ` {0..<?n}" by auto
      then show ?thesis
        using target_disk [OF r k False] kh by (simp add: d_def commit_writes_def apply_writes_other)
    qed
    then show ?thesis using recovered_empty [of d m k] h kh same_areaD(1) [OF m] by simp
  qed
  then show "committed_to m d c l" by (simp add: committed_to_def)
qed

lemma recover_binit:
  assumes "same_area l m" "log_wf (disk_log m d)"
  shows "\<exists>l' c'. recover_from_log m (binit d) = Inr (l', c') \<and> l_n l' = 0 \<and>
           disk c' = apply_writes (recover_writes m d) d \<and> wtrace c' = recover_writes m d \<and>
           sint (get32 (disk c' (hdr l)) 0) = 0"
proof -
  have b: "idle (binit d)" "disk (binit d) = d" "wtrace (binit d) = []"
    using binit_inv binit_views by (simp_all add: idle_def) (simp_all add: binit_def)
  then obtain c' where "recover_from_log m (binit d) = Inr ((disk_log m d)\<lparr>l_n := 0\<rparr>, c')"
      "disk c' = apply_writes (recover_writes m d) d" "wtrace c' = recover_writes m d"
    using recover_spec [of m "binit d"] assms binit_views by (auto simp: same_area_def)
  then show ?thesis
    using same_areaD(1) [OF assms(1)] by (simp add: recover_writes_def Let_def head_of_clear)
qed

text \<open>The split of a commit's writes at a crash: inside the slots, after the header, or complete.\<close>

lemma commit_split:
  assumes "p @ q = commit_writes l ct"
  obtains (slots) p' where "p @ p' = W_slots l ct" "length p \<le> nat (l_n l)"
    | (homes) p' q' where "p = W_slots l ct @ [(hdr l, head_of l (ct (hdr l)))] @ p'"
        "p' @ q' = map (\<lambda>i. (home l i, ct (home l i))) [0..<nat (l_n l)]" "nat (l_n l) < length p"
    | (all) "p = commit_writes l ct" "nat (l_n l) < length p"
proof -
  let ?H = "[(hdr l, head_of l (ct (hdr l)))]"
  let ?I = "map (\<lambda>i. (home l i, ct (home l i))) [0..<nat (l_n l)]"
  let ?E = "[(hdr l, head_of (l\<lparr>l_n := 0\<rparr>) (head_of l (ct (hdr l))))]"
  have len: "length (W_slots l ct) = nat (l_n l)" by (simp add: W_slots_def)
  have "p @ q = W_slots l ct @ ?H @ ?I @ ?E" using assms by (simp add: commit_writes_def)
  then show thesis
  proof (cases rule: prefix_cases)
    case (left p')
    moreover from left have "length p \<le> nat (l_n l)" using len by (metis length_append le_add1)
    ultimately show thesis using slots by blast
  next
    case (right p')
    show thesis
    proof (cases p')
      case Nil
      then show thesis using slots [of "[]"] right len by simp
    next
      case (Cons w p'')
      with right(2) have w: "[w] = ?H" "p'' @ q = ?I @ ?E" by auto
      have long: "nat (l_n l) < length p" using right(1) Cons len by simp
      from w(2) show thesis
      proof (cases rule: prefix_cases)
        case (left q')
        then show thesis using homes [of p'' q'] right(1) Cons w(1) long by simp
      next
        case (right r)
        then consider "r = []" | "r = ?E" by (cases r) auto
        then show thesis
        proof cases
          case 1
          then show thesis
            using homes [of p'' "[]"] right \<open>p = W_slots l ct @ p'\<close> Cons w(1) long by simp
        next
          case 2
          then show thesis
            using all right \<open>p = W_slots l ct @ p'\<close> Cons w(1) long by (simp add: commit_writes_def)
        qed
      qed
    qed
  qed
qed

section \<open>Properties\<close>

text \<open>
  C1. A commit is atomic under crashes. Take the log and the cache as \<open>end_op\<close> finds them (the log
  names the pinned blocks, nobody holds a buffer, the header on disk is empty). \<open>commit\<close> succeeds
  and appends a sequence of disk writes; if the machine stops after any prefix of it and reboots
  with a cold cache, \<open>recover_from_log\<close> succeeds, empties the log, and outside the log area leaves
  the disk as it was before the transaction when the prefix ends before the header write, and as
  the cache of the committed transaction shows it from the header write on.
\<close>

theorem commit_crash_atomic:
  assumes "log_ready l c" "0 < l_n l" "sint (get32 (disk c (hdr l)) 0) = 0" "same_area l m"
  shows "\<exists>c' ws. commit l c = Inr (l\<lparr>l_n := 0\<rparr>, c') \<and> wtrace c' = wtrace c @ ws \<and>
           disk c' = apply_writes ws (disk c) \<and>
           (\<forall>p q. p @ q = ws \<longrightarrow>
             (\<exists>l' r. recover_from_log m (binit (apply_writes p (disk c))) = Inr (l', r) \<and> l_n l' = 0 \<and>
               sint (get32 (disk r (hdr l)) 0) = 0 \<and>
               (\<forall>k. \<not> in_log l k \<longrightarrow>
                 disk r k = (if length p \<le> nat (l_n l) then disk c k else content c k))))"
proof -
  obtain c' where c': "commit l c = Inr (l\<lparr>l_n := 0\<rparr>, c')"
      "wtrace c' = wtrace c @ commit_writes l (content c)"
      "disk c' = apply_writes (commit_writes l (content c)) (disk c)"
    using commit_spec [OF assms(1,2)] by blast
  have "\<exists>l' r. recover_from_log m (binit (apply_writes p (disk c))) = Inr (l', r) \<and> l_n l' = 0 \<and>
          sint (get32 (disk r (hdr l)) 0) = 0 \<and>
          (\<forall>k. \<not> in_log l k \<longrightarrow> disk r k = (if length p \<le> nat (l_n l) then disk c k else content c k))"
    if "p @ q = commit_writes l (content c)" for p q
    using that
  proof (cases rule: commit_split)
    case (slots p')
    note b = crash_before [OF assms(1,4,3) slots(1)]
    from recover_binit [OF assms(4) b(1)] b(2) slots(2) show ?thesis by metis
  next
    case (homes p' q')
    note a = crash_after [OF assms(1,4) homes(2)]
    have "apply_writes p (disk c) = apply_writes p' (apply_writes [(hdr l, head_of l (content c (hdr l)))]
            (apply_writes (W_slots l (content c)) (disk c)))"
      by (simp add: homes(1))
    with a recover_binit [OF assms(4), of "apply_writes p (disk c)"] homes(3) show ?thesis
      unfolding committed_to_def by (metis not_less)
  next
    case all
    with crash_end [OF assms(1,4)] recover_binit [OF assms(4), of "apply_writes p (disk c)"] show ?thesis
      unfolding committed_to_def by (metis not_less)
  qed
  with c' show ?thesis by blast
qed

text \<open>A concrete transaction: block 50 holds new data, the log names it.\<close>

definition demo_log :: log where
  "demo_log = log_zero\<lparr>l_start := 2, l_size := 30, l_dev := 1, l_n := 1, l_block := 50 # replicate 29 0\<rparr>"

definition demo_cache :: bcache where
  "demo_cache = (binit (\<lambda>_ _. 0))\<lparr>bufs := \<lparr>b_valid = True, b_dirty = True, b_dev = 1, b_blockno = 50,
     b_locked = False, b_refcnt = 0, b_data = (\<lambda>_. 7)\<rparr> # tl (bufs (binit (\<lambda>_ _. 0)))\<rparr>"

lemma demo_ready: "log_ready demo_log demo_cache"
proof -
  have "bcache_inv demo_cache"
    by (auto simp: bcache_inv_def demo_cache_def binit_def mru_binit buf_ok_def nth_Cons
        valid_key_def bkey_of_def FSSIZE_def NBUF_def split: nat.splits)
  moreover have "{b \<in> set (bufs demo_cache). b_dirty b} = {bufs demo_cache ! 0}"
    by (auto simp: demo_cache_def binit_def)
  then have "pinned demo_cache = {(1, 50)}" by (simp add: pinned_def demo_cache_def bkey_of_def)
  moreover have "held_keys demo_cache = {}"
    by (auto simp: held_keys_def demo_cache_def binit_def)
  moreover have "log_wf demo_log"
    by (auto simp: log_wf_def demo_log_def log_zero_def LOGSIZE_def home_def in_log_def valid_key_def FSSIZE_def)
  ultimately show ?thesis
    by (simp add: log_ready_def idle_def demo_log_def home_def lessThan_Suc)
qed

lemma demo_empty: "sint (get32 (disk demo_cache (hdr demo_log)) 0) = 0" "disk demo_cache = (\<lambda>_ _. 0)"
  by (simp_all add: demo_cache_def binit_def get32_def)

theorem commit_crash_atomic_witness:
  "\<exists>c' ws. commit demo_log demo_cache = Inr (demo_log\<lparr>l_n := 0\<rparr>, c') \<and> wtrace c' = ws \<and>
     (\<forall>p q. p @ q = ws \<longrightarrow>
       (\<exists>l' r. recover_from_log demo_log (binit (apply_writes p (\<lambda>_ _. 0))) = Inr (l', r) \<and>
          disk r (1, 50) = (if length p \<le> 1 then \<lambda>_. 0 else content demo_cache (1, 50))))"
proof -
  have "same_area demo_log demo_log" by (simp add: same_area_def demo_log_def LOGSIZE_def)
  note t = commit_crash_atomic [OF demo_ready _ demo_empty(1) this]
  have "0 < l_n demo_log" "\<not> in_log demo_log (1, 50)" "nat (l_n demo_log) = 1" "wtrace demo_cache = []"
    by (simp_all add: demo_log_def in_log_def log_zero_def demo_cache_def binit_def)
  with t show ?thesis unfolding demo_empty(2) by (metis append_Nil)
qed

lemma recover_prefix:
  assumes wf: "log_wf (disk_log m d)" and p: "p @ p' = W_homes (disk_log m d) d"
  shows "disk_log m (apply_writes p d) = disk_log m d"
    "\<not> in_log m k \<Longrightarrow> apply_writes (recover_writes m (apply_writes p d)) (apply_writes p d) k =
       apply_writes (recover_writes m d) d k"
proof -
  let ?l = "disk_log m d" let ?n = "nat (l_n ?l)" let ?d = "apply_writes p d"
  note D = log_wfD [OF wf]
  have "fst ` set (p @ p') = home ?l ` {..<?n}" using p by simp
  then have keys: "fst ` set p \<subseteq> home ?l ` {..<?n}" by auto
  then have "hdr m \<notin> fst ` set p" using D(9) by fastforce
  then have "?d (hdr m) = d (hdr m)" by (rule apply_writes_other)
  then show l: "disk_log m ?d = ?l" by (simp add: disk_log_def)
  have sl: "?d (slot m i) = d (slot m i)" if "i < ?n" for i
  proof -
    have "slot m i \<notin> fst ` set p" using keys D(8) [OF that] by force
    then show ?thesis by (rule apply_writes_other)
  qed
  assume k: "\<not> in_log m k"
  show "apply_writes (recover_writes m ?d) ?d k = apply_writes (recover_writes m d) d k"
  proof (cases "k \<in> home ?l ` {..<?n}")
    case True
    then obtain i where "i < ?n" "k = home ?l i" by auto
    then show ?thesis
      using recovered_home [of m d i] recovered_home [of m ?d i] l sl wf by simp
  next
    case False
    have "k \<noteq> hdr m" "k \<notin> fst ` set p" using k D(2) keys False by auto
    then show ?thesis
      using recovered_other [of k m d] recovered_other [of k m ?d] l False
      by (simp add: apply_writes_other)
  qed
qed

text \<open>
  C11. Recovery itself survives crashes. For any disk whose header describes a valid log, let the
  machine stop after any prefix of the writes of a recovery: recovering again succeeds, leaves the
  log empty, and every block outside the log area ends as the uninterrupted recovery leaves it.
\<close>

theorem recovery_crash_idempotent:
  assumes "length (l_block m) = LOGSIZE" "log_wf (disk_log m d)"
  shows "\<exists>l' r. recover_from_log m (binit d) = Inr (l', r) \<and> l_n l' = 0 \<and>
           (\<forall>p q. p @ q = wtrace r \<longrightarrow>
             (\<exists>l2 r2. recover_from_log m (binit (apply_writes p d)) = Inr (l2, r2) \<and> l_n l2 = 0 \<and>
               (\<forall>k. \<not> in_log m k \<longrightarrow> disk r2 k = disk r k)))"
proof -
  let ?l = "disk_log m d"
  have m: "same_area m m" "same_area ?l m" using assms(1) by (simp_all add: same_area_def)
  obtain l' r where r: "recover_from_log m (binit d) = Inr (l', r)" "l_n l' = 0"
      "disk r = apply_writes (recover_writes m d) d" "wtrace r = recover_writes m d"
    using recover_binit [OF m(1) assms(2)] by blast
  have "log_wf (disk_log m (apply_writes p d)) \<and>
      (\<forall>k. \<not> in_log m k \<longrightarrow> apply_writes (recover_writes m (apply_writes p d)) (apply_writes p d) k = disk r k)"
    if "p @ q = wtrace r" for p q
  proof -
    let ?d = "apply_writes p d"
    have "p @ q = W_homes ?l d @ [(hdr m, head_of (?l\<lparr>l_n := 0\<rparr>) (d (hdr m)))]"
      using that r(4) by (simp add: recover_writes_def Let_def)
    then consider p' where "p @ p' = W_homes ?l d" | "p = recover_writes m d"
      by (cases rule: prefix_cases) (auto simp: recover_writes_def Let_def Cons_eq_append_conv append_eq_Cons_conv)
    then show ?thesis
    proof cases
      case 1
      show ?thesis using recover_prefix [OF assms(2) 1] assms(2) r(3) by simp
    next
      case 2
      have h: "sint (get32 (?d (hdr m)) 0) = 0"
        using 2 by (simp add: recover_writes_def Let_def head_of_clear)
      moreover have "k \<noteq> hdr m" if "\<not> in_log m k" for k using that log_wfD(2) [OF assms(2)] by auto
      ultimately have "apply_writes (recover_writes m ?d) ?d k = ?d k" if "\<not> in_log m k" for k
        using recovered_empty [of ?d m k] that by blast
      with log_wf_disk_empty [OF m(2) assms(2)] h 2 r(3) show ?thesis by simp
    qed
  qed
  with r recover_binit [OF m(1)] show ?thesis by metis
qed

theorem recovery_crash_idempotent_witness:
  "\<exists>l' r. recover_from_log demo_log (binit (\<lambda>_ _. 0)) = Inr (l', r) \<and> l_n l' = 0 \<and>
     (\<forall>p q. p @ q = wtrace r \<longrightarrow>
        (\<exists>l2 r2. recover_from_log demo_log (binit (apply_writes p (\<lambda>_ _. 0))) = Inr (l2, r2) \<and>
                 disk r2 (1, 50) = disk r (1, 50)))"
proof -
  have "length (l_block demo_log) = LOGSIZE" by (simp add: demo_log_def LOGSIZE_def)
  moreover have "log_wf (disk_log demo_log (\<lambda>_ _. 0))"
    by (auto simp: log_wf_def disk_log_def demo_log_def log_zero_def LOGSIZE_def FSSIZE_def get32_def)
  ultimately obtain l' r where t: "recover_from_log demo_log (binit (\<lambda>_ _. 0)) = Inr (l', r)" "l_n l' = 0"
      "\<And>p q. p @ q = wtrace r \<Longrightarrow>
         \<exists>l2 r2. recover_from_log demo_log (binit (apply_writes p (\<lambda>_ _. 0))) = Inr (l2, r2) \<and> l_n l2 = 0 \<and>
           (\<forall>k. \<not> in_log demo_log k \<longrightarrow> disk r2 k = disk r k)"
    using recovery_crash_idempotent [of demo_log "\<lambda>_ _. 0"] by metis
  have "\<not> in_log demo_log (1, 50)" by (simp add: demo_log_def in_log_def log_zero_def)
  with t show ?thesis by metis
qed

text \<open>
  \<open>log_write\<close> keeps the log ready: for a held buffer of a block outside the log area, with an
  operation outstanding and room in the log, it succeeds, leaves every block's content alone, adds
  the block to the log exactly when it is not there yet (absorption), and afterwards the pinned
  blocks are again exactly the logged ones.
\<close>

lemma log_write_keeps_ready:
  assumes wf: "log_wf l" and inv: "bcache_inv c" and h: "holds c b k" and k: "fst k = l_dev l" "\<not> in_log l k"
    and pin: "pinned c = home l ` {..<nat (l_n l)}"
    and ok: "1 \<le> l_outstanding l" "l_n l < l_size l - 1"
  shows "\<exists>l' c'. log_write l c b = Inr (l', c') \<and> log_wf l' \<and> bcache_inv c' \<and> content c' = content c \<and>
           holds c' b k \<and> pinned c' = home l' ` {..<nat (l_n l')} \<and>
           home l' ` {..<nat (l_n l')} = insert k (home l ` {..<nat (l_n l)}) \<and>
           l_n l' = (if k \<in> home l ` {..<nat (l_n l)} then l_n l else l_n l + 1)"
proof -
  let ?n = "nat (l_n l)" let ?bn = "b_blockno (bufs c ! b)" let ?w = "of_nat ?bn :: u32"
  note f = held_facts [OF inv h] and md = mark_dirty_spec [OF inv h]
  have sk: "snd k = ?bn" using f(2) by auto
  have uw: "unat ?w = ?bn"
    using f(5) sk by (simp add: valid_key_def FSSIZE_def unat_of_nat take_bit_nat_eq_self)
  have kw: "k = (l_dev l, unat ?w)" using k(1) sk uw by (cases k) auto
  have n: "0 \<le> l_n l" "l_n l < int LOGSIZE" "?n < LOGSIZE" "length (l_block l) = LOGSIZE"
    using wf ok by (auto simp: log_wf_def)
  have iff: "k \<in> home l ` {..<?n} \<longleftrightarrow> ?w \<in> set (take ?n (l_block l))"
    using n by (auto simp: kw home_def in_set_conv_nth image_iff word_unat_eq_iff [symmetric] Bex_def)
  have md': "bcache_inv (mark_dirty c b)" "content (mark_dirty c b) = content c" "holds (mark_dirty c b) b k"
      "pinned (mark_dirty c b) = insert k (pinned c)"
    using md(1,2,6) md(7) [of b k] h by auto
  show ?thesis
  proof (cases "k \<in> home l ` {..<?n}")
    case True
    with iff have "\<not> (\<forall>x\<in>set (take ?n (l_block l)). x \<noteq> ?w)" by auto
    then obtain i where i: "scan (\<lambda>w. w = ?w) (take ?n (l_block l)) = Some i"
      by (metis (mono_tags, lifting) not_None_eq scan_None_iff)
    then have "i < ?n" "l_block l ! i = ?w" using scan_SomeD [OF i] by auto
    then have "log_write l c b = Inr (l, mark_dirty c b)"
      using i n ok by (auto simp: log_write_def Let_def list_update_same_conv)
    with True wf md' pin show ?thesis by (simp add: insert_absorb)
  next
    case False
    with iff have "scan (\<lambda>w. w = ?w) (take ?n (l_block l)) = None" by (auto simp: scan_None_iff)
    moreover define l' where "l' = l\<lparr>l_block := (l_block l)[?n := ?w], l_n := l_n l + 1\<rparr>"
    ultimately have lw: "log_write l c b = Inr (l', mark_dirty c b)"
      using n ok by (simp add: log_write_def Let_def)
    have n': "nat (l_n l') = Suc ?n" using n by (simp add: l'_def)
    have hm: "home l' i = (if i = ?n then k else home l i)" for i
      using n by (simp add: l'_def home_def kw nth_list_update)
    then have hs: "home l' ` {..<nat (l_n l')} = insert k (home l ` {..<?n})"
      by (auto simp: n' lessThan_Suc image_iff)
    have "take (Suc ?n) (l_block l') = take ?n (l_block l) @ [?w]"
      using n by (simp add: l'_def take_Suc_conv_app_nth)
    then have "distinct (take (nat (l_n l')) (l_block l'))"
      using wf False iff n' by (simp add: log_wf_def)
    moreover have "in_log l' = in_log l" by (simp add: l'_def in_log_def fun_eq_iff)
    moreover have "valid_key (home l' i) \<and> \<not> in_log l (home l' i)" if "i < nat (l_n l')" for i
      using that hm n' f(5) k(2) log_wfD(4,5) [OF wf, of i] by (auto simp: less_Suc_eq)
    ultimately have "log_wf l'"
      using wf ok n by (simp add: log_wf_def) (simp add: l'_def)
    with lw md' hs pin False show ?thesis by (auto simp: l'_def)
  qed
qed

definition demo_log1 :: log where
  "demo_log1 = log_zero\<lparr>l_start := 2, l_size := 30, l_dev := 1, l_outstanding := 1\<rparr>"

lemma log_write_keeps_ready_witness:
  "\<exists>i c1 l' c'. bread (binit (\<lambda>_ _. 0)) 1 50 = Inr (i, c1) \<and> log_write demo_log1 c1 i = Inr (l', c') \<and>
     log_wf l' \<and> pinned c' = {(1, 50)} \<and> l_n l' = 1"
proof -
  have "valid_key (1, 50)" by (simp add: valid_key_def FSSIZE_def)
  then obtain i c1 where r: "bread (binit (\<lambda>_ _. 0)) 1 50 = Inr (i, c1)" "bcache_inv c1" "holds c1 i (1, 50)"
      "pinned c1 = {}"
    using bc.read_law [OF binit_inv, of 1 50 "\<lambda>_ _. 0"] binit_views by (auto simp: NBUF_def)
  have wf: "log_wf demo_log1" "\<not> in_log demo_log1 (1, 50)"
    by (auto simp: log_wf_def demo_log1_def log_zero_def LOGSIZE_def in_log_def FSSIZE_def)
  have n: "l_n demo_log1 = 0" "l_dev demo_log1 = 1" "l_size demo_log1 = 30" "l_outstanding demo_log1 = 1"
    by (simp_all add: demo_log1_def log_zero_def)
  from log_write_keeps_ready [OF wf(1) r(2,3) _ wf(2)] n r(4)
  obtain l' c' where "log_write demo_log1 c1 i = Inr (l', c')" "log_wf l'" "pinned c' = {(1, 50)}" "l_n l' = 1"
    by auto
  with r(1) show ?thesis by blast
qed

section \<open>Reservation of log space\<close>

text \<open>
  The system calls in progress and the number of blocks each may still log. An operation starts
  with \<open>MAXOPBLOCKS\<close>; the steps are the calls of \<open>begin_op\<close>, \<open>log_write\<close> and \<open>end_op\<close>, interleaved in any
  order and with any cache contents.
\<close>

inductive op_step :: "log \<times> nat list \<Rightarrow> log \<times> nat list \<Rightarrow> bool" where
  op_begin: "begin_op l = Some l' \<Longrightarrow> op_step (l, bs) (l', MAXOPBLOCKS # bs)"
| op_write: "i < length bs \<Longrightarrow> 0 < bs ! i \<Longrightarrow> log_write l c b = Inr (l', c') \<Longrightarrow>
    op_step (l, bs) (l', bs[i := bs ! i - 1])"
| op_end: "end_op l c = Inr (l', c') \<Longrightarrow> op_step (l, xs @ b # ys) (l', xs @ ys)"

inductive op_reach :: "int \<Rightarrow> log \<times> nat list \<Rightarrow> bool" for sz where
  reach_start: "l_n l = 0 \<Longrightarrow> l_outstanding l = 0 \<Longrightarrow> \<not> l_committing l \<Longrightarrow> l_size l = sz \<Longrightarrow>
    length (l_block l) = LOGSIZE \<Longrightarrow> op_reach sz (l, [])"
| reach_step: "op_reach sz s \<Longrightarrow> op_step s s' \<Longrightarrow> op_reach sz s'"

definition op_inv :: "int \<Rightarrow> log \<times> nat list \<Rightarrow> bool" where
  "op_inv sz = (\<lambda>(l, bs). l_outstanding l = int (length bs) \<and> (\<forall>b\<in>set bs. b \<le> MAXOPBLOCKS) \<and>
     0 \<le> l_n l \<and> l_n l + int (sum_list bs) \<le> int LOGSIZE \<and> \<not> l_committing l \<and> l_size l = sz)"

lemma log_write_sel:
  assumes "log_write l c b = Inr (l', c')"
  shows "l_outstanding l' = l_outstanding l" "l_committing l' = l_committing l" "l_size l' = l_size l"
    "l_n l' = l_n l \<or> l_n l' = l_n l + 1" "l_n l < l_size l - 1"
  using assms by (auto simp: log_write_def Let_def split: if_splits)

lemma commit_sel:
  assumes "commit l c = Inr (l', c')"
  shows "l' = l\<lparr>l_n := 0\<rparr> \<or> (l' = l \<and> l_n l \<le> 0)"
  using assms by (auto simp: commit_def res_iff split: if_splits)

lemma sum_le_budget: "\<forall>b\<in>set bs. b \<le> (m::nat) \<Longrightarrow> sum_list bs \<le> length bs * m"
  by (induction bs) auto

lemma sum_list_dec: "i < length bs \<Longrightarrow> 0 < bs ! i \<Longrightarrow> Suc (sum_list (bs[i := bs ! i - 1])) = sum_list (bs :: nat list)"
  using member_le_sum_list [of "bs ! i" bs] by (simp add: sum_list_update)

lemma op_inv_step:
  assumes "op_step s s'" "op_inv sz s"
  shows "op_inv sz s'"
  using assms
proof cases
  case (op_begin l l' bs)
  have "l_n l + (l_outstanding l + 1) * int MAXOPBLOCKS \<le> int LOGSIZE" "l' = l\<lparr>l_outstanding := l_outstanding l + 1\<rparr>"
    using op_begin(3) by (auto simp: begin_op_def split: if_splits)
  moreover have "int (sum_list bs) \<le> int (length bs) * int MAXOPBLOCKS"
    using assms(2) op_begin(1) sum_le_budget [of bs MAXOPBLOCKS] by (simp add: op_inv_def flip: of_nat_mult)
  ultimately show ?thesis using assms(2) op_begin(1,2) by (auto simp: op_inv_def algebra_simps)
next
  case (op_write i bs l c b l' c')
  have old: "\<forall>b\<in>set bs. b \<le> MAXOPBLOCKS" using assms(2) op_write(1) by (simp add: op_inv_def)
  have "bs ! i - 1 \<le> MAXOPBLOCKS" using old nth_mem [OF op_write(3)] by (meson diff_le_self le_trans)
  then have "\<forall>b\<in>set (bs[i := bs ! i - 1]). b \<le> MAXOPBLOCKS"
    using old set_update_subset_insert [of bs i "bs ! i - 1"] by blast
  then show ?thesis
    using assms(2) op_write(1,2) log_write_sel [OF op_write(5)] sum_list_dec [OF op_write(3,4)]
    by (auto simp: op_inv_def)
next
  case (op_end l c l' c' xs b ys)
  have "l_outstanding l' = l_outstanding l - 1 \<and> (l_n l' = l_n l \<or> l_n l' = 0) \<and> \<not> l_committing l' \<and> l_size l' = l_size l"
    using op_end(3) assms(2) op_end(1)
    by (auto simp: end_op_def Let_def op_inv_def res_iff dest!: commit_sel split: if_splits)
  with assms(2) op_end(1,2) show ?thesis by (auto simp: op_inv_def)
qed

lemma op_reach_inv: "op_reach sz s \<Longrightarrow> op_inv sz s"
proof (induction rule: op_reach.induct)
  case (reach_step s s')
  then show ?case using op_inv_step by blast
qed (simp add: op_inv_def)



text \<open>
  With the log \<open>mkfs\<close> makes, of \<open>LOGSIZE\<close> blocks header included, the reservation is one block
  short: the calls reach a state in which an operation with budget left calls \<open>log_write\<close> on a
  buffer and the kernel panics.
\<close>

lemma log_write_panics_at_mkfs_size:
  "\<exists>l bs i. op_reach (int LOGSIZE) (l, bs) \<and> i < length bs \<and> 0 < bs ! i \<and>
     (\<forall>c b. log_write l c b = Inl (Panic ''too big a transaction''))"
proof -
  let ?l0 = "log_zero\<lparr>l_size := 30\<rparr>"
  have b: "op_step (l, bs) (l\<lparr>l_outstanding := int k\<rparr>, 10 # bs)"
    if "l_outstanding l = int k - 1" "l_n l = 0" "\<not> l_committing l" "k \<le> 3" for l bs k
    using op_begin [of l "l\<lparr>l_outstanding := int k\<rparr>" bs] that
    by (simp add: begin_op_def MAXOPBLOCKS_def LOGSIZE_def)
  have "op_reach 30 (?l0, [])" by (rule reach_start) (simp_all add: log_zero_def)
  from reach_step [OF reach_step [OF reach_step [OF this b [of _ 1]] b [of _ 2]] b [of _ 3]]
  have start: "op_reach 30 (?l0\<lparr>l_outstanding := 3\<rparr>, [10, 10, 10])" by (simp add: log_zero_def)
  have "\<exists>l bs. op_reach 30 (l, bs) \<and> l_n l = int m \<and> sum_list bs = 30 - m \<and> l_outstanding l = 3 \<and>
          l_size l = 30 \<and> length (l_block l) = 30 \<and> (\<forall>w\<in>set (take m (l_block l)). unat w < 100 + m)"
    if "m \<le> 29" for m
    using that
  proof (induction m)
    case 0
    then show ?case using start by (intro exI conjI) (auto simp: log_zero_def LOGSIZE_def)
  next
    case (Suc m)
    then obtain l bs where IH: "op_reach 30 (l, bs)" "l_n l = int m" "sum_list bs = 30 - m" "l_outstanding l = 3"
        "l_size l = 30" "length (l_block l) = 30" "\<forall>w\<in>set (take m (l_block l)). unat w < 100 + m"
      by auto
    have "0 < sum_list bs" using IH(3) Suc.prems by simp
    then obtain i where i: "i < length bs" "0 < bs ! i"
      by (metis in_set_conv_nth gr_zeroI sum_list_eq_0_iff)
    let ?c = "upd_buf 0 (\<lambda>b. b\<lparr>b_blockno := 100 + m\<rparr>) (binit (\<lambda>_ _. 0))"
    let ?w = "of_nat (100 + m) :: u32" let ?l = "l\<lparr>l_block := (l_block l)[m := ?w], l_n := l_n l + 1\<rparr>"
    have uw: "unat ?w = 100 + m" using Suc.prems by (simp only: unat_of_nat take_bit_nat_def) simp
    then have "\<forall>w\<in>set (take m (l_block l)). w \<noteq> ?w" using IH(7) by auto
    then have "scan (\<lambda>w. w = ?w) (take m (l_block l)) = None" by (simp add: scan_None_iff)
    then have "log_write l ?c 0 = Inr (?l, mark_dirty ?c 0)"
      using IH Suc.prems by (simp add: log_write_def Let_def LOGSIZE_def nth_upd_buf binit_def NBUF_def)
    from reach_step [OF IH(1) op_write [OF i this]]
    have "op_reach 30 (?l, bs[i := bs ! i - 1])" .
    moreover have "set (take (Suc m) (l_block ?l)) = insert ?w (set (take m (l_block l)))"
      using IH(6) Suc.prems by (simp add: take_Suc_conv_app_nth)
    ultimately show ?case
      using IH uw sum_list_dec [OF i] by (intro exI [of _ ?l] exI [of _ "bs[i := bs ! i - 1]"]) auto
  qed
  from this [of 29] obtain l bs where l: "op_reach 30 (l, bs)" "l_n l = 29" "sum_list bs = 1" "l_size l = 30"
    by auto
  then have "0 < sum_list bs" by simp
  then obtain i where "i < length bs" "0 < bs ! i"
    by (metis in_set_conv_nth gr_zeroI sum_list_eq_0_iff)
  moreover have "log_write l c b = Inl (Panic ''too big a transaction'')" for c b
    using l by (simp add: log_write_def Let_def)
  ultimately show ?thesis using l(1) by (auto simp: LOGSIZE_def)
qed

end
