(* ===== verification/Ring.thy ===== *)
theory Ring
  imports OS_Prelude
begin

text \<open>
  Ring buffers addressed by free-running 32-bit counters: the pipe and the console input both keep
  an array of \<open>N\<close> entries and reduce the counters modulo \<open>N\<close> at each access. The counters wrap around
  at \<open>2^32\<close>, which is harmless because \<open>N\<close> divides it: this is the contract of the locale \<open>ring\<close>.
\<close>

definition ring_seq :: "nat \<Rightarrow> 'a list \<Rightarrow> u32 \<Rightarrow> u32 \<Rightarrow> 'a list" where
  "ring_seq N buf a b = map (\<lambda>i. buf ! ((unat a + i) mod N)) [0..<unat (b - a)]"

lemma length_ring_seq [simp]: "length (ring_seq N buf a b) = unat (b - a)"
  by (simp add: ring_seq_def)

lemma ring_seq_empty: "ring_seq N buf a b = [] \<longleftrightarrow> a = b"
  by (auto simp: ring_seq_def unat_eq_0)

lemma unat_diff_Suc:
  fixes a b :: u32
  assumes "unat (b - a) + 1 < 2 ^ 32"
  shows "unat (b + 1 - a) = unat (b - a) + 1"
proof -
  have eq: "b + 1 - a = (b - a) + 1" by simp
  show ?thesis unfolding eq using unat_Suc32 assms by blast
qed

lemma unat_diff_pred:
  fixes a b :: u32
  assumes "a \<noteq> b"
  shows "unat (b - (a + 1)) = unat (b - a) - 1" "unat (b - 1 - a) = unat (b - a) - 1" "0 < unat (b - a)"
proof -
  have "b - a \<noteq> 0" using assms by simp
  then show pos: "0 < unat (b - a)" by (simp add: unat_gt_0)
  have eq: "b - (a + 1) = (b - a) - 1" "b - 1 - a = (b - a) - 1" by simp_all
  show "unat (b - (a + 1)) = unat (b - a) - 1" "unat (b - 1 - a) = unat (b - a) - 1"
    unfolding eq using unat_diff32 [of 1 "b - a"] pos by (simp_all add: Suc_leI)
qed

lemma unat_split: "unat (b::u32) = (unat a + unat (b - a)) mod 2 ^ 32"
  using unat_word_ariths(1) [of a "b - a"] by simp

locale ring =
  fixes N :: nat
  assumes N_pos: "0 < N" and N_dvd: "N dvd 2 ^ 32" and N_less: "N < 2 ^ 31"
begin

lemma unat_N: "unat (of_nat N :: u32) = N"
  using N_less by (simp add: unat_of_nat take_bit_nat_eq_self)

lemma index: "unat ((w::u32) mod of_nat N) = unat w mod N"
  by (simp add: unat_mod unat_N)

lemma mod_add: "unat (b::u32) mod N = (unat a + unat (b - a)) mod N"
  unfolding unat_split [of b a] using N_dvd by (simp add: mod_mod_cancel)

lemma mod_Suc: "(unat ((a::u32) + 1) + i) mod N = (unat a + Suc i) mod N"
proof -
  have "unat (a + 1) mod N = (unat a + 1) mod N" using mod_add [of "a + 1" a] by simp
  then show ?thesis by (metis add.assoc mod_add_left_eq plus_1_eq_Suc)
qed

lemma full_iff: "(b::u32) = a + of_nat N \<longleftrightarrow> unat (b - a) = N"
proof -
  have "b = a + of_nat N \<longleftrightarrow> b - a = of_nat N" by (auto simp: algebra_simps)
  also have "\<dots> \<longleftrightarrow> unat (b - a) = unat (of_nat N :: u32)" by (rule word_unat_eq_iff)
  finally show ?thesis by (simp add: unat_N)
qed

lemma less_iff: "(b::u32) - a < of_nat N \<longleftrightarrow> unat (b - a) < N"
  by (simp add: word_less_nat_alt unat_N)

lemma distinct_slots: "i < n \<Longrightarrow> n < N \<Longrightarrow> (k + i) mod N \<noteq> (k + n) mod N"
proof
  assume "i < n" "n < N" and eq: "(k + i) mod N = (k + n) mod N"
  then have "N dvd (k + n) - (k + i)" by (metis mod_eq_dvd_iff_nat add_le_mono le_refl less_imp_le_nat)
  then show False using \<open>i < n\<close> \<open>n < N\<close> by (auto dest: dvd_imp_le)
qed

lemma push:
  assumes "length buf = N" "unat (b - a) < N"
  shows "ring_seq N (buf[unat (b mod of_nat N) := x]) a (b + 1) = ring_seq N buf a b @ [x]"
    "unat (b + 1 - a) = unat (b - a) + 1"
proof -
  let ?n = "unat (b - a)"
  show s: "unat (b + 1 - a) = ?n + 1" using assms(2) N_less by (intro unat_diff_Suc) simp
  have "buf[(unat a + ?n) mod N := x] ! ((unat a + i) mod N) = buf ! ((unat a + i) mod N)" if "i < ?n" for i
    using distinct_slots [OF that assms(2)] by (metis nth_list_update_neq)
  then show "ring_seq N (buf[unat (b mod of_nat N) := x]) a (b + 1) = ring_seq N buf a b @ [x]"
    using assms(1) N_pos s by (simp add: ring_seq_def index mod_add [of b a])
qed

lemma pop_front:
  assumes "a \<noteq> b"
  shows "ring_seq N buf a b = buf ! unat (a mod of_nat N) # ring_seq N buf (a + 1) b"
proof -
  obtain m where m: "unat (b - a) = Suc m" using unat_diff_pred(3) [OF assms] by (cases "unat (b - a)") auto
  have "[0..<Suc m] = 0 # map Suc [0..<m]" by (simp add: upt_conv_Cons map_Suc_upt del: upt_Suc)
  then show ?thesis
    using unat_diff_pred(1) [OF assms] m by (simp add: ring_seq_def index mod_Suc comp_def del: upt_Suc)
qed

lemma pop_back:
  assumes "a \<noteq> b"
  shows "ring_seq N buf a b = ring_seq N buf a (b - 1) @ [buf ! unat ((b - 1) mod of_nat N)]"
proof -
  obtain m where m: "unat (b - a) = Suc m" using unat_diff_pred(3) [OF assms] by (cases "unat (b - a)") auto
  then have "unat (b - 1 - a) = m" using unat_diff_pred(2) [OF assms] by simp
  then show ?thesis using m mod_add [of "b - 1" a] by (simp add: ring_seq_def index)
qed

lemma split_seq:
  assumes "unat (w - a) + unat (b - w) = unat (b - a)"
  shows "ring_seq N buf a b = ring_seq N buf a w @ ring_seq N buf w b"
proof -
  have "(unat w + i) mod N = (unat a + (unat (w - a) + i)) mod N" for i
    using mod_add [of w a] by (metis add.assoc mod_add_left_eq)
  then show ?thesis
    unfolding ring_seq_def assms [symmetric] upt_add_eq_append [OF le0] map_append
    by (simp add: map_add_upt [symmetric] comp_def ac_simps)
qed

end

end
