(* ===== verification/Pipe.thy ===== *)
theory Pipe
  imports Ring
begin

text \<open>
  Pipes, \<open>xv6-public/pipe.c\<close>: a ring buffer of 512 bytes with free-running 32-bit counters. A call
  runs until it returns or goes to sleep; a writer that sleeps keeps the bytes it has not written
  yet and, woken up, tests the loop condition again, which is the same as calling \<open>pipewrite\<close> with
  the rest. The abstract pipe is a FIFO queue of bytes.
\<close>

section \<open>Model\<close>

definition PIPESIZE :: nat where "PIPESIZE = 512"

record pipe =
  p_data :: "u8 list"
  nread :: u32
  nwrite :: u32
  readopen :: bool
  writeopen :: bool

text \<open>The part of \<open>pipealloc\<close> that initialises the page.\<close>

definition pipe_init :: "u8 list \<Rightarrow> pipe" where
  "pipe_init page = \<lparr>p_data = take PIPESIZE page, nread = 0, nwrite = 0, readopen = True, writeopen = True\<rparr>"

text \<open>\<open>True\<close> as second component: both ends are closed and the page is freed.\<close>

definition pipeclose :: "pipe \<Rightarrow> bool \<Rightarrow> pipe \<times> bool" where
  "pipeclose p writable =
     (let p1 = (if writable then p\<lparr>writeopen := False\<rparr> else p\<lparr>readopen := False\<rparr>)
      in (p1, \<not> readopen p1 \<and> \<not> writeopen p1))"

datatype outcome = Returns | Fails | Sleeps

fun pipewrite :: "bool \<Rightarrow> u8 list \<Rightarrow> pipe \<Rightarrow> outcome \<times> u8 list \<times> pipe" where
  "pipewrite killed [] p = (Returns, [], p)"
| "pipewrite killed (b # bs) p =
     (if nwrite p = nread p + of_nat PIPESIZE
      then (if \<not> readopen p \<or> killed then (Fails, b # bs, p) else (Sleeps, b # bs, p))
      else pipewrite killed bs
             (p\<lparr>p_data := (p_data p)[unat (nwrite p mod of_nat PIPESIZE) := b], nwrite := nwrite p + 1\<rparr>))"

fun read_loop :: "nat \<Rightarrow> pipe \<Rightarrow> u8 list \<times> pipe" where
  "read_loop 0 p = ([], p)"
| "read_loop (Suc n) p =
     (if nread p = nwrite p then ([], p)
      else let c = p_data p ! unat (nread p mod of_nat PIPESIZE);
               (cs, p') = read_loop n (p\<lparr>nread := nread p + 1\<rparr>)
           in (c # cs, p'))"

definition piperead :: "bool \<Rightarrow> nat \<Rightarrow> pipe \<Rightarrow> outcome \<times> u8 list \<times> pipe" where
  "piperead killed n p =
     (if nread p = nwrite p \<and> writeopen p
      then (if killed then (Fails, [], p) else (Sleeps, [], p))
      else let (cs, p') = read_loop n p in (Returns, cs, p'))"

section \<open>The queue in the ring\<close>

definition pipe_inv :: "pipe \<Rightarrow> bool" where
  "pipe_inv p \<longleftrightarrow> length (p_data p) = PIPESIZE \<and> unat (nwrite p - nread p) \<le> PIPESIZE"

definition queue :: "pipe \<Rightarrow> u8 list" where
  "queue p = ring_seq PIPESIZE (p_data p) (nread p) (nwrite p)"

interpretation pr: ring PIPESIZE
  by unfold_locales (simp_all add: PIPESIZE_def)

lemma queue_full: "nwrite p = nread p + of_nat PIPESIZE \<longleftrightarrow> length (queue p) = PIPESIZE"
  by (simp add: pr.full_iff queue_def)

lemma empty_iff: "nread p = nwrite p \<longleftrightarrow> queue p = []"
  by (simp add: queue_def ring_seq_empty)

lemma queue_write:
  fixes b :: u8
  assumes inv: "pipe_inv p" and room: "length (queue p) < PIPESIZE"
    and p': "p' = p\<lparr>p_data := (p_data p)[unat (nwrite p mod of_nat PIPESIZE) := b], nwrite := nwrite p + 1\<rparr>"
  shows "pipe_inv p'" "queue p' = queue p @ [b]"
  using pr.push(1) [of "p_data p" "nwrite p" "nread p" b] pr.push(2) [of "p_data p" "nwrite p" "nread p"] inv room
  by (simp_all add: p' pipe_inv_def queue_def)

lemma queue_read:
  assumes inv: "pipe_inv p" and ne: "nread p \<noteq> nwrite p"
  shows "pipe_inv (p\<lparr>nread := nread p + 1\<rparr>)"
    "queue p = p_data p ! unat (nread p mod of_nat PIPESIZE) # queue (p\<lparr>nread := nread p + 1\<rparr>)"
  using pr.pop_front [OF ne] unat_diff_pred(1) [OF ne] inv by (auto simp: pipe_inv_def queue_def)

lemma pipewrite_spec:
  "pipe_inv p \<Longrightarrow> pipewrite killed bs p = (r, rest, p') \<Longrightarrow>
   pipe_inv p' \<and> (\<exists>done. bs = done @ rest \<and> queue p' = queue p @ done) \<and>
   readopen p' = readopen p \<and> writeopen p' = writeopen p \<and>
   (r = Returns \<longleftrightarrow> rest = []) \<and>
   (rest \<noteq> [] \<longrightarrow> length (queue p') = PIPESIZE \<and> (r = Fails \<longleftrightarrow> \<not> readopen p \<or> killed))"
proof (induction killed bs p rule: pipewrite.induct)
  case (2 killed b bs p)
  show ?case
  proof (cases "nwrite p = nread p + of_nat PIPESIZE")
    case True
    then show ?thesis using 2 queue_full by (auto split: if_splits)
  next
    case False
    define q where q: "q = p\<lparr>p_data := (p_data p)[unat (nwrite p mod of_nat PIPESIZE) := b], nwrite := nwrite p + 1\<rparr>"
    have "length (queue p) < PIPESIZE"
      using False queue_full [of p] 2(2) by (simp add: pipe_inv_def queue_def)
    note w = queue_write [OF 2(2) this q]
    from False 2(3) have "pipewrite killed bs q = (r, rest, p')" by (simp add: q)
    with 2(1) [OF False] w(1) have IH: "pipe_inv p' \<and> (\<exists>done. bs = done @ rest \<and> queue p' = queue q @ done) \<and>
       readopen p' = readopen q \<and> writeopen p' = writeopen q \<and> (r = Returns \<longleftrightarrow> rest = []) \<and>
       (rest \<noteq> [] \<longrightarrow> length (queue p') = PIPESIZE \<and> (r = Fails \<longleftrightarrow> \<not> readopen q \<or> killed))"
      by (simp add: q)
    then obtain dn where "bs = dn @ rest" "queue p' = queue q @ dn" by blast
    then have "b # bs = (b # dn) @ rest \<and> queue p' = queue p @ (b # dn)" using w(2) by simp
    with IH show ?thesis by (auto simp: q)
  qed
qed simp

lemma read_loop_spec:
  "pipe_inv p \<Longrightarrow> read_loop n p = (cs, p') \<Longrightarrow>
   pipe_inv p' \<and> cs = take n (queue p) \<and> queue p' = drop n (queue p) \<and>
   readopen p' = readopen p \<and> writeopen p' = writeopen p"
proof (induction n p arbitrary: cs p' rule: read_loop.induct)
  case (2 n p)
  show ?case
  proof (cases "nread p = nwrite p")
    case True
    with 2(2,3) show ?thesis using empty_iff [of p] by simp
  next
    case False
    note q = queue_read [OF 2(2) False]
    obtain ds q' where l: "read_loop n (p\<lparr>nread := nread p + 1\<rparr>) = (ds, q')" by fastforce
    from 2(1) [OF False refl q(1) l]
    have IH: "pipe_inv q' \<and> ds = take n (queue (p\<lparr>nread := nread p + 1\<rparr>)) \<and>
        queue q' = drop n (queue (p\<lparr>nread := nread p + 1\<rparr>)) \<and> readopen q' = readopen p \<and> writeopen q' = writeopen p"
      by simp
    have "cs = p_data p ! unat (nread p mod of_nat PIPESIZE) # ds" "p' = q'"
      using False 2(3) l by (simp_all add: Let_def)
    with IH q(2) show ?thesis by simp
  qed
qed simp

lemma pipewrite_queue:
  assumes "pipe_inv p" and w: "pipewrite killed bs p = (r, rest, p')"
  shows "pipe_inv p' \<and> bs = take (length bs - length rest) bs @ rest \<and>
      queue p' = queue p @ take (length bs - length rest) bs \<and> length (queue p') \<le> PIPESIZE \<and>
      r = (if rest = [] then Returns else if \<not> readopen p \<or> killed then Fails else Sleeps) \<and>
      (rest \<noteq> [] \<longrightarrow> length (queue p') = PIPESIZE)"
proof -
  note sp = pipewrite_spec [OF assms]
  from sp obtain dn where d: "bs = dn @ rest" "queue p' = queue p @ dn" by blast
  have "r = (if rest = [] then Returns else if \<not> readopen p \<or> killed then Fails else Sleeps)"
  proof (cases "rest = []")
    case False
    with sp have "r \<noteq> Returns" "r = Fails \<longleftrightarrow> \<not> readopen p \<or> killed" by auto
    with False show ?thesis by (cases r) auto
  qed (use sp in simp)
  moreover have "length (queue p') \<le> PIPESIZE" using sp by (simp add: pipe_inv_def queue_def)
  ultimately show ?thesis using sp d by simp
qed

lemma piperead_queue:
  assumes "pipe_inv p" "piperead killed n p = (r, cs, p')"
  shows "pipe_inv p' \<and> queue p = cs @ queue p' \<and>
      (if queue p = [] \<and> writeopen p then r = (if killed then Fails else Sleeps) \<and> cs = []
       else r = Returns \<and> length cs = min n (length (queue p)))"
  using assms(2) read_loop_spec [OF assms(1), of n] assms(1)
  by (auto simp: piperead_def empty_iff split: if_splits prod.splits)

section \<open>Properties\<close>

text \<open>
  C32. A pipe is a bounded FIFO queue, whatever the free-running counters are, wrap-around at
  \<open>2^32\<close> included. A run of \<open>pipewrite\<close> appends the bytes it consumes, in order, and never overwrites
  unread ones; it returns exactly when it has written everything, fails only on a full pipe without
  a reader (or when killed), and sleeps only on a full pipe. \<open>piperead\<close> sleeps or fails only on an empty
  pipe that has a writer, and otherwise takes the first bytes off the queue.
\<close>

theorem pipe_is_bounded_queue:
  assumes "pipe_inv p"
  shows "(case pipewrite killed bs p of (r, rest, p') \<Rightarrow>
      pipe_inv p' \<and> bs = take (length bs - length rest) bs @ rest \<and>
      queue p' = queue p @ take (length bs - length rest) bs \<and> length (queue p') \<le> PIPESIZE \<and>
      r = (if rest = [] then Returns else if \<not> readopen p \<or> killed then Fails else Sleeps) \<and>
      (rest \<noteq> [] \<longrightarrow> length (queue p') = PIPESIZE)) \<and>
    (case piperead killed n p of (r, cs, p') \<Rightarrow>
      pipe_inv p' \<and> queue p = cs @ queue p' \<and>
      (if queue p = [] \<and> writeopen p then r = (if killed then Fails else Sleeps) \<and> cs = []
       else r = Returns \<and> length cs = min n (length (queue p))))"
proof -
  obtain r rest p1 where w: "pipewrite killed bs p = (r, rest, p1)" by (rule prod_cases3)
  obtain r2 cs p2 where rd: "piperead killed n p = (r2, cs, p2)" by (rule prod_cases3)
  show ?thesis unfolding w rd prod.case using pipewrite_queue [OF assms w] piperead_queue [OF assms rd] by blast
qed

definition demo_pipe :: pipe where
  "demo_pipe = \<lparr>p_data = replicate 512 0, nread = - 1, nwrite = - 1, readopen = True, writeopen = True\<rparr>"

theorem pipe_is_bounded_queue_witness:
  "queue (snd (snd (pipewrite False [1, 2, 3] demo_pipe))) = [1, 2, 3]"
proof -
  have "pipe_inv demo_pipe" "queue demo_pipe = []"
    by (simp_all add: pipe_inv_def demo_pipe_def PIPESIZE_def queue_def ring_seq_def)
  moreover obtain p' where "pipewrite False [1, 2, 3] demo_pipe = (Returns, [], p')"
    by (simp add: demo_pipe_def PIPESIZE_def)
  ultimately show ?thesis using pipe_is_bounded_queue [of demo_pipe "[1, 2, 3]" False] by simp
qed

text \<open>Readers and writers interleaved, with what was written and what was read so far.\<close>

inductive pipe_step :: "pipe \<times> u8 list \<times> u8 list \<Rightarrow> pipe \<times> u8 list \<times> u8 list \<Rightarrow> bool" where
  step_write: "pipewrite killed bs p = (r, rest, p') \<Longrightarrow>
    pipe_step (p, ws, rs) (p', ws @ take (length bs - length rest) bs, rs)"
| step_read: "piperead killed n p = (r, cs, p') \<Longrightarrow> pipe_step (p, ws, rs) (p', ws, rs @ cs)"
| step_close: "pipeclose p w = (p', freed) \<Longrightarrow> pipe_step (p, ws, rs) (p', ws, rs)"

text \<open>
  C39. Over any interleaving of writes, reads and closes, from a fresh pipe, the bytes read so far
  followed by those still in the ring are exactly the bytes written so far, in order.
\<close>

theorem pipe_fifo:
  assumes "pipe_step\<^sup>*\<^sup>* (pipe_init page, [], []) (p, ws, rs)" "PIPESIZE \<le> length page"
  shows "ws = rs @ queue p"
proof -
  have "pipe_inv p \<and> ws = rs @ queue p"
    using assms(1)
  proof (induction "(p, ws, rs)" arbitrary: p ws rs rule: rtranclp_induct)
    case base
    then show ?case using assms(2) by (simp add: pipe_inv_def pipe_init_def queue_def ring_seq_def)
  next
    case (step s)
    obtain p0 ws0 rs0 where s: "s = (p0, ws0, rs0)" by (cases s)
    then have IH: "pipe_inv p0" "ws0 = rs0 @ queue p0" using step(3) by simp_all
    from step(2) show ?case unfolding s
    proof cases
      case step_write
      with pipewrite_queue [OF IH(1) step_write(3)] IH(2) show ?thesis by simp
    next
      case step_read
      with piperead_queue [OF IH(1) step_read(3)] IH(2) show ?thesis by simp
    next
      case step_close
      with IH show ?thesis by (auto simp: pipeclose_def Let_def pipe_inv_def queue_def)
    qed
  qed
  then show ?thesis by simp
qed

theorem pipe_fifo_witness:
  "\<exists>p. pipe_step\<^sup>*\<^sup>* (pipe_init (replicate 512 0), [], []) (p, [1, 2, 3], [1, 2]) \<and> queue p = [3]"
proof -
  let ?p0 = "pipe_init (replicate 512 0)"
  let ?p1 = "snd (snd (pipewrite False [1, 2, 3] ?p0))"
  let ?p2 = "snd (snd (piperead False (Suc (Suc 0)) ?p1))"
  have "pipewrite False [1, 2, 3] ?p0 = (Returns, [], ?p1)"
    by (simp add: pipe_init_def PIPESIZE_def)
  from step_write [OF this, of "[]" "[]"] have s1: "pipe_step (?p0, [], []) (?p1, [1, 2, 3], [])" by simp
  have "piperead False (Suc (Suc 0)) ?p1 = (Returns, [1, 2], ?p2)"
    by (simp add: piperead_def pipe_init_def PIPESIZE_def)
  from step_read [OF this, of "[1, 2, 3]" "[]"] s1
  have r: "pipe_step\<^sup>*\<^sup>* (?p0, [], []) (?p2, [1, 2, 3], [1, 2])" by simp
  from pipe_fifo [OF this] have "queue ?p2 = [3]" by (simp add: PIPESIZE_def)
  with r show ?thesis by blast
qed

end
