(* ===== verification/Console.thy ===== *)
theory Console
  imports Ring
begin

text \<open>
  The console of \<open>xv6-public/console.c\<close>: the CGA screen behind \<open>cgaputc\<close>, the serial line as the
  list of bytes sent, the input ring with its read, write and edit indices, \<open>consoleintr\<close> for a
  stream of key codes, \<open>consoleread\<close> and \<open>consolewrite\<close>. The abstract input is a line editor: a list of
  committed characters and a list of characters that can still be edited. Locking and wakeups are
  not part of the model; \<open>consoleread\<close> runs until it returns or sleeps.
\<close>

section \<open>Screen\<close>

unbundle bit_operations_syntax

type_synonym u16 = "16 word"

record screen =
  crt :: "nat \<Rightarrow> u16"
  cursor :: u16

definition BACKSPACE :: int where "BACKSPACE = 256"

definition cga_cell :: "int \<Rightarrow> u16" where
  "cga_cell c = (word_of_int c AND 0xff) OR 0x0700"

text \<open>\<open>cursor\<close> is the pair of CRT registers 14 and 15.\<close>

definition cgaputc :: "int \<Rightarrow> screen \<Rightarrow> screen res" where
  "cgaputc c s =
     (let pos = int (unat (cursor s));
          (pos1, m1) =
            (if c = 10 then (pos + (80 - pos mod 80), crt s)
             else if c = BACKSPACE then (if pos > 0 then pos - 1 else pos, crt s)
             else (pos + 1, (crt s)(nat pos := cga_cell c)))
      in if pos1 < 0 \<or> pos1 > 25 * 80 then Inl (Panic ''pos under/overflow'')
         else
           let (pos2, m2) =
             (if pos1 div 80 \<ge> 24
              then let m = (\<lambda>i. if i < 23 * 80 then m1 (i + 80) else m1 i); q = pos1 - 80
                   in (q, \<lambda>i. if nat q \<le> i \<and> i < 24 * 80 then 0 else m i)
              else (pos1, m1))
           in Inr (s\<lparr>crt := m2(nat pos2 := cga_cell 32), cursor := word_of_int pos2\<rparr>))"

section \<open>Input\<close>

definition INPUT_BUF :: nat where "INPUT_BUF = 128"

record input =
  i_buf :: "u8 list"
  i_r :: u32
  i_w :: u32
  i_e :: u32

record console = input +
  scr :: screen
  uart :: "u8 list"

definition consputc :: "int \<Rightarrow> 'a console_scheme \<Rightarrow> 'a console_scheme res" where
  "consputc c s =
     (let s1 = (if c = BACKSPACE then s\<lparr>uart := uart s @ [8, 32, 8]\<rparr> else s\<lparr>uart := uart s @ [word_of_int c]\<rparr>)
      in bindR (cgaputc c (scr s1)) (\<lambda>sc. Inr (s1\<lparr>scr := sc\<rparr>)))"

text \<open>\<open>C('x')\<close>: control characters.\<close>

definition CtlP :: int where "CtlP = 16"
definition CtlU :: int where "CtlU = 21"
definition CtlH :: int where "CtlH = 8"
definition CtlD :: int where "CtlD = 4"

lemma consputc_sel:
  assumes "consputc c s = Inr s'"
  shows "i_e s' = i_e s" "i_w s' = i_w s" "i_r s' = i_r s" "i_buf s' = i_buf s"
  using assms by (auto simp: consputc_def Let_def res_iff)

text \<open>The loop of \<open>C('U')\<close>; at most \<open>INPUT_BUF\<close> characters are between the two indices.\<close>

function kill_line :: "console \<Rightarrow> console res" where
  "kill_line s =
     (if i_e s \<noteq> i_w s \<and> i_buf s ! unat ((i_e s - 1) mod of_nat INPUT_BUF) \<noteq> 10
      then bindR (consputc BACKSPACE (s\<lparr>i_e := i_e s - 1\<rparr>)) kill_line
      else Inr s)"
  by auto
termination
proof (relation "measure (\<lambda>s. unat (i_e s - i_w s))")
  fix s t :: console
  assume g: "i_e s \<noteq> i_w s \<and> i_buf s ! unat ((i_e s - 1) mod of_nat INPUT_BUF) \<noteq> 10"
    and c: "consputc BACKSPACE (s\<lparr>i_e := i_e s - 1\<rparr>) = Inr t"
  from consputc_sel [OF c] have t: "i_e t - i_w t = i_e s - i_w s - 1" by simp
  have "i_e s - i_w s \<noteq> 0" using g by simp
  then have "0 < unat (i_e s - i_w s)" by (simp add: unat_gt_0)
  then show "(t, s) \<in> measure (\<lambda>s. unat (i_e s - i_w s))"
    unfolding in_measure t using unat_diff32 [of 1 "i_e s - i_w s"] by (simp add: Suc_leI)
qed simp

definition intr_key :: "int \<Rightarrow> console \<Rightarrow> console res" where
  "intr_key c s =
     (if c = CtlP then Inr s
      else if c = CtlU then kill_line s
      else if c = CtlH \<or> c = 127
      then (if i_e s \<noteq> i_w s then consputc BACKSPACE (s\<lparr>i_e := i_e s - 1\<rparr>) else Inr s)
      else if c \<noteq> 0 \<and> i_e s - i_r s < of_nat INPUT_BUF
      then let c' = (if c = 13 then 10 else c);
               s1 = s\<lparr>i_buf := (i_buf s)[unat (i_e s mod of_nat INPUT_BUF) := word_of_int c'], i_e := i_e s + 1\<rparr>
           in bindR (consputc c' s1) (\<lambda>s2.
              if c' = 10 \<or> c' = CtlD \<or> i_e s2 = i_r s2 + of_nat INPUT_BUF
              then Inr (s2\<lparr>i_w := i_e s2\<rparr>) else Inr s2)
      else Inr s)"

text \<open>The key codes a call of \<open>consoleintr\<close> gets from its \<open>getc\<close>, up to a negative one; the
  boolean asks for a process dump.\<close>

fun consoleintr :: "int list \<Rightarrow> console \<Rightarrow> (bool \<times> console) res" where
  "consoleintr [] s = Inr (False, s)"
| "consoleintr (c # cs) s =
     (if c < 0 then Inr (False, s)
      else bindR (intr_key c s) (\<lambda>s1.
           bindR (consoleintr cs s1) (\<lambda>(d, s2). Inr (c = CtlP \<or> d, s2))))"

text \<open>\<open>target\<close> is the caller's count, \<open>n\<close> what is left of it.\<close>

datatype cread = RDone | RKilled | RSleep

fun consoleread :: "nat \<Rightarrow> bool \<Rightarrow> nat \<Rightarrow> 'a input_scheme \<Rightarrow> cread \<times> u8 list \<times> 'a input_scheme" where
  "consoleread target killed 0 s = (RDone, [], s)"
| "consoleread target killed (Suc n) s =
     (if i_r s = i_w s then (if killed then (RKilled, [], s) else (RSleep, [], s))
      else let c = i_buf s ! unat (i_r s mod of_nat INPUT_BUF); s1 = s\<lparr>i_r := i_r s + 1\<rparr> in
           if c = 4 then (if Suc n < target then (RDone, [], s1\<lparr>i_r := i_r s1 - 1\<rparr>) else (RDone, [], s1))
           else if c = 10 then (RDone, [c], s1)
           else let (r, cs, s2) = consoleread target killed n s1 in (r, c # cs, s2))"

fun consolewrite :: "u8 list \<Rightarrow> 'a console_scheme \<Rightarrow> 'a console_scheme res" where
  "consolewrite [] s = Inr s"
| "consolewrite (b # bs) s = bindR (consputc (uint b) s) (consolewrite bs)"

section \<open>The screen\<close>

definition screen_ok :: "screen \<Rightarrow> bool" where
  "screen_ok s \<longleftrightarrow> unat (cursor s) < 24 * 80"

text \<open>The cells before the cursor.\<close>

definition shown :: "screen \<Rightarrow> u16 list" where
  "shown s = map (crt s) [0..<unat (cursor s)]"

lemma unat_cursor: "0 \<le> x \<Longrightarrow> x < 2000 \<Longrightarrow> unat (word_of_int x :: u16) = nat x"
  by (simp add: unat_eq_nat_uint uint_word_of_int_eq take_bit_int_eq_self)

definition move :: "int \<Rightarrow> nat \<Rightarrow> nat" where
  "move c p = (if c = 10 then p + (80 - p mod 80) else if c = BACKSPACE then p - 1 else p + 1)"

definition put_cell :: "int \<Rightarrow> screen \<Rightarrow> nat \<Rightarrow> u16" where
  "put_cell c s = (if c = 10 \<or> c = BACKSPACE then crt s else (crt s)(unat (cursor s) := cga_cell c))"

lemma move_bound: "p < 24 * 80 \<Longrightarrow> move c p \<le> 24 * 80"
proof -
  assume "p < 24 * 80"
  then have "p div 80 \<le> 23" by simp
  then have "p + (80 - p mod 80) \<le> 24 * 80"
    using mult_div_mod_eq [of 80 p] mod_less_divisor [of 80 p] by linarith
  with \<open>p < 24 * 80\<close> show ?thesis by (auto simp: move_def)
qed

lemma move_int:
  "(if c = 10 then (int p + (80 - int p mod 80), x)
    else if c = BACKSPACE then (if int p > 0 then int p - 1 else int p, x)
    else (int p + 1, x(nat (int p) := y))) =
   (int (move c p), if c = 10 \<or> c = BACKSPACE then x else x(p := y))"
  by (auto simp: move_def of_nat_diff zmod_int)

lemma map_scroll:
  assumes "q \<le> n" "k \<le> n" "p = (if q = n then q - k else q)" "\<forall>i<p. m i = f (if q = n then i + k else i)"
  shows "map m [0..<p] = (if q = n then drop k (map f [0..<q]) else map f [0..<q])"
  using assms by (auto intro!: nth_equalityI simp: add.commute)

lemma cgaputc_eq:
  fixes c :: int
  assumes ok: "screen_ok s"
    and q_def: "q = move c (unat (cursor s))"
    and p_def: "p = (if q = 24 * 80 then 23 * 80 else q)"
  shows "\<exists>s' m. cgaputc c s = Inr s' \<and> crt s' = m(p := cga_cell 32) \<and> unat (cursor s') = p \<and>
           (\<forall>i<p. m i = put_cell c s (if q = 24 * 80 then i + 80 else i))"
proof -
  have le: "q \<le> 24 * 80" using ok move_bound [of "unat (cursor s)" c] by (simp add: q_def screen_ok_def)
  have step: "cgaputc c s =
      (let (pos2, m2) =
         (if int q div 80 \<ge> 24
          then let m = (\<lambda>i. if i < 23 * 80 then put_cell c s (i + 80) else put_cell c s i); q' = int q - 80
               in (q', \<lambda>i. if nat q' \<le> i \<and> i < 24 * 80 then 0 else m i)
          else (int q, put_cell c s))
       in Inr (s\<lparr>crt := m2(nat pos2 := cga_cell 32), cursor := word_of_int pos2\<rparr>))"
    using le unfolding cgaputc_def Let_def [of "int (unat (cursor s))"] move_int put_cell_def [symmetric]
      q_def [symmetric] by simp
  show ?thesis
  proof (cases "q = 24 * 80")
    case True
    then have p: "p = 23 * 80" "int q div 80 \<ge> 24" "int q - 80 = int p" by (simp_all add: p_def)
    define m where "m = (\<lambda>i. if p \<le> i \<and> i < 24 * 80 then 0
                            else if i < 1840 then put_cell c s (i + 80) else put_cell c s i)"
    have "cgaputc c s = Inr (s\<lparr>crt := m(p := cga_cell 32), cursor := word_of_int (int p)\<rparr>)"
      using p(2) unfolding step p(3) m_def by (simp add: Let_def)
    moreover have "\<forall>i<p. m i = put_cell c s (i + 80)" using p(1) by (simp add: m_def)
    moreover have "unat (word_of_int (int p) :: u16) = p" using unat_cursor [of "int p"] p(1) by simp
    ultimately show ?thesis using True by auto
  next
    case False
    then have "p = q" "\<not> int q div 80 \<ge> 24" "q < 24 * 80" using le by (simp_all add: p_def)
    then have "cgaputc c s = Inr (s\<lparr>crt := (put_cell c s)(p := cga_cell 32), cursor := word_of_int (int p)\<rparr>)"
      unfolding step by simp
    moreover have "unat (word_of_int (int p) :: u16) = p"
      using unat_cursor [of "int p"] \<open>p = q\<close> \<open>q < 24 * 80\<close> by simp
    ultimately show ?thesis using False by auto
  qed
qed

lemma cgaputc_spec:
  assumes ok: "screen_ok s"
  shows "\<exists>s'. cgaputc c s = Inr s' \<and> screen_ok s' \<and> crt s' (unat (cursor s')) = cga_cell 32 \<and>
           shown s' = (let t = map (put_cell c s) [0..<move c (unat (cursor s))]
                       in if length t = 24 * 80 then drop 80 t else t)"
proof -
  define q where "q = move c (unat (cursor s))"
  define p where "p = (if q = 24 * 80 then 23 * 80 else q)"
  obtain s' m where s': "cgaputc c s = Inr s'" "crt s' = m(p := cga_cell 32)" "unat (cursor s') = p"
      "\<forall>i<p. m i = put_cell c s (if q = 24 * 80 then i + 80 else i)"
    using cgaputc_eq [OF ok q_def p_def] by blast
  have le: "q \<le> 24 * 80" using ok move_bound by (simp add: screen_ok_def q_def)
  have "shown s' = map m [0..<p]" using s'(2,3) by (simp add: shown_def)
  also have "\<dots> = (if q = 24 * 80 then drop 80 (map (put_cell c s) [0..<q]) else map (put_cell c s) [0..<q])"
    by (rule map_scroll [OF le _ _ s'(4)]) (simp_all add: p_def)
  finally have "shown s' = (let t = map (put_cell c s) [0..<q] in if length t = 24 * 80 then drop 80 t else t)"
    by (simp only: Let_def length_map length_upt diff_zero)
  moreover have "p < 24 * 80" using le by (simp add: p_def)
  ultimately show ?thesis using s' by (auto simp: screen_ok_def q_def)
qed

lemma shown_put:
  "map (put_cell c s) [0..<move c (unat (cursor s))] =
     (if c = 10 then shown s @ map (crt s) [unat (cursor s)..<unat (cursor s) + (80 - unat (cursor s) mod 80)]
      else if c = BACKSPACE then butlast (shown s) else shown s @ [cga_cell c])"
proof -
  have "map f [0..<p + k] = map f [0..<p] @ map f [p..<p + k]" for p k and f :: "nat \<Rightarrow> u16"
    by (simp only: upt_add_eq_append [OF le0] map_append)
  note nl = this [of _ "unat (cursor s)" "80 - unat (cursor s) mod 80"]
  have "[0..<p - 1] = butlast [0..<p]" for p :: nat by (cases p) auto
  then show ?thesis
    by (simp add: put_cell_def move_def shown_def map_butlast BACKSPACE_def nl del: diff_add_assoc2 Nat.add_diff_assoc)
qed



section \<open>The line editor\<close>

interpretation ir: ring INPUT_BUF
  by unfold_locales (simp_all add: INPUT_BUF_def)

definition ready :: "'a input_scheme \<Rightarrow> u8 list" where
  "ready s = ring_seq INPUT_BUF (i_buf s) (i_r s) (i_w s)"

definition editing :: "'a input_scheme \<Rightarrow> u8 list" where
  "editing s = ring_seq INPUT_BUF (i_buf s) (i_w s) (i_e s)"

definition input_inv :: "'a input_scheme \<Rightarrow> bool" where
  "input_inv s \<longleftrightarrow> length (i_buf s) = INPUT_BUF \<and>
     unat (i_w s - i_r s) + unat (i_e s - i_w s) = unat (i_e s - i_r s) \<and>
     unat (i_e s - i_r s) \<le> INPUT_BUF \<and> 10 \<notin> set (editing s)"

definition con_inv :: "console \<Rightarrow> bool" where
  "con_inv s \<longleftrightarrow> input_inv s \<and> screen_ok (scr s)"

text \<open>The editor: what a key does to the committed and the editable characters.\<close>

fun edit_key :: "int \<Rightarrow> u8 list \<times> u8 list \<Rightarrow> u8 list \<times> u8 list" where
  "edit_key c (rd, ed) =
     (if c = CtlP then (rd, ed)
      else if c = CtlU then (rd, [])
      else if c = CtlH \<or> c = 127 then (rd, butlast ed)
      else if c \<noteq> 0 \<and> length (rd @ ed) < INPUT_BUF
      then let x = (if c = 13 then 10 else word_of_int c); ed' = ed @ [x]
           in if x = 10 \<or> x = 4 \<or> length (rd @ ed') = INPUT_BUF then (rd @ ed', []) else (rd, ed')
      else (rd, ed))"

lemma consputc_ok:
  assumes "screen_ok (scr s)"
  shows "\<exists>s'. consputc c s = Inr s' \<and> screen_ok (scr s') \<and> input.truncate s' = input.truncate s"
  using cgaputc_spec [of "scr s" c] assms
  by (auto simp: consputc_def Let_def input.truncate_def)

lemma input_cong:
  assumes "input.truncate s = input.truncate t"
  shows "ready s = ready t" "editing s = editing t" "input_inv s = input_inv t"
    "i_r s = i_r t" "i_w s = i_w t" "i_e s = i_e t" "i_buf s = i_buf t"
  using assms by (auto simp: input.truncate_def ready_def editing_def input_inv_def)

lemma back_one:
  assumes inv: "input_inv s" and ne: "i_e s \<noteq> i_w s"
  defines "t \<equiv> s\<lparr>i_e := i_e s - 1\<rparr>"
  shows "input_inv t" "ready t = ready s" "editing s = editing t @ [i_buf s ! unat ((i_e s - 1) mod of_nat INPUT_BUF)]"
proof -
  note d = unat_diff_pred(2,3) [OF ne [symmetric]]
  have re: "i_r s \<noteq> i_e s" using d(2) inv by (auto simp: input_inv_def)
  show ed: "editing s = editing t @ [i_buf s ! unat ((i_e s - 1) mod of_nat INPUT_BUF)]"
    using ir.pop_back [OF ne [symmetric]] by (simp add: editing_def t_def)
  show "ready t = ready s" by (simp add: ready_def t_def)
  have "10 \<notin> set (editing t)" using inv ed by (auto simp: input_inv_def)
  then show "input_inv t"
    using inv d unat_diff_pred(2) [OF re] by (simp add: input_inv_def) (simp add: t_def, linarith)
qed

lemma back_one_con:
  assumes inv: "con_inv s" and ne: "i_e s \<noteq> i_w s"
  shows "\<exists>s'. consputc BACKSPACE (s\<lparr>i_e := i_e s - 1\<rparr>) = Inr s' \<and> con_inv s' \<and> ready s' = ready s \<and>
           editing s = editing s' @ [i_buf s ! unat ((i_e s - 1) mod of_nat INPUT_BUF)]"
proof -
  let ?t = "s\<lparr>i_e := i_e s - 1\<rparr>"
  have ii: "input_inv s" using inv by (simp add: con_inv_def)
  obtain s' where s': "consputc BACKSPACE ?t = Inr s'" "screen_ok (scr s')"
      "input.truncate s' = input.truncate ?t"
    using consputc_ok [of ?t BACKSPACE] inv by (auto simp: con_inv_def)
  note c = input_cong [OF s'(3)] and b = back_one [OF ii ne]
  have "con_inv s'" using s'(2) b(1) c(3) by (simp add: con_inv_def)
  moreover have "ready s' = ready s" using b(2) c(1) by simp
  moreover have "editing s = editing s' @ [i_buf s ! unat ((i_e s - 1) mod of_nat INPUT_BUF)]"
    using b(3) c(2) by simp
  ultimately show ?thesis using s'(1) by blast
qed

lemma editing_empty: "i_e s = i_w s \<longleftrightarrow> editing s = []"
  by (auto simp: editing_def ring_seq_empty)

lemma kill_line_ok:
  "con_inv s \<Longrightarrow> \<exists>s'. kill_line s = Inr s' \<and> con_inv s' \<and> ready s' = ready s \<and> editing s' = []"
proof (induction s rule: kill_line.induct)
  case (1 s)
  show ?case
  proof (cases "i_e s = i_w s")
    case True
    with 1(2) editing_empty [of s] show ?thesis by (subst kill_line.simps) simp
  next
    case False
    obtain t where t: "consputc BACKSPACE (s\<lparr>i_e := i_e s - 1\<rparr>) = Inr t" "con_inv t" "ready t = ready s"
        "editing s = editing t @ [i_buf s ! unat ((i_e s - 1) mod of_nat INPUT_BUF)]"
      using back_one_con [OF 1(2) False] by blast
    have "10 \<notin> set (editing s)" using 1(2) by (simp add: con_inv_def input_inv_def)
    with t(4) False have g: "i_e s \<noteq> i_w s \<and> i_buf s ! unat ((i_e s - 1) mod of_nat INPUT_BUF) \<noteq> 10"
      by auto
    then have "kill_line s = kill_line t" by (subst kill_line.simps) (simp only: if_True t(1) bindR_simps simp_thms)
    with 1(1) [OF g t(1,2)] t(3) show ?thesis by simp
  qed
qed

lemma lengths:
  assumes "input_inv s"
  shows "length (ready s @ editing s) = unat (i_e s - i_r s)"
  using assms by (simp add: ready_def editing_def input_inv_def)

lemma put_char:
  assumes inv: "input_inv s" and room: "unat (i_e s - i_r s) < INPUT_BUF"
  defines "t \<equiv> \<lambda>x. s\<lparr>i_buf := (i_buf s)[unat (i_e s mod of_nat INPUT_BUF) := x], i_e := i_e s + 1\<rparr>"
  shows "ready (t x) = ready s" "editing (t x) = editing s @ [x]"
    "x \<noteq> 10 \<Longrightarrow> input_inv (t x)"
    "input_inv (t x\<lparr>i_w := i_e s + 1\<rparr>)" "ready (t x\<lparr>i_w := i_e s + 1\<rparr>) = ready s @ editing s @ [x]"
    "editing (t x\<lparr>i_w := i_e s + 1\<rparr>) = []"
    "i_e (t x) = i_r (t x) + of_nat INPUT_BUF \<longleftrightarrow> length (ready s @ editing s @ [x]) = INPUT_BUF"
proof -
  let ?buf = "i_buf (t x)"
  have len: "length (i_buf s) = INPUT_BUF"
    and sum: "unat (i_w s - i_r s) + unat (i_e s - i_w s) = unat (i_e s - i_r s)"
    using inv by (auto simp: input_inv_def)
  then have r2: "unat (i_e s - i_w s) < INPUT_BUF" using room by simp
  note p1 = ir.push [OF len room] and p2 = ir.push [OF len r2]
  have all: "ring_seq INPUT_BUF ?buf (i_r s) (i_e s + 1) = ready s @ editing s @ [x]"
    using p1(1) [of x] ir.split_seq [OF sum] by (simp add: t_def ready_def editing_def)
  have ed: "ring_seq INPUT_BUF ?buf (i_w s) (i_e s + 1) = editing s @ [x]"
    using p2(1) [of x] by (simp add: t_def editing_def)
  then show e: "editing (t x) = editing s @ [x]" by (simp add: editing_def) (simp add: t_def)
  have sum': "unat (i_w s - i_r s) + unat (i_e s + 1 - i_w s) = unat (i_e s + 1 - i_r s)"
    using p1(2) p2(2) sum by simp
  from ir.split_seq [OF this, of ?buf] all ed
  have "ring_seq INPUT_BUF ?buf (i_r s) (i_w s) = ready s" by simp
  then show "ready (t x) = ready s" by (simp add: ready_def) (simp add: t_def)
  show "x \<noteq> 10 \<Longrightarrow> input_inv (t x)"
    using e inv sum' p1(2) room len by (simp add: input_inv_def) (simp add: t_def)
  show e0: "editing (t x\<lparr>i_w := i_e s + 1\<rparr>) = []" by (simp add: editing_def ring_seq_empty t_def)
  show "input_inv (t x\<lparr>i_w := i_e s + 1\<rparr>)"
    using e0 p1(2) room len by (simp add: input_inv_def) (simp add: t_def)
  show "ready (t x\<lparr>i_w := i_e s + 1\<rparr>) = ready s @ editing s @ [x]"
    using all by (simp add: ready_def) (simp add: t_def)
  show "i_e (t x) = i_r (t x) + of_nat INPUT_BUF \<longleftrightarrow> length (ready s @ editing s @ [x]) = INPUT_BUF"
    using p1(2) lengths [OF inv] by (simp add: t_def ir.full_iff)
qed

lemma byte_eq:
  assumes "0 \<le> c" "c < 256" "k < 256"
  shows "(word_of_int c :: u8) = of_nat k \<longleftrightarrow> c = int k"
proof -
  have "uint (word_of_int c :: u8) = c" "uint (of_nat k :: u8) = int k"
    using assms by (simp_all add: uint_word_of_int_eq take_bit_int_eq_self unsigned_of_nat take_bit_nat_eq_self)
  then show ?thesis by (metis word_uint_eq_iff)
qed

lemma byte_10_4:
  assumes "0 \<le> c" "c < 256"
  shows "(word_of_int c :: u8) = 10 \<longleftrightarrow> c = 10" "(word_of_int c :: u8) = 4 \<longleftrightarrow> c = 4"
  using byte_eq [OF assms, of 10] byte_eq [OF assms, of 4] by simp_all

lemma intr_key_sim:
  assumes inv: "con_inv s" and c: "0 \<le> c" "c < 256"
  shows "\<exists>s'. intr_key c s = Inr s' \<and> con_inv s' \<and> (ready s', editing s') = edit_key c (ready s, editing s)"
proof -
  have ii: "input_inv s" and sc: "screen_ok (scr s)" using inv by (auto simp: con_inv_def)
  note len = lengths [OF ii]
  consider "c = CtlP" | "c = CtlU" | "c = CtlH \<or> c = 127"
    | (put) "c \<notin> {CtlP, CtlU, CtlH, 127}" "c \<noteq> 0" "unat (i_e s - i_r s) < INPUT_BUF"
    | (drop) "c \<notin> {CtlP, CtlU, CtlH, 127}" "c = 0 \<or> \<not> unat (i_e s - i_r s) < INPUT_BUF"
    by blast
  then show ?thesis
  proof cases
    case 1
    with inv show ?thesis by (simp add: intr_key_def)
  next
    case 2
    then have "intr_key c s = kill_line s" by (simp add: intr_key_def CtlP_def CtlU_def)
    with kill_line_ok [OF inv] 2 show ?thesis by (auto simp: CtlP_def CtlU_def)
  next
    case 3
    then have k: "intr_key c s = (if i_e s \<noteq> i_w s then consputc BACKSPACE (s\<lparr>i_e := i_e s - 1\<rparr>) else Inr s)"
        "edit_key c (ready s, editing s) = (ready s, butlast (editing s))"
      by (auto simp: intr_key_def CtlP_def CtlU_def CtlH_def)
    show ?thesis
    proof (cases "i_e s = i_w s")
      case True
      with k inv editing_empty [of s] show ?thesis by (simp del: edit_key.simps)
    next
      case False
      from back_one_con [OF inv False] show ?thesis unfolding k using False by (auto simp del: edit_key.simps)
    qed
  next
    case put
    define c' where "c' = (if c = 13 then 10 else c)"
    define x :: u8 where "x = word_of_int c'"
    let ?t = "s\<lparr>i_buf := (i_buf s)[unat (i_e s mod of_nat INPUT_BUF) := x], i_e := i_e s + 1\<rparr>"
    note pc = put_char [OF ii put(3), of x]
    have cc: "0 \<le> c'" "c' < 256" "x = 10 \<longleftrightarrow> c' = 10" "x = 4 \<longleftrightarrow> c' = 4"
      using c byte_10_4 [of c'] by (auto simp: c'_def x_def)
    obtain t where t: "consputc c' ?t = Inr t" "screen_ok (scr t)" "input.truncate t = input.truncate ?t"
      using consputc_ok [of ?t c'] sc by auto
    note tc = input_cong [OF t(3)]
    have key: "intr_key c s = (if c' = 10 \<or> c' = CtlD \<or> i_e t = i_r t + of_nat INPUT_BUF
                               then Inr (t\<lparr>i_w := i_e t\<rparr>) else Inr t)"
      using put t(1) by (simp add: intr_key_def ir.less_iff c'_def x_def)
    have tw: "input.truncate (t\<lparr>i_w := i_e t\<rparr>) = input.truncate (?t\<lparr>i_w := i_e s + 1\<rparr>)"
      using t(3) by (simp add: input.truncate_def)
    note wc = input_cong [OF tw]
    have x: "(if c = 13 then 10 else word_of_int c) = x" by (simp add: x_def c'_def)
    have full: "i_e t = i_r t + of_nat INPUT_BUF \<longleftrightarrow> length (ready s @ editing s @ [x]) = INPUT_BUF"
      using pc(7) tc(4,6) by simp
    have ed: "edit_key c (ready s, editing s) =
        (if x = 10 \<or> x = 4 \<or> length (ready s @ editing s @ [x]) = INPUT_BUF
         then (ready s @ editing s @ [x], []) else (ready s, editing s @ [x]))"
      using put len by (simp add: x Let_def)
    show ?thesis
    proof (cases "c' = 10 \<or> c' = CtlD \<or> i_e t = i_r t + of_nat INPUT_BUF")
      case True
      then have "x = 10 \<or> x = 4 \<or> length (ready s @ editing s @ [x]) = INPUT_BUF"
        using cc full by (auto simp: CtlD_def)
      then show ?thesis
        using True key ed wc pc t(2) by (simp add: con_inv_def)
    next
      case False
      then have "\<not> (x = 10 \<or> x = 4 \<or> length (ready s @ editing s @ [x]) = INPUT_BUF)"
        using cc full by (auto simp: CtlD_def)
      then show ?thesis
        using False key ed tc pc t(2) by (simp add: con_inv_def)
    qed
  next
    case drop
    then have "intr_key c s = Inr s" by (auto simp: intr_key_def ir.less_iff)
    moreover have "edit_key c (ready s, editing s) = (ready s, editing s)"
      using drop len by auto
    ultimately show ?thesis using inv by simp
  qed
qed

lemma consoleintr_sim:
  assumes "con_inv s" "\<forall>c\<in>set cs. 0 \<le> c \<and> c < 256"
  shows "\<exists>s'. consoleintr cs s = Inr (CtlP \<in> set cs, s') \<and> con_inv s' \<and>
           (ready s', editing s') = fold edit_key cs (ready s, editing s)"
  using assms
proof (induction cs arbitrary: s)
  case (Cons c cs)
  then obtain s1 where s1: "intr_key c s = Inr s1" "con_inv s1"
      "(ready s1, editing s1) = edit_key c (ready s, editing s)"
    using intr_key_sim [of s c] by auto
  from Cons.IH [OF s1(2)] Cons.prems(2) obtain s' where
    "consoleintr cs s1 = Inr (CtlP \<in> set cs, s')" "con_inv s'"
    "(ready s', editing s') = fold edit_key cs (ready s1, editing s1)" by auto
  with s1 Cons.prems(2) show ?case by (auto simp del: edit_key.simps)
qed simp

section \<open>Properties of the input\<close>

text \<open>
  C31. \<open>consoleintr\<close> refines the line editor. Whatever stream of key codes below 256 arrives, the
  handler terminates without a panic, keeps the invariant of the ring (indices that wrap, never more
  than \<open>INPUT_BUF\<close> characters, no newline among the editable ones), and its committed and editable
  characters are those of the editor after the same keys; the dump flag says whether control-P was
  among them.
\<close>

theorem consoleintr_refines_editor:
  assumes "con_inv s" "\<forall>c\<in>set cs. 0 \<le> c \<and> c < 256"
  shows "\<exists>s'. consoleintr cs s = Inr (CtlP \<in> set cs, s') \<and> con_inv s' \<and>
           (ready s', editing s') = fold edit_key cs (ready s, editing s)"
  by (rule consoleintr_sim [OF assms])

definition demo_console :: console where
  "demo_console = \<lparr>i_buf = replicate 128 0, i_r = 0, i_w = 0, i_e = 0,
     scr = \<lparr>crt = \<lambda>_. 0, cursor = 0\<rparr>, uart = []\<rparr>"

lemma demo_console:
  "con_inv demo_console" "ready demo_console = []" "editing demo_console = []"
  by (simp_all add: con_inv_def input_inv_def demo_console_def INPUT_BUF_def screen_ok_def editing_def
      ready_def ring_seq_def)

theorem consoleintr_refines_editor_witness:
  "\<exists>s'. consoleintr [97, 98, 127, 13] demo_console = Inr (False, s') \<and> ready s' = [97, 10] \<and> editing s' = []"
  using consoleintr_refines_editor [OF demo_console(1), of "[97, 98, 127, 13]"]
  by (auto simp: demo_console(2,3) CtlP_def CtlU_def CtlH_def INPUT_BUF_def Let_def)

text \<open>What a reader gets from the committed characters.\<close>

fun read_abs :: "nat \<Rightarrow> bool \<Rightarrow> nat \<Rightarrow> u8 list \<Rightarrow> cread \<times> u8 list \<times> u8 list" where
  "read_abs target killed 0 q = (RDone, [], q)"
| "read_abs target killed (Suc n) [] = (if killed then RKilled else RSleep, [], [])"
| "read_abs target killed (Suc n) (c # q) =
     (if c = 4 then (RDone, [], if Suc n < target then c # q else q)
      else if c = 10 then (RDone, [c], q)
      else let (r, cs, q') = read_abs target killed n q in (r, c # cs, q'))"

lemma take_one:
  assumes inv: "input_inv s" and ne: "i_r s \<noteq> i_w s"
  shows "input_inv (s\<lparr>i_r := i_r s + 1\<rparr>)" "editing (s\<lparr>i_r := i_r s + 1\<rparr>) = editing s"
    "ready s = i_buf s ! unat (i_r s mod of_nat INPUT_BUF) # ready (s\<lparr>i_r := i_r s + 1\<rparr>)"
proof -
  note d = unat_diff_pred(1,3) [OF ne]
  have "i_r s \<noteq> i_e s" using d(2) inv by (auto simp: input_inv_def)
  note e = unat_diff_pred(1,3) [OF this]
  show ed: "editing (s\<lparr>i_r := i_r s + 1\<rparr>) = editing s" by (simp add: editing_def)
  show "input_inv (s\<lparr>i_r := i_r s + 1\<rparr>)"
    using inv d e ed by (auto simp: input_inv_def)
  show "ready s = i_buf s ! unat (i_r s mod of_nat INPUT_BUF) # ready (s\<lparr>i_r := i_r s + 1\<rparr>)"
    using ir.pop_front [OF ne] by (simp add: ready_def)
qed

lemma consoleread_sim:
  assumes "input_inv s" "consoleread target killed n s = (r, cs, s')"
  shows "input_inv s' \<and> editing s' = editing s \<and> (r, cs, ready s') = read_abs target killed n (ready s)"
  using assms
proof (induction n arbitrary: s cs)
  case (Suc n)
  show ?case
  proof (cases "i_r s = i_w s")
    case True
    with Suc.prems have "ready s = []" by (simp add: ready_def ring_seq_empty)
    with True Suc.prems show ?thesis by (auto split: if_splits)
  next
    case False
    note t = take_one [OF Suc.prems(1) False]
    let ?c = "i_buf s ! unat (i_r s mod of_nat INPUT_BUF)" let ?s = "s\<lparr>i_r := i_r s + 1\<rparr>"
    show ?thesis
    proof (cases "?c = 4 \<or> ?c = 10")
      case True
      with False Suc.prems t show ?thesis by (auto simp: Let_def split: if_splits)
    next
      case c: False
      obtain r1 ds s1 where rec: "consoleread target killed n ?s = (r1, ds, s1)" by (rule prod_cases3)
      with c False Suc.prems(2) have e: "r1 = r" "s1 = s'" "cs = ?c # ds" by (auto simp: Let_def)
      from Suc.IH [OF t(1) rec [unfolded e]] have
        "input_inv s' \<and> editing s' = editing ?s \<and> (r, ds, ready s') = read_abs target killed n (ready ?s)" .
      then show ?thesis using c e(3) t(2,3) by (auto simp: Let_def split: prod.splits)
    qed
  qed
qed auto

text \<open>
  \<open>consoleread\<close> delivers the committed characters in order: it stops after a newline, at
  control-D, or when the count is reached, sleeps only when they run out, and a control-D met after
  some characters were delivered stays in the input, so that the next read returns none. Editable
  characters are not touched.
\<close>

lemma consoleread_refines:
  assumes "input_inv s" "consoleread target killed n s = (r, cs, s')"
  shows "input_inv s' \<and> editing s' = editing s \<and> (r, cs, ready s') = read_abs target killed n (ready s)"
  by (rule consoleread_sim [OF assms])

lemma consoleread_refines_witness:
  "\<exists>(s :: console) s'. consoleread 3 False (Suc (Suc (Suc 0))) s = (RDone, [104, 105], s') \<and> ready s' = [4]"
proof -
  let ?s = "demo_console\<lparr>i_buf := [104, 105, 4] @ replicate 125 0, i_w := 3, i_e := 3\<rparr>"
  have upt: "[0..<3] = [0, 1, 2::nat]" by (simp add: upt_rec)
  have "input_inv ?s" "ready ?s = [104, 105, 4]"
    by (simp_all add: input_inv_def demo_console_def INPUT_BUF_def editing_def ready_def ring_seq_def upt)
  moreover obtain r cs s' where r: "consoleread 3 False (Suc (Suc (Suc 0))) ?s = (r, cs, s')" by (rule prod_cases3)
  ultimately have "(r, cs, ready s') = read_abs 3 False (Suc (Suc (Suc 0))) [104, 105, 4]"
    using consoleread_refines [OF _ r] by simp
  also have "\<dots> = (RDone, [104, 105], [4])" by simp
  finally have o: "r = RDone" "cs = [104, 105]" "ready s' = [4]" by simp_all
  show ?thesis by (rule exI [of _ ?s], rule exI [of _ s']) (simp only: r o simp_thms)
qed

definition plain :: "int \<Rightarrow> bool" where
  "plain c \<longleftrightarrow> 0 < c \<and> c < 256 \<and> c \<notin> {CtlP, CtlU, CtlH, CtlD, 10, 13, 127}"

lemma plainD: "plain c \<Longrightarrow> 0 \<le> c \<and> c < 256 \<and> c \<noteq> 10 \<and> c \<noteq> 4 \<and> CtlP \<noteq> c"
  by (auto simp: plain_def CtlD_def)

lemma edit_plain:
  "\<forall>c\<in>set cs. plain c \<Longrightarrow> length ed + length cs < INPUT_BUF \<Longrightarrow>
   fold edit_key cs ([], ed) = ([], ed @ map word_of_int cs)"
proof (induction cs arbitrary: ed)
  case (Cons c cs)
  then have "(word_of_int c :: u8) \<noteq> 10" "(word_of_int c :: u8) \<noteq> 4"
    using byte_10_4 [of c] by (auto simp: plain_def CtlD_def)
  with Cons.prems have "edit_key c ([], ed) = ([], ed @ [word_of_int c])"
    by (auto simp: plain_def Let_def)
  with Cons.IH [of "ed @ [word_of_int c]"] Cons.prems show ?case by (simp del: edit_key.simps)
qed simp

lemma read_plain:
  "\<forall>x\<in>set us. x \<noteq> 10 \<and> x \<noteq> 4 \<Longrightarrow> length us < n \<Longrightarrow>
   read_abs target killed n (us @ [10]) = (RDone, us @ [10], [])"
proof (induction us arbitrary: n)
  case Nil
  then show ?case by (cases n) auto
next
  case (Cons u us)
  then show ?case by (cases n) auto
qed

text \<open>
  What is typed is what is read: on an empty input, typing fewer than \<open>INPUT_BUF - 1\<close> ordinary
  characters and the return key makes the next \<open>consoleread\<close> with a large enough count return
  exactly those characters and a newline, leaving the input empty.
\<close>

lemma typed_line_is_read:
  assumes "con_inv s" "ready s = []" "editing s = []" "\<forall>c\<in>set cs. plain c" "length cs + 1 < INPUT_BUF"
    "length cs < n"
  shows "\<exists>s1 s2. consoleintr (cs @ [13]) s = Inr (False, s1) \<and>
           consoleread n killed n s1 = (RDone, map word_of_int cs @ [10], s2) \<and>
           ready s2 = [] \<and> editing s2 = []"
proof -
  let ?us = "map word_of_int cs :: u8 list"
  have cs: "\<forall>c\<in>set (cs @ [13]). 0 \<le> c \<and> c < 256" "CtlP \<notin> set (cs @ [13])"
    using assms(4) plainD by (auto simp: CtlP_def)
  have "(word_of_int c :: u8) \<noteq> 10 \<and> (word_of_int c :: u8) \<noteq> 4" if "c \<in> set cs" for c
  proof -
    have "plain c" using assms(4) that by blast
    with plainD [OF this] byte_10_4 [of c] show ?thesis by simp
  qed
  then have us: "\<forall>x\<in>set ?us. x \<noteq> 10 \<and> x \<noteq> 4" by simp
  have "fold edit_key (cs @ [13]) ([], []) = edit_key 13 ([], ?us)"
    using edit_plain [of cs "[]"] assms(4,5) by (simp del: edit_key.simps)
  also have "\<dots> = (?us @ [10], [])"
    using assms(5) by (simp add: CtlP_def CtlU_def CtlH_def)
  finally obtain s1 where s1: "consoleintr (cs @ [13]) s = Inr (False, s1)" "con_inv s1"
      "ready s1 = ?us @ [10]" "editing s1 = []"
    using consoleintr_sim [OF assms(1) cs(1)] assms(2,3) cs(2) by auto
  obtain r out s2 where r: "consoleread n killed n s1 = (r, out, s2)" by (rule prod_cases3)
  have "(r, out, ready s2) = read_abs n killed n (?us @ [10])" "editing s2 = []"
    using consoleread_sim [OF _ r] s1 by (simp_all add: con_inv_def)
  then have "r = RDone" "out = ?us @ [10]" "ready s2 = []" "editing s2 = []"
    using read_plain [OF us, of n n killed] assms(6) by simp_all
  with r s1(1) show ?thesis by blast
qed

lemma typed_line_is_read_witness:
  "\<exists>s1 s2. consoleintr [108, 115, 13] demo_console = Inr (False, s1) \<and>
     consoleread 80 False 80 s1 = (RDone, [108, 115, 10], s2)"
  using typed_line_is_read [OF demo_console, of "[108, 115]" 80 False]
  by (auto simp: plain_def CtlP_def CtlU_def CtlH_def CtlD_def INPUT_BUF_def)

end
