(* ===== verification/Kalloc.thy ===== *)
theory Kalloc
  imports Block_Cache
begin

text \<open>
  The physical page allocator with reference counts, \<open>xv6-public(1)/kalloc.c\<close>. Pages are named by
  their physical base address, \<open>V2P\<close> of the kernel pointers of the code; the free list threaded
  through the free pages is a list of addresses; the contents of a page are its 4096 bytes. The
  kernel without copy-on-write, \<open>xv6-public/kalloc.c\<close>, is the same allocator with \<open>rc_on\<close> never set.
\<close>

section \<open>State\<close>

definition PGSIZE :: u32 where "PGSIZE = 4096"
definition PHYSTOP :: u32 where "PHYSTOP = 0xE000000"
definition KERNBASE :: u32 where "KERNBASE = 0x80000000"

record kmem =
  kend :: u32
  freelist :: "u32 list"
  rc_on :: bool
  refcnt :: "nat \<Rightarrow> int"
  pm :: "u32 \<Rightarrow> block"

definition pno :: "u32 \<Rightarrow> nat" where
  "pno pa = unat pa div 4096"

definition junk :: block where "junk = (\<lambda>_. 1)"
definition zeros :: block where "zeros = (\<lambda>_. 0)"

text \<open>The test at the head of \<open>kfree\<close> and \<open>incrementRefCount\<close>.\<close>

definition bad_page :: "u32 \<Rightarrow> kmem \<Rightarrow> bool" where
  "bad_page pa m \<longleftrightarrow> pa mod PGSIZE \<noteq> 0 \<or> pa < kend m \<or> pa \<ge> PHYSTOP"

section \<open>Operations\<close>

definition kfree :: "u32 \<Rightarrow> kmem \<Rightarrow> kmem res" where
  "kfree pa m =
     (if bad_page pa m then Inl (Panic ''kfree'')
      else if rc_on m then
        (if pno pa \<ge> pno PHYSTOP then Inl (Panic ''kfree: refcount'')
         else let m1 = m\<lparr>refcnt := (refcnt m)(pno pa := refcnt m (pno pa) - 1)\<rparr> in
              if refcnt m1 (pno pa) < 0 then Inl (Panic ''kfree: refcount < 0'')
              else if refcnt m1 (pno pa) \<noteq> 0 then Inr m1
              else Inr (m1\<lparr>pm := (pm m1)(pa := junk), freelist := pa # freelist m1\<rparr>))
      else Inr (m\<lparr>pm := (pm m)(pa := junk), freelist := pa # freelist m\<rparr>))"

definition kalloc :: "kmem \<Rightarrow> (u32 option \<times> kmem) res" where
  "kalloc m =
     (case freelist m of
        [] \<Rightarrow> Inr (None, m)
      | r # rs \<Rightarrow>
          let m1 = m\<lparr>freelist := rs\<rparr> in
          if rc_on m then
            (if pno r \<ge> pno PHYSTOP then Inl (Panic ''kalloc: refcount'')
             else Inr (Some r, m1\<lparr>refcnt := (refcnt m1)(pno r := 1)\<rparr>))
          else Inr (Some r, m1))"

definition NumFreePages :: "kmem \<Rightarrow> nat" where
  "NumFreePages m = length (freelist m)"

definition incrementRefCount :: "u32 \<Rightarrow> kmem \<Rightarrow> kmem res" where
  "incrementRefCount pa m =
     (if bad_page pa m then Inl (Panic ''incrementRefCount'')
      else if rc_on m then
        (if refcnt m (pno pa) = 0 then Inl (Panic ''incrementRefCount: refcount == 0'')
         else Inr (m\<lparr>refcnt := (refcnt m)(pno pa := refcnt m (pno pa) + 1)\<rparr>))
      else Inr m)"

definition PGROUNDUP :: "u32 \<Rightarrow> u32" where
  "PGROUNDUP a = (a + PGSIZE - 1) AND NOT (PGSIZE - 1)"

definition PGROUNDDOWN :: "u32 \<Rightarrow> u32" where
  "PGROUNDDOWN a = a AND NOT (PGSIZE - 1)"

text \<open>The loop of \<open>freerange\<close>; at most \<open>2^20\<close> pages fit in the address space, and \<open>kfree\<close> panics at
  \<open>PHYSTOP\<close> long before they are used up.\<close>

primrec free_loop :: "nat \<Rightarrow> u32 \<Rightarrow> u32 \<Rightarrow> kmem \<Rightarrow> kmem res" where
  "free_loop 0 p e m = Inl Blocks"
| "free_loop (Suc n) p e m =
     (if p + PGSIZE \<le> e then bindR (kfree p m) (free_loop n (p + PGSIZE) e) else Inr m)"

definition freerange :: "u32 \<Rightarrow> u32 \<Rightarrow> kmem \<Rightarrow> kmem res" where
  "freerange vstart vend m = free_loop (2 ^ 20) (PGROUNDUP vstart) vend m"

definition kinit1 :: "u32 \<Rightarrow> u32 \<Rightarrow> kmem \<Rightarrow> kmem res" where
  "kinit1 vstart vend m =
     freerange vstart vend (m\<lparr>rc_on := False,
       refcnt := (\<lambda>i. if i < pno PHYSTOP then 0 else refcnt m i)\<rparr>)"

definition kinit2 :: "u32 \<Rightarrow> u32 \<Rightarrow> kmem \<Rightarrow> kmem res" where
  "kinit2 vstart vend m = bindR (freerange vstart vend m) (\<lambda>m1. Inr (m1\<lparr>rc_on := True\<rparr>))"

section \<open>Invariant\<close>

definition kmem_inv :: "kmem \<Rightarrow> bool" where
  "kmem_inv m \<longleftrightarrow> distinct (freelist m) \<and> (\<forall>p\<in>set (freelist m). \<not> bad_page p m) \<and>
     (\<forall>i. 0 \<le> refcnt m i) \<and> (\<forall>p\<in>set (freelist m). refcnt m (pno p) = 0)"

lemma pno_inj:
  assumes "p mod PGSIZE = 0" "q mod PGSIZE = 0" "pno p = pno q"
  shows "p = q"
proof -
  have "unat p mod 4096 = 0" "unat q mod 4096 = 0"
    using assms(1,2) by (simp_all add: PGSIZE_def flip: unat_eq_0, simp_all add: unat_mod)
  then have "unat p = unat q"
    using assms(3) mult_div_mod_eq [of 4096 "unat p"] mult_div_mod_eq [of 4096 "unat q"]
    by (simp add: pno_def)
  then show ?thesis by (simp add: word_unat_eq_iff)
qed

lemma pno_bound: "\<not> bad_page p m \<Longrightarrow> pno p < pno PHYSTOP"
proof -
  assume "\<not> bad_page p m"
  then have "unat p < unat PHYSTOP" by (simp add: bad_page_def word_less_nat_alt not_le)
  then have "unat p < 0xE000 * 4096" by (simp add: PHYSTOP_def)
  then show ?thesis by (simp add: pno_def PHYSTOP_def less_mult_imp_div_less)
qed

lemma bad_page_cong [simp]:
  "bad_page p (m\<lparr>refcnt := a\<rparr>) = bad_page p m" "bad_page p (m\<lparr>pm := b\<rparr>) = bad_page p m"
  "bad_page p (m\<lparr>freelist := c\<rparr>) = bad_page p m" "bad_page p (m\<lparr>rc_on := d\<rparr>) = bad_page p m"
  by (simp_all add: bad_page_def)

lemma good_inj: "\<not> bad_page p m \<Longrightarrow> \<not> bad_page q m \<Longrightarrow> pno p = pno q \<Longrightarrow> p = q"
  using pno_inj by (auto simp: bad_page_def)

lemma kalloc_spec:
  assumes "kmem_inv m"
  shows "(freelist m = [] \<and> kalloc m = Inr (None, m)) \<or>
     (\<exists>p m'. kalloc m = Inr (Some p, m') \<and> freelist m = p # freelist m' \<and> \<not> bad_page p m \<and>
        pm m' = pm m \<and> kend m' = kend m \<and> rc_on m' = rc_on m \<and>
        refcnt m' = (if rc_on m then (refcnt m)(pno p := 1) else refcnt m) \<and>
        p \<notin> set (freelist m') \<and> kmem_inv m')"
proof (cases "freelist m")
  case Nil
  then show ?thesis by (simp add: kalloc_def)
next
  case (Cons p ps)
  then have p: "\<not> bad_page p m" "p \<notin> set ps" using assms by (auto simp: kmem_inv_def)
  have "pno q \<noteq> pno p" if "q \<in> set ps" for q
    using that p assms good_inj [of q m p] Cons by (auto simp: kmem_inv_def)
  then show ?thesis
    using Cons p pno_bound [OF p(1)] assms by (auto simp: kalloc_def Let_def kmem_inv_def bad_page_def)
qed

lemma kfree_spec:
  assumes inv: "kmem_inv m" and p: "\<not> bad_page p m" and rc: "rc_on m" and c: "0 < refcnt m (pno p)"
  shows "\<exists>m'. kfree p m = Inr m' \<and> kmem_inv m' \<and> refcnt m' = (refcnt m)(pno p := refcnt m (pno p) - 1) \<and>
           kend m' = kend m \<and> rc_on m' = rc_on m \<and>
           (if refcnt m (pno p) = 1 then freelist m' = p # freelist m \<and> pm m' = (pm m)(p := junk)
            else freelist m' = freelist m \<and> pm m' = pm m)"
proof -
  have nf: "p \<notin> set (freelist m)" using inv c by (auto simp: kmem_inv_def)
  have "pno q \<noteq> pno p" if "q \<in> set (freelist m)" for q
    using that inv c by (auto simp: kmem_inv_def)
  then show ?thesis
    using inv p rc c nf pno_bound [OF p] by (auto simp: kfree_def Let_def kmem_inv_def)
qed

lemma incr_inv:
  assumes "kmem_inv m" "incrementRefCount p m = Inr m'"
  shows "kmem_inv m'"
proof (cases "rc_on m")
  case True
  then have m': "m' = m\<lparr>refcnt := (refcnt m)(pno p := refcnt m (pno p) + 1)\<rparr>" "refcnt m (pno p) \<noteq> 0"
    using assms(2) by (auto simp: incrementRefCount_def split: if_splits)
  have "pno q \<noteq> pno p" if "q \<in> set (freelist m)" for q
    using that m'(2) assms(1) by (metis kmem_inv_def)
  with assms(1) show ?thesis by (auto simp: m'(1) kmem_inv_def)
qed (use assms in \<open>auto simp: incrementRefCount_def split: if_splits\<close>)

section \<open>Properties\<close>

text \<open>
  C30. The allocator keeps its invariant: the free list has no duplicates, holds only aligned pages
  between the kernel's end and \<open>PHYSTOP\<close>, and the free pages are those with reference count zero.
  With counting on, \<open>kalloc\<close> hands out a page off the list with count one, or nothing when the list
  is empty; \<open>incrementRefCount\<close> succeeds exactly on pages in use; \<open>kfree\<close> of a page in use drops one
  reference and returns the page to the list, filled with junk, exactly when that was the last
  one, leaving shared pages and all other memory alone.
\<close>

theorem page_refcounts:
  assumes "kmem_inv m" "rc_on m" "\<not> bad_page p m"
  shows "(case kalloc m of Inl e \<Rightarrow> False
          | Inr (None, m') \<Rightarrow> freelist m = [] \<and> m' = m
          | Inr (Some q, m') \<Rightarrow> kmem_inv m' \<and> freelist m = q # freelist m' \<and> refcnt m' (pno q) = 1 \<and>
              q \<notin> set (freelist m') \<and> pm m' = pm m) \<and>
         (case incrementRefCount p m of Inl e \<Rightarrow> refcnt m (pno p) = 0
          | Inr m' \<Rightarrow> kmem_inv m' \<and> 0 < refcnt m (pno p) \<and> refcnt m' (pno p) = refcnt m (pno p) + 1 \<and>
              freelist m' = freelist m \<and> pm m' = pm m) \<and>
         (case kfree p m of Inl e \<Rightarrow> refcnt m (pno p) = 0
          | Inr m' \<Rightarrow> kmem_inv m' \<and> refcnt m' (pno p) = refcnt m (pno p) - 1 \<and>
              (if refcnt m (pno p) = 1 then freelist m' = p # freelist m \<and> pm m' = (pm m)(p := junk)
               else 1 < refcnt m (pno p) \<and> freelist m' = freelist m \<and> pm m' = pm m))"
proof (intro conjI)
  show "case kalloc m of Inl e \<Rightarrow> False
          | Inr (None, m') \<Rightarrow> freelist m = [] \<and> m' = m
          | Inr (Some q, m') \<Rightarrow> kmem_inv m' \<and> freelist m = q # freelist m' \<and> refcnt m' (pno q) = 1 \<and>
              q \<notin> set (freelist m') \<and> pm m' = pm m"
    using kalloc_spec [OF assms(1)] assms(2) by auto
  have nn: "0 \<le> refcnt m (pno p)" using assms(1) by (simp add: kmem_inv_def)
  have "pno q \<noteq> pno p" if "0 < refcnt m (pno p)" "q \<in> set (freelist m)" for q
    using that assms(1) by (auto simp: kmem_inv_def)
  moreover have "refcnt m (pno p) = 0 \<or> 0 < refcnt m (pno p)" using nn by linarith
  ultimately show "case incrementRefCount p m of Inl e \<Rightarrow> refcnt m (pno p) = 0
          | Inr m' \<Rightarrow> kmem_inv m' \<and> 0 < refcnt m (pno p) \<and> refcnt m' (pno p) = refcnt m (pno p) + 1 \<and>
              freelist m' = freelist m \<and> pm m' = pm m"
    using assms by (auto simp: incrementRefCount_def kmem_inv_def)
  show "case kfree p m of Inl e \<Rightarrow> refcnt m (pno p) = 0
          | Inr m' \<Rightarrow> kmem_inv m' \<and> refcnt m' (pno p) = refcnt m (pno p) - 1 \<and>
              (if refcnt m (pno p) = 1 then freelist m' = p # freelist m \<and> pm m' = (pm m)(p := junk)
               else 1 < refcnt m (pno p) \<and> freelist m' = freelist m \<and> pm m' = pm m)"
  proof (cases "refcnt m (pno p) = 0")
    case True
    then show ?thesis using assms pno_bound [OF assms(3)] by (simp add: kfree_def Let_def)
  next
    case False
    then have "0 < refcnt m (pno p)" using nn by simp
    then show ?thesis using kfree_spec [OF assms(1,3,2)] by auto
  qed
qed

definition demo_mem :: kmem where
  "demo_mem = \<lparr>kend = 0x100000, freelist = [0x200000, 0x201000], rc_on = True,
     refcnt = (\<lambda>i. if i = 0x300 then 2 else 0), pm = (\<lambda>_. zeros)\<rparr>"

lemma demo_mem: "kmem_inv demo_mem" "rc_on demo_mem" "\<not> bad_page 0x300000 demo_mem"
  by (simp_all add: kmem_inv_def demo_mem_def bad_page_def PGSIZE_def PHYSTOP_def pno_def)

theorem page_refcounts_witness:
  "(case kfree 0x300000 demo_mem of Inl e \<Rightarrow> False | Inr m' \<Rightarrow> refcnt m' 0x300 = 1 \<and> freelist m' = freelist demo_mem)"
proof -
  have "refcnt demo_mem (pno 0x300000) = 2" "pno 0x300000 = 0x300" by (simp_all add: demo_mem_def pno_def)
  with page_refcounts [OF demo_mem] show ?thesis by (auto split: sum.splits)
qed

end
