(* ===== verification/Vm.thy ===== *)
theory Vm
  imports Kalloc
begin

text \<open>
  Page tables, \<open>vm.c\<close> of the copy-on-write kernel \<open>xv6-public(1)\<close> together with the functions only
  \<open>xv6-public/vm.c\<close> has (\<open>copyuvm\<close> by copying, \<open>num_phy_page\<close>, \<open>allocate_on_pgflt\<close>). A page directory is
  named by the physical address of its page; the address of an entry is a page and an index; page
  tables live in the pages of the allocator, four little-endian bytes per entry. \<open>NULL\<close> results are
  \<open>None\<close>, the result -1 is \<open>False\<close>. The processor's control registers are not modelled.
\<close>

section \<open>Entries\<close>

unbundle bit_operations_syntax

definition PTE_P :: u32 where "PTE_P = 0x001"
definition PTE_W :: u32 where "PTE_W = 0x002"
definition PTE_U :: u32 where "PTE_U = 0x004"
definition PTE_COW_W :: u32 where "PTE_COW_W = 0x100"

definition PTE_ADDR :: "u32 \<Rightarrow> u32" where "PTE_ADDR pte = pte AND NOT 0xFFF"
definition PTE_FLAGS :: "u32 \<Rightarrow> u32" where "PTE_FLAGS pte = pte AND 0xFFF"

definition PDX :: "u32 \<Rightarrow> nat" where "PDX va = unat (drop_bit 22 va AND 0x3FF)"
definition PTX :: "u32 \<Rightarrow> nat" where "PTX va = unat (drop_bit 12 va AND 0x3FF)"

definition PGADDR :: "nat \<Rightarrow> nat \<Rightarrow> u32 \<Rightarrow> u32" where
  "PGADDR d t off = push_bit 22 (of_nat d) OR push_bit 12 (of_nat t) OR off"

type_synonym loc = "u32 \<times> nat"

definition entry :: "kmem \<Rightarrow> loc \<Rightarrow> u32" where
  "entry m l = get32 (pm m (fst l)) (4 * snd l)"

definition set_entry :: "loc \<Rightarrow> u32 \<Rightarrow> kmem \<Rightarrow> kmem" where
  "set_entry l w m = m\<lparr>pm := (pm m)(fst l := put32 (pm m (fst l)) (4 * snd l) w)\<rparr>"

definition set_page :: "u32 \<Rightarrow> block \<Rightarrow> kmem \<Rightarrow> kmem" where
  "set_page p b m = m\<lparr>pm := (pm m)(p := b)\<rparr>"

definition present :: "u32 \<Rightarrow> bool" where "present w \<longleftrightarrow> w AND PTE_P \<noteq> 0"

section \<open>Walking and mapping\<close>

definition walkpgdir :: "u32 \<Rightarrow> u32 \<Rightarrow> bool \<Rightarrow> kmem \<Rightarrow> (loc option \<times> kmem) res" where
  "walkpgdir pgdir va alloc m =
     (let pde = entry m (pgdir, PDX va) in
      if present pde then Inr (Some (PTE_ADDR pde, PTX va), m)
      else if \<not> alloc then Inr (None, m)
      else bindR (kalloc m) (\<lambda>(r, m1).
        case r of
          None \<Rightarrow> Inr (None, m1)
        | Some pgtab \<Rightarrow>
            Inr (Some (pgtab, PTX va),
                 set_entry (pgdir, PDX va) (pgtab OR PTE_P OR PTE_W OR PTE_U) (set_page pgtab zeros m1))))"

text \<open>The loop of \<open>mappages\<close> runs over the pages from \<open>a\<close> to \<open>last\<close>, \<open>n\<close> of them after the current one.\<close>

primrec map_loop :: "nat \<Rightarrow> u32 \<Rightarrow> u32 \<Rightarrow> u32 \<Rightarrow> u32 \<Rightarrow> kmem \<Rightarrow> (bool \<times> kmem) res" where
  "map_loop 0 pgdir a pa perm m =
     bindR (walkpgdir pgdir a True m) (\<lambda>(r, m1).
       case r of None \<Rightarrow> Inr (False, m1)
       | Some l \<Rightarrow> if present (entry m1 l) then Inl (Panic ''remap'')
                  else Inr (True, set_entry l (pa OR perm OR PTE_P) m1))"
| "map_loop (Suc n) pgdir a pa perm m =
     bindR (walkpgdir pgdir a True m) (\<lambda>(r, m1).
       case r of None \<Rightarrow> Inr (False, m1)
       | Some l \<Rightarrow> if present (entry m1 l) then Inl (Panic ''remap'')
                  else map_loop n pgdir (a + PGSIZE) (pa + PGSIZE) perm
                         (set_entry l (pa OR perm OR PTE_P) m1))"

definition mappages :: "u32 \<Rightarrow> u32 \<Rightarrow> u32 \<Rightarrow> u32 \<Rightarrow> u32 \<Rightarrow> kmem \<Rightarrow> (bool \<times> kmem) res" where
  "mappages pgdir va len pa perm m =
     (let a = PGROUNDDOWN va; last = PGROUNDDOWN (va + len - 1)
      in map_loop (unat (last - a) div 4096) pgdir a pa perm m)"

text \<open>\<open>a\<close> runs from \<open>PGROUNDUP(newsz)\<close> up to \<open>oldsz\<close>, skipping the ranges that have no page table.\<close>

primrec dealloc_loop :: "nat \<Rightarrow> u32 \<Rightarrow> u32 \<Rightarrow> u32 \<Rightarrow> kmem \<Rightarrow> kmem res" where
  "dealloc_loop 0 pgdir a oldsz m = (if a < oldsz then Inl Blocks else Inr m)"
| "dealloc_loop (Suc n) pgdir a oldsz m =
     (if \<not> a < oldsz then Inr m
      else bindR (walkpgdir pgdir a False m) (\<lambda>(r, m1).
        case r of
          None \<Rightarrow> dealloc_loop n pgdir (PGADDR (PDX a + 1) 0 0 - PGSIZE + PGSIZE) oldsz m1
        | Some l \<Rightarrow>
            if present (entry m1 l) then
              let pa = PTE_ADDR (entry m1 l) in
              if pa = 0 then Inl (Panic ''kfree'')
              else bindR (kfree pa m1) (\<lambda>m2. dealloc_loop n pgdir (a + PGSIZE) oldsz (set_entry l 0 m2))
            else dealloc_loop n pgdir (a + PGSIZE) oldsz m1))"

definition deallocuvm :: "u32 \<Rightarrow> u32 \<Rightarrow> u32 \<Rightarrow> kmem \<Rightarrow> (u32 \<times> kmem) res" where
  "deallocuvm pgdir oldsz newsz m =
     (if newsz \<ge> oldsz then Inr (oldsz, m)
      else bindR (dealloc_loop (2 ^ 20) pgdir (PGROUNDUP newsz) oldsz m) (\<lambda>m1. Inr (newsz, m1)))"

definition freevm :: "u32 \<Rightarrow> kmem \<Rightarrow> kmem res" where
  "freevm pgdir m =
     (if pgdir = 0 then Inl (Panic ''freevm: no pgdir'')
      else bindR (deallocuvm pgdir KERNBASE 0 m) (\<lambda>(_, m1).
           bindR (for_up 1024 (\<lambda>i m. let pde = entry m (pgdir, i) in
                    if present pde then kfree (PTE_ADDR pde) m else Inr m) m1) (\<lambda>m2.
           kfree pgdir m2)))"

section \<open>Address spaces\<close>

definition EXTMEM :: u32 where "EXTMEM = 0x100000"
definition DEVSPACE :: u32 where "DEVSPACE = 0xFE000000"

text \<open>\<open>data\<close> is the linker's symbol, a parameter; entries are virtual start, physical range, permission.\<close>

definition kmap :: "u32 \<Rightarrow> (u32 \<times> u32 \<times> u32 \<times> u32) list" where
  "kmap data =
     [(KERNBASE, 0, EXTMEM, PTE_W),
      (KERNBASE + EXTMEM, EXTMEM, data - KERNBASE, 0),
      (data, data - KERNBASE, PHYSTOP, PTE_W),
      (DEVSPACE, DEVSPACE, 0, PTE_W)]"

fun kmap_loop :: "u32 \<Rightarrow> (u32 \<times> u32 \<times> u32 \<times> u32) list \<Rightarrow> kmem \<Rightarrow> (bool \<times> kmem) res" where
  "kmap_loop pgdir [] m = Inr (True, m)"
| "kmap_loop pgdir ((virt, start, ende, perm) # ks) m =
     bindR (mappages pgdir virt (ende - start) start perm m) (\<lambda>(ok, m1).
       if ok then kmap_loop pgdir ks m1 else Inr (False, m1))"

definition setupkvm :: "u32 \<Rightarrow> kmem \<Rightarrow> (u32 option \<times> kmem) res" where
  "setupkvm data m =
     bindR (kalloc m) (\<lambda>(r, m1).
       case r of None \<Rightarrow> Inr (None, m1)
       | Some pgdir \<Rightarrow>
           if KERNBASE + PHYSTOP > DEVSPACE then Inl (Panic ''PHYSTOP too high'')
           else bindR (kmap_loop pgdir (kmap data) (set_page pgdir zeros m1)) (\<lambda>(ok, m2).
                if ok then Inr (Some pgdir, m2)
                else bindR (freevm pgdir m2) (\<lambda>m3. Inr (None, m3))))"

definition inituvm :: "u32 \<Rightarrow> u8 list \<Rightarrow> kmem \<Rightarrow> kmem res" where
  "inituvm pgdir init m =
     (if length init \<ge> 4096 then Inl (Panic ''inituvm: more than a page'')
      else bindR (kalloc m) (\<lambda>(r, m1).
        case r of None \<Rightarrow> Inl OutOfBounds
        | Some p \<Rightarrow>
            bindR (mappages pgdir 0 PGSIZE p (PTE_W OR PTE_U) (set_page p zeros m1)) (\<lambda>(ok, m2).
              Inr (set_page p (\<lambda>i. if i < length init then init ! i else pm m2 p i) m2))))"

primrec alloc_loop :: "nat \<Rightarrow> u32 \<Rightarrow> u32 \<Rightarrow> u32 \<Rightarrow> u32 \<Rightarrow> kmem \<Rightarrow> (u32 \<times> kmem) res" where
  "alloc_loop 0 pgdir a oldsz newsz m = (if a < newsz then Inl Blocks else Inr (newsz, m))"
| "alloc_loop (Suc n) pgdir a oldsz newsz m =
     (if \<not> a < newsz then Inr (newsz, m)
      else bindR (kalloc m) (\<lambda>(r, m1).
        case r of
          None \<Rightarrow> bindR (deallocuvm pgdir newsz oldsz m1) (\<lambda>(_, m2). Inr (0, m2))
        | Some p \<Rightarrow>
            bindR (mappages pgdir a PGSIZE p (PTE_W OR PTE_U) (set_page p zeros m1)) (\<lambda>(ok, m2).
              if ok then alloc_loop n pgdir (a + PGSIZE) oldsz newsz m2
              else bindR (deallocuvm pgdir newsz oldsz m2) (\<lambda>(_, m3).
                   bindR (kfree p m3) (\<lambda>m4. Inr (0, m4))))))"

definition allocuvm :: "u32 \<Rightarrow> u32 \<Rightarrow> u32 \<Rightarrow> kmem \<Rightarrow> (u32 \<times> kmem) res" where
  "allocuvm pgdir oldsz newsz m =
     (if newsz \<ge> KERNBASE then Inr (0, m)
      else if newsz < oldsz then Inr (oldsz, m)
      else alloc_loop (2 ^ 20) pgdir (PGROUNDUP oldsz) oldsz newsz m)"

definition clearpteu :: "u32 \<Rightarrow> u32 \<Rightarrow> kmem \<Rightarrow> kmem res" where
  "clearpteu pgdir uva m =
     bindR (walkpgdir pgdir uva False m) (\<lambda>(r, m1).
       case r of None \<Rightarrow> Inl (Panic ''clearpteu'')
       | Some l \<Rightarrow> Inr (set_entry l (entry m1 l AND NOT PTE_U) m1))"

text \<open>\<open>uva2ka\<close> reads through the result of the walk without testing it.\<close>

definition uva2ka :: "u32 \<Rightarrow> u32 \<Rightarrow> kmem \<Rightarrow> u32 option res" where
  "uva2ka pgdir uva m =
     bindR (walkpgdir pgdir uva False m) (\<lambda>(r, m1).
       case r of None \<Rightarrow> Inl OutOfBounds
       | Some l \<Rightarrow>
           if entry m1 l AND PTE_P = 0 then Inr None
           else if entry m1 l AND PTE_U = 0 then Inr None
           else Inr (Some (PTE_ADDR (entry m1 l))))"

function copyout :: "u32 \<Rightarrow> u32 \<Rightarrow> u8 list \<Rightarrow> kmem \<Rightarrow> (bool \<times> kmem) res" where
  "copyout pgdir va buf m =
     (if buf = [] then Inr (True, m)
      else let va0 = PGROUNDDOWN va in
        bindR (uva2ka pgdir va0 m) (\<lambda>r.
          case r of None \<Rightarrow> Inr (False, m)
          | Some pa0 \<Rightarrow>
              let off = unat (va - va0); n = min (4096 - off) (length buf);
                  page = (\<lambda>i. if off \<le> i \<and> i < off + n then buf ! (i - off) else pm m pa0 i)
              in if n = 0 then Inl Blocks
                 else copyout pgdir (va0 + PGSIZE) (drop n buf) (set_page pa0 page m)))"
  by pat_completeness auto
termination by (relation "measure (\<lambda>(_, _, buf, _). length buf)") auto

declare copyout.simps [simp del]

text \<open>The two versions of \<open>copyuvm\<close>: the body of the loop for the page at \<open>i\<close>, \<open>False\<close> being \<open>goto bad\<close>.\<close>

definition copy_page :: "u32 \<Rightarrow> u32 \<Rightarrow> u32 \<Rightarrow> kmem \<Rightarrow> (bool \<times> kmem) res" where
  "copy_page pgdir d i m =
     bindR (walkpgdir pgdir i False m) (\<lambda>(r, m1).
       case r of None \<Rightarrow> Inl (Panic ''copyuvm: pte should exist'')
       | Some l \<Rightarrow>
           if \<not> present (entry m1 l) then Inl (Panic ''copyuvm: page not present'')
           else let pa = PTE_ADDR (entry m1 l); flags = PTE_FLAGS (entry m1 l) in
             bindR (kalloc m1) (\<lambda>(q, m2).
               case q of None \<Rightarrow> Inr (False, m2)
               | Some p \<Rightarrow>
                   bindR (mappages d i PGSIZE p flags (set_page p (pm m2 pa) m2)) (\<lambda>(ok, m3).
                     if ok then Inr (True, m3) else bindR (kfree p m3) (\<lambda>m4. Inr (False, m4)))))"

definition cow_page :: "u32 \<Rightarrow> u32 \<Rightarrow> u32 \<Rightarrow> kmem \<Rightarrow> (bool \<times> kmem) res" where
  "cow_page pgdir d i m =
     bindR (walkpgdir pgdir i False m) (\<lambda>(r, m1).
       case r of None \<Rightarrow> Inl (Panic ''copyuvm: pte should exist'')
       | Some l \<Rightarrow>
           if \<not> present (entry m1 l) then Inl (Panic ''copyuvm: page not present'')
           else let m2 = set_entry l ((entry m1 l AND NOT PTE_W) OR PTE_COW_W) m1;
                    pa = PTE_ADDR (entry m2 l); flags = PTE_FLAGS (entry m2 l) in
             bindR (incrementRefCount pa m2) (\<lambda>m3.
             bindR (mappages d i PGSIZE pa flags m3) (\<lambda>(ok, m4).
               if ok then Inr (True, m4) else bindR (kfree pa m4) (\<lambda>m5. Inr (False, m5)))))"

primrec copy_loop :: "(u32 \<Rightarrow> kmem \<Rightarrow> (bool \<times> kmem) res) \<Rightarrow> nat \<Rightarrow> u32 \<Rightarrow> u32 \<Rightarrow> kmem \<Rightarrow> (bool \<times> kmem) res" where
  "copy_loop body 0 i sz m = (if i < sz then Inl Blocks else Inr (True, m))"
| "copy_loop body (Suc n) i sz m =
     (if \<not> i < sz then Inr (True, m)
      else bindR (body i m) (\<lambda>(ok, m1).
        if ok then copy_loop body n (i + PGSIZE) sz m1 else Inr (False, m1)))"

definition copyuvm_with :: "(u32 \<Rightarrow> u32 \<Rightarrow> u32 \<Rightarrow> kmem \<Rightarrow> (bool \<times> kmem) res) \<Rightarrow>
    u32 \<Rightarrow> u32 \<Rightarrow> u32 \<Rightarrow> kmem \<Rightarrow> (u32 option \<times> kmem) res" where
  "copyuvm_with body data pgdir sz m =
     bindR (setupkvm data m) (\<lambda>(r, m1).
       case r of None \<Rightarrow> Inr (None, m1)
       | Some d \<Rightarrow>
           bindR (copy_loop (body pgdir d) (2 ^ 20) 0 sz m1) (\<lambda>(ok, m2).
             if ok then Inr (Some d, m2) else bindR (freevm d m2) (\<lambda>m3. Inr (None, m3))))"

definition copyuvm :: "u32 \<Rightarrow> u32 \<Rightarrow> u32 \<Rightarrow> kmem \<Rightarrow> (u32 option \<times> kmem) res" where
  "copyuvm = copyuvm_with copy_page"

definition copyuvm_cow :: "u32 \<Rightarrow> u32 \<Rightarrow> u32 \<Rightarrow> kmem \<Rightarrow> (u32 option \<times> kmem) res" where
  "copyuvm_cow = copyuvm_with cow_page"

section \<open>Page faults\<close>

text \<open>The copy-on-write fault of \<open>xv6-public(1)\<close>.\<close>

definition handle_pgflt_helper :: "u32 \<Rightarrow> u32 \<Rightarrow> kmem \<Rightarrow> kmem res" where
  "handle_pgflt_helper pgdir addr m =
     bindR (walkpgdir pgdir addr False m) (\<lambda>(r, m1).
       case r of None \<Rightarrow> Inl (Panic ''pagefault handler : pte unmapped'')
       | Some l \<Rightarrow>
           let pte = entry m1 l in
           if pte AND PTE_U = 0 then Inl (Panic ''pagefault handler'')
           else if \<not> present pte then Inl (Panic ''pagefault handler'')
           else if pte AND PTE_W = 0 \<and> pte AND PTE_COW_W = 0 then Inl (Panic ''pagefault handler'')
           else let pa = PTE_ADDR pte in
             bindR (kalloc m1) (\<lambda>(q, m2).
               case q of None \<Rightarrow> Inl (Panic ''pagefault handler'')
               | Some p \<Rightarrow>
                   bindR (kfree pa (set_page p (pm m2 pa) m2)) (\<lambda>m3.
                     if entry m3 l AND PTE_U \<noteq> 0
                     then Inr (set_entry l (p OR PTE_P OR PTE_W OR PTE_U) m3)
                     else Inr (set_entry l (p OR PTE_P OR PTE_W) m3))))"

text \<open>The lazy allocation of \<open>xv6-public\<close>; errors are printed and ignored.\<close>

definition allocate_on_pgflt :: "u32 \<Rightarrow> u32 \<Rightarrow> kmem \<Rightarrow> kmem res" where
  "allocate_on_pgflt pgdir va m =
     bindR (kalloc m) (\<lambda>(r, m1).
       case r of None \<Rightarrow> Inr m1
       | Some p \<Rightarrow>
           bindR (mappages pgdir va PGSIZE p (PTE_W OR PTE_U) (set_page p zeros m1)) (\<lambda>(ok, m2).
             if ok then Inr m2 else kfree p m2))"

primrec count_pages :: "nat \<Rightarrow> u32 \<Rightarrow> u32 \<Rightarrow> u32 \<Rightarrow> kmem \<Rightarrow> nat res" where
  "count_pages 0 pgdir va sz m = (if va < sz then Inl Blocks else Inr 0)"
| "count_pages (Suc n) pgdir va sz m =
     (if \<not> va < sz then Inr 0
      else bindR (walkpgdir pgdir va False m) (\<lambda>(r, m1).
           bindR (count_pages n pgdir (va + PGSIZE) sz m1) (\<lambda>k.
             case r of None \<Rightarrow> Inr k
             | Some l \<Rightarrow> Inr (if present (entry m1 l) then k + 1 else k))))"

definition num_phy_page :: "u32 \<Rightarrow> u32 \<Rightarrow> kmem \<Rightarrow> nat res" where
  "num_phy_page pgdir sz m = count_pages (2 ^ 20) pgdir 0 sz m"

section \<open>Facts about entries\<close>

lemma entry_set_same [simp]: "entry (set_entry l w m) l = w"
  by (simp add: entry_def set_entry_def)

lemma entry_set_other: "l' \<noteq> l \<Longrightarrow> entry (set_entry l w m) l' = entry m l'"
proof -
  assume "l' \<noteq> l"
  then consider "fst l' \<noteq> fst l" | "fst l' = fst l" "snd l' < snd l \<or> snd l < snd l'"
    by (metis linorder_neqE_nat prod.expand)
  then show ?thesis by cases (auto simp: entry_def set_entry_def)
qed

lemma entry_set_page: "fst l \<noteq> p \<Longrightarrow> entry (set_page p b m) l = entry m l"
  by (simp add: entry_def set_page_def)

lemma entry_zeros: "entry (set_page p zeros m) (p, i) = 0"
  by (simp add: entry_def set_page_def zeros_def get32_def)

lemma set_sel [simp]:
  "freelist (set_entry l w m) = freelist m" "freelist (set_page p b m) = freelist m"
  "refcnt (set_entry l w m) = refcnt m" "refcnt (set_page p b m) = refcnt m"
  "rc_on (set_entry l w m) = rc_on m" "rc_on (set_page p b m) = rc_on m"
  "kend (set_entry l w m) = kend m" "kend (set_page p b m) = kend m"
  "kmem_inv (set_entry l w m) = kmem_inv m" "kmem_inv (set_page p b m) = kmem_inv m"
  "bad_page q (set_entry l w m) = bad_page q m" "bad_page q (set_page p b m) = bad_page q m"
  by (simp_all add: set_entry_def set_page_def kmem_inv_def)

lemma entry_cong: "pm m = pm m' \<Longrightarrow> entry m = entry m'"
  by (intro ext) (simp add: entry_def)

lemma aligned_AND:
  fixes p :: u32
  assumes "p mod PGSIZE = 0"
  shows "p AND 0xFFF = 0"
proof -
  have "p AND mask 12 = p mod 2 ^ 12" by (simp only: take_bit_eq_mask [symmetric] take_bit_eq_mod)
  moreover have "mask 12 = (0xFFF :: u32)" by (simp add: mask_eq_exp_minus_1)
  ultimately show ?thesis using assms by (simp add: PGSIZE_def)
qed

lemma aligned_NOT:
  fixes p :: u32
  assumes "p AND 0xFFF = 0"
  shows "p AND NOT 0xFFF = p"
proof -
  have "p = (p AND 0xFFF) OR (p AND NOT 0xFFF)" by (simp flip: bit.conj_disj_distrib)
  then show ?thesis using assms by simp
qed

lemma PTE_ADDR_OR:
  assumes "p mod PGSIZE = 0" "f AND NOT 0xFFF = (0::u32)"
  shows "PTE_ADDR (p OR f) = p"
proof -
  have "p AND NOT 0xFFF = p" using aligned_NOT [OF aligned_AND [OF assms(1)]] .
  then show ?thesis using assms(2) by (simp add: PTE_ADDR_def bit.conj_disj_distrib2)
qed

lemma present_OR: "present (w OR PTE_P)"
proof -
  have "(w OR PTE_P) AND PTE_P = PTE_P" by (simp add: bit.conj_disj_distrib2 and.commute)
  then show ?thesis by (simp add: present_def PTE_P_def)
qed

section \<open>Copy-on-write faults\<close>

text \<open>A user page that the tables map at \<open>va\<close>, writable or copy-on-write, through the entry \<open>l\<close>, with
  the tables apart from the free pages and from the page itself.\<close>

definition cow_mapped :: "kmem \<Rightarrow> u32 \<Rightarrow> u32 \<Rightarrow> loc \<Rightarrow> bool" where
  "cow_mapped m pgdir va l \<longleftrightarrow>
     (let pde = entry m (pgdir, PDX va); pte = entry m l; pa = PTE_ADDR pte in
      present pde \<and> l = (PTE_ADDR pde, PTX va) \<and> present pte \<and> pte AND PTE_U \<noteq> 0 \<and>
      (pte AND PTE_W \<noteq> 0 \<or> pte AND PTE_COW_W \<noteq> 0) \<and> \<not> bad_page pa m \<and> 0 < refcnt m (pno pa) \<and>
      pgdir \<notin> set (freelist m) \<and> fst l \<notin> set (freelist m) \<and> pa \<noteq> fst l \<and> pa \<noteq> pgdir)"

lemma handle_pgflt_spec:
  assumes inv: "kmem_inv m" "rc_on m" and c: "cow_mapped m pgdir va l" and free: "freelist m = p # ps"
  shows "\<exists>m'. handle_pgflt_helper pgdir va m = Inr m' \<and> kmem_inv m' \<and>
           entry m' l = p OR PTE_P OR PTE_W OR PTE_U \<and> pm m' p = pm m (PTE_ADDR (entry m l)) \<and>
           refcnt m' (pno p) = 1 \<and>
           refcnt m' (pno (PTE_ADDR (entry m l))) = refcnt m (pno (PTE_ADDR (entry m l))) - 1 \<and>
           (\<forall>q. q \<noteq> p \<longrightarrow> q \<noteq> fst l \<longrightarrow>
              (q \<noteq> PTE_ADDR (entry m l) \<or> 1 < refcnt m (pno q)) \<longrightarrow> pm m' q = pm m q) \<and>
           (\<forall>i. i \<noteq> snd l \<longrightarrow> entry m' (fst l, i) = entry m (fst l, i))"
proof -
  define pa where "pa = PTE_ADDR (entry m l)"
  have w: "walkpgdir pgdir va False m = Inr (Some l, m)"
    using c by (auto simp: cow_mapped_def walkpgdir_def Let_def)
  obtain m2 where k: "kalloc m = Inr (Some p, m2)" "freelist m2 = ps" "\<not> bad_page p m" "pm m2 = pm m"
      "kend m2 = kend m" "rc_on m2" "refcnt m2 = (refcnt m)(pno p := 1)" "p \<notin> set ps" "kmem_inv m2"
    using kalloc_spec [OF inv(1)] free inv(2) by auto
  have pa: "\<not> bad_page pa m" "0 < refcnt m (pno pa)" "pa \<noteq> fst l" "p \<noteq> fst l"
    using c free by (auto simp: cow_mapped_def Let_def pa_def)
  have "refcnt m (pno p) = 0" using inv(1) free by (simp add: kmem_inv_def)
  then have np: "pno p \<noteq> pno pa" "p \<noteq> pa" using pa(2) by auto
  let ?m2 = "set_page p (pm m2 pa) m2"
  have "\<not> bad_page pa ?m2" using pa(1) k(5) by (simp add: bad_page_def)
  then obtain m3 where f: "kfree pa ?m2 = Inr m3" "kmem_inv m3" "refcnt m3 = (refcnt ?m2)(pno pa := refcnt m (pno pa) - 1)"
      "if refcnt m (pno pa) = 1 then pm m3 = (pm ?m2)(pa := junk) else pm m3 = pm ?m2"
    using kfree_spec [of ?m2 pa] k pa np by (auto split: if_splits)
  have pm3: "pm m3 q = pm m q" if "q \<noteq> p" "q \<noteq> pa \<or> 1 < refcnt m (pno q)" for q
    using f(4) that k(4) by (auto simp: set_page_def split: if_splits)
  have pm3p: "pm m3 p = pm m pa"
    using f(4) np k(4) by (auto simp: set_page_def split: if_splits)
  have el: "entry m3 (fst l, i) = entry m (fst l, i)" for i
    using pm3 [of "fst l"] pa by (simp add: entry_def)
  then have "entry m3 l = entry m l" by (metis prod.collapse)
  moreover have "entry m l AND PTE_U \<noteq> 0" "present (entry m l)"
      "entry m l AND PTE_W = 0 \<longrightarrow> entry m l AND PTE_COW_W \<noteq> 0"
    using c by (auto simp: cow_mapped_def Let_def)
  ultimately have h: "handle_pgflt_helper pgdir va m = Inr (set_entry l (p OR PTE_P OR PTE_W OR PTE_U) m3)"
    using w k(1) f(1) by (simp add: handle_pgflt_helper_def Let_def pa_def [symmetric])
  have other: "entry (set_entry l x m3) (fst l, i) = entry m (fst l, i)" if "i \<noteq> snd l" for i x
    using that el entry_set_other [of "(fst l, i)" l x m3] by (metis snd_conv)
  have pml: "pm (set_entry l x m3) q = pm m3 q" if "q \<noteq> fst l" for q x
    using that by (simp add: set_entry_def)
  show ?thesis
    unfolding pa_def [symmetric]
    using h f(2,3) k(7) np pm3 pm3p other pml pa(4) by (intro exI [of _ "set_entry l (p OR PTE_P OR PTE_W OR PTE_U) m3"]) auto
qed

text \<open>
  C2. A copy-on-write fault gives the process a private writable copy and disturbs nobody else. If the
  tables map \<open>va\<close> to a user page that is writable or marked copy-on-write and there is a free page, the
  handler succeeds, keeps the allocator's invariant, and makes the entry of \<open>va\<close> map a page nobody
  else references, with the same contents, present, writable and user; the old page loses one
  reference, and while it is still referenced its contents stay; no other page changes, and no other
  entry of the page table.
\<close>

theorem cow_fault_gives_private_copy:
  assumes "kmem_inv m" "rc_on m" "cow_mapped m pgdir va l" "freelist m = p # ps"
  shows "\<exists>m'. handle_pgflt_helper pgdir va m = Inr m' \<and> kmem_inv m' \<and>
           entry m' l = p OR PTE_P OR PTE_W OR PTE_U \<and> PTE_ADDR (entry m' l) = p \<and>
           pm m' p = pm m (PTE_ADDR (entry m l)) \<and> refcnt m' (pno p) = 1 \<and>
           refcnt m' (pno (PTE_ADDR (entry m l))) = refcnt m (pno (PTE_ADDR (entry m l))) - 1 \<and>
           (\<forall>q. q \<noteq> p \<longrightarrow> q \<noteq> fst l \<longrightarrow>
              (q \<noteq> PTE_ADDR (entry m l) \<or> 1 < refcnt m (pno q)) \<longrightarrow> pm m' q = pm m q) \<and>
           (\<forall>i. i \<noteq> snd l \<longrightarrow> entry m' (fst l, i) = entry m (fst l, i))"
proof -
  have "p mod PGSIZE = 0" using assms(1,4) by (auto simp: kmem_inv_def bad_page_def)
  moreover have "(PTE_P OR PTE_W OR PTE_U) AND NOT 0xFFF = 0" by (simp add: PTE_P_def PTE_W_def PTE_U_def)
  ultimately have "PTE_ADDR (p OR PTE_P OR PTE_W OR PTE_U) = p" by (rule PTE_ADDR_OR)
  with handle_pgflt_spec [OF assms] show ?thesis by (simp del: split_paired_All) metis
qed

definition demo_vm :: kmem where
  "demo_vm = \<lparr>kend = 0x100000, freelist = [0x200000, 0x201000], rc_on = True,
     refcnt = (\<lambda>i. if i = 0x300 \<or> i = 0x301 then 1 else if i = 0x302 then 2 else 0),
     pm = (\<lambda>p. if p = 0x300000 then put32 zeros 0 0x301007
               else if p = 0x301000 then put32 zeros 4 0x302105 else zeros)\<rparr>"

lemma demo_vm: "kmem_inv demo_vm" "rc_on demo_vm" "freelist demo_vm = 0x200000 # [0x201000]"
  by (simp_all add: demo_vm_def kmem_inv_def bad_page_def PGSIZE_def PHYSTOP_def pno_def)

lemma demo_entries:
  "entry demo_vm (0x300000, 0) = 0x301007" "entry demo_vm (0x301000, Suc 0) = 0x302105"
  by (simp_all add: entry_def demo_vm_def)

theorem cow_fault_gives_private_copy_witness:
  "\<exists>m'. handle_pgflt_helper 0x300000 0x1000 demo_vm = Inr m' \<and> entry m' (0x301000, 1) = 0x200007 \<and>
     refcnt m' 0x302 = 1"
proof -
  have pdx: "PDX 0x1000 = 0" "PTX 0x1000 = 1" by (simp_all add: PDX_def PTX_def)
  have "cow_mapped demo_vm 0x300000 0x1000 (0x301000, 1)"
    by (simp add: cow_mapped_def pdx demo_entries Let_def PTE_ADDR_def present_def PTE_P_def PTE_U_def
        PTE_W_def PTE_COW_W_def) (simp add: demo_vm_def bad_page_def PGSIZE_def PHYSTOP_def pno_def)
  from cow_fault_gives_private_copy [OF demo_vm(1,2) this demo_vm(3)]
  obtain m' where "handle_pgflt_helper 0x300000 0x1000 demo_vm = Inr m'"
      "entry m' (0x301000, 1) = 0x200000 OR PTE_P OR PTE_W OR PTE_U"
      "refcnt m' (pno (PTE_ADDR (entry demo_vm (0x301000, 1)))) =
       refcnt demo_vm (pno (PTE_ADDR (entry demo_vm (0x301000, 1)))) - 1" by blast
  then show ?thesis
    by (simp add: demo_entries PTE_P_def PTE_W_def PTE_U_def PTE_ADDR_def pno_def)
      (simp add: demo_vm_def)
qed

section \<open>Mappings\<close>

definition pte_of :: "kmem \<Rightarrow> u32 \<Rightarrow> u32 \<Rightarrow> u32" where
  "pte_of m pgdir va =
     (let pde = entry m (pgdir, PDX va) in if present pde then entry m (PTE_ADDR pde, PTX va) else 0)"

definition same_page :: "u32 \<Rightarrow> u32 \<Rightarrow> bool" where
  "same_page va va' \<longleftrightarrow> PDX va = PDX va' \<and> PTX va = PTX va'"

definition pt_wf :: "kmem \<Rightarrow> u32 \<Rightarrow> bool" where
  "pt_wf m pgdir \<longleftrightarrow> pgdir \<notin> set (freelist m) \<and>
     (\<forall>i. present (entry m (pgdir, i)) \<longrightarrow>
        PTE_ADDR (entry m (pgdir, i)) \<noteq> pgdir \<and> PTE_ADDR (entry m (pgdir, i)) \<notin> set (freelist m)) \<and>
     (\<forall>i j. present (entry m (pgdir, i)) \<longrightarrow> present (entry m (pgdir, j)) \<longrightarrow>
        PTE_ADDR (entry m (pgdir, i)) = PTE_ADDR (entry m (pgdir, j)) \<longrightarrow> i = j)"

lemma not_present_0 [simp]: "\<not> present 0"
  by (simp add: present_def)

lemma walk_spec:
  assumes inv: "kmem_inv m" and wf: "pt_wf m pgdir"
  shows "(\<not> present (entry m (pgdir, PDX va)) \<and> freelist m = [] \<and> walkpgdir pgdir va True m = Inr (None, m)) \<or>
    (\<exists>l m'. walkpgdir pgdir va True m = Inr (Some l, m') \<and> kmem_inv m' \<and> pt_wf m' pgdir \<and>
       present (entry m' (pgdir, PDX va)) \<and> l = (PTE_ADDR (entry m' (pgdir, PDX va)), PTX va) \<and>
       (\<forall>va'. pte_of m' pgdir va' = pte_of m pgdir va'))"
proof (cases "present (entry m (pgdir, PDX va))")
  case True
  then show ?thesis using assms by (simp add: walkpgdir_def Let_def)
next
  case False
  show ?thesis
  proof (cases "freelist m")
    case Nil
    then show ?thesis using False by (simp add: walkpgdir_def Let_def kalloc_def)
  next
    case (Cons p ps)
    obtain m1 where k: "kalloc m = Inr (Some p, m1)" "freelist m1 = ps" "\<not> bad_page p m" "pm m1 = pm m"
        "p \<notin> set ps" "kmem_inv m1"
      using kalloc_spec [OF inv] Cons by auto
    let ?e = "p OR PTE_P OR PTE_W OR PTE_U"
    let ?m = "set_entry (pgdir, PDX va) ?e (set_page p zeros m1)"
    have e: "entry m1 = entry m" using k(4) by (rule entry_cong)
    have "p mod PGSIZE = 0" using k(3) by (simp add: bad_page_def)
    then have pa: "PTE_ADDR ?e = p"
      by (rule PTE_ADDR_OR) (simp add: PTE_P_def PTE_W_def PTE_U_def)
    have pr: "present ?e" using present_OR [of "p OR PTE_W OR PTE_U"] by (simp add: ac_simps)
    have np: "p \<noteq> pgdir" using wf Cons by (auto simp: pt_wf_def)
    have dir: "entry ?m (pgdir, i) = (if i = PDX va then ?e else entry m (pgdir, i))" for i
      using np by (auto simp: entry_set_other entry_set_page e)
    have tab: "entry ?m (q, i) = (if q = p then 0 else entry m (q, i))" if "q \<noteq> pgdir" for q i
      using that by (auto simp: entry_set_other entry_set_page entry_zeros e)
    have "pt_wf ?m pgdir"
      using wf pa np k(2,5) Cons unfolding pt_wf_def dir by auto
    moreover have "pte_of ?m pgdir va' = pte_of m pgdir va'" for va'
    proof (cases "PDX va' = PDX va")
      case True
      then show ?thesis using False pr pa np tab [of p] by (simp add: pte_of_def dir Let_def)
    next
      case diff: False
      have "PTE_ADDR (entry m (pgdir, PDX va')) \<noteq> p \<and> PTE_ADDR (entry m (pgdir, PDX va')) \<noteq> pgdir"
        if "present (entry m (pgdir, PDX va'))"
        using wf that Cons by (auto simp: pt_wf_def)
      then show ?thesis using diff tab by (simp add: pte_of_def dir Let_def)
    qed
    moreover have "walkpgdir pgdir va True m = Inr (Some (p, PTX va), ?m)"
      using False k(1) by (simp add: walkpgdir_def Let_def)
    ultimately show ?thesis using k(6) pr pa by (simp add: dir)
  qed
qed

lemma set_pte:
  assumes wf: "pt_wf m pgdir" and pr: "present (entry m (pgdir, PDX va))"
    and l: "l = (PTE_ADDR (entry m (pgdir, PDX va)), PTX va)"
  shows "pt_wf (set_entry l w m) pgdir"
    "pte_of (set_entry l w m) pgdir va' = (if same_page va va' then w else pte_of m pgdir va')"
proof -
  have ne: "fst l \<noteq> pgdir" using wf pr l by (simp add: pt_wf_def)
  have dir: "entry (set_entry l w m) (pgdir, i) = entry m (pgdir, i)" for i
    using ne by (intro entry_set_other) auto
  then show "pt_wf (set_entry l w m) pgdir" using wf by (simp add: pt_wf_def)
  show "pte_of (set_entry l w m) pgdir va' = (if same_page va va' then w else pte_of m pgdir va')"
  proof (cases "same_page va va'")
    case True
    then have "l = (PTE_ADDR (entry m (pgdir, PDX va')), PTX va')" "present (entry m (pgdir, PDX va'))"
      using pr l by (simp_all add: same_page_def)
    then have "pte_of (set_entry l w m) pgdir va' = entry (set_entry l w m) l"
      unfolding pte_of_def dir Let_def by metis
    with True show ?thesis by simp
  next
    case False
    have "(PTE_ADDR (entry m (pgdir, PDX va')), PTX va') \<noteq> l" if "present (entry m (pgdir, PDX va'))"
      using False wf pr l that unfolding pt_wf_def same_page_def by auto
    then show ?thesis using False by (simp add: pte_of_def dir Let_def entry_set_other)
  qed
qed

lemma round_page:
  fixes va :: u32
  assumes "va mod PGSIZE = 0"
  shows "PGROUNDDOWN va = va" "PGROUNDDOWN (va + PGSIZE - 1) = va"
proof -
  have a: "va AND 0xFFF = 0" using aligned_AND [OF assms] .
  have d: "va AND NOT 0xFFF = va" using aligned_NOT [OF a] .
  show "PGROUNDDOWN va = va" using d by (simp add: PGROUNDDOWN_def PGSIZE_def)
  have "va + 0xFFF = va OR 0xFFF" using a by (simp add: disjunctive_add_eq_or)
  then have eq: "va + PGSIZE - 1 = va OR 0xFFF" by (simp add: PGSIZE_def add.commute)
  show "PGROUNDDOWN (va + PGSIZE - 1) = va"
    unfolding eq using d by (simp add: PGROUNDDOWN_def PGSIZE_def bit.conj_disj_distrib2)
qed

lemma mappages_one:
  "va mod PGSIZE = 0 \<Longrightarrow> mappages pgdir va PGSIZE pa perm m = map_loop 0 pgdir va pa perm m"
  by (simp add: mappages_def Let_def round_page)

lemma mappages_page:
  assumes inv: "kmem_inv m" "pt_wf m pgdir" and va: "va mod PGSIZE = 0"
  shows "(present (pte_of m pgdir va) \<and> mappages pgdir va PGSIZE pa perm m = Inl (Panic ''remap'')) \<or>
    (\<not> present (entry m (pgdir, PDX va)) \<and> freelist m = [] \<and> mappages pgdir va PGSIZE pa perm m = Inr (False, m)) \<or>
    (\<not> present (pte_of m pgdir va) \<and> (\<exists>m'. mappages pgdir va PGSIZE pa perm m = Inr (True, m') \<and> kmem_inv m' \<and> pt_wf m' pgdir \<and>
       (\<forall>va'. pte_of m' pgdir va' = (if same_page va va' then pa OR perm OR PTE_P else pte_of m pgdir va'))))"
  using walk_spec [OF inv, of va]
proof
  assume "\<not> present (entry m (pgdir, PDX va)) \<and> freelist m = [] \<and> walkpgdir pgdir va True m = Inr (None, m)"
  then show ?thesis by (simp add: mappages_one [OF va])
next
  assume "\<exists>l m'. walkpgdir pgdir va True m = Inr (Some l, m') \<and> kmem_inv m' \<and> pt_wf m' pgdir \<and>
       present (entry m' (pgdir, PDX va)) \<and> l = (PTE_ADDR (entry m' (pgdir, PDX va)), PTX va) \<and>
       (\<forall>va'. pte_of m' pgdir va' = pte_of m pgdir va')"
  then obtain l m' where w: "walkpgdir pgdir va True m = Inr (Some l, m')" "kmem_inv m'" "pt_wf m' pgdir"
      "present (entry m' (pgdir, PDX va))" "l = (PTE_ADDR (entry m' (pgdir, PDX va)), PTX va)"
      "\<forall>va'. pte_of m' pgdir va' = pte_of m pgdir va'" by blast
  have e: "entry m' l = pte_of m pgdir va"
    using w(4-6) by (metis pte_of_def)
  show ?thesis
  proof (cases "present (pte_of m pgdir va)")
    case True
    then show ?thesis using w(1) e by (simp add: mappages_one [OF va])
  next
    case False
    then have "mappages pgdir va PGSIZE pa perm m = Inr (True, set_entry l (pa OR perm OR PTE_P) m')"
      using w(1) e by (simp add: mappages_one [OF va])
    with False set_pte [OF w(3-5)] w(2,6) show ?thesis by auto
  qed
qed

text \<open>
  \<open>mappages\<close> of one page is an insertion into the address space. With the page tables disjoint
  from each other and from the free pages, it panics exactly when the page is already mapped, fails
  only for want of memory for a page table, and otherwise maps exactly that page, to the given frame
  with the given permissions, leaving what every other virtual address maps to as it was and the
  tables well formed.
\<close>

lemma mappages_inserts:
  assumes "kmem_inv m" "pt_wf m pgdir" "va mod PGSIZE = 0"
  shows "case mappages pgdir va PGSIZE pa perm m of
      Inl e \<Rightarrow> e = Panic ''remap'' \<and> present (pte_of m pgdir va)
    | Inr (False, m') \<Rightarrow> freelist m = [] \<and> m' = m
    | Inr (True, m') \<Rightarrow> \<not> present (pte_of m pgdir va) \<and> kmem_inv m' \<and> pt_wf m' pgdir \<and>
        (\<forall>va'. pte_of m' pgdir va' = (if same_page va va' then pa OR perm OR PTE_P else pte_of m pgdir va'))"
  using mappages_page [OF assms, of pa perm] by auto

text \<open>Mapping a page changes no page but the tables and the free pages.\<close>

lemma mappages_frame:
  assumes "mappages pgdir va PGSIZE pa perm m = Inr (ok, m')" "va mod PGSIZE = 0"
    "q \<notin> set (freelist m)" "q \<noteq> pgdir" "present (entry m (pgdir, PDX va)) \<Longrightarrow> q \<noteq> PTE_ADDR (entry m (pgdir, PDX va))"
    and inv: "kmem_inv m"
  shows "pm m' q = pm m q"
proof -
  have w: "walkpgdir pgdir va True m = Inr (r, m1) \<Longrightarrow> pm m1 q = pm m q \<and> (\<forall>l. r = Some l \<longrightarrow> fst l \<noteq> q)" for r m1
    using assms(3-5) kalloc_spec [OF inv]
    by (auto simp: walkpgdir_def Let_def bindR_Inr_iff set_entry_def set_page_def split: if_splits option.splits)
  have "map_loop 0 pgdir va pa perm m = Inr (ok, m')" using assms(1) mappages_one [OF assms(2)] by simp
  then obtain r m1 where m1: "walkpgdir pgdir va True m = Inr (r, m1)" and c: "(case r of None \<Rightarrow> Inr (False, m1)
       | Some l \<Rightarrow> if present (entry m1 l) then Inl (Panic ''remap'') else Inr (True, set_entry l (pa OR perm OR PTE_P) m1)) = Inr (ok, m')"
    by (auto simp: bindR_Inr_iff)
  show ?thesis using w [OF m1] c by (auto simp: set_entry_def split: option.splits if_splits)
qed

lemma pt_wf_kalloc:
  assumes wf: "pt_wf m pgdir" and k: "freelist m = p # freelist m1" "pm m1 = pm m"
  shows "pt_wf (set_page p b m1) pgdir" "pte_of (set_page p b m1) pgdir va = pte_of m pgdir va"
    "entry (set_page p b m1) (pgdir, i) = entry m (pgdir, i)"
proof -
  have np: "pgdir \<noteq> p" using wf k(1) by (auto simp: pt_wf_def)
  have e: "entry m1 = entry m" using k(2) by (rule entry_cong)
  have dir: "entry (set_page p b m1) (pgdir, i) = entry m (pgdir, i)" for i
    using np by (simp add: entry_set_page e)
  then show "entry (set_page p b m1) (pgdir, i) = entry m (pgdir, i)" .
  show "pt_wf (set_page p b m1) pgdir" using wf k(1) unfolding pt_wf_def dir by auto
  have "PTE_ADDR (entry m (pgdir, PDX va)) \<noteq> p" if "present (entry m (pgdir, PDX va))"
    using wf k(1) that by (auto simp: pt_wf_def)
  then show "pte_of (set_page p b m1) pgdir va = pte_of m pgdir va"
    by (auto simp: pte_of_def dir Let_def entry_set_page e)
qed

lemma kmem_inv_set_page [simp]: "kmem_inv (set_page p b m) = kmem_inv m"
  by (simp add: kmem_inv_def set_page_def)

lemma demo_tables: "pt_wf demo_vm 0x300000"
proof -
  have "entry demo_vm (0x300000, i) = (if i = 0 then 0x301007 else 0)" for i
  proof (cases "i = 0")
    case True
    then show ?thesis by (simp add: entry_def demo_vm_def)
  next
    case False
    then have "entry demo_vm (0x300000, i) = get32 zeros (4 * i)" by (simp add: entry_def demo_vm_def)
    with False show ?thesis by (simp add: zeros_def get32_def)
  qed
  then show ?thesis
    by (simp add: pt_wf_def PTE_ADDR_def) (simp add: demo_vm_def)
qed

lemma mappages_inserts_witness:
  "\<exists>m'. mappages 0x300000 0x5000 PGSIZE 0x201000 (PTE_W OR PTE_U) demo_vm = Inr (True, m') \<and>
     pte_of m' 0x300000 0x5123 = 0x201007 \<and> pte_of m' 0x300000 0x1000 = 0x302105"
proof -
  have idx: "PDX 0x5000 = 0" "PTX 0x5000 = 5" "PDX 0x5123 = 0" "PTX 0x5123 = 5" "PDX 0x1000 = 0" "PTX 0x1000 = 1"
    by (simp_all add: PDX_def PTX_def)
  have e5: "entry demo_vm (0x301000, 5) = 0"
    by (simp add: entry_def demo_vm_def) (simp add: zeros_def get32_def)
  have p: "pte_of demo_vm 0x300000 0x5000 = 0" "pte_of demo_vm 0x300000 0x1000 = 0x302105"
    using e5 by (simp_all add: pte_of_def idx demo_entries present_def PTE_P_def PTE_ADDR_def)
  have "(0x5000 :: u32) mod PGSIZE = 0" by (simp add: PGSIZE_def)
  note t = mappages_inserts [OF demo_vm(1) demo_tables this, where pa = "0x201000" and perm = "PTE_W OR PTE_U"]
  have "freelist demo_vm \<noteq> []" by (simp add: demo_vm_def)
  with t p(1) obtain m' where "mappages 0x300000 0x5000 PGSIZE 0x201000 (PTE_W OR PTE_U) demo_vm = Inr (True, m')"
      "\<forall>va'. pte_of m' 0x300000 va' =
         (if same_page 0x5000 va' then 0x201000 OR (PTE_W OR PTE_U) OR PTE_P else pte_of demo_vm 0x300000 va')"
    by (auto split: sum.splits prod.splits bool.splits)
  then show ?thesis
    using p(2) by (simp add: same_page_def idx PTE_W_def PTE_U_def PTE_P_def)
qed

text \<open>
  The copy-on-write \<open>copyuvm\<close> marks every page of the parent copy-on-write, read-only ones too:
  for a page mapped without write permission, the body of its loop leaves an entry in which
  \<open>PTE_COW_W\<close> is set, so the next write fault makes the page writable. (The handler tests \<open>PTE_COW_W\<close>
  only.)
\<close>

lemma cow_forgets_read_only:
  assumes "kmem_inv m" "pt_wf m d" "i mod PGSIZE = 0" "PTE_ADDR (entry m (pgdir, PDX i)) \<noteq> d"
    "cow_page pgdir d i m = Inr (True, m')"
  shows "pte_of m' d i AND PTE_COW_W \<noteq> 0"
proof -
  define l where "l = (PTE_ADDR (entry m (pgdir, PDX i)), PTX i)"
  define m2 where "m2 = set_entry l ((entry m l AND NOT PTE_W) OR PTE_COW_W) m"
  define pa where "pa = PTE_ADDR (entry m2 l)"
  have e: "entry m2 l = (entry m l AND NOT PTE_W) OR PTE_COW_W" by (simp add: m2_def)
  obtain m3 where i: "incrementRefCount pa m2 = Inr m3"
    and mp: "mappages d i PGSIZE pa (PTE_FLAGS (entry m2 l)) m3 = Inr (True, m')"
    using assms(5) by (auto simp: cow_page_def walkpgdir_def Let_def res_iff l_def m2_def pa_def split: if_splits)
  have m3: "pm m3 = pm m2" "freelist m3 = freelist m2" using i by (auto simp: incrementRefCount_def split: if_splits)
  have "kmem_inv m2" using assms(1) by (simp add: m2_def)
  then have inv: "kmem_inv m3" using i by (rule incr_inv)
  have "entry m3 (d, j) = entry m (d, j)" for j
    using entry_cong [OF m3(1)] assms(4) by (simp add: m2_def entry_set_other l_def)
  then have "pt_wf m3 d" using assms(2) m3(2) by (simp add: pt_wf_def m2_def)
  from mappages_page [OF inv this assms(3), of pa "PTE_FLAGS (entry m2 l)"] mp
  have "pte_of m' d i = pa OR PTE_FLAGS (entry m2 l) OR PTE_P" by (auto simp: same_page_def)
  moreover have "bit (PTE_FLAGS (entry m2 l)) 8"
    unfolding e by (simp add: PTE_FLAGS_def PTE_COW_W_def bit_simps)
  ultimately have "bit (pte_of m' d i AND PTE_COW_W) 8" by (simp add: PTE_COW_W_def bit_simps)
  then show ?thesis by auto
qed

definition demo_ro :: kmem where
  "demo_ro = demo_vm\<lparr>freelist := [0x200000], pm := (pm demo_vm)(0x301000 := put32 zeros 4 0x302005)\<rparr>"

lemma demo_ro:
  "kmem_inv demo_ro" "entry demo_ro (0x300000, 0) = 0x301007" "entry demo_ro (0x301000, Suc 0) = 0x302005"
  "entry demo_ro (0x310000, i) = 0" "pt_wf demo_ro 0x310000"
proof -
  show e: "entry demo_ro (0x310000, i) = 0" for i
    by (simp add: entry_def demo_ro_def demo_vm_def) (simp add: zeros_def get32_def)
  show "pt_wf demo_ro 0x310000"
    unfolding pt_wf_def e by (simp add: demo_ro_def)
  show "entry demo_ro (0x300000, 0) = 0x301007" "entry demo_ro (0x301000, Suc 0) = 0x302005"
    by (simp_all add: entry_def demo_ro_def demo_vm_def)
qed (simp add: demo_ro_def demo_vm_def kmem_inv_def bad_page_def PGSIZE_def PHYSTOP_def pno_def)

lemma cow_forgets_read_only_witness:
  "\<exists>m'. cow_page 0x300000 0x310000 0x1000 demo_ro = Inr (True, m') \<and>
     entry demo_ro (0x301000, 1) AND PTE_W = 0 \<and> pte_of m' 0x310000 0x1000 AND PTE_COW_W \<noteq> 0"
proof -
  have idx: "PDX 0x1000 = 0" "PTX 0x1000 = 1" by (simp_all add: PDX_def PTX_def)
  let ?l = "(0x301000, 1) :: loc"
  let ?m2 = "set_entry ?l ((entry demo_ro ?l AND NOT PTE_W) OR PTE_COW_W) demo_ro"
  have w: "walkpgdir 0x300000 0x1000 False demo_ro = Inr (Some ?l, demo_ro)"
    by (simp add: walkpgdir_def idx demo_ro present_def PTE_P_def PTE_ADDR_def)
  have pa: "PTE_ADDR (entry ?m2 ?l) = 0x302000"
    by (simp add: demo_ro PTE_ADDR_def PTE_W_def PTE_COW_W_def)
  have "\<not> bad_page 0x302000 demo_ro" "refcnt demo_ro (pno 0x302000) = 2" "rc_on demo_ro"
    by (simp_all add: demo_ro_def demo_vm_def bad_page_def PGSIZE_def PHYSTOP_def pno_def)
  then obtain m3 where i: "incrementRefCount 0x302000 ?m2 = Inr m3" "pm m3 = pm ?m2" "freelist m3 = [0x200000]"
    by (simp add: incrementRefCount_def) (simp add: demo_ro_def)
  have "kmem_inv ?m2" using demo_ro(1) by simp
  then have inv: "kmem_inv m3" using i(1) by (rule incr_inv)
  have e: "entry m3 (0x310000, j) = 0" for j
    using entry_cong [OF i(2)] demo_ro(4) by (simp add: entry_set_other)
  then have wf: "pt_wf m3 0x310000" unfolding pt_wf_def e by (simp add: i(3))
  have "\<not> present (pte_of m3 0x310000 0x1000)" by (simp add: pte_of_def e)
  then obtain m' where mp: "mappages 0x310000 0x1000 PGSIZE 0x302000 (PTE_FLAGS (entry ?m2 ?l)) m3 = Inr (True, m')"
    using mappages_page [OF inv wf, of "0x1000", where pa = "0x302000" and perm = "PTE_FLAGS (entry ?m2 ?l)"] i(3)
    by (auto simp: PGSIZE_def)
  have pr: "present (entry demo_ro ?l)" by (simp add: demo_ro present_def PTE_P_def)
  have c: "cow_page 0x300000 0x310000 0x1000 demo_ro = Inr (True, m')"
    unfolding cow_page_def using w pr pa i(1) mp by (simp only: bindR_simps prod.case option.case Let_def if_False if_True not_True_eq_False HOL.simp_thms)
  have a: "(0x1000 :: u32) mod PGSIZE = 0" by (simp add: PGSIZE_def)
  have b: "PTE_ADDR (entry demo_ro (0x300000, PDX 0x1000)) \<noteq> 0x310000"
    by (simp add: idx demo_ro PTE_ADDR_def)
  note cow_forgets_read_only [OF demo_ro(1,5) a b c]
  moreover have "entry demo_ro ?l AND PTE_W = 0" by (simp add: demo_ro PTE_W_def)
  ultimately show ?thesis using c by blast
qed

end
