(* ===== verification/Proc.thy ===== *)
theory Proc
  imports Vm CString
begin

text \<open>
  Processes, \<open>xv6-public/proc.c\<close>: the process table, allocation, \<open>fork\<close>, \<open>wait\<close>, \<open>exit\<close>, \<open>kill\<close>,
  \<open>sleep\<close> and \<open>wakeup\<close>, the listing calls, and the priority scheduler. Processes are named by their
  index in the table. The functions run with the table lock held, one CPU at a time. What a process
  does between being chosen and coming back to the scheduler is an argument of the scheduler. Open
  files and directories are reference counts here; their layers are not part of this theory.
\<close>

section \<open>State\<close>

definition NPROC :: nat where "NPROC = 64"
definition NOFILE :: nat where "NOFILE = 16"
definition KSTACKSIZE :: u32 where "KSTACKSIZE = 4096"

datatype procstate = UNUSED | EMBRYO | SLEEPING | RUNNABLE | RUNNING | ZOMBIE

text \<open>What a process sleeps on: nothing, the address of a process, another address.\<close>

datatype chan = NoChan | ProcChan nat | Addr u32

text \<open>\<open>x86.h\<close>, without the padding.\<close>

record trapframe =
  tf_edi :: u32
  tf_esi :: u32
  tf_ebp :: u32
  tf_oesp :: u32
  tf_ebx :: u32
  tf_edx :: u32
  tf_ecx :: u32
  tf_eax :: u32
  tf_gs :: "16 word"
  tf_fs :: "16 word"
  tf_es :: "16 word"
  tf_ds :: "16 word"
  tf_trapno :: u32
  tf_err :: u32
  tf_eip :: u32
  tf_cs :: "16 word"
  tf_eflags :: u32
  tf_esp :: u32
  tf_ss :: "16 word"

record proc =
  p_sz :: u32
  p_pgdir :: u32
  p_kstack :: u32
  p_state :: procstate
  p_pid :: int
  p_parent :: "nat option"
  p_tf :: trapframe
  p_chan :: chan
  p_killed :: bool
  p_ofile :: "nat option list"
  p_cwd :: "nat option"
  p_name :: "u8 list"
  p_inctxt :: int
  p_prio :: int
  p_welcome :: u32
  p_return :: u32

record kproc =
  ptab :: "proc list"
  nextpid :: int
  initproc :: nat
  prio_check :: int
  kmm :: kmem
  kdata :: u32
  fref :: "nat \<Rightarrow> int"
  iref :: "nat \<Rightarrow> int"

definition upd :: "nat \<Rightarrow> (proc \<Rightarrow> proc) \<Rightarrow> kproc \<Rightarrow> kproc" where
  "upd i f k = k\<lparr>ptab := (ptab k)[i := f (ptab k ! i)]\<rparr>"

section \<open>Allocation and fork\<close>

definition allocproc :: "kproc \<Rightarrow> (nat option \<times> kproc) res" where
  "allocproc k =
     (case scan (\<lambda>p. p_state p = UNUSED) (ptab k) of
        None \<Rightarrow> Inr (None, k)
      | Some i \<Rightarrow>
          let k1 = upd i (\<lambda>p. p\<lparr>p_state := EMBRYO, p_pid := nextpid k, p_inctxt := 0, p_prio := 500,
                                p_welcome := 0, p_return := 0\<rparr>) (k\<lparr>nextpid := nextpid k + 1\<rparr>)
          in bindR (kalloc (kmm k1)) (\<lambda>(r, m).
             case r of
               None \<Rightarrow> Inr (None, upd i (\<lambda>p. p\<lparr>p_kstack := 0, p_state := UNUSED\<rparr>) (k1\<lparr>kmm := m\<rparr>))
             | Some s \<Rightarrow> Inr (Some i, upd i (\<lambda>p. p\<lparr>p_kstack := s\<rparr>) (k1\<lparr>kmm := m\<rparr>))))"

text \<open>\<open>filedup\<close> of \<open>file.c\<close> and \<open>idup\<close> of \<open>fs.c\<close>.\<close>

definition filedup :: "nat \<Rightarrow> (nat \<Rightarrow> int) \<Rightarrow> (nat \<Rightarrow> int) res" where
  "filedup f r = (if r f < 1 then Inl (Panic ''filedup'') else Inr (r(f := r f + 1)))"

definition idup :: "nat \<Rightarrow> (nat \<Rightarrow> int) \<Rightarrow> nat \<Rightarrow> int" where
  "idup i r = r(i := r i + 1)"

fun dup_files :: "nat option list \<Rightarrow> (nat \<Rightarrow> int) \<Rightarrow> (nat \<Rightarrow> int) res" where
  "dup_files [] r = Inr r"
| "dup_files (None # fs) r = dup_files fs r"
| "dup_files (Some f # fs) r = bindR (filedup f r) (dup_files fs)"

text \<open>The child keeps its own slot of the descriptor table where the parent's is empty.\<close>

definition child_files :: "nat option list \<Rightarrow> nat option list \<Rightarrow> nat option list" where
  "child_files cur np = map2 (\<lambda>c n. case c of Some f \<Rightarrow> Some f | None \<Rightarrow> n) cur np"

definition safe_name :: "u8 list \<Rightarrow> u8 list" where
  "safe_name s = takeWhile (\<lambda>c. c \<noteq> 0) (take 15 s) @ [0]"

definition fork :: "nat \<Rightarrow> kproc \<Rightarrow> (int \<times> kproc) res" where
  "fork cur k =
     bindR (allocproc k) (\<lambda>(r, k1).
       case r of
         None \<Rightarrow> Inr (- 1, k1)
       | Some i \<Rightarrow>
           let c = ptab k1 ! cur in
           bindR (copyuvm (kdata k1) (p_pgdir c) (p_sz c) (kmm k1)) (\<lambda>(d, m2).
             case d of
               None \<Rightarrow>
                 bindR (kfree (p_kstack (ptab k1 ! i)) m2) (\<lambda>m3.
                   Inr (- 1, upd i (\<lambda>p. p\<lparr>p_pgdir := 0, p_kstack := 0, p_state := UNUSED\<rparr>) (k1\<lparr>kmm := m3\<rparr>)))
             | Some pg \<Rightarrow>
                 let tf1 = (p_tf c)\<lparr>tf_eax := 0\<rparr>;
                     tf2 = (if p_welcome c \<noteq> 0 then tf1\<lparr>tf_eip := p_welcome c\<rparr> else tf1)
                 in bindR (dup_files (p_ofile c) (fref k1)) (\<lambda>fr.
                    case p_cwd c of
                      None \<Rightarrow> Inl OutOfBounds
                    | Some w \<Rightarrow>
                        Inr (p_pid (ptab k1 ! i),
                             upd i (\<lambda>p. p\<lparr>p_pgdir := pg, p_sz := p_sz c, p_parent := Some cur, p_tf := tf2,
                                          p_return := tf_eip (p_tf c),
                                          p_ofile := child_files (p_ofile c) (p_ofile p), p_cwd := Some w,
                                          p_name := safe_name (p_name c), p_state := RUNNABLE\<rparr>)
                               (k1\<lparr>kmm := m2, fref := fr, iref := idup w (iref k1)\<rparr>)))))"

text \<open>\<open>growproc\<close>, without the reload of the page table register. \<open>n\<close> is the signed argument.\<close>

definition growproc :: "nat \<Rightarrow> int \<Rightarrow> kproc \<Rightarrow> (int \<times> kproc) res" where
  "growproc cur n k =
     (let p = ptab k ! cur; sz = p_sz p in
      if n > 0 then
        bindR (allocuvm (p_pgdir p) sz (sz + word_of_int n) (kmm k)) (\<lambda>(sz', m).
          if sz' = 0 then Inr (- 1, k\<lparr>kmm := m\<rparr>)
          else Inr (0, upd cur (\<lambda>p. p\<lparr>p_sz := sz'\<rparr>) (k\<lparr>kmm := m\<rparr>)))
      else if n < 0 then
        bindR (deallocuvm (p_pgdir p) sz (sz + word_of_int n) (kmm k)) (\<lambda>(sz', m).
          if sz' = 0 then Inr (- 1, k\<lparr>kmm := m\<rparr>)
          else Inr (0, upd cur (\<lambda>p. p\<lparr>p_sz := sz'\<rparr>) (k\<lparr>kmm := m\<rparr>)))
      else Inr (0, k))"

section \<open>Sleeping, waking, ending\<close>

definition wakeup1 :: "chan \<Rightarrow> proc list \<Rightarrow> proc list" where
  "wakeup1 ch = map (\<lambda>p. if p_state p = SLEEPING \<and> p_chan p = ch then p\<lparr>p_state := RUNNABLE\<rparr> else p)"

definition wakeup :: "chan \<Rightarrow> kproc \<Rightarrow> kproc" where
  "wakeup ch k = k\<lparr>ptab := wakeup1 ch (ptab k)\<rparr>"

text \<open>\<open>sleep\<close> up to \<open>sched\<close>, and from its return on.\<close>

definition sleep_on :: "nat \<Rightarrow> chan \<Rightarrow> kproc \<Rightarrow> kproc" where
  "sleep_on cur ch k = upd cur (\<lambda>p. p\<lparr>p_chan := ch, p_state := SLEEPING\<rparr>) k"

definition sleep_done :: "nat \<Rightarrow> kproc \<Rightarrow> kproc" where
  "sleep_done cur k = upd cur (\<lambda>p. p\<lparr>p_chan := NoChan\<rparr>) k"

definition yield :: "nat \<Rightarrow> kproc \<Rightarrow> kproc" where
  "yield cur k = upd cur (\<lambda>p. p\<lparr>p_state := RUNNABLE\<rparr>) k"

text \<open>The loop of \<open>exit\<close> that passes the children to \<open>init\<close>: for each of them, waking \<open>init\<close> if it is a
  zombie.\<close>

primrec reparent :: "nat \<Rightarrow> nat \<Rightarrow> nat \<Rightarrow> proc list \<Rightarrow> proc list" where
  "reparent cur ini 0 t = t"
| "reparent cur ini (Suc n) t =
     (let t1 = reparent cur ini n t in
      if p_parent (t1 ! n) = Some cur then
        let t2 = t1[n := (t1 ! n)\<lparr>p_parent := Some ini\<rparr>] in
        if p_state (t2 ! n) = ZOMBIE then wakeup1 (ProcChan ini) t2 else t2
      else t1)"

text \<open>\<open>exit\<close> from the acquisition of the table lock to the call of \<open>sched\<close>, after its test for \<open>init\<close>.\<close>

definition exit_table :: "nat \<Rightarrow> kproc \<Rightarrow> kproc res" where
  "exit_table cur k =
     (if cur = initproc k then Inl (Panic ''init exiting'')
      else let t1 = (case p_parent (ptab k ! cur) of
                       Some q \<Rightarrow> wakeup1 (ProcChan q) (ptab k) | None \<Rightarrow> wakeup1 NoChan (ptab k));
               t2 = reparent cur (initproc k) (length t1) t1
           in Inr (k\<lparr>ptab := t2[cur := (t2 ! cur)\<lparr>p_state := ZOMBIE\<rparr>]\<rparr>))"

datatype wait_result = Reaped int | NoChild | Waits

text \<open>One round of the loop of \<open>wait\<close>; \<open>Waits\<close> is the call of \<open>sleep\<close> on the process itself.\<close>

definition wait_round :: "nat \<Rightarrow> kproc \<Rightarrow> (wait_result \<times> kproc) res" where
  "wait_round cur k =
     (case scan (\<lambda>p. p_parent p = Some cur \<and> p_state p = ZOMBIE) (ptab k) of
        Some i \<Rightarrow>
          let p = ptab k ! i in
          bindR (kfree (p_kstack p) (kmm k)) (\<lambda>m1.
          bindR (freevm (p_pgdir p) m1) (\<lambda>m2.
            Inr (Reaped (p_pid p),
                 upd i (\<lambda>p. p\<lparr>p_kstack := 0, p_pid := 0, p_parent := None, p_name := (p_name p)[0 := 0],
                              p_killed := False, p_state := UNUSED\<rparr>) (k\<lparr>kmm := m2\<rparr>))))
      | None \<Rightarrow>
          if \<not> (\<exists>p\<in>set (ptab k). p_parent p = Some cur) \<or> p_killed (ptab k ! cur) then Inr (NoChild, k)
          else Inr (Waits, sleep_on cur (ProcChan cur) k))"

definition kill :: "int \<Rightarrow> kproc \<Rightarrow> int \<times> kproc" where
  "kill pid k =
     (case scan (\<lambda>p. p_pid p = pid) (ptab k) of
        Some i \<Rightarrow> (0, upd i (\<lambda>p. p\<lparr>p_killed := True,
                       p_state := (if p_state p = SLEEPING then RUNNABLE else p_state p)\<rparr>) k)
      | None \<Rightarrow> (- 1, k))"

section \<open>Listing\<close>

definition getNum :: "kproc \<Rightarrow> nat" where
  "getNum k = fold (\<lambda>p n. if p_state p \<noteq> UNUSED then n + 1 else n) (ptab k) 0"

definition MaxPid :: "kproc \<Rightarrow> int" where
  "MaxPid k = fold (\<lambda>p m. if p_pid p > m then p_pid p else m) (ptab k) 0"

text \<open>Parent, size and number of context switches; a null parent pointer is read through.\<close>

definition ProcInfo :: "int \<Rightarrow> kproc \<Rightarrow> (int \<times> u32 \<times> int) option res" where
  "ProcInfo pid k =
     (case scan (\<lambda>p. p_pid p = pid \<and> p_state p \<noteq> UNUSED) (ptab k) of
        None \<Rightarrow> Inr None
      | Some i \<Rightarrow>
          let p = ptab k ! i in
          if pid = 1 then Inr (Some (0, p_sz p, p_inctxt p))
          else case p_parent p of None \<Rightarrow> Inl OutOfBounds
               | Some q \<Rightarrow> Inr (Some (p_pid (ptab k ! q), p_sz p, p_inctxt p)))"

section \<open>The scheduler\<close>

text \<open>\<open>sched\<close>: its tests, with the processor's state as arguments.\<close>

definition sched :: "bool \<Rightarrow> int \<Rightarrow> bool \<Rightarrow> nat \<Rightarrow> kproc \<Rightarrow> unit res" where
  "sched holding_ptable ncli interrupts cur k =
     (if \<not> holding_ptable then Inl (Panic ''sched ptable.lock'')
      else if ncli \<noteq> 1 then Inl (Panic ''sched locks'')
      else if p_state (ptab k ! cur) = RUNNING then Inl (Panic ''sched running'')
      else if interrupts then Inl (Panic ''sched interruptible'')
      else Inr ())"

text \<open>The pass over the table: \<open>run i\<close> is what happens from the switch to process \<open>i\<close> until control
  returns to the scheduler. The list is the processes that were run.\<close>

primrec sched_pass :: "(nat \<Rightarrow> kproc \<Rightarrow> kproc) \<Rightarrow> nat \<Rightarrow> kproc \<Rightarrow> nat list \<times> kproc" where
  "sched_pass run 0 k = ([], k)"
| "sched_pass run (Suc n) k =
     (let (ran, k1) = sched_pass run n k; p = ptab k1 ! n in
      if p_state p \<noteq> RUNNABLE \<or> p_prio p < prio_check k1 then (ran, k1)
      else (ran @ [n], run n (upd n (\<lambda>p. p\<lparr>p_state := RUNNING, p_inctxt := p_inctxt p + 1\<rparr>) k1)))"

definition sched_round :: "(nat \<Rightarrow> kproc \<Rightarrow> kproc) \<Rightarrow> kproc \<Rightarrow> nat list \<times> kproc" where
  "sched_round run k =
     (let (ran, k1) = sched_pass run NPROC k; c = prio_check k1 - 10
      in (ran, k1\<lparr>prio_check := (if c < 0 then 1000 else c)\<rparr>))"

primrec scheduler :: "(nat \<Rightarrow> kproc \<Rightarrow> kproc) \<Rightarrow> nat \<Rightarrow> kproc \<Rightarrow> nat list list \<times> kproc" where
  "scheduler run 0 k = ([], k)"
| "scheduler run (Suc n) k =
     (let (rs, k1) = scheduler run n k; (r, k2) = sched_round run k1 in (rs @ [r], k2))"

section \<open>The table invariant\<close>

definition live :: "proc \<Rightarrow> bool" where "live p \<longleftrightarrow> p_state p \<noteq> UNUSED"

definition tab_inv :: "int \<Rightarrow> proc list \<Rightarrow> bool" where
  "tab_inv np t \<longleftrightarrow> length t = NPROC \<and> 1 \<le> np \<and>
     (\<forall>i<NPROC. live (t ! i) \<longrightarrow> 0 < p_pid (t ! i) \<and> p_pid (t ! i) < np) \<and>
     (\<forall>i<NPROC. \<forall>j<NPROC. live (t ! i) \<longrightarrow> live (t ! j) \<longrightarrow> p_pid (t ! i) = p_pid (t ! j) \<longrightarrow> i = j) \<and>
     (\<forall>i<NPROC. \<forall>q. p_parent (t ! i) = Some q \<longrightarrow> q < NPROC)"

definition proc_inv :: "kproc \<Rightarrow> bool" where
  "proc_inv k \<longleftrightarrow> tab_inv (nextpid k) (ptab k) \<and> initproc k < NPROC"

lemma upd_sel [simp]:
  "nextpid (upd i f k) = nextpid k" "initproc (upd i f k) = initproc k" "prio_check (upd i f k) = prio_check k"
  "kmm (upd i f k) = kmm k" "kdata (upd i f k) = kdata k" "length (ptab (upd i f k)) = length (ptab k)"
  by (simp_all add: upd_def)

lemma nth_upd: "i < length (ptab k) \<Longrightarrow> ptab (upd i f k) ! j = (if j = i then f (ptab k ! j) else ptab k ! j)"
  by (simp add: upd_def nth_list_update)

lemma tab_invI:
  assumes "length t = NPROC" "1 \<le> np"
    "\<And>i. i < NPROC \<Longrightarrow> live (t ! i) \<Longrightarrow> 0 < p_pid (t ! i) \<and> p_pid (t ! i) < np"
    "\<And>i j. i < NPROC \<Longrightarrow> j < NPROC \<Longrightarrow> live (t ! i) \<Longrightarrow> live (t ! j) \<Longrightarrow> p_pid (t ! i) = p_pid (t ! j) \<Longrightarrow> i = j"
    "\<And>i q. i < NPROC \<Longrightarrow> p_parent (t ! i) = Some q \<Longrightarrow> q < NPROC"
  shows "tab_inv np t"
  unfolding tab_inv_def using assms by blast

lemma tab_invD:
  assumes "tab_inv np t"
  shows "length t = NPROC" "1 \<le> np"
    "i < NPROC \<Longrightarrow> live (t ! i) \<Longrightarrow> 0 < p_pid (t ! i) \<and> p_pid (t ! i) < np"
    "i < NPROC \<Longrightarrow> j < NPROC \<Longrightarrow> live (t ! i) \<Longrightarrow> live (t ! j) \<Longrightarrow> p_pid (t ! i) = p_pid (t ! j) \<Longrightarrow> i = j"
    "i < NPROC \<Longrightarrow> p_parent (t ! i) = Some q \<Longrightarrow> q < NPROC"
  using assms unfolding tab_inv_def by blast+

text \<open>A step that brings no slot to life, keeps the identifiers of the live ones, and sets parents inside
  the table.\<close>

lemma tab_inv_step:
  assumes t: "tab_inv np t" and len: "length t' = length t"
    and keep: "\<And>i. i < NPROC \<Longrightarrow> live (t' ! i) \<Longrightarrow> live (t ! i) \<and> p_pid (t' ! i) = p_pid (t ! i)"
    and par: "\<And>i q. i < NPROC \<Longrightarrow> p_parent (t' ! i) = Some q \<Longrightarrow> q < NPROC"
  shows "tab_inv np t'"
proof (rule tab_invI)
  show "length t' = NPROC" using len tab_invD(1) [OF t] by metis
  show "1 \<le> np" using t by (rule tab_invD)
  show "0 < p_pid (t' ! i) \<and> p_pid (t' ! i) < np" if "i < NPROC" "live (t' ! i)" for i
    using keep [OF that] tab_invD(3) [OF t that(1)] by metis
  show "i = j" if "i < NPROC" "j < NPROC" "live (t' ! i)" "live (t' ! j)" "p_pid (t' ! i) = p_pid (t' ! j)" for i j
    using keep [OF that(1,3)] keep [OF that(2,4)] tab_invD(4) [OF t that(1,2)] that(5) by metis
qed (rule par)

lemma tab_inv_upd:
  assumes t: "tab_inv np t" and i: "i < NPROC" and keep: "live p \<Longrightarrow> live (t ! i) \<and> p_pid p = p_pid (t ! i)"
    and par: "\<And>q. p_parent p = Some q \<Longrightarrow> q < NPROC"
  shows "tab_inv np (t[i := p])"
proof (rule tab_inv_step [OF t])
  have len: "length t = NPROC" using t by (rule tab_invD)
  show "live (t ! j) \<and> p_pid (t[i := p] ! j) = p_pid (t ! j)" if "j < NPROC" "live (t[i := p] ! j)" for j
  proof (cases "j = i")
    case True
    then have "t[i := p] ! j = p" using i len by simp
    then show ?thesis using that keep True by metis
  next
    case False
    then have "t[i := p] ! j = t ! j" by simp
    then show ?thesis using that by metis
  qed
  show "q < NPROC" if "j < NPROC" "p_parent (t[i := p] ! j) = Some q" for j q
  proof (cases "j = i")
    case True
    then have "t[i := p] ! j = p" using i len by simp
    then show ?thesis using that par by metis
  next
    case False
    then have "t[i := p] ! j = t ! j" by simp
    then show ?thesis using that tab_invD(5) [OF t] by metis
  qed
qed simp

lemma tab_inv_parent: "tab_inv np t \<Longrightarrow> i < NPROC \<Longrightarrow> p_parent (t ! i) = Some q \<Longrightarrow> q < NPROC"
  by (rule tab_invD(5))

lemma tab_inv_map:
  assumes "tab_inv np t" "\<And>p. p_pid (f p) = p_pid p" "\<And>p. live (f p) = live p" "\<And>p. p_parent (f p) = p_parent p"
  shows "tab_inv np (map f t)"
proof (rule tab_inv_step [OF assms(1)])
  have nth: "map f t ! i = f (t ! i)" if "i < NPROC" for i
    using that tab_invD(1) [OF assms(1)] by simp
  show "live (t ! i) \<and> p_pid (map f t ! i) = p_pid (t ! i)" if "i < NPROC" "live (map f t ! i)" for i
    using that nth [OF that(1)] assms(2,3) by metis
  show "q < NPROC" if "i < NPROC" "p_parent (map f t ! i) = Some q" for i q
    using that nth [OF that(1)] assms(4) tab_invD(5) [OF assms(1)] by metis
qed simp

lemma wakeup1_sel:
  "length (wakeup1 ch t) = length t"
  "i < length t \<Longrightarrow> p_parent (wakeup1 ch t ! i) = p_parent (t ! i)"
  "i < length t \<Longrightarrow> p_pid (wakeup1 ch t ! i) = p_pid (t ! i)"
  "i < length t \<Longrightarrow> live (wakeup1 ch t ! i) = live (t ! i)"
  "i < length t \<Longrightarrow> p_state (wakeup1 ch t ! i) =
     (if p_state (t ! i) = SLEEPING \<and> p_chan (t ! i) = ch then RUNNABLE else p_state (t ! i))"
  by (auto simp: wakeup1_def live_def)

lemma wakeup1_inv: "tab_inv np t \<Longrightarrow> tab_inv np (wakeup1 ch t)"
  unfolding wakeup1_def by (rule tab_inv_map) (auto simp: live_def)

lemma scan_tab:
  assumes "scan P t = Some i" "tab_inv np t"
  shows "i < NPROC" "P (t ! i)"
  using scan_SomeD [OF assms(1)] assms(2) by (auto simp: tab_inv_def)

lemma tab_inv_new:
  assumes t: "tab_inv np t" and i: "i < NPROC" "\<not> live (t ! i)" and p: "p_pid p = np" "p_parent p = p_parent (t ! i)"
  shows "tab_inv (np + 1) (t[i := p])"
proof -
  have len: "length t = NPROC" and np: "1 \<le> np" using t by (rule tab_invD)+
  have nth: "t[i := p] ! j = (if j = i then p else t ! j)" if "j < NPROC" for j
    using that len by (simp add: nth_list_update)
  have old: "p_pid (t[i := p] ! j) < np \<and> 0 < p_pid (t[i := p] ! j)" if "j < NPROC" "live (t[i := p] ! j)" "j \<noteq> i" for j
    using that nth [OF that(1)] tab_invD(3) [OF t that(1)] by metis
  have new: "p_pid (t[i := p] ! i) = np" using nth [OF i(1)] p(1) by metis
  show ?thesis
  proof (rule tab_invI)
    show "0 < p_pid (t[i := p] ! j) \<and> p_pid (t[i := p] ! j) < np + 1" if "j < NPROC" "live (t[i := p] ! j)" for j
      using old [OF that] new np by (cases "j = i") auto
    show "j = j'" if "j < NPROC" "j' < NPROC" "live (t[i := p] ! j)" "live (t[i := p] ! j')"
      "p_pid (t[i := p] ! j) = p_pid (t[i := p] ! j')" for j j'
    proof (cases "j = i \<or> j' = i")
      case True
      then show ?thesis using old [OF that(1,3)] old [OF that(2,4)] new that(5) by (metis order_less_irrefl)
    next
      case False
      then show ?thesis using tab_invD(4) [OF t that(1,2)] nth [OF that(1)] nth [OF that(2)] that by metis
    qed
    show "q < NPROC" if "j < NPROC" "p_parent (t[i := p] ! j) = Some q" for j q
      using nth [OF that(1)] that tab_invD(5) [OF t] p(2) i(1) by metis
  qed (use len np in simp_all)
qed

text \<open>The outcome of \<open>allocproc\<close>.\<close>

lemma allocproc_cases:
  assumes "proc_inv k" "kmem_inv (kmm k)"
  obtains (full) "allocproc k = Inr (None, k)" "\<forall>p\<in>set (ptab k). live p"
  | (nomem) i k' where "i < NPROC" "\<not> live (ptab k ! i)" "allocproc k = Inr (None, k')" "proc_inv k'"
      "freelist (kmm k) = []" "kmm k' = kmm k" "\<And>j. j \<noteq> i \<Longrightarrow> ptab k' ! j = ptab k ! j" "\<not> live (ptab k' ! i)"
  | (ok) i k' s where "i < NPROC" "\<not> live (ptab k ! i)" "allocproc k = Inr (Some i, k')" "proc_inv k'"
      "kmem_inv (kmm k')" "nextpid k' = nextpid k + 1" "initproc k' = initproc k" "prio_check k' = prio_check k"
      "kdata k' = kdata k" "fref k' = fref k" "iref k' = iref k"
      "ptab k' = (ptab k)[i := (ptab k ! i)\<lparr>p_state := EMBRYO, p_pid := nextpid k, p_inctxt := 0,
         p_prio := 500, p_welcome := 0, p_return := 0, p_kstack := s\<rparr>]"
proof (cases "scan (\<lambda>p. p_state p = UNUSED) (ptab k)")
  case None
  then have "\<forall>p\<in>set (ptab k). live p" by (simp add: scan_None_iff live_def)
  moreover have "allocproc k = Inr (None, k)" using None by (simp add: allocproc_def)
  ultimately show thesis using full by blast
next
  case (Some i)
  have t: "tab_inv (nextpid k) (ptab k)" and len: "length (ptab k) = NPROC" and ini: "initproc k < NPROC"
    using assms(1) tab_invD(1) by (auto simp: proc_inv_def)
  have i: "i < NPROC" "\<not> live (ptab k ! i)" using scan_tab [OF Some t] by (auto simp: live_def)
  let ?p = "(ptab k ! i)\<lparr>p_state := EMBRYO, p_pid := nextpid k, p_inctxt := 0, p_prio := 500, p_welcome := 0, p_return := 0\<rparr>"
  from kalloc_spec [OF assms(2)] consider (no) "freelist (kmm k) = []" "kalloc (kmm k) = Inr (None, kmm k)"
    | (yes) s m' where "kalloc (kmm k) = Inr (Some s, m')" "kmem_inv m'" by blast
  then show thesis
  proof cases
    case no
    let ?q = "?p\<lparr>p_kstack := 0, p_state := UNUSED\<rparr>"
    let ?k = "k\<lparr>nextpid := nextpid k + 1, ptab := (ptab k)[i := ?q]\<rparr>"
    have "allocproc k = Inr (None, ?k)" using Some no(2) i len by (simp add: allocproc_def upd_def Let_def)
    moreover have "proc_inv ?k" using tab_inv_new [OF t i, of ?q] ini by (simp add: proc_inv_def)
    ultimately show thesis using nomem [of i ?k] i no(1) len by (simp add: live_def)
  next
    case yes
    let ?q = "?p\<lparr>p_kstack := s\<rparr>"
    let ?k = "k\<lparr>nextpid := nextpid k + 1, ptab := (ptab k)[i := ?q], kmm := m'\<rparr>"
    have "allocproc k = Inr (Some i, ?k)" using Some yes(1) i len by (simp add: allocproc_def upd_def Let_def)
    moreover have "proc_inv ?k" using tab_inv_new [OF t i, of ?q] ini by (simp add: proc_inv_def)
    ultimately show thesis using ok [of i ?k s] i yes(2) by simp
  qed
qed

section \<open>The operations keep the invariant\<close>

lemma upd_inv:
  assumes "proc_inv k" "i < NPROC" "live (f (ptab k ! i)) \<Longrightarrow> live (ptab k ! i) \<and> p_pid (f (ptab k ! i)) = p_pid (ptab k ! i)"
    "\<And>q. p_parent (f (ptab k ! i)) = Some q \<Longrightarrow> q < NPROC"
  shows "proc_inv (upd i f k)"
  using tab_inv_upd [of "nextpid k" "ptab k" i "f (ptab k ! i)"] assms by (simp add: proc_inv_def upd_def)

lemma proc_inv_len: "proc_inv k \<Longrightarrow> length (ptab k) = NPROC"
  using tab_invD(1) by (auto simp: proc_inv_def)

lemma proc_inv_parent: "proc_inv k \<Longrightarrow> i < NPROC \<Longrightarrow> p_parent (ptab k ! i) = Some q \<Longrightarrow> q < NPROC"
  using tab_invD(5) by (auto simp: proc_inv_def)

lemma reparent_all:
  "n \<le> length t \<Longrightarrow> length (reparent cur ini n t) = length t \<and>
   (\<forall>i<length t. live (reparent cur ini n t ! i) = live (t ! i) \<and>
      p_pid (reparent cur ini n t ! i) = p_pid (t ! i) \<and>
      p_parent (reparent cur ini n t ! i) =
        (if i < n \<and> p_parent (t ! i) = Some cur then Some ini else p_parent (t ! i)))"
proof (induction n)
  case (Suc n)
  let ?r = "reparent cur ini n t"
  have lr: "length ?r = length t" and IH: "\<And>i. i < length t \<Longrightarrow> live (?r ! i) = live (t ! i) \<and>
      p_pid (?r ! i) = p_pid (t ! i) \<and>
      p_parent (?r ! i) = (if i < n \<and> p_parent (t ! i) = Some cur then Some ini else p_parent (t ! i))"
    using Suc by simp_all
  have pn: "p_parent (?r ! n) = p_parent (t ! n)" using IH [of n] Suc.prems by simp
  define u where "u = ?r[n := (?r ! n)\<lparr>p_parent := Some ini\<rparr>]"
  have lu: "length u = length t" using lr by (simp add: u_def)
  have u: "live (u ! i) = live (?r ! i) \<and> p_pid (u ! i) = p_pid (?r ! i) \<and>
      p_parent (u ! i) = (if i = n then Some ini else p_parent (?r ! i))" if "i < length t" for i
    using lr that Suc.prems by (simp add: u_def nth_list_update live_def)
  have w: "live (wakeup1 (ProcChan ini) u ! i) = live (u ! i) \<and>
      p_pid (wakeup1 (ProcChan ini) u ! i) = p_pid (u ! i) \<and>
      p_parent (wakeup1 (ProcChan ini) u ! i) = p_parent (u ! i)" if "i < length t" for i
    using wakeup1_sel(2-4) [of i u] lu that by simp
  define v where "v = (if p_state (u ! n) = ZOMBIE then wakeup1 (ProcChan ini) u else u)"
  have lv: "length v = length t" using lu by (simp add: v_def wakeup1_sel(1))
  have v: "live (v ! i) = live (t ! i) \<and> p_pid (v ! i) = p_pid (t ! i) \<and>
      p_parent (v ! i) = (if i = n then Some ini
         else if i < n \<and> p_parent (t ! i) = Some cur then Some ini else p_parent (t ! i))" if "i < length t" for i
    using u [OF that] w [OF that] IH [OF that] by (cases "i = n"; cases "p_state (u ! n) = ZOMBIE") (auto simp: v_def)
  have r: "reparent cur ini (Suc n) t = (if p_parent (t ! n) = Some cur then v else ?r)"
    by (simp add: Let_def u_def [symmetric] v_def pn)
  show ?case
  proof (cases "p_parent (t ! n) = Some cur")
    case True
    then have e: "reparent cur ini (Suc n) t = v" using r by simp
    show ?thesis unfolding e using lv v True by (auto simp: less_Suc_eq)
  next
    case False
    then have e: "reparent cur ini (Suc n) t = ?r" using r by simp
    show ?thesis unfolding e using lr IH False by (auto simp: less_Suc_eq)
  qed
qed simp

lemma reparent_sel:
  assumes "n \<le> length t"
  shows "length (reparent cur ini n t) = length t"
    "i < length t \<Longrightarrow> live (reparent cur ini n t ! i) = live (t ! i)"
    "i < length t \<Longrightarrow> p_pid (reparent cur ini n t ! i) = p_pid (t ! i)"
    "i < length t \<Longrightarrow> p_parent (reparent cur ini n t ! i) =
       (if i < n \<and> p_parent (t ! i) = Some cur then Some ini else p_parent (t ! i))"
  using reparent_all [OF assms] by blast+

lemma wakeup_inv: "proc_inv k \<Longrightarrow> proc_inv (wakeup ch k)"
  by (simp add: proc_inv_def wakeup_def wakeup1_inv)

lemma kill_inv: "proc_inv k \<Longrightarrow> proc_inv (snd (kill pid k))"
proof (cases "scan (\<lambda>p. p_pid p = pid) (ptab k)")
  case (Some i)
  assume inv: "proc_inv k"
  then have i: "i < NPROC" using scan_tab(1) [OF Some, of "nextpid k"] by (simp add: proc_inv_def)
  have "proc_inv (upd i (\<lambda>p. p\<lparr>p_killed := True,
      p_state := (if p_state p = SLEEPING then RUNNABLE else p_state p)\<rparr>) k)"
    by (rule upd_inv [OF inv i]) (use proc_inv_parent [OF inv i] in \<open>auto simp: live_def split: if_splits\<close>)
  with Some show ?thesis by (simp add: kill_def)
qed (simp add: kill_def)

lemma sleep_inv:
  assumes "proc_inv k" "cur < NPROC" "live (ptab k ! cur)"
  shows "proc_inv (sleep_on cur ch k)" "proc_inv (sleep_done cur k)" "proc_inv (yield cur k)"
  unfolding sleep_on_def sleep_done_def yield_def
  by (rule upd_inv [OF assms(1,2)]; use assms(3) proc_inv_parent [OF assms(1,2)] in \<open>simp add: live_def\<close>)+

lemma exit_spec:
  assumes inv: "proc_inv k" and cur: "cur < NPROC" "live (ptab k ! cur)" and e: "exit_table cur k = Inr k'"
  shows "proc_inv k'" "p_state (ptab k' ! cur) = ZOMBIE" "nextpid k' = nextpid k"
    "\<And>i. i < NPROC \<Longrightarrow> p_parent (ptab k' ! i) =
       (if p_parent (ptab k ! i) = Some cur then Some (initproc k) else p_parent (ptab k ! i))"
    "\<And>i. i < NPROC \<Longrightarrow> p_pid (ptab k' ! i) = p_pid (ptab k ! i)"
proof -
  have t: "tab_inv (nextpid k) (ptab k)" and ini: "initproc k < NPROC" using inv by (auto simp: proc_inv_def)
  have len: "length (ptab k) = NPROC" using inv by (rule proc_inv_len)
  define ch where "ch = (case p_parent (ptab k ! cur) of Some q \<Rightarrow> ProcChan q | None \<Rightarrow> NoChan)"
  define t1 where "t1 = wakeup1 ch (ptab k)"
  define t2 where "t2 = reparent cur (initproc k) NPROC t1"
  have lt: "length t1 = NPROC" by (simp add: t1_def wakeup1_sel len)
  have k': "k' = k\<lparr>ptab := t2[cur := (t2 ! cur)\<lparr>p_state := ZOMBIE\<rparr>]\<rparr>"
    using e by (auto simp: exit_table_def Let_def t2_def t1_def ch_def wakeup1_sel len split: if_splits option.splits)
  have s1: "live (t1 ! i) = live (ptab k ! i)" "p_pid (t1 ! i) = p_pid (ptab k ! i)"
    "p_parent (t1 ! i) = p_parent (ptab k ! i)" if "i < NPROC" for i
    using that wakeup1_sel(2-4) [of i "ptab k"] len by (simp_all add: t1_def)
  have l2: "length t2 = NPROC" using reparent_sel(1) [of NPROC t1] lt by (simp add: t2_def)
  have s2: "live (t2 ! i) = live (ptab k ! i)" "p_pid (t2 ! i) = p_pid (ptab k ! i)"
    "p_parent (t2 ! i) = (if p_parent (ptab k ! i) = Some cur then Some (initproc k) else p_parent (ptab k ! i))"
    if "i < NPROC" for i
    using that s1 [OF that] reparent_sel(2-4) [of NPROC t1 i] lt by (simp_all add: t2_def)
  have nth: "ptab k' ! i = (if i = cur then (t2 ! cur)\<lparr>p_state := ZOMBIE\<rparr> else t2 ! i)" if "i < NPROC" for i
    using that l2 by (simp add: k' nth_list_update)
  show "p_state (ptab k' ! cur) = ZOMBIE" using nth [OF cur(1)] by simp
  show "nextpid k' = nextpid k" by (simp add: k')
  show par: "p_parent (ptab k' ! i) =
      (if p_parent (ptab k ! i) = Some cur then Some (initproc k) else p_parent (ptab k ! i))" if "i < NPROC" for i
    using nth [OF that] s2(3) [OF that] by (cases "i = cur") simp_all
  show pid: "p_pid (ptab k' ! i) = p_pid (ptab k ! i)" if "i < NPROC" for i
    using nth [OF that] s2(2) [OF that] by (cases "i = cur") simp_all
  have live: "live (ptab k ! i)" if "i < NPROC" "live (ptab k' ! i)" for i
    using nth [OF that(1)] s2(1) [OF that(1)] that(2) cur(2) by (cases "i = cur") auto
  have "tab_inv (nextpid k) (ptab k')"
  proof (rule tab_inv_step [OF t])
    show "length (ptab k') = length (ptab k)" using l2 len by (simp add: k')
    show "live (ptab k ! i) \<and> p_pid (ptab k' ! i) = p_pid (ptab k ! i)" if "i < NPROC" "live (ptab k' ! i)" for i
      using live [OF that] pid [OF that(1)] by blast
    show "q < NPROC" if "i < NPROC" "p_parent (ptab k' ! i) = Some q" for i q
      using that par [OF that(1)] tab_invD(5) [OF t that(1)] ini by (metis option.inject)
  qed
  then show "proc_inv k'" using ini by (simp add: proc_inv_def k')
qed

lemma upd_of:
  "i < length (ptab k) \<Longrightarrow> ptab (upd i f k) = (ptab k)[i := f (ptab k ! i)]"
  by (simp add: upd_def)

lemma wait_spec:
  assumes inv: "proc_inv k" and cur: "cur < NPROC" "live (ptab k ! cur)" and w: "wait_round cur k = Inr (r, k')"
  shows "proc_inv k' \<and>
    (case r of
       Reaped pid \<Rightarrow> (\<exists>i<NPROC. p_parent (ptab k ! i) = Some cur \<and> p_state (ptab k ! i) = ZOMBIE \<and>
           pid = p_pid (ptab k ! i) \<and> \<not> live (ptab k' ! i) \<and> (\<forall>j. j \<noteq> i \<longrightarrow> ptab k' ! j = ptab k ! j))
     | NoChild \<Rightarrow> k' = k \<and> (\<forall>i<NPROC. p_parent (ptab k ! i) = Some cur \<longrightarrow> p_state (ptab k ! i) \<noteq> ZOMBIE) \<and>
           ((\<forall>i<NPROC. p_parent (ptab k ! i) \<noteq> Some cur) \<or> p_killed (ptab k ! cur))
     | Waits \<Rightarrow> k' = sleep_on cur (ProcChan cur) k \<and>
           (\<forall>i<NPROC. p_parent (ptab k ! i) = Some cur \<longrightarrow> p_state (ptab k ! i) \<noteq> ZOMBIE) \<and>
           (\<exists>i<NPROC. p_parent (ptab k ! i) = Some cur))"
proof -
  have t: "tab_inv (nextpid k) (ptab k)" and len: "length (ptab k) = NPROC"
    using inv proc_inv_len by (auto simp: proc_inv_def)
  show ?thesis
  proof (cases "scan (\<lambda>p. p_parent p = Some cur \<and> p_state p = ZOMBIE) (ptab k)")
    case None
    then have nz: "\<forall>i<NPROC. p_parent (ptab k ! i) = Some cur \<longrightarrow> p_state (ptab k ! i) \<noteq> ZOMBIE"
      using len by (auto simp: scan_None_iff all_set_conv_all_nth)
    have kids: "(\<exists>p\<in>set (ptab k). p_parent p = Some cur) \<longleftrightarrow> (\<exists>i<NPROC. p_parent (ptab k ! i) = Some cur)"
      using len by (auto simp: in_set_conv_nth Bex_def)
    show ?thesis
      using w None nz inv sleep_inv(1) [OF inv cur] unfolding wait_round_def kids by (auto split: if_splits)
  next
    case (Some i)
    have i: "i < NPROC" "p_parent (ptab k ! i) = Some cur" "p_state (ptab k ! i) = ZOMBIE"
      using scan_tab [OF Some t] by auto
    obtain m2 where k': "r = Reaped (p_pid (ptab k ! i))"
        "k' = upd i (\<lambda>p. p\<lparr>p_kstack := 0, p_pid := 0, p_parent := None, p_name := (p_name p)[0 := 0],
                              p_killed := False, p_state := UNUSED\<rparr>) (k\<lparr>kmm := m2\<rparr>)"
      using w Some by (auto simp: wait_round_def Let_def res_iff)
    have "proc_inv (k\<lparr>kmm := m2\<rparr>)" using inv by (simp add: proc_inv_def)
    then have "proc_inv k'" unfolding k'(2) by (rule upd_inv [OF _ i(1)]) (simp_all add: live_def)
    moreover have "ptab k' ! j = (if j = i then (ptab k ! i)\<lparr>p_kstack := 0, p_pid := 0, p_parent := None,
        p_name := (p_name (ptab k ! i))[0 := 0], p_killed := False, p_state := UNUSED\<rparr> else ptab k ! j)" for j
      using i(1) len by (simp add: k'(2) nth_upd)
    ultimately show ?thesis using i k'(1) by (auto simp: live_def)
  qed
qed

lemma fork_spec:
  assumes inv: "proc_inv k" "kmem_inv (kmm k)" and cur: "cur < NPROC" "live (ptab k ! cur)"
    and f: "fork cur k = Inr (r, k')"
  shows "proc_inv k' \<and>
    (r = - 1 \<and> (\<forall>j<NPROC. live (ptab k ! j) \<longrightarrow> ptab k' ! j = ptab k ! j) \<or>
     r = nextpid k \<and> (\<exists>i<NPROC. \<not> live (ptab k ! i) \<and> (\<forall>j. j \<noteq> i \<longrightarrow> ptab k' ! j = ptab k ! j) \<and>
       (let p = ptab k ! cur; c = ptab k' ! i in
        p_state c = RUNNABLE \<and> p_pid c = r \<and> p_parent c = Some cur \<and> p_sz c = p_sz p \<and> p_prio c = 500 \<and>
        p_cwd c = p_cwd p \<and> p_return c = tf_eip (p_tf p) \<and>
        p_tf c = (p_tf p)\<lparr>tf_eax := 0, tf_eip := (if p_welcome p \<noteq> 0 then p_welcome p else tf_eip (p_tf p))\<rparr>)))"
  using inv
proof (cases rule: allocproc_cases)
  case full
  with f inv show ?thesis by (simp add: fork_def)
next
  case (nomem i k1)
  with f have "r = - 1" "k' = k1" by (simp_all add: fork_def)
  moreover have "ptab k1 ! j = ptab k ! j" if "live (ptab k ! j)" for j using that nomem(2,7) by metis
  ultimately show ?thesis using nomem(4) by blast
next
  case (ok i k1 s)
  have len: "length (ptab k) = NPROC" "length (ptab k1) = NPROC" using inv(1) ok(4) proc_inv_len by auto
  have ci: "cur \<noteq> i" using ok(2) cur(2) by auto
  then have pc: "ptab k1 ! cur = ptab k ! cur" by (simp add: ok(12))
  have old: "ptab k1 ! j = ptab k ! j" if "j \<noteq> i" for j using that by (simp add: ok(12))
  have pid: "p_pid (ptab k1 ! i) = nextpid k" "live (ptab k1 ! i)" "p_prio (ptab k1 ! i) = 500"
    using ok(1,12) len(1) by (simp_all add: live_def)
  from f ok(3) obtain d m2 where d: "copyuvm (kdata k1) (p_pgdir (ptab k ! cur)) (p_sz (ptab k ! cur)) (kmm k1) = Inr (d, m2)"
    by (auto simp: fork_def Let_def res_iff pc)
  show ?thesis
  proof (cases d)
    case None
    with f ok(3) d obtain m3 where k': "r = - 1"
        "k' = upd i (\<lambda>p. p\<lparr>p_pgdir := 0, p_kstack := 0, p_state := UNUSED\<rparr>) (k1\<lparr>kmm := m3\<rparr>)"
      by (auto simp: fork_def Let_def res_iff pc)
    have "proc_inv (k1\<lparr>kmm := m3\<rparr>)" using ok(4) by (simp add: proc_inv_def)
    then have "proc_inv k'" unfolding k'(2)
      by (rule upd_inv [OF _ ok(1)]) (use proc_inv_parent [OF ok(4,1)] in \<open>simp_all add: live_def\<close>)
    moreover have "ptab k' ! j = ptab k ! j" if "j \<noteq> i" for j
      using that len(2) ok(1) old by (simp add: k'(2) nth_upd)
    ultimately show ?thesis using k'(1) ok(2) by metis
  next
    case (Some pg)
    with f ok(3) d obtain fr w where cw: "p_cwd (ptab k ! cur) = Some w" and r: "r = nextpid k" and
      k': "k' = upd i (\<lambda>p. p\<lparr>p_pgdir := pg, p_sz := p_sz (ptab k ! cur), p_parent := Some cur,
             p_tf := (if p_welcome (ptab k ! cur) \<noteq> 0 then (p_tf (ptab k ! cur))\<lparr>tf_eax := 0, tf_eip := p_welcome (ptab k ! cur)\<rparr>
                      else (p_tf (ptab k ! cur))\<lparr>tf_eax := 0\<rparr>),
             p_return := tf_eip (p_tf (ptab k ! cur)),
             p_ofile := child_files (p_ofile (ptab k ! cur)) (p_ofile p), p_cwd := Some w,
             p_name := safe_name (p_name (ptab k ! cur)), p_state := RUNNABLE\<rparr>)
           (k1\<lparr>kmm := m2, fref := fr, iref := idup w (iref k1)\<rparr>)"
      by (auto simp: fork_def Let_def res_iff pc pid split: option.splits cong del: if_weak_cong)
    let ?k = "k1\<lparr>kmm := m2, fref := fr, iref := idup w (iref k1)\<rparr>"
    have "proc_inv ?k" using ok(4) by (simp add: proc_inv_def)
    then have inv': "proc_inv k'" unfolding k'
      by (rule upd_inv [OF _ ok(1)]) (use pid cur(1) in \<open>simp_all add: live_def\<close>)
    have nth: "ptab k' ! j = ptab k ! j" if "j \<noteq> i" for j
      using that len(2) ok(1) old by (simp add: k' nth_upd)
    define c where "c = ptab k' ! i"
    have c: "p_state c = RUNNABLE" "p_pid c = r" "p_parent c = Some cur" "p_sz c = p_sz (ptab k ! cur)" "p_prio c = 500"
        "p_cwd c = p_cwd (ptab k ! cur)" "p_return c = tf_eip (p_tf (ptab k ! cur))"
        "p_tf c = (p_tf (ptab k ! cur))\<lparr>tf_eax := 0,
           tf_eip := (if p_welcome (ptab k ! cur) \<noteq> 0 then p_welcome (ptab k ! cur) else tf_eip (p_tf (ptab k ! cur)))\<rparr>"
      using len(2) ok(1) pid r cw by (simp_all add: c_def k' nth_upd)
    then have "let p = ptab k ! cur; c = ptab k' ! i in
        p_state c = RUNNABLE \<and> p_pid c = r \<and> p_parent c = Some cur \<and> p_sz c = p_sz p \<and> p_prio c = 500 \<and>
        p_cwd c = p_cwd p \<and> p_return c = tf_eip (p_tf p) \<and>
        p_tf c = (p_tf p)\<lparr>tf_eax := 0, tf_eip := (if p_welcome p \<noteq> 0 then p_welcome p else tf_eip (p_tf p))\<rparr>"
      unfolding Let_def c_def [symmetric] by blast
    then show ?thesis using inv' r ok(1,2) nth by blast
  qed
qed

text \<open>A table with \<open>init\<close> and a shell that has a zombie child.\<close>

definition null_tf :: trapframe where
  "null_tf = \<lparr>tf_edi = 0, tf_esi = 0, tf_ebp = 0, tf_oesp = 0, tf_ebx = 0, tf_edx = 0, tf_ecx = 0,
     tf_eax = 0, tf_gs = 0, tf_fs = 0, tf_es = 0, tf_ds = 0, tf_trapno = 0, tf_err = 0, tf_eip = 0,
     tf_cs = 0, tf_eflags = 0, tf_esp = 0, tf_ss = 0\<rparr>"

definition null_proc :: proc where
  "null_proc = \<lparr>p_sz = 0, p_pgdir = 0, p_kstack = 0, p_state = UNUSED, p_pid = 0, p_parent = None,
     p_tf = null_tf, p_chan = NoChan,
     p_killed = False, p_ofile = replicate NOFILE None, p_cwd = None, p_name = replicate 16 0,
     p_inctxt = 0, p_prio = 0, p_welcome = 0, p_return = 0\<rparr>"

definition demo_procs :: kproc where
  "demo_procs = \<lparr>ptab = [null_proc\<lparr>p_state := RUNNING, p_pid := 1, p_prio := 500\<rparr>,
       null_proc\<lparr>p_state := SLEEPING, p_pid := 2, p_parent := Some 0, p_prio := 500\<rparr>] @ replicate 62 null_proc,
     nextpid = 3, initproc = 0, prio_check = 1000, kmm = demo_vm\<lparr>freelist := []\<rparr>, kdata = 0x80108000,
     fref = (\<lambda>_. 0), iref = (\<lambda>_. 0)\<rparr>"

lemma demo_slots:
  "i < NPROC \<Longrightarrow> ptab demo_procs ! i =
     (if i = 0 then null_proc\<lparr>p_state := RUNNING, p_pid := 1, p_prio := 500\<rparr>
      else if i = 1 then null_proc\<lparr>p_state := SLEEPING, p_pid := 2, p_parent := Some 0, p_prio := 500\<rparr>
      else null_proc)"
  by (cases i; cases "i - 1") (auto simp: demo_procs_def NPROC_def)

lemma demo_procs: "proc_inv demo_procs" "kmem_inv (kmm demo_procs)" "live (ptab demo_procs ! 0)"
  "freelist (kmm demo_procs) = []"
proof -
  have s: "live (ptab demo_procs ! i) \<longleftrightarrow> i = 0 \<or> i = 1" "i = 0 \<Longrightarrow> p_pid (ptab demo_procs ! i) = 1"
    "i = 1 \<Longrightarrow> p_pid (ptab demo_procs ! i) = 2"
    "p_parent (ptab demo_procs ! i) = (if i = 1 then Some 0 else None)" if "i < NPROC" for i
    using demo_slots [OF that] by (simp_all add: live_def null_proc_def)
  have "tab_inv 3 (ptab demo_procs)"
  proof (rule tab_invI)
    show "length (ptab demo_procs) = NPROC" by (simp add: demo_procs_def NPROC_def)
    show "0 < p_pid (ptab demo_procs ! i) \<and> p_pid (ptab demo_procs ! i) < 3"
      if "i < NPROC" "live (ptab demo_procs ! i)" for i
      using that s(1-3) [OF that(1)] by auto
    show "i = j" if "i < NPROC" "j < NPROC" "live (ptab demo_procs ! i)" "live (ptab demo_procs ! j)"
      "p_pid (ptab demo_procs ! i) = p_pid (ptab demo_procs ! j)" for i j
      using that s(1-3) [OF that(1)] s(1-3) [OF that(2)] by auto
    show "q < NPROC" if "i < NPROC" "p_parent (ptab demo_procs ! i) = Some q" for i q
      using that s(4) [OF that(1)] by (auto split: if_splits)
  qed simp
  moreover have "nextpid demo_procs = 3" "initproc demo_procs = 0" by (simp_all add: demo_procs_def)
  ultimately show "proc_inv demo_procs" by (simp add: proc_inv_def NPROC_def)
  show "kmem_inv (kmm demo_procs)" using demo_vm(1) by (simp add: demo_procs_def kmem_inv_def)
  show "live (ptab demo_procs ! 0)" using s(1) [of 0] by (simp add: NPROC_def)
  show "freelist (kmm demo_procs) = []" by (simp add: demo_procs_def)
qed

section \<open>Properties of the table\<close>





text \<open>
  A round of \<open>wait\<close> reaps, gives up or sleeps for the right reasons: it returns the identifier of a
  zombie child and frees exactly that slot; it returns -1 only if the caller has no children or is
  killed; and it goes to sleep on the caller's own address only if there are children and none of
  them is a zombie.
\<close>

lemma wait_reaps_a_zombie:
  assumes "proc_inv k" "cur < NPROC" "live (ptab k ! cur)" "wait_round cur k = Inr (r, k')"
  shows "case r of
       Reaped pid \<Rightarrow> (\<exists>i<NPROC. p_parent (ptab k ! i) = Some cur \<and> p_state (ptab k ! i) = ZOMBIE \<and>
           pid = p_pid (ptab k ! i) \<and> \<not> live (ptab k' ! i) \<and> (\<forall>j. j \<noteq> i \<longrightarrow> ptab k' ! j = ptab k ! j))
     | NoChild \<Rightarrow> k' = k \<and> (\<forall>i<NPROC. p_parent (ptab k ! i) = Some cur \<longrightarrow> p_state (ptab k ! i) \<noteq> ZOMBIE) \<and>
           ((\<forall>i<NPROC. p_parent (ptab k ! i) \<noteq> Some cur) \<or> p_killed (ptab k ! cur))
     | Waits \<Rightarrow> k' = sleep_on cur (ProcChan cur) k \<and>
           (\<forall>i<NPROC. p_parent (ptab k ! i) = Some cur \<longrightarrow> p_state (ptab k ! i) \<noteq> ZOMBIE) \<and>
           (\<exists>i<NPROC. p_parent (ptab k ! i) = Some cur)"
  using wait_spec [OF assms] by (rule conjunct2)

lemma wait_reaps_a_zombie_witness:
  "wait_round 0 demo_procs = Inr (Waits, sleep_on 0 (ProcChan 0) demo_procs)"
proof -
  have w: "wait_round 0 demo_procs = Inr (Waits, sleep_on 0 (ProcChan 0) demo_procs)"
    by (auto simp: wait_round_def demo_procs_def null_proc_def scan_None_iff split: option.splits
        dest!: scan_SomeD)
  have "(0::nat) < NPROC" by (simp add: NPROC_def)
  from wait_reaps_a_zombie [OF demo_procs(1) this demo_procs(3) w] w show ?thesis by simp
qed

text \<open>
  \<open>kill(0)\<close> succeeds on a free slot. The search compares identifiers only, and a slot that was never
  used, or whose process was reaped, has identifier 0: if no slot in use has it and some free slot
  does, \<open>kill(0)\<close> returns 0, marks a free slot killed and brings nobody to life, and no later
  \<open>allocproc\<close> clears the mark, so a process created in that slot is born killed.
\<close>

lemma kill_zero_marks_free_slot:
  assumes "proc_inv k" "i < NPROC" "p_pid (ptab k ! i) = 0"
  shows "\<exists>j<NPROC. fst (kill 0 k) = 0 \<and> \<not> live (ptab k ! j) \<and>
           p_killed (ptab (snd (kill 0 k)) ! j) \<and> \<not> live (ptab (snd (kill 0 k)) ! j) \<and>
           (\<forall>k'. allocproc (snd (kill 0 k)) = Inr (Some j, k') \<longrightarrow> p_killed (ptab k' ! j))"
proof -
  have t: "tab_inv (nextpid k) (ptab k)" and len: "length (ptab k) = NPROC"
    using assms(1) proc_inv_len by (auto simp: proc_inv_def)
  obtain j where j: "scan (\<lambda>p. p_pid p = 0) (ptab k) = Some j"
    using scan_complete [of i "ptab k" "\<lambda>p. p_pid p = 0"] assms len by auto
  have jl: "j < NPROC" "p_pid (ptab k ! j) = 0" using scan_tab [OF j t] by auto
  have dead: "\<not> live (ptab k ! j)" using tab_invD(3) [OF t jl(1)] jl(2) by auto
  let ?k = "snd (kill 0 k)"
  have pj: "ptab ?k ! j = (ptab k ! j)\<lparr>p_killed := True\<rparr>"
    using j jl len dead by (simp add: kill_def nth_upd live_def)
  have "p_killed (ptab k' ! j)" if "allocproc ?k = Inr (Some j, k')" for k'
    using that pj jl len j
    by (auto simp: allocproc_def Let_def res_iff nth_upd upd_def kill_def split: option.splits)
  then show ?thesis using j jl dead pj by (intro exI [of _ j]) (simp add: kill_def live_def)
qed

lemma kill_zero_marks_free_slot_witness:
  "\<exists>j<NPROC. fst (kill 0 demo_procs) = 0 \<and> p_killed (ptab (snd (kill 0 demo_procs)) ! j)"
proof -
  have "(2::nat) < NPROC" by (simp add: NPROC_def)
  moreover from this have "p_pid (ptab demo_procs ! 2) = 0" using demo_slots [of 2] by (simp add: null_proc_def)
  ultimately show ?thesis using kill_zero_marks_free_slot [OF demo_procs(1), of 2] by blast
qed

section \<open>Scheduling\<close>

text \<open>What the other processes may do to process \<open>i\<close> while they run: nothing that changes its state or
  priority; and only the scheduler sets \<open>prio_check\<close>.\<close>

definition leaves_alone :: "nat \<Rightarrow> (nat \<Rightarrow> kproc \<Rightarrow> kproc) \<Rightarrow> bool" where
  "leaves_alone i run \<longleftrightarrow>
     (\<forall>j k. prio_check (run j k) = prio_check k \<and> length (ptab (run j k)) = length (ptab k) \<and>
        (j \<noteq> i \<longrightarrow> p_state (ptab (run j k) ! i) = p_state (ptab k ! i) \<and>
                  p_prio (ptab (run j k) ! i) = p_prio (ptab k ! i)))"

lemma leavesD:
  assumes "leaves_alone i run"
  shows "prio_check (run j k) = prio_check k" "length (ptab (run j k)) = length (ptab k)"
    "j \<noteq> i \<Longrightarrow> p_state (ptab (run j k) ! i) = p_state (ptab k ! i)"
    "j \<noteq> i \<Longrightarrow> p_prio (ptab (run j k) ! i) = p_prio (ptab k ! i)"
  using assms unfolding leaves_alone_def by blast+

lemma pass_spec:
  assumes env: "leaves_alone i run" and len: "length (ptab k) = NPROC" and i: "i < NPROC"
  shows "n \<le> NPROC \<Longrightarrow> sched_pass run n k = (rl, k1) \<Longrightarrow>
    prio_check k1 = prio_check k \<and> length (ptab k1) = NPROC \<and>
    (i \<in> set rl \<longrightarrow> i < n \<and> p_state (ptab k ! i) = RUNNABLE \<and> prio_check k \<le> p_prio (ptab k ! i)) \<and>
    (i \<notin> set rl \<longrightarrow> p_state (ptab k1 ! i) = p_state (ptab k ! i) \<and> p_prio (ptab k1 ! i) = p_prio (ptab k ! i)) \<and>
    (i < n \<longrightarrow> p_state (ptab k ! i) = RUNNABLE \<longrightarrow> prio_check k \<le> p_prio (ptab k ! i) \<longrightarrow> i \<in> set rl)"
proof (induction n arbitrary: rl k1)
  case 0
  then show ?case using len by auto
next
  case (Suc n)
  obtain rl0 k0 where p: "sched_pass run n k = (rl0, k0)" by fastforce
  from Suc.IH [OF _ p] Suc.prems(1) have IH: "prio_check k0 = prio_check k" "length (ptab k0) = NPROC"
      "i \<in> set rl0 \<Longrightarrow> i < n \<and> p_state (ptab k ! i) = RUNNABLE \<and> prio_check k \<le> p_prio (ptab k ! i)"
      "i \<notin> set rl0 \<Longrightarrow> p_state (ptab k0 ! i) = p_state (ptab k ! i) \<and> p_prio (ptab k0 ! i) = p_prio (ptab k ! i)"
      "i < n \<Longrightarrow> p_state (ptab k ! i) = RUNNABLE \<Longrightarrow> prio_check k \<le> p_prio (ptab k ! i) \<Longrightarrow> i \<in> set rl0"
    by auto
  show ?case
  proof (cases "p_state (ptab k0 ! n) \<noteq> RUNNABLE \<or> p_prio (ptab k0 ! n) < prio_check k0")
    case True
    then have e: "rl = rl0" "k1 = k0" using Suc.prems(2) p by simp_all
    have "i \<in> set rl0" if "i < Suc n" "p_state (ptab k ! i) = RUNNABLE" "prio_check k \<le> p_prio (ptab k ! i)"
    proof (cases "i < n")
      case False
      with that have "i = n" by simp
      then show ?thesis using True IH(1,3,4) that by fastforce
    qed (use IH(5) that in blast)
    moreover have "i \<in> set rl0 \<longrightarrow> i < Suc n \<and> p_state (ptab k ! i) = RUNNABLE \<and> prio_check k \<le> p_prio (ptab k ! i)"
      using IH(3) less_SucI by blast
    ultimately show ?thesis unfolding e using IH(1,2,4) by blast
  next
    case False
    let ?u = "upd n (\<lambda>p. p\<lparr>p_state := RUNNING, p_inctxt := p_inctxt p + 1\<rparr>) k0"
    have e: "rl = rl0 @ [n]" "k1 = run n ?u" using False Suc.prems(2) p by (simp_all add: Let_def)
    have pc: "prio_check k1 = prio_check k" "length (ptab k1) = NPROC"
      using leavesD(1,2) [OF env, of n ?u] IH(1,2) by (simp_all add: e(2))
    show ?thesis
    proof (cases "n = i")
      case True
      have ni: "i \<notin> set rl0" using IH(3) True by auto
      then show ?thesis using pc IH(1) IH(4) False True by (simp add: e(1))
    next
      case ne: False
      have "p_state (ptab k1 ! i) = p_state (ptab k0 ! i) \<and> p_prio (ptab k1 ! i) = p_prio (ptab k0 ! i)"
        using leavesD(3,4) [OF env ne, of ?u] ne IH(2) Suc.prems(1) by (simp add: e(2) nth_upd)
      moreover have "i \<in> set rl \<longleftrightarrow> i \<in> set rl0" "i < Suc n \<longleftrightarrow> i < n" using ne by (auto simp: e(1))
      ultimately show ?thesis using pc IH(3-5) by (simp only:) blast
    qed
  qed
qed

lemma round_spec:
  assumes env: "leaves_alone i run" and k: "length (ptab k) = NPROC" "i < NPROC"
    and r: "sched_round run k = (rl, k1)"
  shows "prio_check k1 = (if prio_check k - 10 < 0 then 1000 else prio_check k - 10)"
    "length (ptab k1) = NPROC"
    "i \<in> set rl \<Longrightarrow> p_state (ptab k ! i) = RUNNABLE \<and> prio_check k \<le> p_prio (ptab k ! i)"
    "i \<notin> set rl \<Longrightarrow> p_state (ptab k1 ! i) = p_state (ptab k ! i) \<and> p_prio (ptab k1 ! i) = p_prio (ptab k ! i)"
    "p_state (ptab k ! i) = RUNNABLE \<Longrightarrow> prio_check k \<le> p_prio (ptab k ! i) \<Longrightarrow> i \<in> set rl"
proof -
  obtain k0 where p: "sched_pass run NPROC k = (rl, k0)"
    "k1 = k0\<lparr>prio_check := (if prio_check k0 - 10 < 0 then 1000 else prio_check k0 - 10)\<rparr>"
    using r by (auto simp: sched_round_def Let_def split: prod.splits)
  note s = pass_spec [OF env k le_refl p(1)]
  show "prio_check k1 = (if prio_check k - 10 < 0 then 1000 else prio_check k - 10)" "length (ptab k1) = NPROC"
    using s by (simp_all add: p(2))
  show "i \<in> set rl \<Longrightarrow> p_state (ptab k ! i) = RUNNABLE \<and> prio_check k \<le> p_prio (ptab k ! i)"
    "i \<notin> set rl \<Longrightarrow> p_state (ptab k1 ! i) = p_state (ptab k ! i) \<and> p_prio (ptab k1 ! i) = p_prio (ptab k ! i)"
    "p_state (ptab k ! i) = RUNNABLE \<Longrightarrow> prio_check k \<le> p_prio (ptab k ! i) \<Longrightarrow> i \<in> set rl"
    using s k(2) by (simp_all add: p(2))
qed

lemma scheduler_waits:
  assumes env: "leaves_alone i run" and k: "length (ptab k) = NPROC" "i < NPROC"
    and pc: "0 \<le> prio_check k"
  shows "scheduler run n k = (rs, k') \<Longrightarrow> (\<forall>r\<in>set rs. i \<notin> set r) \<Longrightarrow>
    0 \<le> prio_check k' \<and> length (ptab k') = NPROC \<and> p_state (ptab k' ! i) = p_state (ptab k ! i) \<and>
    p_prio (ptab k' ! i) = p_prio (ptab k ! i) \<and>
    (10 * int n \<le> prio_check k \<longrightarrow> prio_check k' = prio_check k - 10 * int n)"
proof (induction n arbitrary: rs k')
  case (Suc n)
  obtain rs0 k0 where p: "scheduler run n k = (rs0, k0)" by fastforce
  obtain r k1 where q: "sched_round run k0 = (r, k1)" by fastforce
  have e: "rs = rs0 @ [r]" "k' = k1" using Suc.prems(1) p q by simp_all
  have IH: "0 \<le> prio_check k0" "length (ptab k0) = NPROC" "p_state (ptab k0 ! i) = p_state (ptab k ! i)"
      "p_prio (ptab k0 ! i) = p_prio (ptab k ! i)"
      "10 * int n \<le> prio_check k \<longrightarrow> prio_check k0 = prio_check k - 10 * int n"
    using Suc.IH [OF p] Suc.prems(2) e(1) by simp_all
  note s = round_spec [OF env IH(2) k(2) q]
  have "i \<notin> set r" using Suc.prems(2) e(1) by simp
  with s IH show ?case by (simp add: e(2))
qed (use k pc in simp)

lemma scheduler_Suc:
  "scheduler run n k = (rs, k') \<Longrightarrow> n \<ge> m \<Longrightarrow> \<exists>rs0 k0. scheduler run m k = (rs0, k0) \<and> set rs0 \<subseteq> set rs"
proof (induction n arbitrary: rs k')
  case (Suc n)
  obtain rs0 k0 where p: "scheduler run n k = (rs0, k0)" by fastforce
  obtain r k1 where q: "sched_round run k0 = (r, k1)" by fastforce
  have e: "rs = rs0 @ [r]" using Suc.prems(1) p q by simp
  show ?case
  proof (cases "m = Suc n")
    case True
    with Suc.prems(1) show ?thesis by auto
  next
    case False
    with Suc.IH [OF p] Suc.prems(2) e show ?thesis by auto
  qed
qed auto

text \<open>
  C35. The priority scheduler starves nobody with a priority of at least zero: starting from any value
  of \<open>prio_check\<close> between 0 and 1000, a runnable process with a non-negative priority that the others
  leave alone is switched to within 101 rounds of the scheduler's loop.
\<close>

theorem scheduler_runs_runnable:
  assumes "leaves_alone i run" "length (ptab k) = NPROC" "i < NPROC" "0 \<le> prio_check k" "prio_check k \<le> 1000"
    "p_state (ptab k ! i) = RUNNABLE" "0 \<le> p_prio (ptab k ! i)" "prio_check k mod 10 = 0"
  shows "\<exists>r\<in>set (fst (scheduler run 101 k)). i \<in> set r"
proof (rule ccontr)
  assume never: "\<not> (\<exists>r\<in>set (fst (scheduler run 101 k)). i \<in> set r)"
  define m where "m = nat (prio_check k div 10)"
  have m: "10 * int m = prio_check k" "m \<le> 100" using assms(4,5,8) by (auto simp: m_def)
  obtain rs k' where s: "scheduler run 101 k = (rs, k')" by fastforce
  obtain rs1 k1 where s1: "scheduler run (Suc m) k = (rs1, k1)" "set rs1 \<subseteq> set rs"
    using scheduler_Suc [OF s, of "Suc m"] m(2) by auto
  obtain rs0 k0 where s0: "scheduler run m k = (rs0, k0)" by fastforce
  obtain r where r: "sched_round run k0 = (r, k1)" "rs1 = rs0 @ [r]"
    using s1(1) s0 by (auto split: prod.splits)
  have none: "\<forall>r\<in>set rs. i \<notin> set r" using never s by auto
  then have none0: "\<forall>r\<in>set rs0. i \<notin> set r" using s1(2) r(2) by auto
  have "prio_check k0 = 0" "length (ptab k0) = NPROC" "p_state (ptab k0 ! i) = RUNNABLE" "0 \<le> p_prio (ptab k0 ! i)"
    using scheduler_waits [OF assms(1-4) s0 none0] m(1) assms(6,7) by simp_all
  then have "i \<in> set r" using round_spec(5) [OF assms(1) _ assms(3) r(1)] by simp
  then show False using none s1(2) r(2) by auto
qed

definition idle_run :: "nat \<Rightarrow> kproc \<Rightarrow> kproc" where
  "idle_run i k = upd i (\<lambda>p. p\<lparr>p_state := RUNNABLE\<rparr>) k"

lemma idle_run: "leaves_alone i idle_run"
  by (auto simp: leaves_alone_def idle_run_def upd_def nth_list_update_neq)

theorem scheduler_runs_runnable_witness:
  "\<exists>r\<in>set (fst (scheduler idle_run 101 (yield 0 demo_procs))). 0 \<in> set r"
  by (rule scheduler_runs_runnable [OF idle_run])
    (simp_all add: yield_def upd_def demo_procs_def NPROC_def null_proc_def)

text \<open>
  \<open>setprio\<close> with a negative priority stops a process for good: \<open>prio_check\<close> never goes below zero, so
  however long the scheduler runs, it never switches to a process whose priority is negative, although
  the process is runnable and the others leave it alone.
\<close>

lemma negative_priority_starves:
  assumes "leaves_alone i run" "length (ptab k) = NPROC" "i < NPROC" "0 \<le> prio_check k" "p_prio (ptab k ! i) < 0"
  shows "\<forall>r\<in>set (fst (scheduler run n k)). i \<notin> set r"
proof (induction n)
  case (Suc n)
  obtain rs0 k0 where p: "scheduler run n k = (rs0, k0)" by fastforce
  obtain r k1 where q: "sched_round run k0 = (r, k1)" by fastforce
  have "\<forall>r\<in>set rs0. i \<notin> set r" using Suc.IH p by simp
  note w = scheduler_waits [OF assms(1-4) p this]
  have "i \<notin> set r" using round_spec(3) [OF assms(1) _ assms(3) q] w assms(5) by fastforce
  then show ?case using Suc.IH p q by simp
qed simp

lemma negative_priority_starves_witness:
  "0 \<notin> set (concat (fst (scheduler idle_run 500 (upd 0 (\<lambda>p. p\<lparr>p_state := RUNNABLE, p_prio := - 1\<rparr>) demo_procs))))"
proof -
  have "\<forall>r\<in>set (fst (scheduler idle_run 500 (upd 0 (\<lambda>p. p\<lparr>p_state := RUNNABLE, p_prio := - 1\<rparr>) demo_procs))). 0 \<notin> set r"
    by (rule negative_priority_starves [OF idle_run])
      (simp_all add: upd_def demo_procs_def NPROC_def null_proc_def)
  then show ?thesis by auto
qed

end
