(* ===== verification/SimpleFS.thy ===== *)
theory SimpleFS
  imports OS_Prelude
begin

text \<open>
  The file system of \<open>simplefs-code\<close>: the emulated disk of \<open>simplefs-disk.c\<close> and the operations of
  \<open>simplefs-ops.c\<close>. The disk is its superblock, its eight inodes and its thirty data blocks of 64
  bytes; the copies to and from the disk file are the record fields themselves. A failed \<open>assert\<close> is
  \<open>Abort\<close>; an access outside an array, or to a disk position outside the table it should address, is
  \<open>OutOfBounds\<close>. File names are strings without their NUL. A caller's buffer is its bytes up to its
  end.
\<close>

section \<open>The disk\<close>

definition BLOCKSIZE :: nat where "BLOCKSIZE = 64"
definition NUM_DATA_BLOCKS :: nat where "NUM_DATA_BLOCKS = 30"
definition NUM_INODES :: nat where "NUM_INODES = 8"
definition MAX_FILE_SIZE :: nat where "MAX_FILE_SIZE = 4"
definition MAX_OPEN_FILES :: nat where "MAX_OPEN_FILES = 20"
definition MAX_NAME_STRLEN :: nat where "MAX_NAME_STRLEN = 8"

datatype usage = FREE | IN_USE

record superblock_t =
  sb_name :: string
  inode_freelist :: "usage list"
  datablock_freelist :: "usage list"

record inode_t =
  status :: usage
  iname :: string
  file_size :: int
  direct_blocks :: "int list"

record filehandle_t =
  offset :: int
  inode_number :: int

record sfs =
  super :: superblock_t
  inodes :: "inode_t list"
  datablocks :: "u8 list list"
  handles :: "filehandle_t list"

text \<open>The contents of the data blocks survive formatting; the disk file is created empty and reads
  of blocks never written fail their \<open>assert\<close>, which the argument \<open>ds\<close> leaves open.\<close>

definition simplefs_formatDisk :: "u8 list list \<Rightarrow> sfs" where
  "simplefs_formatDisk ds =
     \<lparr>super = \<lparr>sb_name = ''simplefs'', inode_freelist = replicate NUM_INODES FREE,
               datablock_freelist = replicate NUM_DATA_BLOCKS FREE\<rparr>,
      inodes = replicate NUM_INODES \<lparr>status = FREE, iname = '''', file_size = 0,
                                    direct_blocks = replicate MAX_FILE_SIZE (- 1)\<rparr>,
      datablocks = ds,
      handles = replicate MAX_OPEN_FILES \<lparr>offset = 0, inode_number = - 1\<rparr>\<rparr>"

definition simplefs_readInode :: "int \<Rightarrow> sfs \<Rightarrow> inode_t res" where
  "simplefs_readInode n s =
     (if \<not> n < int NUM_INODES then Inl Abort
      else if n < 0 then Inl OutOfBounds else Inr (inodes s ! nat n))"

definition simplefs_writeInode :: "int \<Rightarrow> inode_t \<Rightarrow> sfs \<Rightarrow> sfs res" where
  "simplefs_writeInode n ip s =
     (if \<not> n < int NUM_INODES then Inl Abort
      else if n < 0 then Inl OutOfBounds else Inr (s\<lparr>inodes := (inodes s)[nat n := ip]\<rparr>))"

definition simplefs_allocInode :: "sfs \<Rightarrow> int \<times> sfs" where
  "simplefs_allocInode s =
     (case scan (\<lambda>u. u = FREE) (inode_freelist (super s)) of
        None \<Rightarrow> (- 1, s)
      | Some i \<Rightarrow> (int i, s\<lparr>super := (super s)\<lparr>inode_freelist := (inode_freelist (super s))[i := IN_USE]\<rparr>\<rparr>))"

definition simplefs_freeInode :: "int \<Rightarrow> sfs \<Rightarrow> sfs res" where
  "simplefs_freeInode n s =
     (if \<not> n < int NUM_INODES then Inl Abort
      else bindR (simplefs_readInode n s) (\<lambda>ip.
        if inode_freelist (super s) ! nat n \<noteq> IN_USE then Inl Abort
        else simplefs_writeInode n
               (ip\<lparr>status := FREE, file_size := 0, direct_blocks := replicate MAX_FILE_SIZE (- 1)\<rparr>)
               (s\<lparr>super := (super s)\<lparr>inode_freelist := (inode_freelist (super s))[nat n := FREE]\<rparr>\<rparr>)))"

definition simplefs_allocDataBlock :: "sfs \<Rightarrow> int \<times> sfs" where
  "simplefs_allocDataBlock s =
     (case scan (\<lambda>u. u = FREE) (datablock_freelist (super s)) of
        None \<Rightarrow> (- 1, s)
      | Some i \<Rightarrow> (int i, s\<lparr>super := (super s)\<lparr>datablock_freelist := (datablock_freelist (super s))[i := IN_USE]\<rparr>\<rparr>))"

definition simplefs_freeDataBlock :: "int \<Rightarrow> sfs \<Rightarrow> sfs res" where
  "simplefs_freeDataBlock b s =
     (if b < 0 \<or> b \<ge> int NUM_DATA_BLOCKS then Inl OutOfBounds
      else if datablock_freelist (super s) ! nat b \<noteq> IN_USE then Inl Abort
      else Inr (s\<lparr>super := (super s)\<lparr>datablock_freelist := (datablock_freelist (super s))[nat b := FREE]\<rparr>\<rparr>))"

definition simplefs_readDataBlock :: "int \<Rightarrow> sfs \<Rightarrow> u8 list res" where
  "simplefs_readDataBlock b s =
     (if \<not> b < int NUM_DATA_BLOCKS then Inl Abort
      else if b < 0 then Inl OutOfBounds else Inr (datablocks s ! nat b))"

definition simplefs_writeDataBlock :: "int \<Rightarrow> u8 list \<Rightarrow> sfs \<Rightarrow> sfs res" where
  "simplefs_writeDataBlock b buf s =
     (if \<not> b < int NUM_DATA_BLOCKS then Inl Abort
      else if b < 0 then Inl OutOfBounds else Inr (s\<lparr>datablocks := (datablocks s)[nat b := buf]\<rparr>))"

section \<open>Files\<close>

definition find_file :: "string \<Rightarrow> sfs \<Rightarrow> nat option" where
  "find_file name s = scan (\<lambda>ip. status ip = IN_USE \<and> iname ip = name) (inodes s)"

text \<open>\<open>strcpy\<close> into the eight bytes of an inode's name.\<close>

definition copy_name :: "string \<Rightarrow> string res" where
  "copy_name name = (if length name + 1 > MAX_NAME_STRLEN then Inl OutOfBounds else Inr name)"

definition simplefs_create :: "string \<Rightarrow> sfs \<Rightarrow> (int \<times> sfs) res" where
  "simplefs_create filename s =
     (case find_file filename s of
        Some i \<Rightarrow> Inr (- 1, s)
      | None \<Rightarrow>
          let (n, s1) = simplefs_allocInode s in
          if n = - 1 then Inr (- 1, s1)
          else bindR (copy_name filename) (\<lambda>nm.
               bindR (simplefs_writeInode n \<lparr>status = IN_USE, iname = nm, file_size = 0,
                                            direct_blocks = replicate MAX_FILE_SIZE (- 1)\<rparr> s1) (\<lambda>s2.
                 Inr (n, s2))))"

fun free_blocks :: "int list \<Rightarrow> sfs \<Rightarrow> sfs res" where
  "free_blocks [] s = Inr s"
| "free_blocks (b # bs) s =
     (if b \<noteq> - 1 then bindR (simplefs_freeDataBlock b s) (free_blocks bs) else free_blocks bs s)"

definition simplefs_delete :: "string \<Rightarrow> sfs \<Rightarrow> sfs res" where
  "simplefs_delete filename s =
     (case find_file filename s of
        None \<Rightarrow> Inr s
      | Some i \<Rightarrow>
          let ip = inodes s ! i in
          bindR (free_blocks (direct_blocks ip) s) (\<lambda>s1.
          bindR (simplefs_writeInode (int i) (ip\<lparr>iname := ''''\<rparr>) s1) (\<lambda>s2.
            simplefs_freeInode (int i) s2)))"

definition simplefs_open :: "string \<Rightarrow> sfs \<Rightarrow> int \<times> sfs" where
  "simplefs_open filename s =
     (case find_file filename s of
        None \<Rightarrow> (- 1, s)
      | Some n \<Rightarrow>
          (case scan (\<lambda>h. inode_number h = - 1) (handles s) of
             None \<Rightarrow> (- 1, s)
           | Some i \<Rightarrow> (int i, s\<lparr>handles := (handles s)[i := \<lparr>offset = 0, inode_number = int n\<rparr>]\<rparr>)))"

definition handle :: "int \<Rightarrow> sfs \<Rightarrow> filehandle_t res" where
  "handle fh s = (if fh < 0 \<or> fh \<ge> int MAX_OPEN_FILES then Inl OutOfBounds else Inr (handles s ! nat fh))"

definition simplefs_close :: "int \<Rightarrow> sfs \<Rightarrow> sfs res" where
  "simplefs_close fh s =
     bindR (handle fh s) (\<lambda>_. Inr (s\<lparr>handles := (handles s)[nat fh := \<lparr>offset = 0, inode_number = - 1\<rparr>]\<rparr>))"

text \<open>The library's \<open>strncpy\<close>: stops at a NUL and pads with zeros.\<close>

fun strncpy_from :: "u8 list \<Rightarrow> nat \<Rightarrow> u8 list res" where
  "strncpy_from src 0 = Inr []"
| "strncpy_from [] (Suc n) = Inl OutOfBounds"
| "strncpy_from (c # cs) (Suc n) =
     (if c = 0 then Inr (replicate (Suc n) 0) else bindR (strncpy_from cs n) (\<lambda>r. Inr (c # r)))"

text \<open>\<open>temp\<close> of \<open>simplefs_read\<close>: the blocks of the file, with what was on the stack where it has none.\<close>

fun read_blocks :: "int list \<Rightarrow> u8 list \<Rightarrow> sfs \<Rightarrow> u8 list res" where
  "read_blocks [] stack s = Inr []"
| "read_blocks (b # bs) stack s =
     bindR (if b \<noteq> - 1 then simplefs_readDataBlock b s else Inr (take BLOCKSIZE stack)) (\<lambda>d.
     bindR (read_blocks bs (drop BLOCKSIZE stack) s) (\<lambda>r. Inr (d @ r)))"

text \<open>\<open>None\<close> is the result -1; otherwise the bytes stored into the caller's buffer.\<close>

definition simplefs_read :: "u8 list \<Rightarrow> int \<Rightarrow> int \<Rightarrow> sfs \<Rightarrow> u8 list option res" where
  "simplefs_read stack fh nbytes s =
     bindR (handle fh s) (\<lambda>h.
     bindR (simplefs_readInode (inode_number h) s) (\<lambda>ip.
       if nbytes < 0 \<or> offset h + nbytes > file_size ip then Inr None
       else bindR (read_blocks (direct_blocks ip) stack s) (\<lambda>temp.
            if offset h < 0 \<and> nbytes > 0 then Inl OutOfBounds
            else bindR (strncpy_from (drop (nat (offset h)) temp) (nat nbytes)) (\<lambda>r. Inr (Some r)))))"

text \<open>The allocation loop of \<open>simplefs_write\<close> from block \<open>i\<close>, \<open>n\<close> blocks; the boolean is its success. On
  failure the code's inner loop looks at \<open>direct_blocks[i]\<close>, which is -1, and stops.\<close>

primrec alloc_blocks :: "nat \<Rightarrow> nat \<Rightarrow> int list \<Rightarrow> sfs \<Rightarrow> (bool \<times> int list \<times> sfs) res" where
  "alloc_blocks 0 i ds s = Inr (True, ds, s)"
| "alloc_blocks (Suc n) i ds s =
     (if i \<ge> length ds then Inl OutOfBounds
      else if ds ! i = - 1 then
        (let (b, s1) = simplefs_allocDataBlock s in
         if b = - 1 then Inr (False, ds, s1) else alloc_blocks n (Suc i) (ds[i := b]) s1)
      else alloc_blocks n (Suc i) ds s)"

text \<open>The last loop: whole blocks from the rest of the buffer, the last one padded with zeros.\<close>

function fill_blocks :: "u8 list \<Rightarrow> nat \<Rightarrow> nat \<Rightarrow> int list \<Rightarrow> sfs \<Rightarrow> sfs res" where
  "fill_blocks buf n i ds s =
     (if n = 0 then Inr s
      else if i \<ge> length ds then Inl OutOfBounds
      else let k = min BLOCKSIZE n in
           bindR (strncpy_from buf k) (\<lambda>t.
           bindR (simplefs_writeDataBlock (ds ! i) (t @ replicate (BLOCKSIZE - k) 0) s)
             (fill_blocks (drop k buf) (n - k) (Suc i) ds)))"
  by pat_completeness auto
termination by (relation "measure (\<lambda>(_, n, _). n)") (auto simp: BLOCKSIZE_def)

text \<open>The number of blocks that hold the first \<open>n\<close> bytes.\<close>

definition blocks_for :: "nat \<Rightarrow> nat" where
  "blocks_for n = (if n mod BLOCKSIZE = 0 then n div BLOCKSIZE else n div BLOCKSIZE + 1)"

text \<open>The copy of the buffer into the file's blocks, first the rest of the block the offset is in.\<close>

definition copy_in :: "nat \<Rightarrow> u8 list \<Rightarrow> nat \<Rightarrow> int list \<Rightarrow> sfs \<Rightarrow> sfs res" where
  "copy_in off buf n ds s =
     (let at = off mod BLOCKSIZE; num_curr = blocks_for off in
      if at \<noteq> 0 then
        let b = ds ! (num_curr - 1); k = min (BLOCKSIZE - at) n in
        bindR (simplefs_readDataBlock b s) (\<lambda>t.
        bindR (strncpy_from buf k) (\<lambda>r.
        bindR (simplefs_writeDataBlock b (take at t @ r @ replicate (BLOCKSIZE - at - k) 0) s) (\<lambda>s1.
          fill_blocks (drop k buf) (n - k) num_curr ds s1)))
      else fill_blocks buf n num_curr ds s)"

text \<open>A negative offset, which \<open>simplefs_seek\<close> lets in, indexes the arrays below their start, unless
  nothing is written and it is a multiple of the block size.\<close>

definition simplefs_write :: "int \<Rightarrow> u8 list \<Rightarrow> int \<Rightarrow> sfs \<Rightarrow> (int \<times> sfs) res" where
  "simplefs_write fh buf nbytes s =
     bindR (handle fh s) (\<lambda>h.
     bindR (simplefs_readInode (inode_number h) s) (\<lambda>ip.
       if status ip = FREE then Inr (- 1, s)
       else if nbytes < 0 \<or> offset h + nbytes > int (MAX_FILE_SIZE * BLOCKSIZE) then Inr (- 1, s)
       else if offset h < 0
       then (if nbytes = 0 \<and> offset h mod int BLOCKSIZE = 0 then Inr (0, s) else Inl OutOfBounds)
       else
         let off = nat (offset h); n = nat nbytes; num_curr = blocks_for off; num_req = blocks_for (off + n) in
         bindR (alloc_blocks (num_req - num_curr) num_curr (direct_blocks ip) s) (\<lambda>(ok, ds, s1).
           if \<not> ok then Inr (- 1, s1)
           else bindR (copy_in off buf n ds s1) (\<lambda>s2.
                bindR (simplefs_writeInode (inode_number h)
                         (ip\<lparr>direct_blocks := ds, file_size := file_size ip + int n\<rparr>) s2) (\<lambda>s3.
                  Inr (0, s3))))))"

definition simplefs_seek :: "int \<Rightarrow> int \<Rightarrow> sfs \<Rightarrow> (int \<times> sfs) res" where
  "simplefs_seek fh nseek s =
     bindR (handle fh s) (\<lambda>h.
       let o' = offset h + nseek in
       if o' < 0 \<and> o' > int (MAX_FILE_SIZE * BLOCKSIZE) then Inr (- 1, s)
       else Inr (0, s\<lparr>handles := (handles s)[nat fh := h\<lparr>offset := o'\<rparr>]\<rparr>))"

section \<open>What the disk's tables keep\<close>

definition blk :: "sfs \<Rightarrow> nat \<Rightarrow> nat \<Rightarrow> int" where
  "blk s i j = direct_blocks (inodes s ! i) ! j"

text \<open>
  An allocated block is in range, marked used and in one place of one used inode; the free list of
  the inodes agrees with their status; the used inodes have different names; a handle is closed or
  has the number of an inode.
\<close>

definition sfs_ok :: "sfs \<Rightarrow> bool" where
  "sfs_ok s \<longleftrightarrow>
     length (inodes s) = NUM_INODES \<and> length (inode_freelist (super s)) = NUM_INODES \<and>
     length (datablock_freelist (super s)) = NUM_DATA_BLOCKS \<and> length (datablocks s) = NUM_DATA_BLOCKS \<and>
     length (handles s) = MAX_OPEN_FILES \<and>
     (\<forall>i<NUM_INODES. status (inodes s ! i) = inode_freelist (super s) ! i \<and>
                     length (direct_blocks (inodes s ! i)) = MAX_FILE_SIZE) \<and>
     (\<forall>i<NUM_INODES. \<forall>j<MAX_FILE_SIZE. blk s i j \<noteq> - 1 \<longrightarrow>
        status (inodes s ! i) = IN_USE \<and> 0 \<le> blk s i j \<and> blk s i j < int NUM_DATA_BLOCKS \<and>
        datablock_freelist (super s) ! nat (blk s i j) = IN_USE) \<and>
     (\<forall>i<NUM_INODES. \<forall>j<MAX_FILE_SIZE. \<forall>i'<NUM_INODES. \<forall>j'<MAX_FILE_SIZE.
        blk s i j = blk s i' j' \<longrightarrow> blk s i j \<noteq> - 1 \<longrightarrow> i = i' \<and> j = j') \<and>
     (\<forall>i<NUM_INODES. \<forall>i'<NUM_INODES. status (inodes s ! i) = IN_USE \<longrightarrow> status (inodes s ! i') = IN_USE \<longrightarrow>
        iname (inodes s ! i) = iname (inodes s ! i') \<longrightarrow> i = i') \<and>
     (\<forall>h\<in>set (handles s). - 1 \<le> inode_number h \<and> inode_number h < int NUM_INODES)"

lemma sfs_okD:
  assumes "sfs_ok s"
  shows "length (inodes s) = NUM_INODES" "length (inode_freelist (super s)) = NUM_INODES"
    "length (datablock_freelist (super s)) = NUM_DATA_BLOCKS" "length (datablocks s) = NUM_DATA_BLOCKS"
    "length (handles s) = MAX_OPEN_FILES"
    "i < NUM_INODES \<Longrightarrow> status (inodes s ! i) = inode_freelist (super s) ! i"
    "i < NUM_INODES \<Longrightarrow> length (direct_blocks (inodes s ! i)) = MAX_FILE_SIZE"
    "i < NUM_INODES \<Longrightarrow> j < MAX_FILE_SIZE \<Longrightarrow> blk s i j \<noteq> - 1 \<Longrightarrow> status (inodes s ! i) = IN_USE"
    "i < NUM_INODES \<Longrightarrow> j < MAX_FILE_SIZE \<Longrightarrow> blk s i j \<noteq> - 1 \<Longrightarrow> 0 \<le> blk s i j"
    "i < NUM_INODES \<Longrightarrow> j < MAX_FILE_SIZE \<Longrightarrow> blk s i j \<noteq> - 1 \<Longrightarrow> blk s i j < int NUM_DATA_BLOCKS"
    "i < NUM_INODES \<Longrightarrow> j < MAX_FILE_SIZE \<Longrightarrow> blk s i j \<noteq> - 1 \<Longrightarrow>
       datablock_freelist (super s) ! nat (blk s i j) = IN_USE"
    "i < NUM_INODES \<Longrightarrow> j < MAX_FILE_SIZE \<Longrightarrow> i' < NUM_INODES \<Longrightarrow> j' < MAX_FILE_SIZE \<Longrightarrow>
       blk s i j = blk s i' j' \<Longrightarrow> blk s i j \<noteq> - 1 \<Longrightarrow> i = i' \<and> j = j'"
    "i < NUM_INODES \<Longrightarrow> i' < NUM_INODES \<Longrightarrow> status (inodes s ! i) = IN_USE \<Longrightarrow>
       status (inodes s ! i') = IN_USE \<Longrightarrow> iname (inodes s ! i) = iname (inodes s ! i') \<Longrightarrow> i = i'"
    "h \<in> set (handles s) \<Longrightarrow> - 1 \<le> inode_number h \<and> inode_number h < int NUM_INODES"
  using assms unfolding sfs_ok_def by blast+

text \<open>Replacing one inode: the proof obligations are about that inode.\<close>

lemma sfs_ok_inode:
  assumes ok: "sfs_ok s" and n: "n < NUM_INODES" and len: "length (direct_blocks ip) = MAX_FILE_SIZE"
    and sup: "length fl = NUM_INODES" "length dl = NUM_DATA_BLOCKS" "length db = NUM_DATA_BLOCKS"
    and fl: "fl ! n = status ip" "\<And>i. i < NUM_INODES \<Longrightarrow> i \<noteq> n \<Longrightarrow> fl ! i = inode_freelist (super s) ! i"
    and dl: "\<And>i j. i < NUM_INODES \<Longrightarrow> i \<noteq> n \<Longrightarrow> j < MAX_FILE_SIZE \<Longrightarrow> blk s i j \<noteq> - 1 \<Longrightarrow>
               dl ! nat (blk s i j) = IN_USE \<and> blk s i j \<notin> set (direct_blocks ip)"
    and own: "\<And>b. b \<in> set (direct_blocks ip) \<Longrightarrow> b \<noteq> - 1 \<Longrightarrow>
               status ip = IN_USE \<and> 0 \<le> b \<and> b < int NUM_DATA_BLOCKS \<and> dl ! nat b = IN_USE"
    and dist: "\<And>j j'. j < MAX_FILE_SIZE \<Longrightarrow> j' < MAX_FILE_SIZE \<Longrightarrow> direct_blocks ip ! j = direct_blocks ip ! j' \<Longrightarrow>
               direct_blocks ip ! j \<noteq> - 1 \<Longrightarrow> j = j'"
    and nm: "\<And>i. i < NUM_INODES \<Longrightarrow> i \<noteq> n \<Longrightarrow> status ip = IN_USE \<Longrightarrow> status (inodes s ! i) = IN_USE \<Longrightarrow>
               iname (inodes s ! i) \<noteq> iname ip"
  shows "sfs_ok (s\<lparr>super := (super s)\<lparr>inode_freelist := fl, datablock_freelist := dl\<rparr>,
                   inodes := (inodes s)[n := ip], datablocks := db\<rparr>)" (is "sfs_ok ?t")
proof -
  note D = sfs_okD [OF ok]
  have nth: "inodes ?t ! i = (if i = n then ip else inodes s ! i)" for i
    using n D(1) by (simp add: nth_list_update)
  have b: "blk ?t i j = (if i = n then direct_blocks ip ! j else blk s i j)" for i j
    using nth by (simp add: blk_def)
  have mem: "j < MAX_FILE_SIZE \<Longrightarrow> direct_blocks ip ! j \<in> set (direct_blocks ip)" for j using len by simp
  have uniq: "i = i' \<and> j = j'" if A: "i < NUM_INODES" "j < MAX_FILE_SIZE" "i' < NUM_INODES" "j' < MAX_FILE_SIZE"
      "blk ?t i j = blk ?t i' j'" "blk ?t i j \<noteq> - 1" for i j i' j'
  proof -
    consider "i = n" "i' = n" | "i = n" "i' \<noteq> n" | "i \<noteq> n" "i' = n" | "i \<noteq> n" "i' \<noteq> n" by blast
    then show ?thesis
    proof cases
      case 1
      with A dist [of j j'] show ?thesis by (simp add: b)
    next
      case 2
      with A have "blk s i' j' = direct_blocks ip ! j" "blk s i' j' \<noteq> - 1" by (simp_all add: b)
      with dl [of i' j'] A 2 mem [of j] show ?thesis by metis
    next
      case 3
      with A have "blk s i j = direct_blocks ip ! j'" "blk s i j \<noteq> - 1" by (simp_all add: b)
      with dl [of i j] A 3 mem [of j'] show ?thesis by metis
    next
      case 4
      with A D(12) [of i j i' j'] show ?thesis by (simp add: b)
    qed
  qed
  have own': "status (inodes ?t ! i) = IN_USE \<and> 0 \<le> blk ?t i j \<and> blk ?t i j < int NUM_DATA_BLOCKS \<and>
      datablock_freelist (super ?t) ! nat (blk ?t i j) = IN_USE"
    if A: "i < NUM_INODES" "j < MAX_FILE_SIZE" "blk ?t i j \<noteq> - 1" for i j
  proof (cases "i = n")
    case True
    with A own [OF mem [OF A(2)]] n D(1) show ?thesis by (simp add: b)
  next
    case False
    with A have "blk s i j \<noteq> - 1" by (simp add: b)
    with False A dl [of i j] D(8,9,10) [of i j] show ?thesis by (simp add: b)
  qed
  have "status (inodes ?t ! i) = inode_freelist (super ?t) ! i \<and> length (direct_blocks (inodes ?t ! i)) = MAX_FILE_SIZE"
    if "i < NUM_INODES" for i
    using that D(6,7) [of i] fl(1) fl(2) [of i] len by (cases "i = n") (simp_all add: n D(1))
  moreover have "i = i'" if "i < NUM_INODES" "i' < NUM_INODES" "status (inodes ?t ! i) = IN_USE"
      "status (inodes ?t ! i') = IN_USE" "iname (inodes ?t ! i) = iname (inodes ?t ! i')" for i i'
    using that nm [of i] nm [of i'] D(13) [of i i'] unfolding nth by (metis)
  ultimately show ?thesis
    using uniq own' sup D(1,5,14) unfolding sfs_ok_def by simp
qed

lemma sfs_ok_handles:
  assumes "sfs_ok s" "length hs = MAX_OPEN_FILES"
    "\<And>h. h \<in> set hs \<Longrightarrow> - 1 \<le> inode_number h \<and> inode_number h < int NUM_INODES"
  shows "sfs_ok (s\<lparr>handles := hs\<rparr>)"
proof -
  have eqs: "inodes (s\<lparr>handles := hs\<rparr>) = inodes s" "super (s\<lparr>handles := hs\<rparr>) = super s"
    "datablocks (s\<lparr>handles := hs\<rparr>) = datablocks s" "handles (s\<lparr>handles := hs\<rparr>) = hs"
    by simp_all
  show ?thesis
    unfolding sfs_ok_def blk_def eqs using assms(1) [unfolded sfs_ok_def blk_def] assms(2,3) by blast
qed

text \<open>What the allocation loop does to a file's block table and to the free list.\<close>

definition grown :: "int list \<Rightarrow> usage list \<Rightarrow> int list \<Rightarrow> usage list \<Rightarrow> bool" where
  "grown ds fl ds' fl' \<longleftrightarrow>
     length ds' = length ds \<and> length fl' = length fl \<and>
     (\<forall>k<length ds. ds ! k \<noteq> - 1 \<longrightarrow> ds' ! k = ds ! k) \<and>
     (\<forall>b<length fl. fl ! b = IN_USE \<longrightarrow> fl' ! b = IN_USE) \<and>
     (\<forall>k<length ds. ds ! k = - 1 \<longrightarrow> ds' ! k \<noteq> - 1 \<longrightarrow>
        0 \<le> ds' ! k \<and> ds' ! k < int (length fl) \<and> fl ! nat (ds' ! k) = FREE \<and> fl' ! nat (ds' ! k) = IN_USE) \<and>
     (\<forall>k<length ds. \<forall>k'<length ds. ds ! k = - 1 \<longrightarrow> ds ! k' = - 1 \<longrightarrow> ds' ! k = ds' ! k' \<longrightarrow> ds' ! k \<noteq> - 1 \<longrightarrow> k = k')"

lemma grown_refl: "grown ds fl ds fl"
  by (auto simp: grown_def)

lemma grown_step:
  assumes i: "i < length ds" "ds ! i = - 1" and b: "b < length fl" "fl ! b = FREE"
    and g: "grown (ds[i := int b]) (fl[b := IN_USE]) ds' fl'"
  shows "grown ds fl ds' fl'" "ds' ! i = int b"
proof -
  let ?d = "ds[i := int b]" and ?f = "fl[b := IN_USE]"
  have len: "length ds' = length ds" "length fl' = length fl" using g by (auto simp: grown_def)
  have keep: "k < length ds \<Longrightarrow> ?d ! k \<noteq> - 1 \<Longrightarrow> ds' ! k = ?d ! k"
    and used: "c < length fl \<Longrightarrow> ?f ! c = IN_USE \<Longrightarrow> fl' ! c = IN_USE"
    and new: "k < length ds \<Longrightarrow> ?d ! k = - 1 \<Longrightarrow> ds' ! k \<noteq> - 1 \<Longrightarrow> 0 \<le> ds' ! k \<and> ds' ! k < int (length fl) \<and>
          ?f ! nat (ds' ! k) = FREE \<and> fl' ! nat (ds' ! k) = IN_USE"
    and dist: "k < length ds \<Longrightarrow> k' < length ds \<Longrightarrow> ?d ! k = - 1 \<Longrightarrow> ?d ! k' = - 1 \<Longrightarrow> ds' ! k = ds' ! k' \<Longrightarrow>
          ds' ! k \<noteq> - 1 \<Longrightarrow> k = k'" for k k' c
    using g by (auto simp: grown_def)
  show at: "ds' ! i = int b" using keep [of i] i by simp
  have usedb: "fl' ! b = IN_USE" using used [of b] b by simp
  have N: "0 \<le> ds' ! k \<and> ds' ! k < int (length fl) \<and> fl ! nat (ds' ! k) = FREE \<and> fl' ! nat (ds' ! k) = IN_USE \<and> ds' ! k \<noteq> int b"
    if "k < length ds" "ds ! k = - 1" "ds' ! k \<noteq> - 1" "k \<noteq> i" for k
    using new [of k] that b by (cases "nat (ds' ! k) = b") auto
  show "grown ds fl ds' fl'" unfolding grown_def
  proof (intro conjI allI impI)
    show "length ds' = length ds" "length fl' = length fl" by (fact len)+
    show "ds' ! k = ds ! k" if "k < length ds" "ds ! k \<noteq> - 1" for k
      using keep [of k] that i by (cases "k = i") auto
    show "fl' ! c = IN_USE" if "c < length fl" "fl ! c = IN_USE" for c
      using used [of c] that b by (cases "c = b") auto
    fix k assume k: "k < length ds" "ds ! k = - 1" "ds' ! k \<noteq> - 1"
    show "0 \<le> ds' ! k" "ds' ! k < int (length fl)" "fl ! nat (ds' ! k) = FREE" "fl' ! nat (ds' ! k) = IN_USE"
      using N [OF k] at b usedb by (cases "k = i"; simp)+
  next
    fix k k' assume k: "k < length ds" "k' < length ds" "ds ! k = - 1" "ds ! k' = - 1" "ds' ! k = ds' ! k'" "ds' ! k \<noteq> - 1"
    show "k = k'"
      using N [of k] N [of k'] dist [of k k'] k at by (cases "k = i"; cases "k' = i") auto
  qed
qed

lemma alloc_blocks_grown:
  assumes "alloc_blocks n i ds s = Inr (ok, ds', s1)"
  shows "\<exists>fl. s1 = s\<lparr>super := (super s)\<lparr>datablock_freelist := fl\<rparr>\<rparr> \<and>
           grown ds (datablock_freelist (super s)) ds' fl \<and>
           (ok \<longrightarrow> (\<forall>k. i \<le> k \<longrightarrow> k < i + n \<longrightarrow> k < length ds \<and> ds' ! k \<noteq> - 1))"
  using assms
proof (induction n arbitrary: i ds s)
  case 0
  then have "s1 = s\<lparr>super := (super s)\<lparr>datablock_freelist := datablock_freelist (super s)\<rparr>\<rparr>" by simp
  with 0 grown_refl show ?case by fastforce
next
  case (Suc n)
  let ?fl = "datablock_freelist (super s)"
  from Suc.prems have i: "i < length ds" by (auto split: if_splits)
  show ?case
  proof (cases "ds ! i = - 1")
    case False
    with Suc.prems i have "alloc_blocks n (Suc i) ds s = Inr (ok, ds', s1)" by simp
    from Suc.IH [OF this] obtain fl where fl: "s1 = s\<lparr>super := (super s)\<lparr>datablock_freelist := fl\<rparr>\<rparr>"
      "grown ds ?fl ds' fl" "ok \<longrightarrow> (\<forall>k. Suc i \<le> k \<longrightarrow> k < Suc i + n \<longrightarrow> k < length ds \<and> ds' ! k \<noteq> - 1)"
      by blast
    have "ds' ! i \<noteq> - 1" using fl(2) i False by (simp add: grown_def)
    moreover have "k = i \<or> Suc i \<le> k" if "i \<le> k" for k using that by arith
    ultimately show ?thesis using fl i by (metis add_Suc add_Suc_right)
  next
    case True
    show ?thesis
    proof (cases "scan (\<lambda>u. u = FREE) ?fl")
      case None
      with Suc.prems i True have "\<not> ok" "ds' = ds" "s1 = s" by (simp_all add: simplefs_allocDataBlock_def)
      then have "s1 = s\<lparr>super := (super s)\<lparr>datablock_freelist := ?fl\<rparr>\<rparr>" by simp
      with \<open>\<not> ok\<close> \<open>ds' = ds\<close> grown_refl show ?thesis by blast
    next
      case (Some b)
      then have b: "b < length ?fl" "?fl ! b = FREE" by (auto dest: scan_SomeD)
      let ?s = "s\<lparr>super := (super s)\<lparr>datablock_freelist := ?fl[b := IN_USE]\<rparr>\<rparr>"
      from Some Suc.prems i True have "alloc_blocks n (Suc i) (ds[i := int b]) ?s = Inr (ok, ds', s1)"
        by (simp add: simplefs_allocDataBlock_def)
      from Suc.IH [OF this] obtain fl where fl: "s1 = ?s\<lparr>super := (super ?s)\<lparr>datablock_freelist := fl\<rparr>\<rparr>"
        "grown (ds[i := int b]) (?fl[b := IN_USE]) ds' fl"
        "ok \<longrightarrow> (\<forall>k. Suc i \<le> k \<longrightarrow> k < Suc i + n \<longrightarrow> k < length ds \<and> ds' ! k \<noteq> - 1)"
        by auto
      note g = grown_step [OF i True b fl(2)]
      have "k < length ds \<and> ds' ! k \<noteq> - 1" if "ok" "i \<le> k" "k < i + Suc n" for k
        using that fl(3) i g(2) by (cases "k = i") simp_all
      with g(1) fl(1) show ?thesis by (intro exI [of _ fl]) simp
    qed
  qed
qed

lemma sfs_ok_grown:
  assumes ok: "sfs_ok s" and n: "n < NUM_INODES" "status (inodes s ! n) = IN_USE"
    and g: "grown (direct_blocks (inodes s ! n)) (datablock_freelist (super s)) (direct_blocks ip) dl"
    and ip: "status ip = IN_USE" "iname ip = iname (inodes s ! n)" and db: "length db = NUM_DATA_BLOCKS"
  shows "sfs_ok (s\<lparr>super := (super s)\<lparr>datablock_freelist := dl\<rparr>, inodes := (inodes s)[n := ip], datablocks := db\<rparr>)"
proof -
  note D = sfs_okD [OF ok]
  let ?ds = "direct_blocks (inodes s ! n)" and ?ds' = "direct_blocks ip" and ?fl = "datablock_freelist (super s)"
  have len: "length ?ds = MAX_FILE_SIZE" "length ?fl = NUM_DATA_BLOCKS" using D(7) [OF n(1)] D(3) by auto
  have len': "length ?ds' = MAX_FILE_SIZE" "length dl = NUM_DATA_BLOCKS" using g len by (auto simp: grown_def)
  have keep: "k < MAX_FILE_SIZE \<Longrightarrow> ?ds ! k \<noteq> - 1 \<Longrightarrow> ?ds' ! k = ?ds ! k"
    and used: "b < NUM_DATA_BLOCKS \<Longrightarrow> ?fl ! b = IN_USE \<Longrightarrow> dl ! b = IN_USE"
    and new: "k < MAX_FILE_SIZE \<Longrightarrow> ?ds ! k = - 1 \<Longrightarrow> ?ds' ! k \<noteq> - 1 \<Longrightarrow>
          0 \<le> ?ds' ! k \<and> ?ds' ! k < int NUM_DATA_BLOCKS \<and> ?fl ! nat (?ds' ! k) = FREE \<and> dl ! nat (?ds' ! k) = IN_USE"
    and dist: "k < MAX_FILE_SIZE \<Longrightarrow> k' < MAX_FILE_SIZE \<Longrightarrow> ?ds ! k = - 1 \<Longrightarrow> ?ds ! k' = - 1 \<Longrightarrow> ?ds' ! k = ?ds' ! k' \<Longrightarrow>
          ?ds' ! k \<noteq> - 1 \<Longrightarrow> k = k'" for k k' b
    using g len by (auto simp: grown_def)
  have old: "0 \<le> blk s i j \<and> nat (blk s i j) < NUM_DATA_BLOCKS \<and> ?fl ! nat (blk s i j) = IN_USE"
    if "i < NUM_INODES" "j < MAX_FILE_SIZE" "blk s i j \<noteq> - 1" for i j
    using D(9,10,11) [OF that] by (simp add: nat_less_iff)
  have "sfs_ok (s\<lparr>super := (super s)\<lparr>inode_freelist := inode_freelist (super s), datablock_freelist := dl\<rparr>,
                  inodes := (inodes s)[n := ip], datablocks := db\<rparr>)"
  proof (rule sfs_ok_inode [OF ok n(1) len'(1) D(2) len'(2) db])
    show "inode_freelist (super s) ! n = status ip" using D(6) [OF n(1)] n ip by simp
    show "inode_freelist (super s) ! i = inode_freelist (super s) ! i" for i ..
    fix i j assume A: "i < NUM_INODES" "i \<noteq> n" "j < MAX_FILE_SIZE" "blk s i j \<noteq> - 1"
    note o = old [OF A(1,3,4)]
    have "blk s i j \<noteq> ?ds' ! k" if k: "k < MAX_FILE_SIZE" for k
    proof
      assume e: "blk s i j = ?ds' ! k"
      show False
      proof (cases "?ds ! k = - 1")
        case True
        with new [OF k] e A o show False by simp
      next
        case False
        with keep [OF k] e have "blk s i j = blk s n k" by (simp add: blk_def)
        with D(12) [OF A(1,3) n(1) k] A show False by simp
      qed
    qed
    then show "dl ! nat (blk s i j) = IN_USE \<and> blk s i j \<notin> set ?ds'"
      using used o len' by (metis in_set_conv_nth)
  next
    fix b assume b: "b \<in> set ?ds'" "b \<noteq> - 1"
    then obtain k where k: "k < MAX_FILE_SIZE" "?ds' ! k = b" using len' by (metis in_set_conv_nth)
    have "0 \<le> b \<and> b < int NUM_DATA_BLOCKS \<and> dl ! nat b = IN_USE"
    proof (cases "?ds ! k = - 1")
      case True
      with new [OF k(1)] k b show ?thesis by simp
    next
      case False
      with keep [OF k(1)] k have "blk s n k = b" by (simp add: blk_def)
      with old [OF n(1) k(1)] b used [of "nat b"] show ?thesis by (auto simp: nat_less_iff)
    qed
    with ip show "status ip = IN_USE \<and> 0 \<le> b \<and> b < int NUM_DATA_BLOCKS \<and> dl ! nat b = IN_USE" by simp
  next
    fix j j' assume A: "j < MAX_FILE_SIZE" "j' < MAX_FILE_SIZE" "?ds' ! j = ?ds' ! j'" "?ds' ! j \<noteq> - 1"
    have cross: "?ds' ! k \<noteq> ?ds' ! k'"
      if "k < MAX_FILE_SIZE" "k' < MAX_FILE_SIZE" "?ds ! k = - 1" "?ds ! k' \<noteq> - 1" "?ds' ! k \<noteq> - 1" for k k'
      using new [OF that(1,3,5)] keep [OF that(2,4)] old [OF n(1) that(2)] that by (auto simp: blk_def)
    show "j = j'"
    proof (cases "?ds ! j = - 1"; cases "?ds ! j' = - 1")
      assume "?ds ! j = - 1" "?ds ! j' = - 1"
      with dist A show ?thesis by blast
    next
      assume B: "?ds ! j \<noteq> - 1" "?ds ! j' \<noteq> - 1"
      with keep A have "blk s n j = blk s n j'" "blk s n j \<noteq> - 1" by (simp_all add: blk_def)
      with D(12) [OF n(1) A(1) n(1) A(2)] show ?thesis by blast
    qed (use cross [of j j'] cross [of j' j] A in auto)
  next
    fix i assume "i < NUM_INODES" "i \<noteq> n" "status (inodes s ! i) = IN_USE"
    with D(13) [of i n] n ip show "iname (inodes s ! i) \<noteq> iname ip" by auto
  qed
  then show ?thesis by simp
qed

lemma grown_discard: "grown ds fl ds' fl' \<Longrightarrow> grown ds fl ds fl'"
  by (simp add: grown_def)

lemma fill_blocks_0 [simp]: "fill_blocks buf 0 i ds s = Inr s"
  by simp

declare fill_blocks.simps [simp del]

lemma fill_blocks_frame:
  "fill_blocks buf n i ds s = Inr s' \<Longrightarrow> \<exists>db. s' = s\<lparr>datablocks := db\<rparr> \<and> length db = length (datablocks s)"
proof (induction buf n i ds s rule: fill_blocks.induct)
  case (1 buf n i ds s)
  show ?case
  proof (cases "n = 0")
    case True
    with 1 have "s' = s\<lparr>datablocks := datablocks s\<rparr>" by simp
    then show ?thesis by blast
  next
    case False
    with "1.prems" obtain t s1 where i: "i < length ds" and t: "strncpy_from buf (min BLOCKSIZE n) = Inr t"
      and s1: "simplefs_writeDataBlock (ds ! i) (t @ replicate (BLOCKSIZE - min BLOCKSIZE n) 0) s = Inr s1"
      and r: "fill_blocks (drop (min BLOCKSIZE n) buf) (n - min BLOCKSIZE n) (Suc i) ds s1 = Inr s'"
      by (subst (asm) fill_blocks.simps) (auto simp: res_iff Let_def split: if_splits)
    from i have "\<not> length ds \<le> i" by simp
    from "1.IH" [OF False this refl t s1 r] s1 show ?thesis
      by (auto simp: simplefs_writeDataBlock_def split: if_splits)
  qed
qed

lemma create_ok:
  assumes ok: "sfs_ok s" and c: "simplefs_create name s = Inr (r, s')"
  shows "sfs_ok s'"
proof (cases "find_file name s")
  case (Some i)
  with c ok show ?thesis by (simp add: simplefs_create_def)
next
  case None
  note D = sfs_okD [OF ok]
  show ?thesis
  proof (cases "scan (\<lambda>u. u = FREE) (inode_freelist (super s))")
    case None
    with c ok \<open>find_file name s = None\<close> show ?thesis by (simp add: simplefs_create_def simplefs_allocInode_def)
  next
    case (Some n)
    then have n: "n < NUM_INODES" "inode_freelist (super s) ! n = FREE" using D(2) by (auto dest: scan_SomeD)
    let ?ip = "\<lparr>status = IN_USE, iname = name, file_size = 0, direct_blocks = replicate MAX_FILE_SIZE (- 1)\<rparr>"
    from c None Some n D(1) have s': "s' = s\<lparr>super := (super s)\<lparr>inode_freelist := (inode_freelist (super s))[n := IN_USE],
          datablock_freelist := datablock_freelist (super s)\<rparr>, inodes := (inodes s)[n := ?ip], datablocks := datablocks s\<rparr>"
      by (auto simp: simplefs_create_def simplefs_allocInode_def copy_name_def simplefs_writeInode_def res_iff split: if_splits)
    show ?thesis unfolding s'
    proof (rule sfs_ok_inode [OF ok n(1)])
      show "iname (inodes s ! i) \<noteq> iname ?ip" if "i < NUM_INODES" "i \<noteq> n" "status (inodes s ! i) = IN_USE" for i
        using None that D(1) by (auto simp: find_file_def scan_None_iff)
      show "datablock_freelist (super s) ! nat (blk s i j) = IN_USE \<and> blk s i j \<notin> set (direct_blocks ?ip)"
        if "i < NUM_INODES" "i \<noteq> n" "j < MAX_FILE_SIZE" "blk s i j \<noteq> - 1" for i j
        using D(11) [OF that(1,3,4)] that by simp
    qed (use n D(2,3,4) in auto)
  qed
qed

lemma free_blocks_table:
  "free_blocks bs s = Inr s' \<Longrightarrow> \<exists>fl. s' = s\<lparr>super := (super s)\<lparr>datablock_freelist := fl\<rparr>\<rparr> \<and>
     length fl = length (datablock_freelist (super s)) \<and>
     (\<forall>b<length fl. fl ! b = (if int b \<in> set bs then FREE else datablock_freelist (super s) ! b))"
proof (induction bs s rule: free_blocks.induct)
  case (1 s)
  then have "s' = s\<lparr>super := (super s)\<lparr>datablock_freelist := datablock_freelist (super s)\<rparr>\<rparr>" by simp
  then show ?case by fastforce
next
  case (2 b bs s)
  show ?case
  proof (cases "b = - 1")
    case True
    with 2 show ?thesis by simp
  next
    case False
    let ?fl = "(datablock_freelist (super s))[nat b := FREE]"
    from 2(3) False have "0 \<le> b" and
      r: "free_blocks bs (s\<lparr>super := (super s)\<lparr>datablock_freelist := ?fl\<rparr>\<rparr>) = Inr s'" and
      f: "simplefs_freeDataBlock b s = Inr (s\<lparr>super := (super s)\<lparr>datablock_freelist := ?fl\<rparr>\<rparr>)"
      by (auto simp: res_iff simplefs_freeDataBlock_def split: if_splits)
    from 2(1) [OF False f r] obtain fl where "s' = s\<lparr>super := (super s)\<lparr>datablock_freelist := fl\<rparr>\<rparr>"
      "length fl = length (datablock_freelist (super s))"
      "\<forall>b<length fl. fl ! b = (if int b \<in> set bs then FREE else ?fl ! b)" by auto
    with \<open>0 \<le> b\<close> show ?thesis by (intro exI [of _ fl]) (auto simp: nth_list_update)
  qed
qed

lemma free_blocks_total:
  assumes "distinct (filter (\<lambda>b. b \<noteq> - 1) bs)"
    "\<And>b. b \<in> set bs \<Longrightarrow> b \<noteq> - 1 \<Longrightarrow> 0 \<le> b \<and> b < int NUM_DATA_BLOCKS \<and> datablock_freelist (super s) ! nat b = IN_USE"
  shows "\<exists>s'. free_blocks bs s = Inr s'"
  using assms
proof (induction bs arbitrary: s)
  case (Cons b bs)
  show ?case
  proof (cases "b = - 1")
    case False
    with Cons.prems have b: "0 \<le> b" "b < int NUM_DATA_BLOCKS" "datablock_freelist (super s) ! nat b = IN_USE" by auto
    let ?s = "s\<lparr>super := (super s)\<lparr>datablock_freelist := (datablock_freelist (super s))[nat b := FREE]\<rparr>\<rparr>"
    have "\<exists>s'. free_blocks bs ?s = Inr s'"
    proof (rule Cons.IH)
      show "distinct (filter (\<lambda>b. b \<noteq> - 1) bs)" using Cons.prems(1) False by simp
      fix c assume c: "c \<in> set bs" "c \<noteq> - 1"
      with Cons.prems False have "c \<noteq> b" by auto
      with Cons.prems(2) [of c] c b
      show "0 \<le> c \<and> c < int NUM_DATA_BLOCKS \<and> datablock_freelist (super ?s) ! nat c = IN_USE"
        by (simp add: nat_eq_iff)
    qed
    with b False show ?thesis by (simp add: simplefs_freeDataBlock_def)
  qed (use Cons in simp)
qed simp

lemma delete_spec:
  assumes ok: "sfs_ok s" and f: "find_file name s = Some n"
  shows "\<exists>s' fl ip. simplefs_delete name s = Inr s' \<and> sfs_ok s' \<and>
     s' = s\<lparr>super := (super s)\<lparr>inode_freelist := (inode_freelist (super s))[n := FREE], datablock_freelist := fl\<rparr>,
            inodes := (inodes s)[n := ip]\<rparr> \<and> status ip = FREE \<and> length fl = NUM_DATA_BLOCKS \<and>
     (\<forall>b<NUM_DATA_BLOCKS. fl ! b = (if int b \<in> set (direct_blocks (inodes s ! n)) then FREE else datablock_freelist (super s) ! b))"
proof -
  note D = sfs_okD [OF ok]
  let ?ip = "inodes s ! n"
  have n: "n < NUM_INODES" "status ?ip = IN_USE" using f D(1) by (auto simp: find_file_def dest: scan_SomeD)
  have len: "length (direct_blocks ?ip) = MAX_FILE_SIZE" by (rule D(7) [OF n(1)])
  have b: "0 \<le> b \<and> b < int NUM_DATA_BLOCKS \<and> datablock_freelist (super s) ! nat b = IN_USE"
    if "b \<in> set (direct_blocks ?ip)" "b \<noteq> - 1" for b
  proof -
    from that(1) len obtain j where "j < MAX_FILE_SIZE" "blk s n j = b" by (auto simp: blk_def in_set_conv_nth)
    with D(9,10,11) [OF n(1)] that(2) show ?thesis by metis
  qed
  have "distinct (filter (\<lambda>b. b \<noteq> - 1) (direct_blocks ?ip))"
    by (rule distinct_filter_nth) (use D(12) [OF n(1) _ n(1)] len in \<open>auto simp: blk_def\<close>)
  with b obtain s1 where s1: "free_blocks (direct_blocks ?ip) s = Inr s1" using free_blocks_total by blast
  from free_blocks_table [OF s1] D(3) obtain fl where
    fl: "s1 = s\<lparr>super := (super s)\<lparr>datablock_freelist := fl\<rparr>\<rparr>" "length fl = NUM_DATA_BLOCKS"
    "\<forall>b<NUM_DATA_BLOCKS. fl ! b = (if int b \<in> set (direct_blocks ?ip) then FREE else datablock_freelist (super s) ! b)"
    by auto
  let ?new = "?ip\<lparr>iname := '''', status := FREE, file_size := 0, direct_blocks := replicate MAX_FILE_SIZE (- 1)\<rparr>"
  let ?s' = "s\<lparr>super := (super s)\<lparr>inode_freelist := (inode_freelist (super s))[n := FREE], datablock_freelist := fl\<rparr>,
               inodes := (inodes s)[n := ?new]\<rparr>"
  have del: "simplefs_delete name s = Inr ?s'"
    using f s1 n D(1,2) D(6) [OF n(1)]
    by (simp add: simplefs_delete_def simplefs_writeInode_def simplefs_freeInode_def simplefs_readInode_def fl(1) Let_def)
  have "sfs_ok (s\<lparr>super := (super s)\<lparr>inode_freelist := (inode_freelist (super s))[n := FREE], datablock_freelist := fl\<rparr>,
               inodes := (inodes s)[n := ?new], datablocks := datablocks s\<rparr>)"
  proof (rule sfs_ok_inode [OF ok n(1)])
    fix i j assume A: "i < NUM_INODES" "i \<noteq> n" "j < MAX_FILE_SIZE" "blk s i j \<noteq> - 1"
    have "blk s i j \<notin> set (direct_blocks ?ip)"
    proof
      assume "blk s i j \<in> set (direct_blocks ?ip)"
      then obtain k where "k < MAX_FILE_SIZE" "blk s i j = blk s n k" using len by (auto simp: blk_def in_set_conv_nth)
      with D(12) [OF A(1,3) n(1)] A show False by blast
    qed
    with D(9,10,11) [OF A(1,3,4)] A(4) fl(3)
    show "fl ! nat (blk s i j) = IN_USE \<and> blk s i j \<notin> set (direct_blocks ?new)"
      by (auto simp: nat_less_iff)
  qed (use n D(2,4) fl(2) in auto)
  with del fl(2,3) show ?thesis
    by (intro exI [of _ ?s'] exI [of _ fl] exI [of _ ?new]) simp
qed

lemma delete_none: "find_file name s = None \<Longrightarrow> simplefs_delete name s = Inr s"
  by (simp add: simplefs_delete_def)

lemma sfs_ok_handle:
  assumes "sfs_ok s" "- 1 \<le> inode_number h" "inode_number h < int NUM_INODES"
  shows "sfs_ok (s\<lparr>handles := (handles s)[i := h]\<rparr>)"
proof (rule sfs_ok_handles [OF assms(1)])
  fix g assume "g \<in> set ((handles s)[i := h])"
  then have "g = h \<or> g \<in> set (handles s)" using set_update_subset_insert by fastforce
  then show "- 1 \<le> inode_number g \<and> inode_number g < int NUM_INODES"
    using sfs_okD(14) [OF assms(1)] assms(2,3) by blast
qed (use sfs_okD(5) [OF assms(1)] in simp)

lemma open_ok:
  assumes "sfs_ok s" "simplefs_open name s = (r, s')"
  shows "sfs_ok s'"
  using assms sfs_okD(1) [OF assms(1)]
  by (auto simp: simplefs_open_def find_file_def dest!: scan_SomeD split: option.splits intro!: sfs_ok_handle)

lemma close_ok:
  assumes "sfs_ok s" "simplefs_close fh s = Inr s'"
  shows "sfs_ok s'"
  using assms by (auto simp: simplefs_close_def res_iff NUM_INODES_def intro!: sfs_ok_handle)

lemma handle_mem: "sfs_ok s \<Longrightarrow> handle fh s = Inr h \<Longrightarrow> h \<in> set (handles s)"
  using sfs_okD(5) [of s] by (auto simp: handle_def nat_less_iff split: if_splits intro!: nth_mem)

lemma seek_ok:
  assumes "sfs_ok s" "simplefs_seek fh k s = Inr (r, s')"
  shows "sfs_ok s'"
proof -
  from assms(2) obtain h where h: "handle fh s = Inr h"
    and s': "s' = s \<or> s' = s\<lparr>handles := (handles s)[nat fh := h\<lparr>offset := offset h + k\<rparr>]\<rparr>"
    by (auto simp: simplefs_seek_def res_iff Let_def split: if_splits)
  from sfs_okD(14) [OF assms(1) handle_mem [OF assms(1) h]] s' assms(1)
  show ?thesis by (auto intro: sfs_ok_handle)
qed

lemma copy_in_frame:
  assumes "copy_in off buf n ds s = Inr s'"
  shows "\<exists>db. s' = s\<lparr>datablocks := db\<rparr> \<and> length db = length (datablocks s)"
  using assms
  by (fastforce simp: copy_in_def Let_def res_iff simplefs_writeDataBlock_def
      split: if_splits dest!: fill_blocks_frame)

lemma write_ok:
  assumes ok: "sfs_ok s" and w: "simplefs_write fh buf nbytes s = Inr (r, s')"
  shows "sfs_ok s'"
proof -
  note D = sfs_okD [OF ok]
  from w obtain h ip where h: "handle fh s = Inr h" "simplefs_readInode (inode_number h) s = Inr ip"
    by (auto simp: simplefs_write_def res_iff)
  then have n: "0 \<le> inode_number h" "nat (inode_number h) < NUM_INODES" "ip = inodes s ! nat (inode_number h)"
    by (auto simp: simplefs_readInode_def split: if_splits)
  show ?thesis
  proof (cases "status ip = FREE \<or> nbytes < 0 \<or> offset h + nbytes > int (MAX_FILE_SIZE * BLOCKSIZE) \<or> offset h < 0")
    case True
    with w h ok show ?thesis by (auto simp: simplefs_write_def split: if_splits)
  next
    case False
    then have u: "status ip = IN_USE" by (cases "status ip") auto
    let ?off = "nat (offset h)" and ?n = "nat nbytes"
    from w h False obtain okb ds s1 where
      al: "alloc_blocks (blocks_for (?off + ?n) - blocks_for ?off) (blocks_for ?off) (direct_blocks ip) s = Inr (okb, ds, s1)"
      and rest: "(if \<not> okb then Inr (- 1, s1) else bindR (copy_in ?off buf ?n ds s1) (\<lambda>s2.
                bindR (simplefs_writeInode (inode_number h)
                         (ip\<lparr>direct_blocks := ds, file_size := file_size ip + int ?n\<rparr>) s2) (\<lambda>s3.
                  Inr (0, s3)))) = Inr (r, s')"
      by (auto simp: simplefs_write_def Let_def res_iff simp del: alloc_blocks.simps)
    from alloc_blocks_grown [OF al] obtain fl where s1: "s1 = s\<lparr>super := (super s)\<lparr>datablock_freelist := fl\<rparr>\<rparr>"
      and g: "grown (direct_blocks ip) (datablock_freelist (super s)) ds fl" by blast
    show ?thesis
    proof (cases okb)
      case False
      have "sfs_ok (s\<lparr>super := (super s)\<lparr>datablock_freelist := fl\<rparr>, inodes := (inodes s)[nat (inode_number h) := ip], datablocks := datablocks s\<rparr>)"
        by (rule sfs_ok_grown [OF ok n(2)]) (use u n grown_discard [OF g] D(4) in simp_all)
      moreover have "s' = s1" using rest False by simp
      ultimately show ?thesis using n(3) by (cases s) (simp add: s1)
    next
      case True
      with rest obtain s2 where s2: "copy_in ?off buf ?n ds s1 = Inr s2" and
        s': "simplefs_writeInode (inode_number h) (ip\<lparr>direct_blocks := ds, file_size := file_size ip + int ?n\<rparr>) s2 = Inr s'"
        by (auto simp: res_iff)
      from copy_in_frame [OF s2] s1 obtain db where db: "s2 = s1\<lparr>datablocks := db\<rparr>" "length db = length (datablocks s)" by auto
      have "sfs_ok (s\<lparr>super := (super s)\<lparr>datablock_freelist := fl\<rparr>,
              inodes := (inodes s)[nat (inode_number h) := ip\<lparr>direct_blocks := ds, file_size := file_size ip + int ?n\<rparr>], datablocks := db\<rparr>)"
        by (rule sfs_ok_grown [OF ok n(2)]) (use u n g D(4) db in simp_all)
      moreover have "s' = s2\<lparr>inodes := (inodes s2)[nat (inode_number h) := ip\<lparr>direct_blocks := ds, file_size := file_size ip + int ?n\<rparr>]\<rparr>"
        using s' n(1) by (auto simp: simplefs_writeInode_def split: if_splits)
      ultimately show ?thesis by (cases s) (simp add: s1 db(1))
    qed
  qed
qed

section \<open>Every history keeps the tables consistent\<close>

text \<open>The calls of the library, each with any arguments, on a disk just formatted.\<close>

inductive sfs_step :: "sfs \<Rightarrow> sfs \<Rightarrow> bool" where
  step_create: "simplefs_create name s = Inr (r, s') \<Longrightarrow> sfs_step s s'"
| step_delete: "simplefs_delete name s = Inr s' \<Longrightarrow> sfs_step s s'"
| step_open: "simplefs_open name s = (fh, s') \<Longrightarrow> sfs_step s s'"
| step_close: "simplefs_close fh s = Inr s' \<Longrightarrow> sfs_step s s'"
| step_read: "simplefs_read stack fh nbytes s = Inr r \<Longrightarrow> sfs_step s s"
| step_write: "simplefs_write fh buf nbytes s = Inr (r, s') \<Longrightarrow> sfs_step s s'"
| step_seek: "simplefs_seek fh nseek s = Inr (r, s') \<Longrightarrow> sfs_step s s'"

inductive sfs_reach :: "sfs \<Rightarrow> bool" where
  formatted: "length ds = NUM_DATA_BLOCKS \<Longrightarrow> sfs_reach (simplefs_formatDisk ds)"
| next_call: "sfs_reach s \<Longrightarrow> sfs_step s s' \<Longrightarrow> sfs_reach s'"

inductive_cases sfs_stepE: "sfs_step s s'"

lemma format_ok: "length ds = NUM_DATA_BLOCKS \<Longrightarrow> sfs_ok (simplefs_formatDisk ds)"
  by (auto simp: sfs_ok_def simplefs_formatDisk_def blk_def NUM_INODES_def set_replicate_conv_if)

lemma step_ok: "sfs_step s s' \<Longrightarrow> sfs_ok s \<Longrightarrow> sfs_ok s'"
proof (erule sfs_stepE)
  fix name assume "simplefs_delete name s = Inr s'" "sfs_ok s"
  then show "sfs_ok s'" using delete_spec [of s name] delete_none [of name s] by (cases "find_file name s") auto
qed (blast intro: create_ok open_ok close_ok write_ok seek_ok)+

lemma reach_ok: "sfs_reach s \<Longrightarrow> sfs_ok s"
  by (induction rule: sfs_reach.induct) (auto intro: format_ok step_ok)

lemma ok_unfold_owner:
  assumes "sfs_ok s" "i < NUM_INODES" "j < MAX_FILE_SIZE" "blk s i j = int b"
  shows "status (inodes s ! i) = IN_USE \<and> b < NUM_DATA_BLOCKS \<and> datablock_freelist (super s) ! b = IN_USE"
proof -
  have "blk s i j \<noteq> - 1" using assms(4) by simp
  from sfs_okD(8,10,11) [OF assms(1-3) this] assms(4) show ?thesis by simp
qed


text \<open>A file created and opened on a fresh disk, with three bytes written to it.\<close>

definition demo_disk :: sfs where
  "demo_disk = simplefs_formatDisk (replicate NUM_DATA_BLOCKS (replicate BLOCKSIZE 0))"

definition demo_open :: "sfs res" where
  "demo_open = bindR (simplefs_create ''notes'' demo_disk) (\<lambda>(_, s). Inr (snd (simplefs_open ''notes'' s)))"

definition demo_written :: "sfs res" where
  "demo_written = bindR demo_open (\<lambda>s. bindR (simplefs_write 0 [104, 105, 33] 3 s) (\<lambda>(_, s'). Inr s'))"

lemma demo_open_reach: "demo_open = Inr s \<Longrightarrow> sfs_reach s"
proof -
  assume "demo_open = Inr s"
  then obtain r t where c: "simplefs_create ''notes'' demo_disk = Inr (r, t)" and s: "s = snd (simplefs_open ''notes'' t)"
    by (auto simp: demo_open_def res_iff)
  have "sfs_reach demo_disk" unfolding demo_disk_def by (rule formatted) simp
  from next_call [OF this step_create [OF c]] have "sfs_reach t" .
  moreover have "sfs_step t s" using step_open [of "''notes''" t "fst (simplefs_open ''notes'' t)" s] s by simp
  ultimately show ?thesis by (rule next_call)
qed

lemma demo_written_reach: "demo_written = Inr s \<Longrightarrow> sfs_reach s"
  by (auto simp: demo_written_def res_iff intro: next_call [OF demo_open_reach] step_write)

lemma demo_written_ok: "(case demo_written of Inl _ \<Rightarrow> False | Inr s \<Rightarrow> blk s 0 0 = int 0)"
  by code_simp


section \<open>File contents\<close>

definition block_of :: "u8 list list \<Rightarrow> int list \<Rightarrow> nat \<Rightarrow> u8 list" where
  "block_of db ds k = db ! nat (ds ! k)"

definition file_bytes :: "sfs \<Rightarrow> nat \<Rightarrow> u8 list" where
  "file_bytes s i =
     take (nat (file_size (inodes s ! i)))
       (concat (map (block_of (datablocks s) (direct_blocks (inodes s ! i))) [0..<blocks_for (nat (file_size (inodes s ! i)))]))"

text \<open>A file without holes: its blocks are there as far as its size goes, each of the disk's block size.\<close>

definition file_ok :: "sfs \<Rightarrow> nat \<Rightarrow> bool" where
  "file_ok s i \<longleftrightarrow> i < NUM_INODES \<and> status (inodes s ! i) = IN_USE \<and>
     0 \<le> file_size (inodes s ! i) \<and> file_size (inodes s ! i) \<le> int (MAX_FILE_SIZE * BLOCKSIZE) \<and>
     (\<forall>k<blocks_for (nat (file_size (inodes s ! i))).
        blk s i k \<noteq> - 1 \<and> length (block_of (datablocks s) (direct_blocks (inodes s ! i)) k) = BLOCKSIZE)"

lemma blocks_for_0 [simp]: "blocks_for 0 = 0"
  by (simp add: blocks_for_def)

text \<open>The number of blocks is the least that has room.\<close>

lemma blocks_for_iff: "blocks_for n = m \<longleftrightarrow> n \<le> 64 * m \<and> 64 * m < n + 64"
proof -
  define q r where "q = n div 64" and "r = n mod 64"
  have "n = 64 * q + r" "r < 64" by (simp_all add: q_def r_def)
  moreover from this have "n div 64 = q" "n mod 64 = r" by simp_all
  ultimately have "n \<le> 64 * blocks_for n \<and> 64 * blocks_for n < n + 64"
    by (auto simp: blocks_for_def BLOCKSIZE_def)
  then show ?thesis by auto
qed

lemma blocks_for_bounds: "n \<le> 64 * blocks_for n" "64 * blocks_for n < n + 64"
  using blocks_for_iff by blast+

lemma blocks_for_mono: "m \<le> n \<Longrightarrow> blocks_for m \<le> blocks_for n"
  using blocks_for_bounds [of m] blocks_for_bounds [of n] by linarith

lemma blocks_for_le: "n \<le> MAX_FILE_SIZE * BLOCKSIZE \<Longrightarrow> blocks_for n \<le> MAX_FILE_SIZE"
  using blocks_for_bounds [of n] unfolding BLOCKSIZE_def MAX_FILE_SIZE_def by linarith

lemma blocks_for_step: "0 < n \<Longrightarrow> blocks_for n = Suc (blocks_for (n - min BLOCKSIZE n))"
  using blocks_for_bounds [of "n - min BLOCKSIZE n"] unfolding blocks_for_iff BLOCKSIZE_def min_def
  by (simp split: if_splits)

lemma blocks_for_div: "n mod BLOCKSIZE = 0 \<Longrightarrow> BLOCKSIZE * blocks_for n = n"
    "n mod BLOCKSIZE \<noteq> 0 \<Longrightarrow> blocks_for n = Suc (n div BLOCKSIZE)"
  by (auto simp: blocks_for_def)

lemma strncpy_from_ok: "n \<le> length src \<Longrightarrow> 0 \<notin> set (take n src) \<Longrightarrow> strncpy_from src n = Inr (take n src)"
  by (induction src n rule: strncpy_from.induct) auto

lemma free_count_update:
  "b < length fl \<Longrightarrow> fl ! b = FREE \<Longrightarrow>
     Suc (length (filter (\<lambda>u. u = FREE) (fl[b := IN_USE]))) = length (filter (\<lambda>u. u = FREE) fl)"
proof (induction fl arbitrary: b)
  case (Cons u fl)
  then show ?case by (cases b) auto
qed simp

lemma alloc_blocks_succeeds:
  "i + n \<le> length ds \<Longrightarrow> n \<le> length (filter (\<lambda>u. u = FREE) (datablock_freelist (super s))) \<Longrightarrow>
     \<exists>ds' s1. alloc_blocks n i ds s = Inr (True, ds', s1)"
proof (induction n arbitrary: i ds s)
  case (Suc n)
  let ?fl = "datablock_freelist (super s)"
  show ?case
  proof (cases "ds ! i = - 1")
    case True
    from Suc.prems(2) obtain b where b: "scan (\<lambda>u. u = FREE) ?fl = Some b"
      by (cases "scan (\<lambda>u. u = FREE) ?fl") (auto simp: scan_None_iff filter_empty_conv)
    then have lt: "b < length ?fl" "?fl ! b = FREE" by (auto dest: scan_SomeD)
    let ?s = "s\<lparr>super := (super s)\<lparr>datablock_freelist := ?fl[b := IN_USE]\<rparr>\<rparr>"
    have "\<exists>ds' s1. alloc_blocks n (Suc i) (ds[i := int b]) ?s = Inr (True, ds', s1)"
      by (rule Suc.IH) (use Suc.prems free_count_update [OF lt] in simp_all)
    with b True Suc.prems(1) show ?thesis by (simp add: simplefs_allocDataBlock_def)
  qed (use Suc in simp)
qed simp

text \<open>What a run of block writes at the positions \<open>i, ..., j - 1\<close> of a block table leaves.\<close>

definition wrote :: "nat \<Rightarrow> nat \<Rightarrow> int list \<Rightarrow> u8 list list \<Rightarrow> u8 list list \<Rightarrow> u8 list \<Rightarrow> bool" where
  "wrote i j ds db db' bytes \<longleftrightarrow>
     length db' = length db \<and> (\<forall>b. (\<forall>k. i \<le> k \<longrightarrow> k < j \<longrightarrow> ds ! k \<noteq> int b) \<longrightarrow> db' ! b = db ! b) \<and>
     (\<forall>k. i \<le> k \<longrightarrow> k < j \<longrightarrow> length (block_of db' ds k) = BLOCKSIZE) \<and>
     concat (map (block_of db' ds) [i..<j]) = bytes"

definition owned :: "nat \<Rightarrow> nat \<Rightarrow> int list \<Rightarrow> bool" where
  "owned i j ds \<longleftrightarrow> j \<le> length ds \<and>
     (\<forall>k. i \<le> k \<longrightarrow> k < j \<longrightarrow> 0 \<le> ds ! k \<and> ds ! k < int NUM_DATA_BLOCKS) \<and>
     (\<forall>k k'. i \<le> k \<longrightarrow> k < j \<longrightarrow> i \<le> k' \<longrightarrow> k' < j \<longrightarrow> ds ! k = ds ! k' \<longrightarrow> k = k')"

lemma owned_sub: "owned i j ds \<Longrightarrow> i \<le> i' \<Longrightarrow> j' \<le> j \<Longrightarrow> owned i' j' ds"
  unfolding owned_def by (meson le_trans less_le_trans)

lemma wrote_step:
  assumes o: "owned i j ds" and i: "i < j" and blk: "length t = BLOCKSIZE" and db: "length db = NUM_DATA_BLOCKS"
    and w: "wrote (Suc i) j ds (db[nat (ds ! i) := t]) db' bytes"
  shows "wrote i j ds db db' (t @ bytes)"
proof -
  from o i have r: "0 \<le> ds ! i" "nat (ds ! i) < length db" using db by (auto simp: owned_def nat_less_iff)
  have d: "ds ! k \<noteq> int (nat (ds ! i))" if "k < j" "Suc i \<le> k" for k
  proof
    assume "ds ! k = int (nat (ds ! i))"
    with r have "ds ! k = ds ! i" by simp
    with o that i have "k = i" unfolding owned_def by (metis Suc_leD order_refl)
    with that show False by simp
  qed
  have at: "block_of db' ds i = t"
    using w d r unfolding wrote_def block_of_def by simp
  have "[i..<j] = i # [Suc i..<j]" using i by (rule upt_conv_Cons)
  then have "concat (map (block_of db' ds) [i..<j]) = t @ bytes" using w at by (simp add: wrote_def)
  moreover have "db' ! b = db ! b" if "\<forall>k. i \<le> k \<longrightarrow> k < j \<longrightarrow> ds ! k \<noteq> int b" for b
  proof -
    have "nat (ds ! i) \<noteq> b" using that i r(1) by auto
    with that w show ?thesis by (simp add: wrote_def)
  qed
  moreover have "length (block_of db' ds k) = BLOCKSIZE" if "i \<le> k" "k < j" for k
    using that at blk w by (cases "k = i") (simp_all add: wrote_def)
  ultimately show ?thesis using w unfolding wrote_def by simp
qed

lemma fill_blocks_spec:
  "n \<le> length buf \<Longrightarrow> 0 \<notin> set (take n buf) \<Longrightarrow> owned i (i + blocks_for n) ds \<Longrightarrow> length (datablocks s) = NUM_DATA_BLOCKS \<Longrightarrow>
     \<exists>db. fill_blocks buf n i ds s = Inr (s\<lparr>datablocks := db\<rparr>) \<and>
       wrote i (i + blocks_for n) ds (datablocks s) db (take n buf @ replicate (64 * blocks_for n - n) 0)"
proof (induction buf n i ds s rule: fill_blocks.induct)
  case (1 buf n i ds s)
  show ?case
  proof (cases "n = 0")
    case True
    then show ?thesis by (intro exI [of _ "datablocks s"]) (simp add: wrote_def)
  next
    case False
    let ?k = "min BLOCKSIZE n"
    let ?t = "take ?k buf @ replicate (BLOCKSIZE - ?k) 0"
    let ?j = "i + blocks_for n" and ?s = "s\<lparr>datablocks := (datablocks s)[nat (ds ! i) := ?t]\<rparr>"
    have step: "blocks_for n = Suc (blocks_for (n - ?k))" using False blocks_for_step by simp
    note o = "1.prems"(3)
    have i: "i < length ds" "i < ?j" "0 \<le> ds ! i" "ds ! i < int NUM_DATA_BLOCKS"
      using o step by (auto simp: owned_def)
    have nul: "0 \<notin> set (take ?k buf)" "0 \<notin> set (take (n - ?k) (drop ?k buf))"
      using "1.prems"(2) by (auto dest: in_set_takeD simp: take_drop dest!: in_set_dropD)
        (metis (no_types, lifting) min.cobounded2 set_take_subset_set_take subsetD)
    have t: "strncpy_from buf ?k = Inr (take ?k buf)"
      by (rule strncpy_from_ok) (use "1.prems"(1) nul in auto)
    have w: "simplefs_writeDataBlock (ds ! i) ?t s = Inr ?s" using i by (simp add: simplefs_writeDataBlock_def)
    have j: "Suc i + blocks_for (n - ?k) = ?j" using step by simp
    have "\<exists>db. fill_blocks (drop ?k buf) (n - ?k) (Suc i) ds ?s = Inr (?s\<lparr>datablocks := db\<rparr>) \<and>
        wrote (Suc i) (Suc i + blocks_for (n - ?k)) ds (datablocks ?s) db
             (take (n - ?k) (drop ?k buf) @ replicate (64 * blocks_for (n - ?k) - (n - ?k)) 0)"
      by (rule "1.IH" [OF False _ refl t w]) (unfold j, use i(1) "1.prems" nul owned_sub [OF o, of "Suc i" ?j] in simp_all)
    note this [unfolded j]
    then obtain db where
      f: "fill_blocks (drop ?k buf) (n - ?k) (Suc i) ds ?s = Inr (?s\<lparr>datablocks := db\<rparr>)" and
      wr: "wrote (Suc i) ?j ds (datablocks ?s) db
             (take (n - ?k) (drop ?k buf) @ replicate (64 * blocks_for (n - ?k) - (n - ?k)) 0)"
      by blast
    have len: "length ?t = BLOCKSIZE" using "1.prems"(1) by (simp add: min_def)
    have "wrote i ?j ds (datablocks s) db
            (?t @ take (n - ?k) (drop ?k buf) @ replicate (64 * blocks_for (n - ?k) - (n - ?k)) 0)"
      using wrote_step [OF o i(2) len "1.prems"(4)] wr by simp
    moreover have "?t @ take (n - ?k) (drop ?k buf) @ replicate (64 * blocks_for (n - ?k) - (n - ?k)) 0 =
        take n buf @ replicate (64 * blocks_for n - n) 0"
    proof (cases "n < BLOCKSIZE")
      case True
      then have "n - ?k = 0" "?k = n" by auto
      with step show ?thesis by (simp add: BLOCKSIZE_def)
    next
      case False
      then have k: "?k = 64" "64 \<le> n" by (auto simp: BLOCKSIZE_def)
      with step have "64 * blocks_for (n - 64) - (n - 64) = 64 * blocks_for n - n" by simp
      moreover have "take 64 buf @ take (n - 64) (drop 64 buf) = take n buf"
        using take_add [of 64 "n - 64" buf] k by simp
      ultimately show ?thesis using k by (simp add: BLOCKSIZE_def)
    qed
    moreover have "fill_blocks buf n i ds s = Inr (s\<lparr>datablocks := db\<rparr>)"
      by (subst fill_blocks.simps) (use False i(1) t w f in \<open>simp add: Let_def\<close>)
    ultimately show ?thesis by auto
  qed
qed

lemma wrote_before: "wrote i j ds db db' bytes \<Longrightarrow> owned 0 j ds \<Longrightarrow> k < i \<Longrightarrow> i \<le> j \<Longrightarrow> block_of db' ds k = block_of db ds k"
  unfolding wrote_def owned_def block_of_def
  by (metis bot_nat_0.extremum leD less_le_trans nat_0_le)

lemma wrote_join:
  assumes w: "wrote i j ds db db' bytes" and o: "owned 0 j ds" and ij: "i \<le> j"
  shows "concat (map (block_of db' ds) [0..<j]) = concat (map (block_of db ds) [0..<i]) @ bytes"
proof -
  have "concat (map (block_of db' ds) [0..<i]) = concat (map (block_of db ds) [0..<i])"
    by (intro arg_cong [of _ _ concat] map_cong refl) (use wrote_before [OF w o _ ij] in simp)
  moreover have "[0..<j] = [0..<i] @ [i..<j]" using upt_add_eq_append [of 0 i "j - i"] ij by simp
  ultimately show ?thesis using w by (simp add: wrote_def)
qed

lemma length_blocks:
  "(\<And>k. k < j \<Longrightarrow> length (f k) = BLOCKSIZE) \<Longrightarrow> length (concat (map f [0..<j])) = 64 * j"
  by (induction j) (simp_all add: BLOCKSIZE_def)

lemma take_append3: "length xs + n = m \<Longrightarrow> n \<le> length ys \<Longrightarrow> take m (xs @ ys @ zs) = xs @ take n ys"
  by auto

lemma copy_in_spec:
  assumes n: "n \<le> length buf" "0 \<notin> set (take n buf)" and o: "owned 0 (blocks_for (off + n)) ds"
    and db: "length (datablocks s) = NUM_DATA_BLOCKS"
    and len: "\<And>k. k < blocks_for off \<Longrightarrow> length (block_of (datablocks s) ds k) = BLOCKSIZE"
  shows "\<exists>db. copy_in off buf n ds s = Inr (s\<lparr>datablocks := db\<rparr>) \<and> length db = NUM_DATA_BLOCKS \<and>
     (\<forall>b. (\<forall>k<blocks_for (off + n). ds ! k \<noteq> int b) \<longrightarrow> db ! b = datablocks s ! b) \<and>
     (\<forall>k<blocks_for (off + n). length (block_of db ds k) = BLOCKSIZE) \<and>
     take (off + n) (concat (map (block_of db ds) [0..<blocks_for (off + n)])) =
       take off (concat (map (block_of (datablocks s) ds) [0..<blocks_for off])) @ take n buf"
proof (cases "off mod BLOCKSIZE = 0")
  case True
  let ?c = "blocks_for off" and ?j = "blocks_for (off + n)"
  have c: "64 * ?c = off" using blocks_for_div(1) [OF True] by (simp add: BLOCKSIZE_def)
  have j: "?j = ?c + blocks_for n" using blocks_for_bounds [of n] c by (simp add: blocks_for_iff)
  from fill_blocks_spec [OF n, of ?c ds s] owned_sub [OF o, of ?c ?j] db j obtain d where
    d: "fill_blocks buf n ?c ds s = Inr (s\<lparr>datablocks := d\<rparr>)"
    "wrote ?c ?j ds (datablocks s) d (take n buf @ replicate (64 * blocks_for n - n) 0)" by auto
  have A: "length (concat (map (block_of (datablocks s) ds) [0..<?c])) = off"
    using length_blocks [OF len] c by simp
  have "concat (map (block_of d ds) [0..<?j]) =
      concat (map (block_of (datablocks s) ds) [0..<?c]) @ take n buf @ replicate (64 * blocks_for n - n) 0"
    using wrote_join [OF d(2) o] j by simp
  then have "take (off + n) (concat (map (block_of d ds) [0..<?j])) =
      take off (concat (map (block_of (datablocks s) ds) [0..<?c])) @ take n buf"
    using A n(1) by simp
  moreover have "copy_in off buf n ds s = Inr (s\<lparr>datablocks := d\<rparr>)" using True d(1) by (simp add: copy_in_def)
  moreover have "length (block_of d ds k) = BLOCKSIZE" if "k < ?j" for k
    using that d(2) len [of k] wrote_before [OF d(2) o, of k] j by (cases "k < ?c") (auto simp: wrote_def)
  ultimately show ?thesis using d(2) db by (auto simp: wrote_def)
next
  case False
  define a q where "a = off mod BLOCKSIZE" and "q = off div BLOCKSIZE"
  let ?c = "blocks_for off" and ?j = "blocks_for (off + n)"
  let ?k = "min (BLOCKSIZE - a) n"
  have off: "off = 64 * q + a" "a < 64" "0 < a" using False by (auto simp: a_def q_def BLOCKSIZE_def)
  have c: "?c = Suc q" using blocks_for_div(2) [OF False] by (simp add: q_def)
  have "?j = Suc q + blocks_for (n - ?k)"
    using blocks_for_bounds [of "n - ?k"] off unfolding blocks_for_iff
    by (simp add: BLOCKSIZE_def min_def split: if_splits)
  then have j: "?j = ?c + blocks_for (n - ?k)" using c by simp
  let ?t = "block_of (datablocks s) ds q"
  let ?u = "take a ?t @ take ?k buf @ replicate (BLOCKSIZE - a - ?k) 0"
  let ?s = "s\<lparr>datablocks := (datablocks s)[nat (ds ! q) := ?u]\<rparr>"
  have q: "0 \<le> ds ! q" "ds ! q < int NUM_DATA_BLOCKS" using o j c by (auto simp: owned_def)
  have t: "length ?t = 64" using len [of q] c by (simp add: BLOCKSIZE_def)
  have nul: "0 \<notin> set (take ?k buf)" "0 \<notin> set (take (n - ?k) (drop ?k buf))"
    using n(2) set_take_subset_set_take [of ?k n buf] by (auto simp: take_drop dest: in_set_dropD)
  have r: "strncpy_from buf ?k = Inr (take ?k buf)" by (rule strncpy_from_ok) (use n nul in auto)
  have o': "owned ?c (?c + blocks_for (n - ?k)) ds" using owned_sub [OF o, of ?c ?j] unfolding j by simp
  have "\<exists>d. fill_blocks (drop ?k buf) (n - ?k) ?c ds ?s = Inr (?s\<lparr>datablocks := d\<rparr>) \<and>
      wrote ?c (?c + blocks_for (n - ?k)) ds (datablocks ?s) d
        (take (n - ?k) (drop ?k buf) @ replicate (64 * blocks_for (n - ?k) - (n - ?k)) 0)"
    by (rule fill_blocks_spec [OF _ nul(2) o']) (use n(1) db in simp_all)
  then obtain d where d: "fill_blocks (drop ?k buf) (n - ?k) ?c ds ?s = Inr (?s\<lparr>datablocks := d\<rparr>)"
    "wrote ?c ?j ds (datablocks ?s) d (take (n - ?k) (drop ?k buf) @ replicate (64 * blocks_for (n - ?k) - (n - ?k)) 0)"
    unfolding j by auto
  have u: "length ?u = BLOCKSIZE" using t off n(1) by (auto simp: BLOCKSIZE_def min_def)
  let ?Z = "replicate (64 * blocks_for (n - ?k) - (n - ?k)) 0"
  have w: "wrote q ?j ds (datablocks s) d (?u @ take (n - ?k) (drop ?k buf) @ ?Z)"
    by (rule wrote_step [OF owned_sub [OF o] _ u db]) (use j c d(2) in auto)
  let ?A = "concat (map (block_of (datablocks s) ds) [0..<q])"
  have A: "length ?A = 64 * q" by (rule length_blocks) (use len c in simp)
  have "concat (map (block_of d ds) [0..<?j]) = ?A @ ?u @ take (n - ?k) (drop ?k buf) @ ?Z"
    using wrote_join [OF w o] j c by simp
  moreover have "take (off + n) (?A @ ?u @ take (n - ?k) (drop ?k buf) @ ?Z) = ?A @ take a ?t @ take n buf"
  proof (cases "n \<le> 64 - a")
    case True
    then have "?k = n" by (simp add: BLOCKSIZE_def)
    with A t off n(1) show ?thesis by (simp add: BLOCKSIZE_def)
  next
    case F: False
    then have k: "?k = 64 - a" "?k \<le> n" by (auto simp: BLOCKSIZE_def)
    have "take ?k buf @ take (n - ?k) (drop ?k buf) = take n buf"
      using take_add [of ?k "n - ?k" buf] k by simp
    moreover have "length (?A @ take a ?t @ take n buf) = off + n" using A t off n(1) by simp
    moreover have "?A @ ?u @ take (n - ?k) (drop ?k buf) @ ?Z = (?A @ take a ?t @ take ?k buf @ take (n - ?k) (drop ?k buf)) @ ?Z"
      using k by (simp add: BLOCKSIZE_def)
    ultimately show ?thesis by (metis append_eq_conv_conj)
  qed
  moreover have "take off (concat (map (block_of (datablocks s) ds) [0..<?c])) = ?A @ take a ?t"
    using c A t off by simp
  moreover have "copy_in off buf n ds s = Inr (s\<lparr>datablocks := d\<rparr>)"
    using False c q r d(1) unfolding a_def
    by (simp add: copy_in_def Let_def simplefs_readDataBlock_def simplefs_writeDataBlock_def block_of_def)
  moreover have "length (block_of d ds k) = BLOCKSIZE" if "k < ?j" for k
  proof (cases "k < q")
    case True
    with len [of k] wrote_before [OF w o True] j c show ?thesis by simp
  next
    case False
    with that w show ?thesis unfolding wrote_def by simp
  qed
  moreover have "length d = NUM_DATA_BLOCKS" using w db unfolding wrote_def by simp
  moreover have "d ! b = datablocks s ! b" if "\<forall>k<?j. ds ! k \<noteq> int b" for b
    using w that unfolding wrote_def by blast
  ultimately show ?thesis by (intro exI [of _ d]) simp
qed

lemma read_blocks_spec:
  assumes "\<And>b. b \<in> set ds \<Longrightarrow> b = - 1 \<or> 0 \<le> b \<and> b < int NUM_DATA_BLOCKS" "m \<le> length ds"
    "\<And>k. k < m \<Longrightarrow> ds ! k \<noteq> - 1"
  shows "\<exists>rest. read_blocks ds stack s = Inr (concat (map (block_of (datablocks s) ds) [0..<m]) @ rest)"
  using assms
proof (induction ds arbitrary: m stack)
  case (Cons b bs)
  have "\<exists>rest. read_blocks bs (drop BLOCKSIZE stack) s = Inr (concat (map (block_of (datablocks s) bs) [0..<m - 1]) @ rest)"
  proof (rule Cons.IH)
    show "bs ! k \<noteq> - 1" if "k < m - 1" for k using Cons.prems(3) [of "Suc k"] that by simp
  qed (use Cons.prems in auto)
  then obtain rest where r: "read_blocks bs (drop BLOCKSIZE stack) s =
      Inr (concat (map (block_of (datablocks s) bs) [0..<m - 1]) @ rest)" by blast
  show ?case
  proof (cases m)
    case 0
    with Cons.prems(1) [of b] r show ?thesis by (auto simp: simplefs_readDataBlock_def)
  next
    case (Suc m')
    have "map (block_of (datablocks s) (b # bs)) [0..<Suc m'] = (datablocks s ! nat b) # map (block_of (datablocks s) bs) [0..<m']"
      by (simp add: map_upt_Suc block_of_def del: upt_Suc)
    moreover from Cons.prems(1) [of b] Cons.prems(3) [of 0] Suc have "0 \<le> b \<and> b < int NUM_DATA_BLOCKS" by simp
    ultimately show ?thesis using r Suc by (simp add: simplefs_readDataBlock_def del: upt_Suc)
  qed
qed simp

lemma ok_blocks:
  assumes ok: "sfs_ok s" and i: "i < NUM_INODES"
  shows "b \<in> set (direct_blocks (inodes s ! i)) \<Longrightarrow> b = - 1 \<or> 0 \<le> b \<and> b < int NUM_DATA_BLOCKS"
    and "(\<And>k. k < m \<Longrightarrow> blk s i k \<noteq> - 1) \<Longrightarrow> m \<le> MAX_FILE_SIZE \<Longrightarrow> owned 0 m (direct_blocks (inodes s ! i))"
proof -
  note D = sfs_okD [OF ok]
  show "b = - 1 \<or> 0 \<le> b \<and> b < int NUM_DATA_BLOCKS" if "b \<in> set (direct_blocks (inodes s ! i))"
    using that D(7) [OF i] D(9,10) [OF i] unfolding blk_def in_set_conv_nth by metis
  show "owned 0 m (direct_blocks (inodes s ! i))" if A: "\<And>k. k < m \<Longrightarrow> blk s i k \<noteq> - 1" "m \<le> MAX_FILE_SIZE"
    unfolding owned_def
  proof (intro conjI allI impI)
    show "m \<le> length (direct_blocks (inodes s ! i))" using A(2) D(7) [OF i] by simp
    fix k assume k: "k < m"
    then have K: "k < MAX_FILE_SIZE" using A(2) by simp
    from D(9,10) [OF i K A(1) [OF k]] show "0 \<le> direct_blocks (inodes s ! i) ! k"
      "direct_blocks (inodes s ! i) ! k < int NUM_DATA_BLOCKS" by (simp_all add: blk_def)
    fix k' assume "k' < m" "direct_blocks (inodes s ! i) ! k = direct_blocks (inodes s ! i) ! k'"
    with D(12) [OF i K i, of k'] A(1) [OF k] A(2) show "k = k'" by (simp add: blk_def)
  qed
qed

lemma read_spec:
  assumes ok: "sfs_ok s" and h: "handle fh s = Inr h" "inode_number h = int i" and f: "file_ok s i"
    and n: "0 \<le> offset h" "offset h + int n \<le> file_size (inodes s ! i)"
    and nul: "0 \<notin> set (take n (drop (nat (offset h)) (file_bytes s i)))"
  shows "simplefs_read stack fh (int n) s = Inr (Some (take n (drop (nat (offset h)) (file_bytes s i))))"
proof -
  let ?ip = "inodes s ! i" and ?sz = "nat (file_size (inodes s ! i))" and ?o = "nat (offset h)"
  let ?m = "blocks_for ?sz" and ?C = "concat (map (block_of (datablocks s) (direct_blocks ?ip)) [0..<blocks_for ?sz])"
  have i: "i < NUM_INODES" using f by (simp add: file_ok_def)
  have m: "?m \<le> MAX_FILE_SIZE" using f by (intro blocks_for_le) (simp add: file_ok_def nat_le_iff)
  have b: "blk s i k \<noteq> - 1" "length (block_of (datablocks s) (direct_blocks ?ip) k) = BLOCKSIZE" if "k < ?m" for k
    using f that by (auto simp: file_ok_def)
  obtain T rest where r: "read_blocks (direct_blocks ?ip) stack s = Inr T" and T: "T = ?C @ rest"
    using read_blocks_spec [of "direct_blocks ?ip" ?m stack s] ok_blocks(1) [OF ok i] sfs_okD(7) [OF ok i] m b(1)
    by (auto simp: blk_def)
  have len: "length ?C = 64 * ?m" by (rule length_blocks) (rule b(2))
  then have sz: "?sz \<le> length ?C" using blocks_for_bounds(1) by simp
  have o: "?o + n \<le> ?sz" using n by linarith
  then have "?o + n \<le> length ?C" using sz by linarith
  then have bytes: "take n (drop ?o T) = take n (drop ?o (file_bytes s i))"
    using o unfolding T by (simp add: file_bytes_def drop_take min_def)
  have "strncpy_from (drop ?o T) n = Inr (take n (drop ?o T))"
    by (rule strncpy_from_ok) (use \<open>?o + n \<le> length ?C\<close> nul bytes in \<open>auto simp: T\<close>)
  with h i n r show ?thesis
    by (simp add: simplefs_read_def simplefs_readInode_def bytes)
qed

lemma append_spec:
  assumes ok: "sfs_ok s" and h: "handle fh s = Inr h" "inode_number h = int i" and f: "file_ok s i"
    and at: "offset h = file_size (inodes s ! i)" and fits: "nat (offset h) + n \<le> MAX_FILE_SIZE * BLOCKSIZE"
    and n: "n \<le> length buf" "0 \<notin> set (take n buf)"
    and room: "blocks_for (nat (offset h) + n) - blocks_for (nat (offset h)) \<le>
                 length (filter (\<lambda>u. u = FREE) (datablock_freelist (super s)))"
  shows "\<exists>s'. simplefs_write fh buf (int n) s = Inr (0, s') \<and> file_ok s' i \<and>
     file_bytes s' i = file_bytes s i @ take n buf \<and> handles s' = handles s \<and>
     file_size (inodes s' ! i) = file_size (inodes s ! i) + int n \<and>
     (\<forall>i'. i' \<noteq> i \<longrightarrow> file_ok s i' \<longrightarrow> file_ok s' i' \<and> file_bytes s' i' = file_bytes s i')"
proof -
  note D = sfs_okD [OF ok]
  let ?ip = "inodes s ! i" and ?off = "nat (offset h)"
  let ?c = "blocks_for ?off" and ?j = "blocks_for (?off + n)"
  have i: "i < NUM_INODES" and use: "status ?ip = IN_USE" and sz: "0 \<le> file_size ?ip" using f by (auto simp: file_ok_def)
  have b: "blk s i k \<noteq> - 1" "length (block_of (datablocks s) (direct_blocks ?ip) k) = BLOCKSIZE" if "k < ?c" for k
    using f that at by (auto simp: file_ok_def)
  have dl: "length (direct_blocks ?ip) = MAX_FILE_SIZE" by (rule D(7) [OF i])
  have j: "?j \<le> MAX_FILE_SIZE" using fits by (rule blocks_for_le)
  have cj: "?c \<le> ?j" by (rule blocks_for_mono) simp
  obtain ds s1 where al: "alloc_blocks (?j - ?c) ?c (direct_blocks ?ip) s = Inr (True, ds, s1)"
    using alloc_blocks_succeeds [of ?c "?j - ?c" "direct_blocks ?ip" s] room cj j dl by auto
  from alloc_blocks_grown [OF al] cj obtain fl where s1: "s1 = s\<lparr>super := (super s)\<lparr>datablock_freelist := fl\<rparr>\<rparr>"
    and g: "grown (direct_blocks ?ip) (datablock_freelist (super s)) ds fl"
    and all: "\<And>k. ?c \<le> k \<Longrightarrow> k < ?j \<Longrightarrow> ds ! k \<noteq> - 1" by auto
  have keep: "k < MAX_FILE_SIZE \<Longrightarrow> blk s i k \<noteq> - 1 \<Longrightarrow> ds ! k = blk s i k" for k
    using g dl by (auto simp: grown_def blk_def)
  have pres: "ds ! k \<noteq> - 1" if "k < ?j" for k
    using that all [of k] keep [of k] b(1) [of k] j cj by (cases "k < ?c") auto
  let ?ip' = "?ip\<lparr>direct_blocks := ds, file_size := file_size ?ip + int n\<rparr>"
  let ?g = "\<lambda>db. s\<lparr>super := (super s)\<lparr>datablock_freelist := fl\<rparr>, inodes := (inodes s)[i := ?ip'], datablocks := db\<rparr>"
  have gok: "sfs_ok (?g db)" if "length db = NUM_DATA_BLOCKS" for db
    by (rule sfs_ok_grown [OF ok i use]) (use g use that in simp_all)
  have at_i: "inodes (?g db) ! i = ?ip'" for db using D(1) i by simp
  have o: "owned 0 ?j ds"
    using ok_blocks(2) [OF gok [OF D(4)] i, of ?j] pres j unfolding blk_def at_i by simp
  have "length (block_of (datablocks s1) ds k) = BLOCKSIZE" if "k < ?c" for k
    using b [OF that] keep [of k] that cj j by (simp add: s1 block_of_def blk_def)
  from copy_in_spec [OF n o _ this] D(4) s1 obtain db where
    db: "copy_in ?off buf n ds s1 = Inr (s1\<lparr>datablocks := db\<rparr>)" "length db = NUM_DATA_BLOCKS"
    "\<forall>b. (\<forall>k<?j. ds ! k \<noteq> int b) \<longrightarrow> db ! b = datablocks s ! b"
    "\<forall>k<?j. length (block_of db ds k) = BLOCKSIZE"
    "take (?off + n) (concat (map (block_of db ds) [0..<?j])) =
       take ?off (concat (map (block_of (datablocks s) ds) [0..<?c])) @ take n buf" by auto
  let ?s' = "?g db"
  have w: "simplefs_write fh buf (int n) s = Inr (0, ?s')"
    using h f i use at sz fits al db(1)
    by (simp add: simplefs_write_def simplefs_readInode_def simplefs_writeInode_def s1 Let_def nat_add_distrib
        MAX_FILE_SIZE_def BLOCKSIZE_def)
  have size: "nat (file_size ?ip + int n) = ?off + n" using at sz by simp
  have "file_size ?ip + int n \<le> int (MAX_FILE_SIZE * BLOCKSIZE)" using fits at sz by linarith
  then have fo: "file_ok ?s' i"
    unfolding file_ok_def at_i blk_def using i use sz at pres db(4) by (simp add: size)
  have same: "map (block_of (datablocks s) ds) [0..<?c] = map (block_of (datablocks s) (direct_blocks ?ip)) [0..<?c]"
    using keep b(1) cj j by (auto simp: block_of_def blk_def)
  have fb: "file_bytes ?s' i = file_bytes s i @ take n buf"
    unfolding file_bytes_def at_i using db(5) at by (simp add: size same [unfolded at])
  have others: "file_ok ?s' i' \<and> file_bytes ?s' i' = file_bytes s i'" if i': "i' \<noteq> i" "file_ok s i'" for i'
  proof -
    have lt: "i' < NUM_INODES" using i'(2) by (simp add: file_ok_def)
    have nth: "inodes ?s' ! i' = inodes s ! i'" using i'(1) by simp
    let ?m = "blocks_for (nat (file_size (inodes s ! i')))"
    have m: "?m \<le> MAX_FILE_SIZE" using i'(2) by (intro blocks_for_le) (simp add: file_ok_def nat_le_iff)
    have p: "blk s i' k \<noteq> - 1" if "k < ?m" for k using i'(2) that by (simp add: file_ok_def)
    have "db ! nat (blk s i' k) = datablocks s ! nat (blk s i' k)" if k: "k < ?m" for k
    proof -
      have K: "k < MAX_FILE_SIZE" using k m by simp
      have ne: "ds ! k' \<noteq> int (nat (blk s i' k))" if "k' < ?j" for k'
      proof
        assume "ds ! k' = int (nat (blk s i' k))"
        then have "blk ?s' i k' = blk ?s' i' k"
          using D(9) [OF lt K p [OF k]] i'(1) unfolding blk_def at_i nth by simp
        moreover have "blk ?s' i k' \<noteq> - 1" using pres [OF that] unfolding blk_def at_i by simp
        moreover have "k' < MAX_FILE_SIZE" using that j by simp
        ultimately have "i = i' \<and> k' = k" using sfs_okD(12) [OF gok [OF db(2)] i _ lt K] by blast
        with i'(1) show False by simp
      qed
      with db(3) show ?thesis by blast
    qed
    then have e: "block_of db (direct_blocks (inodes s ! i')) k = block_of (datablocks s) (direct_blocks (inodes s ! i')) k"
      if "k < ?m" for k using that by (simp add: block_of_def blk_def)
    then have "concat (map (block_of db (direct_blocks (inodes s ! i'))) [0..<?m]) =
        concat (map (block_of (datablocks s) (direct_blocks (inodes s ! i'))) [0..<?m])"
      by (intro arg_cong [of _ _ concat] map_cong refl) simp
    then have "file_bytes ?s' i' = file_bytes s i'" unfolding file_bytes_def nth by simp
    moreover have "file_ok ?s' i'" using i'(2) e unfolding file_ok_def blk_def nth by simp
    ultimately show ?thesis by simp
  qed
  show ?thesis by (intro exI [of _ ?s']) (use w fo fb others at_i in simp)
qed

text \<open>
  C15. What is written at the end of a file is read back, and nothing else changes. For an open file
  without holes whose handle stands at its end, data without NUL bytes that fits the largest file and
  the free blocks is appended by \<open>simplefs_write\<close>: the file's contents become the old ones followed by
  the data, the same handle then reads the data, and every other file without holes keeps its contents.
\<close>

theorem simplefs_append_read:
  assumes "sfs_reach s" "handle fh s = Inr h" "inode_number h = int i" "file_ok s i"
    and "offset h = file_size (inodes s ! i)" "nat (offset h) + length data \<le> MAX_FILE_SIZE * BLOCKSIZE"
    and "0 \<notin> set data"
    and "blocks_for (nat (offset h) + length data) - blocks_for (nat (offset h)) \<le>
           length (filter (\<lambda>u. u = FREE) (datablock_freelist (super s)))"
  shows "\<exists>s'. simplefs_write fh data (int (length data)) s = Inr (0, s') \<and>
     file_bytes s' i = file_bytes s i @ data \<and>
     simplefs_read stack fh (int (length data)) s' = Inr (Some data) \<and>
     (\<forall>i'. i' \<noteq> i \<longrightarrow> file_ok s i' \<longrightarrow> file_ok s' i' \<and> file_bytes s' i' = file_bytes s i')"
proof -
  note ok = reach_ok [OF assms(1)]
  from append_spec [OF ok assms(2-6), of data] assms(7,8) obtain s' where
    s': "simplefs_write fh data (int (length data)) s = Inr (0, s')" "file_ok s' i"
      "file_bytes s' i = file_bytes s i @ data" "handles s' = handles s"
      "file_size (inodes s' ! i) = file_size (inodes s ! i) + int (length data)"
      "\<forall>i'. i' \<noteq> i \<longrightarrow> file_ok s i' \<longrightarrow> file_ok s' i' \<and> file_bytes s' i' = file_bytes s i'" by auto
  have len: "length (file_bytes s i) = nat (offset h)"
  proof -
    have "nat (offset h) \<le> 64 * blocks_for (nat (offset h))" by (rule blocks_for_bounds)
    moreover have "length (concat (map (block_of (datablocks s) (direct_blocks (inodes s ! i))) [0..<blocks_for (nat (offset h))])) =
        64 * blocks_for (nat (offset h))"
      by (rule length_blocks) (use assms(4,5) in \<open>simp add: file_ok_def\<close>)
    ultimately show ?thesis using assms(5) by (simp add: file_bytes_def)
  qed
  have "handle fh s' = Inr h" using assms(2) unfolding handle_def s'(4) .
  with read_spec [OF write_ok [OF ok s'(1)] _ assms(3) s'(2), of fh "length data" stack] s'(3,5) len assms(4,5,7)
  have "simplefs_read stack fh (int (length data)) s' = Inr (Some data)" by (simp add: file_ok_def)
  with s' show ?thesis by blast
qed

lemma demo_open_ok:
  "case demo_open of Inl _ \<Rightarrow> False
   | Inr s \<Rightarrow> handle 0 s = Inr \<lparr>offset = 0, inode_number = 0\<rparr> \<and> status (inodes s ! 0) = IN_USE \<and>
       file_size (inodes s ! 0) = 0 \<and> length (filter (\<lambda>u. u = FREE) (datablock_freelist (super s))) = 30"
  by code_simp

theorem simplefs_append_read_witness:
  "\<exists>s s'. demo_open = Inr s \<and> simplefs_write 0 [104, 105, 33] 3 s = Inr (0, s') \<and>
     simplefs_read [] 0 3 s' = Inr (Some [104, 105, 33])"
proof -
  from demo_open_ok obtain s where s: "demo_open = Inr s" "handle 0 s = Inr \<lparr>offset = 0, inode_number = 0\<rparr>"
    "status (inodes s ! 0) = IN_USE" "file_size (inodes s ! 0) = 0"
    "length (filter (\<lambda>u. u = FREE) (datablock_freelist (super s))) = 30" by (auto split: sum.splits)
  have "file_ok s 0" using s by (simp add: file_ok_def NUM_INODES_def)
  moreover have "blocks_for (Suc (Suc (Suc 0))) = 1" by (simp add: blocks_for_def BLOCKSIZE_def)
  ultimately show ?thesis
    using simplefs_append_read [OF demo_open_reach [OF s(1)] s(2), of 0 "[104, 105, 33]" "[]"] s
    by (auto simp: MAX_FILE_SIZE_def BLOCKSIZE_def)
qed

text \<open>
  \<open>simplefs_seek\<close> accepts every offset, since its test asks for one that is negative and too large
  at once: on a file just created, moving 70 bytes on succeeds although the file is empty, and a write
  there then addresses data block -1, which is the inode table of the disk.
\<close>

lemma seek_past_end_hits_inode_table:
  "(\<nexists>fh k s s'. simplefs_seek fh k s = Inr (- 1, s')) \<and>
   (\<exists>s s'. demo_open = Inr s \<and> simplefs_seek 0 70 s = Inr (0, s') \<and> simplefs_write 0 [33] 1 s' = Inl OutOfBounds)"
proof
  show "\<nexists>fh k s s'. simplefs_seek fh k s = Inr (- 1, s')"
    by (auto simp: simplefs_seek_def Let_def res_iff MAX_FILE_SIZE_def BLOCKSIZE_def)
  have "case demo_open of Inl _ \<Rightarrow> False
        | Inr s \<Rightarrow> (case simplefs_seek 0 70 s of Inl _ \<Rightarrow> False
           | Inr (r, s') \<Rightarrow> r = 0 \<and> simplefs_write 0 [33] 1 s' = Inl OutOfBounds)"
    by code_simp
  then show "\<exists>s s'. demo_open = Inr s \<and> simplefs_seek 0 70 s = Inr (0, s') \<and> simplefs_write 0 [33] 1 s' = Inl OutOfBounds"
    by (auto split: sum.splits prod.splits)
qed

end
