(* ===== verification/Sh.thy ===== *)
theory Sh
  imports OS_Prelude "HOL-Library.Sublist"
begin

text \<open>
  The command parser of the xv6 shell, \<open>xv6-public/sh.c\<close>. A pointer into the line is the list of the
  characters from it to the end \<open>es\<close>, so \<open>*s\<close> is the head of the list, or 0 at \<open>es\<close>, and \<open>s++\<close> is its
  tail. A parsed string is the pair \<open>(q, eq)\<close> of pointers the code stores. \<open>panic\<close>, which exits, is an
  error. The parser is a set of mutually recursive functions over the input; each call takes one unit
  of fuel, \<open>Blocks\<close> stands for running out of it, and \<open>parsecmd\<close> starts with four units per character and
  four more, which is proved to be enough. Allocation is taken to succeed.
\<close>

section \<open>Commands\<close>

type_synonym ptr = string

definition O_RDONLY :: nat where "O_RDONLY = 0x000"
definition O_WRONLY :: nat where "O_WRONLY = 0x001"
definition O_CREATE :: nat where "O_CREATE = 0x200"

definition MAXARGS :: nat where "MAXARGS = 10"

datatype cmd =
    EXEC "(ptr \<times> ptr) list"
  | REDIR cmd ptr ptr nat nat
  | PIPE cmd cmd
  | LIST cmd cmd
  | BACK cmd

text \<open>The constructors.\<close>

definition execcmd :: cmd where [simp]: "execcmd = EXEC []"

definition redircmd :: "cmd \<Rightarrow> ptr \<Rightarrow> ptr \<Rightarrow> nat \<Rightarrow> nat \<Rightarrow> cmd" where
  [simp]: "redircmd subcmd file efile mode fd = REDIR subcmd file efile mode fd"

definition pipecmd :: "cmd \<Rightarrow> cmd \<Rightarrow> cmd" where [simp]: "pipecmd left right = PIPE left right"

definition listcmd :: "cmd \<Rightarrow> cmd \<Rightarrow> cmd" where [simp]: "listcmd left right = LIST left right"

definition backcmd :: "cmd \<Rightarrow> cmd" where [simp]: "backcmd subcmd = BACK subcmd"

text \<open>\<open>cmd->argv[argc] = q\<close> in \<open>parseexec\<close>: \<open>cmd\<close> still points to the exec node that \<open>parseredirs\<close> may
  have wrapped since.\<close>

fun add_arg :: "ptr \<Rightarrow> ptr \<Rightarrow> cmd \<Rightarrow> cmd" where
  "add_arg q eq (EXEC as) = EXEC (as @ [(q, eq)])"
| "add_arg q eq (REDIR c f ef m fd) = REDIR (add_arg q eq c) f ef m fd"
| "add_arg q eq c = c"

section \<open>Tokens\<close>

definition whitespace :: string where
  "whitespace = [CHR '' '', CHR 0x09, CHR 0x0D, CHR 0x0A, CHR 0x0B]"

definition symbols :: string where "symbols = ''<|>&;()''"

text \<open>The characters that are tokens by themselves; \<open>>\<close> may be doubled.\<close>

definition single :: string where "single = ''|();&<''"

definition deref :: "ptr \<Rightarrow> char" where
  "deref s = (case s of [] \<Rightarrow> CHR 0x00 | c # _ \<Rightarrow> c)"

text \<open>\<open>while(s < es && strchr(whitespace, *s)) s++;\<close>\<close>

definition skip :: "ptr \<Rightarrow> ptr" where
  "skip s = dropWhile (\<lambda>c. c \<in> set whitespace) s"

definition word_char :: "char \<Rightarrow> bool" where
  "word_char c \<longleftrightarrow> c \<notin> set whitespace \<and> c \<notin> set symbols"

text \<open>The token, its two ends, and the new \<open>*ps\<close>.\<close>

definition gettoken :: "ptr \<Rightarrow> char \<times> ptr \<times> ptr \<times> ptr" where
  "gettoken ps =
     (let q = skip ps in
      case q of
        [] \<Rightarrow> (CHR 0x00, q, q, skip q)
      | c # s \<Rightarrow>
          if c \<in> set single then (c, q, s, skip s)
          else if c = CHR ''>'' then
            (if deref s = CHR ''>'' then (CHR ''+'', q, tl s, skip (tl s)) else (c, q, s, skip s))
          else (let e = dropWhile word_char q in (CHR ''a'', q, e, skip e)))"

definition peek :: "ptr \<Rightarrow> string \<Rightarrow> bool \<times> ptr" where
  "peek ps toks = (let s = skip ps in (s \<noteq> [] \<and> deref s \<in> set toks, s))"

lemma skip_suffix: "suffix (skip s) s"
  by (simp add: skip_def suffix_dropWhile)

lemma length_skip [simp]: "length (skip s) \<le> length s"
  by (simp add: skip_def length_dropWhile_le)

lemma skip_Nil [simp]: "skip [] = []"
  by (simp add: skip_def)

lemma skip_idem [simp]: "skip (skip s) = skip s"
  by (simp add: skip_def)

lemma skip_head: "skip ps = c # s \<Longrightarrow> c \<notin> set whitespace"
  using hd_dropWhile [of "\<lambda>c. c \<in> set whitespace" ps] by (simp add: skip_def)

lemma not_single: "c \<notin> set single \<Longrightarrow> c \<noteq> CHR ''>'' \<Longrightarrow> c \<notin> set whitespace \<Longrightarrow> word_char c"
  by (auto simp: word_char_def symbols_def single_def)

lemma gt_not_single: "CHR ''>'' \<notin> set single"
  by (simp add: single_def)

text \<open>The five kinds of token.\<close>

lemma gettoken_cases:
  obtains (eof) "skip ps = []" "gettoken ps = (CHR 0x00, [], [], [])"
  | (sym) c s where "skip ps = c # s" "c \<in> set single" "gettoken ps = (c, c # s, s, skip s)"
  | (gt) s where "skip ps = CHR ''>'' # s" "deref s \<noteq> CHR ''>''" "gettoken ps = (CHR ''>'', CHR ''>'' # s, s, skip s)"
  | (app) s where "skip ps = CHR ''>'' # CHR ''>'' # s"
      "gettoken ps = (CHR ''+'', CHR ''>'' # CHR ''>'' # s, s, skip s)"
  | (word) c s where "skip ps = c # s" "word_char c"
      "gettoken ps = (CHR ''a'', c # s, dropWhile word_char s, skip (dropWhile word_char s))"
proof (cases "skip ps")
  case Nil
  then show thesis by (intro eof) (simp_all add: gettoken_def)
next
  case (Cons c s)
  consider "c \<in> set single" | "c = CHR ''>''" "deref s \<noteq> CHR ''>''" | "c = CHR ''>''" "deref s = CHR ''>''"
    | "c \<notin> set single" "c \<noteq> CHR ''>''" by blast
  then show thesis
  proof cases
    case 1
    then show thesis using Cons by (intro sym [of c s]) (simp_all add: gettoken_def)
  next
    case 2
    then show thesis using Cons gt_not_single by (intro gt [of s]) (simp_all add: gettoken_def)
  next
    case 3
    then obtain s' where "s = CHR ''>'' # s'" by (cases s) (auto simp: deref_def)
    then show thesis using Cons 3 gt_not_single by (intro app [of s']) (simp_all add: gettoken_def)
  next
    case 4
    with not_single skip_head [OF Cons] have "word_char c" by blast
    then show thesis using Cons 4 by (intro word [of c s]) (simp_all add: gettoken_def Let_def)
  qed
qed

text \<open>\<open>gettoken\<close> moves on unless only whitespace is left.\<close>

lemma gettoken_len:
  assumes "gettoken ps = (t, q, e, ps')"
  shows "length ps' \<le> length ps" "skip ps \<noteq> [] \<Longrightarrow> length ps' < length ps"
proof -
  have k: "length (skip x) < length ps" if "length x < length (skip ps)" for x
    using that length_skip [of x] length_skip [of ps] by linarith
  have "length ps' \<le> length ps \<and> (skip ps \<noteq> [] \<longrightarrow> length ps' < length ps)"
  proof (cases ps rule: gettoken_cases)
    case eof
    then show ?thesis using assms by simp
  next
    case (word c s)
    then have "length (dropWhile word_char s) < length (skip ps)" by (simp add: length_dropWhile_le le_imp_less_Suc)
    from k [OF this] word assms show ?thesis by simp
  next
    case (app s)
    then have "length s < length (skip ps)" by simp
    from k [OF this] app assms show ?thesis by simp
  qed (use assms k in force)+
  then show "length ps' \<le> length ps" "skip ps \<noteq> [] \<Longrightarrow> length ps' < length ps" by auto
qed

lemma peek_skip: "peek ps toks = (b, s) \<Longrightarrow> s = skip ps \<and> (b \<longrightarrow> s \<noteq> [])"
  by (auto simp: peek_def Let_def)

lemma peek_gettoken:
  "peek ps toks = (b, s) \<Longrightarrow> gettoken s = (t, q, e, ps') \<Longrightarrow> b \<Longrightarrow> length ps' < length ps"
  using gettoken_len(2) [of s t q e ps'] less_le_trans [OF _ length_skip [of ps], of "length ps'"]
  by (auto simp: peek_def Let_def)

section \<open>The parser\<close>

text \<open>The loop of \<open>parseredirs\<close>. A word is never empty and never starts a redirection.\<close>

function parseredirs :: "cmd \<Rightarrow> ptr \<Rightarrow> (cmd \<times> ptr) res" where
  "parseredirs cmd ps =
     (case peek ps ''<>'' of (more, ps1) \<Rightarrow>
        if \<not> more then Inr (cmd, ps1)
        else case gettoken ps1 of (tok, _, _, ps2) \<Rightarrow>
          (case gettoken ps2 of (t, q, eq, ps3) \<Rightarrow>
             if t \<noteq> CHR ''a'' then Inl (Panic ''missing file for redirection'')
             else parseredirs
                    (if tok = CHR ''<'' then redircmd cmd q eq O_RDONLY 0
                     else if tok = CHR ''>'' then redircmd cmd q eq (O_WRONLY + O_CREATE) 1
                     else if tok = CHR ''+'' then redircmd cmd q eq (O_WRONLY + O_CREATE) 1
                     else cmd) ps3))"
  by pat_completeness auto
termination
  by (relation "measure (\<lambda>(_, ps). length ps)")
    (auto dest!: peek_gettoken [OF sym sym] dest: gettoken_len(1) [OF sym] le_less_trans)

function back_loop :: "cmd \<Rightarrow> ptr \<Rightarrow> cmd \<times> ptr" where
  "back_loop cmd ps =
     (case peek ps ''&'' of (more, ps1) \<Rightarrow>
        if \<not> more then (cmd, ps1)
        else case gettoken ps1 of (_, _, _, ps2) \<Rightarrow> back_loop (backcmd cmd) ps2)"
  by pat_completeness auto
termination
  by (relation "measure (\<lambda>(_, ps). length ps)")
    (auto dest!: peek_gettoken [OF sym sym] dest: gettoken_len(1) [OF sym] le_less_trans)

text \<open>The loop of \<open>parseexec\<close>.\<close>

function exec_loop :: "nat \<Rightarrow> cmd \<Rightarrow> ptr \<Rightarrow> (cmd \<times> ptr) res" where
  "exec_loop argc cmd ps =
     (case peek ps ''|)&;'' of (stop, ps1) \<Rightarrow>
        if stop then Inr (cmd, ps1)
        else case gettoken ps1 of (tok, q, eq, ps2) \<Rightarrow>
          if tok = CHR 0x00 then Inr (cmd, ps2)
          else if tok \<noteq> CHR ''a'' then Inl (Panic ''syntax'')
          else if argc + 1 \<ge> MAXARGS then Inl (Panic ''too many args'')
          else bindR (parseredirs (add_arg q eq cmd) ps2) (\<lambda>(cmd', ps3). exec_loop (argc + 1) cmd' ps3))"
  by pat_completeness auto
termination by (relation "measure (\<lambda>(argc, _, _). MAXARGS - argc)") (auto simp: MAXARGS_def)

fun parseline :: "nat \<Rightarrow> ptr \<Rightarrow> (cmd \<times> ptr) res"
  and parsepipe :: "nat \<Rightarrow> ptr \<Rightarrow> (cmd \<times> ptr) res"
  and parseexec :: "nat \<Rightarrow> ptr \<Rightarrow> (cmd \<times> ptr) res"
  and parseblock :: "nat \<Rightarrow> ptr \<Rightarrow> (cmd \<times> ptr) res" where
  "parseline 0 ps = Inl Blocks"
| "parseline (Suc n) ps =
     bindR (parsepipe n ps) (\<lambda>(cmd, ps1).
       case back_loop cmd ps1 of (cmd, ps2) \<Rightarrow>
       (case peek ps2 '';'' of (more, ps3) \<Rightarrow>
          if more then
            (case gettoken ps3 of (_, _, _, ps4) \<Rightarrow>
               bindR (parseline n ps4) (\<lambda>(cmd2, ps5). Inr (listcmd cmd cmd2, ps5)))
          else Inr (cmd, ps3)))"
| "parsepipe 0 ps = Inl Blocks"
| "parsepipe (Suc n) ps =
     bindR (parseexec n ps) (\<lambda>(cmd, ps1).
       case peek ps1 ''|'' of (more, ps2) \<Rightarrow>
         if more then
           (case gettoken ps2 of (_, _, _, ps3) \<Rightarrow>
              bindR (parsepipe n ps3) (\<lambda>(cmd2, ps4). Inr (pipecmd cmd cmd2, ps4)))
         else Inr (cmd, ps2))"
| "parseexec 0 ps = Inl Blocks"
| "parseexec (Suc n) ps =
     (case peek ps ''('' of (block, ps1) \<Rightarrow>
        if block then parseblock n ps1
        else bindR (parseredirs execcmd ps1) (\<lambda>(ret, ps2). exec_loop 0 ret ps2))"
| "parseblock 0 ps = Inl Blocks"
| "parseblock (Suc n) ps =
     (case peek ps ''('' of (is_block, ps1) \<Rightarrow>
        if \<not> is_block then Inl (Panic ''parseblock'')
        else case gettoken ps1 of (_, _, _, ps2) \<Rightarrow>
          bindR (parseline n ps2) (\<lambda>(cmd, ps3).
            case peek ps3 '')'' of (closed, ps4) \<Rightarrow>
              if \<not> closed then Inl (Panic ''syntax - missing )'')
              else case gettoken ps4 of (_, _, _, ps5) \<Rightarrow> parseredirs cmd ps5))"

definition parse_fuel :: "ptr \<Rightarrow> nat" where
  "parse_fuel s = 4 * length s + 4"

text \<open>\<open>parsecmd\<close> before \<open>nulterminate\<close>, for a buffer that holds a NUL-terminated line.\<close>

definition parsecmd :: "string \<Rightarrow> cmd res" where
  "parsecmd buf =
     (let s = takeWhile (\<lambda>c. c \<noteq> CHR 0x00) buf in
      bindR (parseline (parse_fuel s) s) (\<lambda>(cmd, s1).
        case peek s1 [] of (_, s2) \<Rightarrow>
          if s2 \<noteq> [] then Inl (Panic ''syntax'') else Inr cmd))"

section \<open>nulterminate\<close>

text \<open>The pointers at which \<open>nulterminate\<close> stores a NUL.\<close>

fun cuts :: "cmd \<Rightarrow> ptr list" where
  "cuts (EXEC as) = map snd as"
| "cuts (REDIR c f ef m fd) = cuts c @ [ef]"
| "cuts (PIPE l r) = cuts l @ cuts r"
| "cuts (LIST l r) = cuts l @ cuts r"
| "cuts (BACK c) = cuts c"

definition nulterminate :: "cmd \<Rightarrow> nat \<Rightarrow> string \<Rightarrow> string" where
  "nulterminate cmd es buf = foldl (\<lambda>b p. b[es - length p := CHR 0x00]) buf (cuts cmd)"

section \<open>The parsed strings are words of the line\<close>

fun strings :: "cmd \<Rightarrow> (ptr \<times> ptr) list" where
  "strings (EXEC as) = as"
| "strings (REDIR c f ef m fd) = strings c @ [(f, ef)]"
| "strings (PIPE l r) = strings l @ strings r"
| "strings (LIST l r) = strings l @ strings r"
| "strings (BACK c) = strings c"

definition word_at :: "ptr \<Rightarrow> ptr \<times> ptr \<Rightarrow> bool" where
  "word_at s t \<longleftrightarrow> (case t of (q, e) \<Rightarrow>
     suffix q s \<and> (\<exists>w. w \<noteq> [] \<and> (\<forall>c\<in>set w. word_char c) \<and> q = w @ e) \<and> (e \<noteq> [] \<longrightarrow> \<not> word_char (hd e)))"

abbreviation words_of :: "ptr \<Rightarrow> cmd \<Rightarrow> bool" where
  "words_of s c \<equiv> \<forall>t\<in>set (strings c). word_at s t"

lemma cuts_strings: "cuts c = map snd (strings c)"
  by (induction c) auto

lemma word_at_mono: "word_at s t \<Longrightarrow> suffix s s' \<Longrightarrow> word_at s' t"
  by (auto simp: word_at_def intro: suffix_order.trans)

lemma words_of_mono: "words_of s c \<Longrightarrow> suffix s s' \<Longrightarrow> words_of s' c"
  using word_at_mono by blast

lemma suffix_drop_head: "suffix x s \<Longrightarrow> suffix x (c # s)"
  by (simp add: suffix_Cons)

lemma suffix_skip_trans: "suffix x (skip s) \<Longrightarrow> suffix x s"
  using skip_suffix suffix_order.trans by blast

lemma a_not_single: "CHR ''a'' \<notin> set single"
  by (simp add: single_def)

lemma gettoken_suffix:
  assumes "gettoken ps = (t, q, e, ps')"
  shows "suffix ps' ps" "t = CHR ''a'' \<Longrightarrow> word_at ps (q, e)"
proof -
  have k: "suffix (skip x) ps" if "suffix x (skip ps)" for x
    using that suffix_skip_trans skip_suffix suffix_order.trans by blast
  show "suffix ps' ps"
  proof (cases ps rule: gettoken_cases)
    case (word c s)
    have "suffix (dropWhile word_char s) (c # s)" by (simp add: suffix_drop_head suffix_dropWhile)
    with k [of "dropWhile word_char s"] word assms show ?thesis by simp
  next
    case eof
    then show ?thesis using assms by simp
  next
    case (app s)
    then show ?thesis using assms k [of s] by (simp add: suffix_drop_head)
  qed (use assms k in \<open>force simp: suffix_drop_head\<close>)+
  assume t: "t = CHR ''a''"
  show "word_at ps (q, e)"
  proof (cases ps rule: gettoken_cases)
    case (word c s)
    let ?w = "c # takeWhile word_char s"
    from word assms have "q = ?w @ e" "e = dropWhile word_char s" "suffix q ps"
      using skip_suffix [of ps] by auto
    moreover have "\<forall>x\<in>set ?w. word_char x" using word(2) set_takeWhileD by fastforce
    moreover have "e \<noteq> [] \<longrightarrow> \<not> word_char (hd e)" using \<open>e = dropWhile word_char s\<close> hd_dropWhile by blast
    ultimately show ?thesis unfolding word_at_def by blast
  qed (use assms t a_not_single in auto)
qed

lemma peek_suffix: "peek ps toks = (b, s) \<Longrightarrow> suffix s ps"
  by (auto simp: peek_def Let_def skip_suffix)

lemma parseredirs_words:
  "parseredirs c ps = Inr (c', ps') \<Longrightarrow> words_of ps0 c \<Longrightarrow> suffix ps ps0 \<Longrightarrow> words_of ps0 c' \<and> suffix ps' ps0"
proof (induction c ps rule: parseredirs.induct)
  case (1 cmd ps)
  obtain more ps1 where p: "peek ps ''<>'' = (more, ps1)" by fastforce
  then have s1: "suffix ps1 ps0" using peek_suffix "1.prems"(3) suffix_order.trans by blast
  show ?case
  proof (cases more)
    case False
    with "1.prems" p s1 show ?thesis by simp
  next
    case True
    obtain tok a b ps2 where t: "gettoken ps1 = (tok, a, b, ps2)" by (metis prod_cases4)
    obtain t2 q eq ps3 where t2: "gettoken ps2 = (t2, q, eq, ps3)" by (metis prod_cases4)
    have s2: "suffix ps2 ps0" "suffix ps3 ps0"
      using gettoken_suffix(1) [OF t] gettoken_suffix(1) [OF t2] s1 suffix_order.trans by blast+
    let ?c = "if tok = CHR ''<'' then redircmd cmd q eq O_RDONLY 0
                     else if tok = CHR ''>'' then redircmd cmd q eq (O_WRONLY + O_CREATE) 1
                     else if tok = CHR ''+'' then redircmd cmd q eq (O_WRONLY + O_CREATE) 1
                     else cmd"
    from "1.prems"(1) p t t2 True have a: "t2 = CHR ''a''" and r: "parseredirs ?c ps3 = Inr (c', ps')"
      by (simp_all split: if_splits del: parseredirs.simps add: parseredirs.simps [of cmd ps])
    from gettoken_suffix(2) [OF t2 a] s2 gettoken_suffix(1) [OF t] s1
    have "word_at ps0 (q, eq)" using word_at_mono by blast
    then have "words_of ps0 ?c" using "1.prems"(2) by auto
    with "1.IH" [OF p [symmetric] _ t [symmetric] refl refl t2 [symmetric] refl refl] True a r s2 show ?thesis by simp
  qed
qed

declare parseredirs.simps [simp del] back_loop.simps [simp del] exec_loop.simps [simp del]

lemma back_loop_words:
  "back_loop c ps = (c', ps') \<Longrightarrow> words_of ps0 c \<Longrightarrow> suffix ps ps0 \<Longrightarrow> words_of ps0 c' \<and> suffix ps' ps0"
proof (induction c ps rule: back_loop.induct)
  case (1 cmd ps)
  obtain more ps1 where p: "peek ps ''&'' = (more, ps1)" by fastforce
  then have s1: "suffix ps1 ps0" using peek_suffix "1.prems"(3) suffix_order.trans by blast
  obtain t a b ps2 where t: "gettoken ps1 = (t, a, b, ps2)" by (metis prod_cases4)
  have s2: "suffix ps2 ps0" using gettoken_suffix(1) [OF t] s1 suffix_order.trans by blast
  show ?case
  proof (cases more)
    case False
    with "1.prems" p s1 show ?thesis by (simp add: back_loop.simps [of cmd ps])
  next
    case True
    with "1.prems"(1) p t have "back_loop (BACK cmd) ps2 = (c', ps')" by (simp add: back_loop.simps [of cmd ps])
    with "1.IH" [OF p [symmetric] _ t [symmetric] refl refl] True "1.prems"(2) s2 show ?thesis by simp
  qed
qed

lemma add_arg_strings: "words_of s c \<Longrightarrow> word_at s (q, e) \<Longrightarrow> words_of s (add_arg q e c)"
  by (induction q e c rule: add_arg.induct) auto

lemma exec_loop_words:
  "exec_loop n c ps = Inr (c', ps') \<Longrightarrow> words_of ps0 c \<Longrightarrow> suffix ps ps0 \<Longrightarrow> words_of ps0 c' \<and> suffix ps' ps0"
proof (induction n c ps rule: exec_loop.induct)
  case (1 argc cmd ps)
  obtain stop ps1 where p: "peek ps ''|)&;'' = (stop, ps1)" by fastforce
  then have s1: "suffix ps1 ps0" using peek_suffix "1.prems"(3) suffix_order.trans by blast
  obtain t q eq ps2 where t: "gettoken ps1 = (t, q, eq, ps2)" by (metis prod_cases4)
  have s2: "suffix ps2 ps0" using gettoken_suffix(1) [OF t] s1 suffix_order.trans by blast
  show ?case
  proof (cases "stop \<or> t = CHR 0x00")
    case True
    with "1.prems" p s1 s2 t show ?thesis by (auto simp: exec_loop.simps [of argc cmd ps] split: if_splits)
  next
    case False
    with "1.prems"(1) p t obtain c1 ps3 where ns: "\<not> stop" "t \<noteq> CHR 0x00" and a: "t = CHR ''a''" and n: "\<not> argc + 1 \<ge> MAXARGS"
      and r: "parseredirs (add_arg q eq cmd) ps2 = Inr (c1, ps3)" and e: "exec_loop (argc + 1) c1 ps3 = Inr (c', ps')"
      by (auto simp: exec_loop.simps [of argc cmd ps] res_iff split: if_splits)
    have "word_at ps0 (q, eq)" using gettoken_suffix(2) [OF t a] s1 word_at_mono by blast
    with "1.prems"(2) have "words_of ps0 (add_arg q eq cmd)" using add_arg_strings by blast
    from parseredirs_words [OF r this s2] have "words_of ps0 c1 \<and> suffix ps3 ps0" .
    then show ?thesis
      using "1.IH" [OF p [symmetric] ns(1) t [symmetric] refl refl ns(2)] a n r e by auto
  qed
qed

definition good :: "(ptr \<Rightarrow> (cmd \<times> ptr) res) \<Rightarrow> bool" where
  "good f \<longleftrightarrow> (\<forall>ps c ps'. f ps = Inr (c, ps') \<longrightarrow> words_of ps c \<and> suffix ps' ps)"

lemma good_at:
  assumes "good f" "f ps = Inr (c, ps')" "suffix ps ps0"
  shows "words_of ps0 c" "suffix ps' ps0"
proof -
  from assms(1,2) have "words_of ps c" "suffix ps' ps" unfolding good_def by blast+
  with assms(3) show "words_of ps0 c" "suffix ps' ps0" using words_of_mono suffix_order.trans by blast+
qed

lemma peek_at: "peek ps toks = (b, s) \<Longrightarrow> suffix ps ps0 \<Longrightarrow> suffix s ps0"
  using peek_suffix suffix_order.trans by blast

lemma gettoken_at: "gettoken ps = (t, q, e, s) \<Longrightarrow> suffix ps ps0 \<Longrightarrow> suffix s ps0"
  using gettoken_suffix(1) suffix_order.trans by blast

lemma parse_good:
  "good (parseline n) \<and> good (parsepipe n) \<and> good (parseexec n) \<and> good (parseblock n)"
proof (induction n)
  case 0
  show ?case by (simp add: good_def)
next
  case (Suc n)
  then have g: "good (parseline n)" "good (parsepipe n)" "good (parseexec n)" "good (parseblock n)" by auto
  have "good (parseline (Suc n))" unfolding good_def
  proof (intro allI impI)
    fix ps c ps' assume "parseline (Suc n) ps = Inr (c, ps')"
    then obtain c1 s1 where pp: "parsepipe n ps = Inr (c1, s1)" and
      R: "(case back_loop c1 s1 of (cmd, ps2) \<Rightarrow> (case peek ps2 '';'' of (more, ps3) \<Rightarrow> if more then
            (case gettoken ps3 of (_, _, _, ps4) \<Rightarrow> bindR (parseline n ps4) (\<lambda>(cmd2, ps5). Inr (listcmd cmd cmd2, ps5)))
          else Inr (cmd, ps3))) = Inr (c, ps')" by (auto simp: res_iff)
    obtain c2 s2 where b: "back_loop c1 s1 = (c2, s2)" by fastforce
    obtain more s3 where k: "peek s2 '';'' = (more, s3)" by fastforce
    note 1 = pp b k
    from R b k have 2: "(if more then (case gettoken s3 of (_, _, _, s4) \<Rightarrow>
               bindR (parseline n s4) (\<lambda>(cmd2, ps5). Inr (listcmd c2 cmd2, ps5))) else Inr (c2, s3)) = Inr (c, ps')"
      by simp
    note w1 = good_at [OF g(2) 1(1) suffix_order.refl]
    from back_loop_words [OF 1(2) w1] have w2: "words_of ps c2" "suffix s2 ps" by auto
    note s3 = peek_at [OF 1(3) w2(2)]
    show "words_of ps c \<and> suffix ps' ps"
    proof (cases more)
      case True
      obtain t q e s4 where t: "gettoken s3 = (t, q, e, s4)" by (metis prod_cases4)
      with 2 True obtain c3 where "parseline n s4 = Inr (c3, ps')" "c = LIST c2 c3"
        by (auto simp: res_iff)
      with w2 good_at [OF g(1) this(1) gettoken_at [OF t s3]] show ?thesis by auto
    qed (use 2 w2 s3 in auto)
  qed
  moreover have "good (parsepipe (Suc n))" unfolding good_def
  proof (intro allI impI)
    fix ps c ps' assume "parsepipe (Suc n) ps = Inr (c, ps')"
    then obtain c1 s1 where pe: "parseexec n ps = Inr (c1, s1)" and
      R: "(case peek s1 ''|'' of (more, ps2) \<Rightarrow> if more then
            (case gettoken ps2 of (_, _, _, ps3) \<Rightarrow> bindR (parsepipe n ps3) (\<lambda>(cmd2, ps4). Inr (pipecmd c1 cmd2, ps4)))
          else Inr (c1, ps2)) = Inr (c, ps')" by (auto simp: res_iff)
    obtain more s2 where k: "peek s1 ''|'' = (more, s2)" by fastforce
    note 1 = pe k
    from R k have 2: "(if more then (case gettoken s2 of (_, _, _, s4) \<Rightarrow>
               bindR (parsepipe n s4) (\<lambda>(cmd2, ps5). Inr (pipecmd c1 cmd2, ps5))) else Inr (c1, s2)) = Inr (c, ps')"
      by simp
    note w1 = good_at [OF g(3) 1(1) suffix_order.refl]
    note s2 = peek_at [OF 1(2) w1(2)]
    show "words_of ps c \<and> suffix ps' ps"
    proof (cases more)
      case True
      obtain t q e s4 where t: "gettoken s2 = (t, q, e, s4)" by (metis prod_cases4)
      with 2 True obtain c3 where "parsepipe n s4 = Inr (c3, ps')" "c = PIPE c1 c3"
        by (auto simp: res_iff)
      with w1 good_at [OF g(2) this(1) gettoken_at [OF t s2]] show ?thesis by auto
    qed (use 2 w1 s2 in auto)
  qed
  moreover have "good (parseexec (Suc n))" unfolding good_def
  proof (intro allI impI)
    fix ps c ps' assume A: "parseexec (Suc n) ps = Inr (c, ps')"
    obtain block ps1 where p: "peek ps ''('' = (block, ps1)" by fastforce
    note s1 = peek_at [OF p suffix_order.refl]
    show "words_of ps c \<and> suffix ps' ps"
    proof (cases block)
      case True
      with A p have "parseblock n ps1 = Inr (c, ps')" by simp
      from good_at [OF g(4) this s1] show ?thesis by blast
    next
      case False
      with A p obtain c1 ps2 where "parseredirs (EXEC []) ps1 = Inr (c1, ps2)" and e: "exec_loop 0 c1 ps2 = Inr (c, ps')"
        by (auto simp: res_iff)
      from parseredirs_words [OF this(1) _ s1] have w: "words_of ps c1" "suffix ps2 ps" by auto
      show ?thesis by (rule exec_loop_words [OF e w])
    qed
  qed
  moreover have "good (parseblock (Suc n))" unfolding good_def
  proof (intro allI impI)
    fix ps c ps' assume A: "parseblock (Suc n) ps = Inr (c, ps')"
    obtain b ps1 where p: "peek ps ''('' = (b, ps1)" by fastforce
    obtain t q e ps2 where t: "gettoken ps1 = (t, q, e, ps2)" by (metis prod_cases4)
    note s2 = gettoken_at [OF t peek_at [OF p suffix_order.refl]]
    from A p t obtain c1 ps3 where l: "parseline n ps2 = Inr (c1, ps3)"
      and r: "(case peek ps3 '')'' of (closed, ps4) \<Rightarrow> if \<not> closed then Inl (Panic ''syntax - missing )'')
              else case gettoken ps4 of (_, _, _, ps5) \<Rightarrow> parseredirs c1 ps5) = Inr (c, ps')"
      by (auto simp: res_iff split: if_splits)
    note w = good_at [OF g(1) l s2]
    obtain d ps4 where p4: "peek ps3 '')'' = (d, ps4)" by fastforce
    obtain t' q' e' ps5 where t5: "gettoken ps4 = (t', q', e', ps5)" by (metis prod_cases4)
    note s5 = gettoken_at [OF t5 peek_at [OF p4 w(2)]]
    from r p4 t5 have "parseredirs c1 ps5 = Inr (c, ps')" by (auto split: if_splits)
    from parseredirs_words [OF this w(1) s5] show "words_of ps c \<and> suffix ps' ps" .
  qed
  ultimately show ?case by blast
qed

section \<open>After nulterminate every string reads as its word\<close>

definition text_of :: "ptr \<times> ptr \<Rightarrow> string" where
  "text_of t = (case t of (q, e) \<Rightarrow> take (length q - length e) q)"

definition c_string :: "string \<Rightarrow> nat \<Rightarrow> string" where
  "c_string b i = takeWhile (\<lambda>c. c \<noteq> CHR 0x00) (drop i b)"

lemma foldl_cut:
  "length (foldl (\<lambda>b p. b[n - length p := z]) b ps) = length b"
  "i < length b \<Longrightarrow> foldl (\<lambda>b p. b[n - length p := z]) b ps ! i = (if i \<in> (\<lambda>p. n - length p) ` set ps then z else b ! i)"
  by (induction ps arbitrary: b) (auto simp: nth_list_update)

lemma suffix_nth: "suffix p s \<Longrightarrow> p \<noteq> [] \<Longrightarrow> hd p = s ! (length s - length p)"
  by (auto simp: suffix_def hd_conv_nth nth_append)

lemma word_atE:
  assumes "word_at s (q, e)"
  obtains x w where "s = x @ w @ e" "q = w @ e" "w \<noteq> []" "\<forall>c\<in>set w. word_char c" "text_of (q, e) = w"
    "e \<noteq> [] \<longrightarrow> \<not> word_char (hd e)"
  using assms by (auto simp: word_at_def suffix_def text_of_def)

lemma cut_words:
  assumes w: "words_of line c" and nul: "CHR 0x00 \<notin> set line" and t: "t \<in> set (strings c)"
  shows "c_string (nulterminate c (length line) (line @ CHR 0x00 # rest)) (length line - length (fst t)) = text_of t"
proof -
  obtain q e where qe: "t = (q, e)" by fastforce
  from w t have "word_at line (q, e)" by (auto simp: qe)
  then obtain x v where v: "line = x @ v @ e" "q = v @ e" "v \<noteq> []" "\<forall>c\<in>set v. word_char c" "text_of (q, e) = v"
    by (rule word_atE)
  let ?b = "line @ CHR 0x00 # rest" and ?n = "length line"
  let ?b' = "nulterminate c ?n ?b" and ?cut = "(\<lambda>p. ?n - length p) ` set (cuts c)"
  have nth: "?b' ! i = (if i \<in> ?cut then CHR 0x00 else ?b ! i)" if "i < length ?b" for i
    unfolding nulterminate_def by (rule foldl_cut(2) [OF that])
  have len: "length ?b' = length ?b" unfolding nulterminate_def by (rule foldl_cut(1))
  have start: "?n - length q = length x" using v by simp
  have inside: "?b' ! (length x + k) = v ! k \<and> v ! k \<noteq> CHR 0x00" if k: "k < length v" for k
  proof -
    have "length x + k \<notin> ?cut"
    proof
      assume "length x + k \<in> ?cut"
      then obtain q' p where p: "(q', p) \<in> set (strings c)" "length x + k = ?n - length p" by (auto simp: cuts_strings)
      with w have "word_at line (q', p)" by blast
      then obtain y u where y: "line = y @ u @ p" "p \<noteq> [] \<longrightarrow> \<not> word_char (hd p)" by (rule word_atE)
      then have s: "suffix p line" by (simp add: suffix_def)
      have "p \<noteq> []" using p(2) k v(1) by auto
      with suffix_nth [OF s] p(2) have "hd p = line ! (length x + k)" by simp
      also have "\<dots> = v ! k" using v(1) k by (simp add: nth_append)
      finally show False using y(2) v(4) k \<open>p \<noteq> []\<close> by simp
    qed
    moreover have "?b ! (length x + k) = v ! k" using v(1) k by (simp add: nth_append)
    moreover have "v ! k \<noteq> CHR 0x00" using nul v(1) nth_mem [OF k] by auto
    moreover have "length x + k < length ?b" using v(1) k by simp
    ultimately show ?thesis using nth [of "length x + k"] by simp
  qed
  have "length x + length v \<in> ?cut"
  proof -
    have "e \<in> set (cuts c)" using t by (force simp: cuts_strings qe)
    moreover have "?n - length e = length x + length v" using v(1) by simp
    ultimately show ?thesis by (metis image_eqI)
  qed
  then have stop: "?b' ! (length x + length v) = CHR 0x00" using nth [of "length x + length v"] v(1) by simp
  have "takeWhile (\<lambda>c. c \<noteq> CHR 0x00) (drop (length x) ?b') = take (length v) (drop (length x) ?b')"
    by (rule takeWhile_eq_take_P_nth) (use inside stop v(1) len in auto)
  also have "\<dots> = v"
    by (rule nth_equalityI) (use inside v(1) len in auto)
  finally show ?thesis using v(5) start by (simp add: c_string_def qe)
qed

lemma parsecmd_words:
  assumes "parsecmd (line @ CHR 0x00 # rest) = Inr c" "CHR 0x00 \<notin> set line"
  shows "words_of line c"
proof -
  have "takeWhile (\<lambda>c. c \<noteq> CHR 0x00) (line @ CHR 0x00 # rest) = line"
    using assms(2) by (subst takeWhile_append2) auto
  with assms(1) obtain s1 where "parseline (parse_fuel line) line = Inr (c, s1)"
    by (auto simp: parsecmd_def Let_def res_iff split_beta split: if_splits)
  with parse_good [of "parse_fuel line"] show ?thesis unfolding good_def by blast
qed

text \<open>
  C17. The strings that reach \<open>exec\<close> and \<open>open\<close> are the words of the line. When \<open>parsecmd\<close> accepts a
  line, then in the buffer that \<open>nulterminate\<close> leaves, each argument and each file name of the command,
  read from its pointer to the first NUL, is exactly the run of non-blank, non-symbol characters the
  parser stopped at, although the terminating NUL of one word overwrites the character after it, which
  may be a symbol.
\<close>

theorem parsed_strings_terminated:
  assumes "parsecmd (line @ CHR 0x00 # rest) = Inr c" "CHR 0x00 \<notin> set line" "t \<in> set (strings c)"
  shows "c_string (nulterminate c (length line) (line @ CHR 0x00 # rest)) (length line - length (fst t)) = text_of t \<and>
     text_of t \<noteq> [] \<and> (\<forall>x\<in>set (text_of t). word_char x)"
proof -
  have w: "words_of line c" by (rule parsecmd_words [OF assms(1,2)])
  obtain q e where qe: "t = (q, e)" by fastforce
  from w assms(3) have "word_at line (q, e)" by (auto simp: qe)
  then have "text_of t \<noteq> [] \<and> (\<forall>x\<in>set (text_of t). word_char x)" unfolding qe by (rule word_atE) simp
  with cut_words [OF w assms(2,3)] show ?thesis by blast
qed

lemma demo_line: "parsecmd (''ls|wc'' @ CHR 0x00 # []) =
    Inr (PIPE (EXEC [(''ls|wc'', ''|wc'')]) (EXEC [(''wc'', '''')]))"
  by code_simp

theorem parsed_strings_terminated_witness:
  "c_string (nulterminate (PIPE (EXEC [(''ls|wc'', ''|wc'')]) (EXEC [(''wc'', '''')])) 5 (''ls|wc'' @ CHR 0x00 # [])) 0 = ''ls''"
  using parsed_strings_terminated [OF demo_line, of "(''ls|wc'', ''|wc'')"] by (simp add: text_of_def eval_nat_numeral)

section \<open>The fuel is enough\<close>

text \<open>The messages the parser can panic with.\<close>

definition parse_errors :: "err set" where
  "parse_errors = Panic ` {''syntax'', ''missing file for redirection'', ''too many args'', ''syntax - missing )''}"

lemma parse_errors_mem [simp]:
  "Panic ''syntax'' \<in> parse_errors" "Panic ''missing file for redirection'' \<in> parse_errors"
  "Panic ''too many args'' \<in> parse_errors" "Panic ''syntax - missing )'' \<in> parse_errors"
  by (simp_all add: parse_errors_def)

lemma parseredirs_total: "parseredirs c ps = Inl e \<Longrightarrow> e \<in> parse_errors"
proof (induction ps arbitrary: c rule: length_induct)
  case (1 ps)
  obtain more ps1 where p: "peek ps ''<>'' = (more, ps1)" by fastforce
  obtain tok a b ps2 where t: "gettoken ps1 = (tok, a, b, ps2)" by (metis prod_cases4)
  obtain t2 q eq ps3 where t2: "gettoken ps2 = (t2, q, eq, ps3)" by (metis prod_cases4)
  have len: "more \<Longrightarrow> length ps3 < length ps"
    using peek_gettoken [OF p t] gettoken_len(1) [OF t2] by simp
  show ?case
  proof (cases more)
    case True
    let ?c = "if tok = CHR ''<'' then redircmd c q eq O_RDONLY 0
                     else if tok = CHR ''>'' then redircmd c q eq (O_WRONLY + O_CREATE) 1
                     else if tok = CHR ''+'' then redircmd c q eq (O_WRONLY + O_CREATE) 1
                     else c"
    from 1(2) p t t2 True have "if t2 \<noteq> CHR ''a'' then e = Panic ''missing file for redirection'' else parseredirs ?c ps3 = Inl e"
      by (simp add: parseredirs.simps [of c ps] split del: if_split) (simp split: if_split_asm)
    moreover have "parseredirs ?c ps3 = Inl e \<Longrightarrow> e \<in> parse_errors" using len [OF True] 1(1) by blast
    ultimately show ?thesis by (cases "t2 = CHR ''a''") simp_all
  qed (use 1(2) p in \<open>simp add: parseredirs.simps [of c ps]\<close>)
qed

lemma exec_loop_total: "exec_loop n c ps = Inl e \<Longrightarrow> e \<in> parse_errors"
proof (induction n c ps rule: exec_loop.induct)
  case (1 argc cmd ps)
  obtain stop ps1 where p: "peek ps ''|)&;'' = (stop, ps1)" by fastforce
  obtain t q eq ps2 where t: "gettoken ps1 = (t, q, eq, ps2)" by (metis prod_cases4)
  show ?case
  proof (cases "stop \<or> t = CHR 0x00 \<or> t \<noteq> CHR ''a'' \<or> argc + 1 \<ge> MAXARGS")
    case True
    with "1.prems" p t show ?thesis by (auto simp: exec_loop.simps [of argc cmd ps] split: if_splits)
  next
    case False
    with "1.prems" p t have "bindR (parseredirs (add_arg q eq cmd) ps2) (\<lambda>(cmd', ps3). exec_loop (argc + 1) cmd' ps3) = Inl e"
      by (simp add: exec_loop.simps [of argc cmd ps])
    then consider "parseredirs (add_arg q eq cmd) ps2 = Inl e" | c' ps3 where "exec_loop (argc + 1) c' ps3 = Inl e"
        "parseredirs (add_arg q eq cmd) ps2 = Inr (c', ps3)"
      by (auto simp: bindR_Inl_iff)
    then show ?thesis
    proof cases
      case 2
      from False have ns: "\<not> stop" "t \<noteq> CHR 0x00" "\<not> t \<noteq> CHR ''a''" "\<not> MAXARGS \<le> argc + 1" by auto
      show ?thesis by (rule "1.IH" [OF p [symmetric] ns(1) t [symmetric] refl refl ns(2-4) 2(2) refl 2(1)])
    qed (rule parseredirs_total)
  qed
qed

lemma good_len: "good f \<Longrightarrow> f ps = Inr (c, ps') \<Longrightarrow> words_of ps c \<and> length ps' \<le> length ps"
  unfolding good_def by (meson suffix_length_le)

lemma back_loop_len: "back_loop c ps = (c', ps') \<Longrightarrow> length ps' \<le> length ps"
proof (induction c ps rule: back_loop.induct)
  case (1 cmd ps)
  obtain more ps1 where p: "peek ps ''&'' = (more, ps1)" by fastforce
  obtain t a b ps2 where t: "gettoken ps1 = (t, a, b, ps2)" by (metis prod_cases4)
  have "length ps1 \<le> length ps" using peek_suffix [OF p] suffix_length_le by blast
  moreover have "length ps2 \<le> length ps1" by (rule gettoken_len(1) [OF t])
  ultimately show ?case
    using "1.IH" [OF p [symmetric] _ t [symmetric] refl refl] "1.prems" p t
    by (cases more) (auto simp: back_loop.simps [of cmd ps])
qed

lemma parse_total:
  "(\<forall>ps e. 4 * length ps + 4 \<le> n \<longrightarrow> parseline n ps = Inl e \<longrightarrow> e \<in> parse_errors) \<and>
   (\<forall>ps e. 4 * length ps + 3 \<le> n \<longrightarrow> parsepipe n ps = Inl e \<longrightarrow> e \<in> parse_errors) \<and>
   (\<forall>ps e. 4 * length ps + 2 \<le> n \<longrightarrow> parseexec n ps = Inl e \<longrightarrow> e \<in> parse_errors) \<and>
   (\<forall>ps e. 4 * length ps + 1 \<le> n \<longrightarrow> fst (peek ps ''('') \<longrightarrow> parseblock n ps = Inl e \<longrightarrow> e \<in> parse_errors)"
proof (induction n)
  case (Suc n)
  have g: "good (parseline n)" "good (parsepipe n)" "good (parseexec n)" using parse_good by auto
  have line: "e \<in> parse_errors" if f: "4 * length ps + 4 \<le> Suc n" and A: "parseline (Suc n) ps = Inl e" for ps e
  proof (cases "parsepipe n ps")
    case (Inl e')
    with A have "parsepipe n ps = Inl e" by simp
    moreover have "4 * length ps + 3 \<le> n" using f by simp
    ultimately show ?thesis using Suc by blast
  next
    case (Inr r)
    obtain c1 s1 where p: "parsepipe n ps = Inr (c1, s1)" using Inr by (cases r) simp
    obtain c2 s2 where b: "back_loop c1 s1 = (c2, s2)" by fastforce
    obtain more s3 where k: "peek s2 '';'' = (more, s3)" by fastforce
    obtain t q eq s4 where t: "gettoken s3 = (t, q, eq, s4)" by (metis prod_cases4)
    from A p b k t have more and l: "parseline n s4 = Inl e" by (auto simp: bindR_Inl_iff split: if_splits)
    have "length s4 < length s2" using peek_gettoken [OF k t] \<open>more\<close> by simp
    moreover have "length s2 \<le> length s1" by (rule back_loop_len [OF b])
    moreover have "length s1 \<le> length ps" using good_len [of "parsepipe n" ps c1 s1] g(2) p by blast
    ultimately have "4 * length s4 + 4 \<le> n" using f by linarith
    with Suc l show ?thesis by blast
  qed
  have pipe: "e \<in> parse_errors" if f: "4 * length ps + 3 \<le> Suc n" and A: "parsepipe (Suc n) ps = Inl e" for ps e
  proof (cases "parseexec n ps")
    case (Inl e')
    with A have "parseexec n ps = Inl e" by simp
    moreover have "4 * length ps + 2 \<le> n" using f by simp
    ultimately show ?thesis using Suc by blast
  next
    case (Inr r)
    obtain c1 s1 where p: "parseexec n ps = Inr (c1, s1)" using Inr by (cases r) simp
    obtain more s2 where k: "peek s1 ''|'' = (more, s2)" by fastforce
    obtain t q eq s4 where t: "gettoken s2 = (t, q, eq, s4)" by (metis prod_cases4)
    from A p k t have more and l: "parsepipe n s4 = Inl e" by (auto simp: bindR_Inl_iff split: if_splits)
    have "length s4 < length s1" using peek_gettoken [OF k t] \<open>more\<close> by simp
    moreover have "length s1 \<le> length ps" using good_len [of "parseexec n" ps c1 s1] g(3) p by blast
    ultimately have "4 * length s4 + 3 \<le> n" using f by linarith
    with Suc l show ?thesis by blast
  qed
  have exec: "e \<in> parse_errors" if f: "4 * length ps + 2 \<le> Suc n" and A: "parseexec (Suc n) ps = Inl e" for ps e
  proof -
    obtain block ps1 where p: "peek ps ''('' = (block, ps1)" by fastforce
    have "length ps1 \<le> length ps" using peek_suffix [OF p] suffix_length_le by blast
    then have l: "4 * length ps1 + 1 \<le> n" using f by linarith
    show ?thesis
    proof (cases block)
      case True
      with p have "fst (peek ps1 ''('')" by (auto simp: peek_def Let_def)
      moreover have "parseblock n ps1 = Inl e" using A p True by simp
      ultimately show ?thesis using Suc l by blast
    next
      case False
      with A p show ?thesis by (auto simp: bindR_Inl_iff dest: parseredirs_total exec_loop_total)
    qed
  qed
  have block: "e \<in> parse_errors"
    if f: "4 * length ps + 1 \<le> Suc n" and B: "fst (peek ps ''('')" and A: "parseblock (Suc n) ps = Inl e" for ps e
  proof -
    obtain ps1 where p: "peek ps ''('' = (True, ps1)" using B by (cases "peek ps ''(''") simp
    obtain t q eq ps2 where t: "gettoken ps1 = (t, q, eq, ps2)" by (metis prod_cases4)
    have "length ps2 < length ps" using peek_gettoken [OF p t] by simp
    then have l: "4 * length ps2 + 4 \<le> n" using f by linarith
    show ?thesis
    proof (cases "parseline n ps2")
      case (Inl e')
      with A p t have "parseline n ps2 = Inl e" by simp
      with Suc l show ?thesis by blast
    next
      case (Inr r)
      obtain c1 s1 where "parseline n ps2 = Inr (c1, s1)" using Inr by (cases r) simp
      moreover obtain b s2 where "peek s1 '')'' = (b, s2)" by fastforce
      moreover obtain t' q' e' s3 where "gettoken s2 = (t', q', e', s3)" by (metis prod_cases4)
      ultimately show ?thesis using A p t by (auto dest: parseredirs_total split: if_splits)
    qed
  qed
  show ?case using line pipe exec block by blast
qed simp

text \<open>
  C40. The parser always stops: whatever is in the buffer, \<open>parsecmd\<close> with the fuel it starts with either
  accepts the line or panics with one of four messages; the mutual recursion never runs out of fuel, and
  the panic of \<open>parseblock\<close> is unreachable.
\<close>

theorem parsecmd_terminates:
  "parsecmd buf \<in> Inl ` parse_errors \<union> range Inr"
proof (cases "parsecmd buf")
  case (Inl e)
  let ?s = "takeWhile (\<lambda>c. c \<noteq> CHR 0x00) buf"
  from Inl consider "parseline (parse_fuel ?s) ?s = Inl e" | "e = Panic ''syntax''"
    by (auto simp: parsecmd_def Let_def bindR_Inl_iff split_beta split: if_splits)
  then have "e \<in> parse_errors"
  proof cases
    case 1
    have "4 * length ?s + 4 \<le> parse_fuel ?s" by (simp add: parse_fuel_def)
    with 1 parse_total [of "parse_fuel ?s"] show ?thesis by blast
  qed simp
  with Inl show ?thesis by simp
qed simp

section \<open>Every command has a text that parses to it\<close>

text \<open>Commands with their words as text, and a text with every operand in parentheses.\<close>

datatype tcmd =
    TExec "string list"
  | TRedir tcmd string nat nat
  | TPipe tcmd tcmd
  | TList tcmd tcmd
  | TBack tcmd

fun meaning :: "cmd \<Rightarrow> tcmd" where
  "meaning (EXEC as) = TExec (map text_of as)"
| "meaning (REDIR c f ef m fd) = TRedir (meaning c) (text_of (f, ef)) m fd"
| "meaning (PIPE l r) = TPipe (meaning l) (meaning r)"
| "meaning (LIST l r) = TList (meaning l) (meaning r)"
| "meaning (BACK c) = TBack (meaning c)"

fun show_cmd :: "tcmd \<Rightarrow> string" where
  "show_cmd (TExec ws) = concat (map (\<lambda>w. w @ '' '') ws)"
| "show_cmd (TRedir c f m fd) = ''('' @ show_cmd c @ '')'' @ (if fd = 0 then ''<'' else ''>'') @ f"
| "show_cmd (TPipe l r) = ''('' @ show_cmd l @ '')|('' @ show_cmd r @ '')''"
| "show_cmd (TList l r) = ''('' @ show_cmd l @ '');('' @ show_cmd r @ '')''"
| "show_cmd (TBack c) = ''('' @ show_cmd c @ '')&''"

definition word_ok :: "string \<Rightarrow> bool" where
  "word_ok w \<longleftrightarrow> w \<noteq> [] \<and> (\<forall>c\<in>set w. word_char c \<and> c \<noteq> CHR 0x00)"

fun cmd_ok :: "tcmd \<Rightarrow> bool" where
  "cmd_ok (TExec ws) \<longleftrightarrow> length ws < MAXARGS \<and> list_all word_ok ws"
| "cmd_ok (TRedir c f m fd) \<longleftrightarrow> cmd_ok c \<and> word_ok f \<and> (m = O_RDONLY \<and> fd = 0 \<or> m = O_WRONLY + O_CREATE \<and> fd = 1)"
| "cmd_ok (TPipe l r) \<longleftrightarrow> cmd_ok l \<and> cmd_ok r"
| "cmd_ok (TList l r) \<longleftrightarrow> cmd_ok l \<and> cmd_ok r"
| "cmd_ok (TBack c) \<longleftrightarrow> cmd_ok c"

text \<open>What may follow a command: nothing, or a closing parenthesis.\<close>

definition ends :: "ptr \<Rightarrow> bool" where
  "ends s \<longleftrightarrow> skip s = [] \<or> hd (skip s) = CHR '')''"

lemma skip_cons: "c \<notin> set whitespace \<Longrightarrow> skip (c # s) = c # s"
  by (simp add: skip_def)

lemma sym_not_white: "c \<in> set symbols \<Longrightarrow> c \<notin> set whitespace"
  by (auto simp: symbols_def whitespace_def)

lemma symbol_skip [simp]:
  "skip (CHR ''('' # s) = CHR ''('' # s" "skip (CHR '')'' # s) = CHR '')'' # s" "skip (CHR ''|'' # s) = CHR ''|'' # s"
  "skip (CHR '';'' # s) = CHR '';'' # s" "skip (CHR ''&'' # s) = CHR ''&'' # s" "skip (CHR ''<'' # s) = CHR ''<'' # s"
  "skip (CHR ''>'' # s) = CHR ''>'' # s"
  by (rule skip_cons, simp add: whitespace_def)+

lemma peek_iff: "peek ps toks = (skip ps \<noteq> [] \<and> hd (skip ps) \<in> set toks, skip ps)"
  by (auto simp: peek_def Let_def deref_def split: list.splits)

lemma gettoken_single: "c \<in> set single \<Longrightarrow> skip ps = c # s \<Longrightarrow> gettoken ps = (c, c # s, s, skip s)"
  by (simp add: gettoken_def)

lemma gettoken_gt: "skip ps = CHR ''>'' # s \<Longrightarrow> deref s \<noteq> CHR ''>'' \<Longrightarrow> gettoken ps = (CHR ''>'', CHR ''>'' # s, s, skip s)"
  by (simp add: gettoken_def gt_not_single)

lemma word_char_not: "word_char c \<Longrightarrow> c \<notin> set symbols \<and> c \<notin> set whitespace"
  by (simp add: word_char_def)

lemma gettoken_word:
  assumes "word_ok w" "post \<noteq> [] \<longrightarrow> \<not> word_char (hd post)"
  shows "gettoken (w @ post) = (CHR ''a'', w @ post, post, skip post)" "skip (w @ post) = w @ post"
proof -
  obtain c s where w: "w = c # s" using assms(1) by (cases w) (auto simp: word_ok_def)
  then have c: "word_char c" "\<forall>x\<in>set w. word_char x" using assms(1) by (auto simp: word_ok_def)
  show sk: "skip (w @ post) = w @ post" using w word_char_not [OF c(1)] by (simp add: skip_cons)
  have "c \<notin> set single" "c \<noteq> CHR ''>''" using word_char_not [OF c(1)] by (auto simp: symbols_def single_def)
  moreover have "dropWhile word_char (w @ post) = post"
    using c(2) assms(2) by (cases post) (simp_all add: dropWhile_append2)
  ultimately show "gettoken (w @ post) = (CHR ''a'', w @ post, post, skip post)"
    using sk w by (simp add: gettoken_def Let_def)
qed

lemma ends_not_word: "ends s \<Longrightarrow> s \<noteq> [] \<longrightarrow> \<not> word_char (hd s)"
proof
  assume e: "ends s" and n: "s \<noteq> []"
  then obtain c r where s: "s = c # r" by (cases s) auto
  show "\<not> word_char (hd s)"
  proof (cases "c \<in> set whitespace")
    case False
    then have "skip s = s" using s by (simp add: skip_cons)
    with e n s have "c = CHR '')''" by (simp add: ends_def)
    then show ?thesis using s by (simp add: word_char_def symbols_def)
  qed (simp add: s word_char_def)
qed

lemma text_of_word [simp]: "text_of (w @ post, post) = w"
  by (simp add: text_of_def)

lemma parse_skip: "parseexec n (skip ps) = parseexec n ps" "parsepipe n (skip ps) = parsepipe n ps" "parseline n (skip ps) = parseline n ps"
proof -
  show e: "parseexec n (skip ps) = parseexec n ps" for n by (cases n) (simp_all add: peek_iff)
  show p: "parsepipe n (skip ps) = parsepipe n ps" for n by (cases n) (simp_all add: e)
  show "parseline n (skip ps) = parseline n ps" by (cases n) (simp_all add: p)
qed

lemma no_redir: "skip ps = [] \<or> hd (skip ps) \<notin> {CHR ''<'', CHR ''>''} \<Longrightarrow> parseredirs c ps = Inr (c, skip ps)"
  by (subst parseredirs.simps) (auto simp: peek_iff)

lemma no_back: "skip ps = [] \<or> hd (skip ps) \<noteq> CHR ''&'' \<Longrightarrow> back_loop c ps = (c, skip ps)"
  by (subst back_loop.simps) (auto simp: peek_iff)

lemma pipe_of_exec:
  "parseexec n ps = Inr (c, s) \<Longrightarrow> skip s = [] \<or> hd (skip s) \<noteq> CHR ''|'' \<Longrightarrow> parsepipe (Suc n) ps = Inr (c, skip s)"
  by (auto simp: peek_iff)

lemma line_of_pipe:
  "parsepipe n ps = Inr (c, s) \<Longrightarrow> skip s = [] \<or> hd (skip s) \<notin> {CHR ''&'', CHR '';''} \<Longrightarrow>
     parseline (Suc n) ps = Inr (c, skip s)"
  by (auto simp: peek_iff no_back)

lemma block_step:
  assumes "parseline n X = Inr (c, CHR '')'' # Y)"
  shows "parseexec (Suc (Suc n)) (CHR ''('' # X) = parseredirs c (skip Y)"
  using assms by (simp add: peek_iff gettoken_single [where c = "CHR ''(''"] gettoken_single [where c = "CHR '')''"] single_def parse_skip)

abbreviation args_text :: "string list \<Rightarrow> string" where
  "args_text ws \<equiv> concat (map (\<lambda>w. w @ '' '') ws)"

lemma skip_space [simp]: "skip (CHR '' '' # s) = skip s"
  by (simp add: skip_def whitespace_def)

lemma skip_arg: "word_ok w \<Longrightarrow> skip (w @ CHR '' '' # s) = w @ CHR '' '' # s"
    "word_ok w \<Longrightarrow> gettoken (w @ CHR '' '' # s) = (CHR ''a'', w @ CHR '' '' # s, CHR '' '' # s, skip s)"
  using gettoken_word [of w "CHR '' '' # s"] by (simp_all add: word_char_def whitespace_def)

lemma word_head: "word_ok w \<Longrightarrow> word_char (hd (w @ s)) \<and> w @ s \<noteq> []"
  by (cases w) (auto simp: word_ok_def)

lemma args_head:
  "list_all word_ok ws \<Longrightarrow> ends post \<Longrightarrow>
     skip (args_text ws @ post) = [] \<or> hd (skip (args_text ws @ post)) = CHR '')'' \<or> word_char (hd (skip (args_text ws @ post)))"
proof (cases ws)
  case (Cons w rest)
  assume "list_all word_ok ws"
  with Cons have "word_ok w" by simp
  with Cons show ?thesis using skip_arg(1) [of w "args_text rest @ post"] word_head [of w "CHR '' '' # args_text rest @ post"] by simp
qed (auto simp: ends_def)

lemma not_word_sym: "word_char c \<Longrightarrow> c \<noteq> CHR ''<'' \<and> c \<noteq> CHR ''>'' \<and> c \<noteq> CHR ''|'' \<and> c \<noteq> CHR ''&'' \<and> c \<noteq> CHR '';'' \<and>
    c \<noteq> CHR ''('' \<and> c \<noteq> CHR '')''"
  by (auto simp: word_char_def symbols_def)

lemma exec_words:
  "list_all word_ok ws \<Longrightarrow> argc + length ws < MAXARGS \<Longrightarrow> ends post \<Longrightarrow>
     \<exists>as'. exec_loop argc (EXEC as) (skip (args_text ws @ post)) = Inr (EXEC (as @ as'), skip post) \<and> map text_of as' = ws"
proof (induction ws arbitrary: argc as)
  case Nil
  show ?case
  proof (cases "skip post = []")
    case True
    then show ?thesis by (simp add: exec_loop.simps [of argc] peek_iff gettoken_def)
  next
    case False
    with Nil(3) show ?thesis by (simp add: exec_loop.simps [of argc] peek_iff ends_def)
  qed
next
  case (Cons w ws)
  let ?R = "args_text ws @ post" and ?s = "w @ CHR '' '' # args_text ws @ post"
  have w: "word_ok w" "list_all word_ok ws" using Cons.prems(1) by auto
  have h: "word_char (hd ?s)" "?s \<noteq> []" using word_head [OF w(1)] by auto
  have r: "parseredirs c (skip ?R) = Inr (c, skip ?R)" for c
    using no_redir [of "skip ?R" c] args_head [OF w(2) Cons.prems(3)] not_word_sym by auto
  have len: "argc + 1 + length ws < MAXARGS" using Cons.prems(2) by simp
  from Cons.IH [OF w(2) len Cons.prems(3)] obtain as' where
    as': "exec_loop (argc + 1) (EXEC (as @ [(?s, CHR '' '' # ?R)])) (skip ?R) =
            Inr (EXEC ((as @ [(?s, CHR '' '' # ?R)]) @ as'), skip post)" "map text_of as' = ws" by blast
  have "exec_loop argc (EXEC as) ?s = exec_loop (argc + 1) (EXEC (as @ [(?s, CHR '' '' # ?R)])) (skip ?R)"
    using h not_word_sym [OF h(1)] skip_arg [OF w(1), of ?R] r Cons.prems(2)
    by (subst exec_loop.simps) (simp add: peek_iff)
  with as' skip_arg(1) [OF w(1), of ?R] show ?case
    by (intro exI [of _ "(?s, CHR '' '' # ?R) # as'"]) simp
qed

lemma parse_block:
  assumes IH: "\<And>n post. ends post \<Longrightarrow> 4 * length (show_cmd c) + 4 \<le> n \<Longrightarrow>
       \<exists>c'. parseline n (show_cmd c @ post) = Inr (c', skip post) \<and> meaning c' = c"
    and n: "4 * length (show_cmd c) + 6 \<le> n"
  shows "\<exists>c'. parseexec n (CHR ''('' # show_cmd c @ CHR '')'' # Y) = parseredirs c' (skip Y) \<and> meaning c' = c"
proof -
  have "Suc (Suc 0) \<le> n" using n by simp
  from le_Suc_ex [OF this] obtain k where k: "n = Suc (Suc k)" by auto
  have "ends (CHR '')'' # Y)" by (simp add: ends_def)
  from IH [OF this, of k] n k obtain c' where
    "parseline k (show_cmd c @ CHR '')'' # Y) = Inr (c', CHR '')'' # Y)" "meaning c' = c" by auto
  with block_step [OF this(1)] k show ?thesis by auto
qed

lemma ends_skip: "ends post \<Longrightarrow> skip post = [] \<or> hd (skip post) \<notin> {CHR ''<'', CHR ''>''}"
    "ends post \<Longrightarrow> skip post = [] \<or> hd (skip post) \<noteq> CHR ''|''"
    "ends post \<Longrightarrow> skip post = [] \<or> hd (skip post) \<notin> {CHR ''&'', CHR '';''}"
  by (auto simp: ends_def)

lemma line_of_exec:
  "parseexec n ps = Inr (c, skip post) \<Longrightarrow> ends post \<Longrightarrow> parseline (Suc (Suc n)) ps = Inr (c, skip post)"
  using pipe_of_exec [of n ps c "skip post"] line_of_pipe [of "Suc n" ps c "skip post"] ends_skip(2,3) [of post]
  by auto

lemma two_le: "m + 4 \<le> n \<Longrightarrow> \<exists>k. n = Suc (Suc k)"
proof -
  assume "m + 4 \<le> n"
  then have "Suc (Suc 0) \<le> n" by simp
  from le_Suc_ex [OF this] show ?thesis by auto
qed

lemma parse_show:
  "cmd_ok c \<Longrightarrow> ends post \<Longrightarrow> 4 * length (show_cmd c) + 4 \<le> n \<Longrightarrow>
     \<exists>c'. parseline n (show_cmd c @ post) = Inr (c', skip post) \<and> meaning c' = c"
proof (induction c arbitrary: n post)
  case (TExec ws)
  have "Suc (Suc (Suc 0)) \<le> n" using TExec.prems(3) by simp
  from le_Suc_ex [OF this] obtain k where n: "n = Suc (Suc (Suc k))" by auto
  let ?s = "args_text ws @ post"
  have ws: "list_all word_ok ws" "length ws < MAXARGS" using TExec.prems(1) by auto
  note hd = args_head [OF ws(1) TExec.prems(2)]
  from exec_words [OF ws(1) _ TExec.prems(2), of 0 "[]"] ws(2) obtain as where
    as: "exec_loop 0 (EXEC []) (skip ?s) = Inr (EXEC as, skip post)" "map text_of as = ws" by auto
  have "parseredirs (EXEC []) (skip ?s) = Inr (EXEC [], skip ?s)"
    using no_redir [of "skip ?s"] hd not_word_sym by auto
  moreover have "\<not> (skip ?s \<noteq> [] \<and> hd (skip ?s) \<in> set ''('')" using hd not_word_sym by auto
  ultimately have "parseexec (Suc k) ?s = Inr (EXEC as, skip post)" using as(1) by (auto simp: peek_iff)
  from line_of_exec [OF this TExec.prems(2)] as(2) n show ?case by simp
next
  case (TRedir c f m fd)
  have f: "word_ok f" and md: "m = O_RDONLY \<and> fd = 0 \<or> m = O_WRONLY + O_CREATE \<and> fd = 1" using TRedir.prems(1) by auto
  obtain k where n: "n = Suc (Suc k)" using two_le [OF TRedir.prems(3)] by blast
  let ?op = "if fd = 0 then CHR ''<'' else CHR ''>''"
  let ?Y = "?op # f @ post"
  have k: "4 * length (show_cmd c) + 6 \<le> k" using TRedir.prems(3) n by simp
  from parse_block [OF TRedir.IH k, of ?Y] TRedir.prems(1) obtain c' where
    c': "parseexec k (CHR ''('' # show_cmd c @ CHR '')'' # ?Y) = parseredirs c' (skip ?Y)" "meaning c' = c" by auto
  have d: "deref (f @ post) \<noteq> CHR ''>''" 
    using word_head [OF f, of post] not_word_sym [of "CHR ''>''"] by (cases "f @ post") (auto simp: deref_def)
  note w = gettoken_word [OF f ends_not_word [OF TRedir.prems(2)]]
  have "parseredirs c' ?Y = parseredirs (REDIR c' (f @ post) post m fd) (skip post)"
    using md d w gettoken_single [of "CHR ''<''" "CHR ''<'' # f @ post"] gettoken_gt [of "CHR ''>'' # f @ post"]
    by (subst parseredirs.simps) (auto simp: peek_iff single_def)
  also have "\<dots> = Inr (REDIR c' (f @ post) post m fd, skip post)"
    using no_redir [of "skip post"] ends_skip(1) [OF TRedir.prems(2)] by simp
  finally have "parseexec k (CHR ''('' # show_cmd c @ CHR '')'' # ?Y) = Inr (REDIR c' (f @ post) post m fd, skip post)"
    using c'(1) by (cases "fd = 0") simp_all
  from line_of_exec [OF this TRedir.prems(2)] c'(2) n show ?case by auto
next
  case (TPipe l r)
  obtain k where n: "n = Suc (Suc k)" using two_le [OF TPipe.prems(3)] by blast
  obtain j where j: "k = Suc j" using TPipe.prems(3) n by (cases k) auto
  have kl: "4 * length (show_cmd l) + 6 \<le> k" "4 * length (show_cmd r) + 6 \<le> j" using TPipe.prems(3) n j by auto
  let ?R = "CHR ''('' # show_cmd r @ CHR '')'' # post"
  from parse_block [OF TPipe.IH(1) kl(1), of "CHR ''|'' # ?R"] TPipe.prems(1) obtain l' where
    l': "parseexec k (CHR ''('' # show_cmd l @ CHR '')'' # CHR ''|'' # ?R) = parseredirs l' (CHR ''|'' # ?R)" "meaning l' = l" by auto
  from parse_block [OF TPipe.IH(2) kl(2), of post] TPipe.prems(1) obtain r' where
    r': "parseexec j ?R = parseredirs r' (skip post)" "meaning r' = r" by auto
  have "parseexec j ?R = Inr (r', skip post)" using r'(1) no_redir [of "skip post"] ends_skip(1) [OF TPipe.prems(2)] by simp
  from pipe_of_exec [OF this] ends_skip(2) [OF TPipe.prems(2)] have "parsepipe k ?R = Inr (r', skip post)" by (simp add: j)
  moreover have "parseredirs l' (CHR ''|'' # ?R) = Inr (l', CHR ''|'' # ?R)" using no_redir [of "CHR ''|'' # ?R"] by simp
  ultimately have "parsepipe (Suc k) (CHR ''('' # show_cmd l @ CHR '')'' # CHR ''|'' # ?R) = Inr (PIPE l' r', skip post)"
    using l'(1) gettoken_single [of "CHR ''|''" "CHR ''|'' # ?R"] by (simp add: peek_iff single_def)
  from line_of_pipe [OF this] ends_skip(3) [OF TPipe.prems(2)] l'(2) r'(2) n show ?case by simp
next
  case (TList l r)
  obtain k where n: "n = Suc (Suc k)" using two_le [OF TList.prems(3)] by blast
  obtain j where j: "k = Suc j" using TList.prems(3) n by (cases k) auto
  have kl: "4 * length (show_cmd l) + 6 \<le> k" "4 * length (show_cmd r) + 6 \<le> j" using TList.prems(3) n j by auto
  let ?R = "CHR ''('' # show_cmd r @ CHR '')'' # post"
  from parse_block [OF TList.IH(1) kl(1), of "CHR '';'' # ?R"] TList.prems(1) obtain l' where
    l': "parseexec k (CHR ''('' # show_cmd l @ CHR '')'' # CHR '';'' # ?R) = parseredirs l' (CHR '';'' # ?R)" "meaning l' = l" by auto
  from parse_block [OF TList.IH(2) kl(2), of post] TList.prems(1) obtain r' where
    r': "parseexec j ?R = parseredirs r' (skip post)" "meaning r' = r" by auto
  have "parseexec j ?R = Inr (r', skip post)" using r'(1) no_redir [of "skip post"] ends_skip(1) [OF TList.prems(2)] by simp
  from line_of_exec [OF this TList.prems(2)] have R: "parseline (Suc k) ?R = Inr (r', skip post)" by (simp add: j)
  have "parseredirs l' (CHR '';'' # ?R) = Inr (l', CHR '';'' # ?R)" using no_redir [of "CHR '';'' # ?R"] by simp
  with l'(1) pipe_of_exec [of k _ l' "CHR '';'' # ?R"]
  have "parsepipe (Suc k) (CHR ''('' # show_cmd l @ CHR '')'' # CHR '';'' # ?R) = Inr (l', CHR '';'' # ?R)" by simp
  with R have "parseline n (CHR ''('' # show_cmd l @ CHR '')'' # CHR '';'' # ?R) = Inr (LIST l' r', skip post)"
    using no_back [of "CHR '';'' # ?R" l'] gettoken_single [of "CHR '';''" "CHR '';'' # ?R"] by (simp add: peek_iff single_def n)
  with l'(2) r'(2) show ?case by simp
next
  case (TBack c)
  obtain k where n: "n = Suc (Suc k)" using two_le [OF TBack.prems(3)] by blast
  have k: "4 * length (show_cmd c) + 6 \<le> k" using TBack.prems(3) n by simp
  from parse_block [OF TBack.IH k, of "CHR ''&'' # post"] TBack.prems(1) obtain c' where
    c': "parseexec k (CHR ''('' # show_cmd c @ CHR '')'' # CHR ''&'' # post) = parseredirs c' (CHR ''&'' # post)" "meaning c' = c" by auto
  have "parseredirs c' (CHR ''&'' # post) = Inr (c', CHR ''&'' # post)" using no_redir [of "CHR ''&'' # post"] by simp
  with c'(1) pipe_of_exec [of k _ c' "CHR ''&'' # post"]
  have p: "parsepipe (Suc k) (CHR ''('' # show_cmd c @ CHR '')'' # CHR ''&'' # post) = Inr (c', CHR ''&'' # post)" by simp
  have "back_loop c' (CHR ''&'' # post) = back_loop (BACK c') (skip post)"
    using gettoken_single [of "CHR ''&''" "CHR ''&'' # post"] by (subst back_loop.simps) (simp add: peek_iff single_def)
  also have "\<dots> = (BACK c', skip post)" using no_back [of "skip post"] ends_skip(3) [OF TBack.prems(2)] by auto
  finally have "parseline n (CHR ''('' # show_cmd c @ CHR '')'' # CHR ''&'' # post) = Inr (BACK c', skip post)"
    using p ends_skip(3) [OF TBack.prems(2)] by (auto simp: peek_iff n)
  with c'(2) show ?case by simp
qed

lemma show_no_nul: "cmd_ok c \<Longrightarrow> CHR 0x00 \<notin> set (show_cmd c)"
  by (induction c) (auto simp: word_ok_def list_all_iff)

text \<open>
  C16. Every command can be typed, and is understood as it is meant. Take any command tree over words of
  ordinary characters, with fewer than \<open>MAXARGS\<close> arguments in each simple command: the shell accepts its
  text with every operand in parentheses, and the tree it builds has the same shape, words, redirections
  and modes.
\<close>

theorem parsecmd_roundtrip:
  assumes "cmd_ok c"
  shows "\<exists>c'. parsecmd (show_cmd c @ CHR 0x00 # rest) = Inr c' \<and> meaning c' = c"
proof -
  have "takeWhile (\<lambda>x. x \<noteq> CHR 0x00) (show_cmd c @ CHR 0x00 # rest) = show_cmd c"
    using show_no_nul [OF assms] by (subst takeWhile_append2) auto
  moreover obtain c' where "parseline (parse_fuel (show_cmd c)) (show_cmd c) = Inr (c', [])" "meaning c' = c"
    using parse_show [OF assms, of "[]" "parse_fuel (show_cmd c)"] by (auto simp: ends_def parse_fuel_def)
  ultimately show ?thesis by (auto simp: parsecmd_def peek_iff)
qed

theorem parsecmd_roundtrip_witness:
  "\<exists>c'. parsecmd (''(ls -l )|((wc )>out)'' @ [CHR 0x00]) = Inr c' \<and>
     meaning c' = TPipe (TExec [''ls'', ''-l'']) (TRedir (TExec [''wc'']) ''out'' 0x201 1)"
  using parsecmd_roundtrip [of "TPipe (TExec [''ls'', ''-l'']) (TRedir (TExec [''wc'']) ''out'' 0x201 1)" "[]"]
  by (simp add: word_ok_def word_char_def whitespace_def symbols_def MAXARGS_def O_WRONLY_def O_CREATE_def O_RDONLY_def)

end
