(* ===== verification/Inode.thy ===== *)
theory Inode
  imports Log
begin

text \<open>
  The inode layer of \<open>xv6-public/fs.c\<close>: the block allocator, the inode cache and the contents of files.
  A block is read and written through the buffer cache inside a transaction; the model keeps the
  contents the cache shows (\<open>fb\<close>), so \<open>bread\<close> is a lookup and a \<open>log_write\<close> of a changed buffer an
  update of one block. Inode pointers are positions of the cache. The locks are taken by a single
  process: acquiring a lock that is held is \<open>Blocks\<close>. Offsets and counts are naturals once the code
  has checked that their sum does not wrap. Devices are an argument \<open>dv\<close>: from the major number to what
  the device's function returns for a count, \<open>None\<close> for a missing entry of \<open>devsw\<close>.
\<close>

section \<open>State\<close>

unbundle bit_operations_syntax

definition BSIZE :: nat where "BSIZE = 512"
definition NDIRECT :: nat where "NDIRECT = 12"
definition NINDIRECT :: nat where "NINDIRECT = BSIZE div 4"
definition MAXFILE :: nat where "MAXFILE = NDIRECT + NINDIRECT"
definition IPB :: nat where "IPB = BSIZE div 64"
definition BPB :: nat where "BPB = BSIZE * 8"
definition NINODE :: nat where "NINODE = 50"
definition NDEV :: nat where "NDEV = 10"
definition T_DIR :: "16 word" where "T_DIR = 1"
definition T_FILE :: "16 word" where "T_FILE = 2"
definition T_DEV :: "16 word" where "T_DEV = 3"

record inode =
  i_dev :: nat
  i_inum :: u32
  i_ref :: int
  i_locked :: bool
  i_valid :: bool
  i_type :: "16 word"
  i_major :: "16 word"
  i_minor :: "16 word"
  i_nlink :: "16 word"
  i_size :: u32
  i_addrs :: "u32 list"

record fs =
  fb :: "bkey \<Rightarrow> block"
  fsb :: superblock
  icache :: "inode list"

definition set_blk :: "bkey \<Rightarrow> block \<Rightarrow> fs \<Rightarrow> fs" where
  "set_blk k d s = s\<lparr>fb := (fb s)(k := d)\<rparr>"

definition upd_ip :: "nat \<Rightarrow> (inode \<Rightarrow> inode) \<Rightarrow> fs \<Rightarrow> fs" where
  "upd_ip i f s = s\<lparr>icache := (icache s)[i := f (icache s ! i)]\<rparr>"

definition IBLOCK :: "u32 \<Rightarrow> superblock \<Rightarrow> nat" where
  "IBLOCK i sb = unat (i div of_nat IPB + sb_inodestart sb)"

definition BBLOCK :: "u32 \<Rightarrow> superblock \<Rightarrow> nat" where
  "BBLOCK b sb = unat (b div of_nat BPB + sb_bmapstart sb)"

section \<open>Blocks\<close>

definition bzero :: "nat \<Rightarrow> nat \<Rightarrow> fs \<Rightarrow> fs" where
  "bzero dev bno s = set_blk (dev, bno) (\<lambda>_. 0) s"

text \<open>\<open>m = 1 << (bi % 8)\<close>\<close>

definition bmask :: "nat \<Rightarrow> u8" where
  "bmask bi = push_bit (bi mod 8) 1"

text \<open>The inner loop of \<open>balloc\<close> over one block of the bitmap: the first clear bit below \<open>lim\<close>.\<close>

definition free_bit :: "block \<Rightarrow> nat \<Rightarrow> nat option" where
  "free_bit d lim = find (\<lambda>bi. d (bi div 8) AND bmask bi = 0) [0..<lim]"

function balloc_from :: "nat \<Rightarrow> nat \<Rightarrow> fs \<Rightarrow> (nat \<times> fs) res" where
  "balloc_from dev b s =
     (if b < unat (sb_size (fsb s)) then
        let k = (dev, BBLOCK (of_nat b) (fsb s)); d = fb s k in
        (case free_bit d (min BPB (unat (sb_size (fsb s)) - b)) of
           Some bi \<Rightarrow>
             Inr (b + bi, bzero dev (b + bi) (set_blk k (d(bi div 8 := d (bi div 8) OR bmask bi)) s))
         | None \<Rightarrow> balloc_from dev (b + BPB) s)
      else Inl (Panic ''balloc: out of blocks''))"
  by pat_completeness auto
termination by (relation "measure (\<lambda>(_, b, s). unat (sb_size (fsb s)) - b)") (auto simp: BPB_def BSIZE_def)

definition balloc :: "nat \<Rightarrow> fs \<Rightarrow> (nat \<times> fs) res" where
  "balloc dev s = balloc_from dev 0 s"

definition bfree :: "nat \<Rightarrow> u32 \<Rightarrow> fs \<Rightarrow> fs res" where
  "bfree dev b s =
     (let k = (dev, BBLOCK b (fsb s)); d = fb s k; bi = unat b mod BPB in
      if d (bi div 8) AND bmask bi = 0 then Inl (Panic ''freeing free block'')
      else Inr (set_blk k (d(bi div 8 := d (bi div 8) AND NOT (bmask bi))) s))"

section \<open>Inodes\<close>

text \<open>The fields of a \<open>struct dinode\<close> at byte \<open>o\<close> of a block.\<close>

definition get16 :: "block \<Rightarrow> nat \<Rightarrow> 16 word" where
  "get16 b off = ucast (b off) OR push_bit 8 (ucast (b (off + 1)))"

definition put16 :: "block \<Rightarrow> nat \<Rightarrow> 16 word \<Rightarrow> block" where
  "put16 b off w = b(off := ucast w, off + 1 := ucast (drop_bit 8 w))"

fun put_addrs :: "block \<Rightarrow> nat \<Rightarrow> u32 list \<Rightarrow> block" where
  "put_addrs d off [] = d"
| "put_addrs d off (a # as) = put_addrs (put32 d off a) (off + 4) as"

definition dinode_at :: "u32 \<Rightarrow> nat" where
  "dinode_at inum = unat inum mod IPB * 64"

definition put_dinode :: "inode \<Rightarrow> block \<Rightarrow> block" where
  "put_dinode ip d =
     (let at = dinode_at (i_inum ip) in
      put_addrs (put32 (put16 (put16 (put16 (put16 d at (i_type ip)) (at + 2) (i_major ip)) (at + 4) (i_minor ip))
                   (at + 6) (i_nlink ip)) (at + 8) (i_size ip)) (at + 12) (i_addrs ip))"

definition load_dinode :: "block \<Rightarrow> inode \<Rightarrow> inode" where
  "load_dinode d ip =
     (let at = dinode_at (i_inum ip) in
      ip\<lparr>i_type := get16 d at, i_major := get16 d (at + 2), i_minor := get16 d (at + 4),
         i_nlink := get16 d (at + 6), i_size := get32 d (at + 8),
         i_addrs := map (\<lambda>j. get32 d (at + 12 + 4 * j)) [0..<NDIRECT + 1]\<rparr>)"

definition iupdate :: "nat \<Rightarrow> fs \<Rightarrow> fs" where
  "iupdate i s =
     (let ip = icache s ! i; k = (i_dev ip, IBLOCK (i_inum ip) (fsb s))
      in set_blk k (put_dinode ip (fb s k)) s)"

text \<open>The scan of \<open>iget\<close>: a referenced entry for the inode, or the first free one.\<close>

definition iget :: "nat \<Rightarrow> u32 \<Rightarrow> fs \<Rightarrow> (nat \<times> fs) res" where
  "iget dev inum s =
     (case scan (\<lambda>ip. i_ref ip > 0 \<and> i_dev ip = dev \<and> i_inum ip = inum) (icache s) of
        Some i \<Rightarrow> Inr (i, upd_ip i (\<lambda>ip. ip\<lparr>i_ref := i_ref ip + 1\<rparr>) s)
      | None \<Rightarrow>
          (case scan (\<lambda>ip. i_ref ip = 0) (icache s) of
             None \<Rightarrow> Inl (Panic ''iget: no inodes'')
           | Some i \<Rightarrow> Inr (i, upd_ip i (\<lambda>ip. ip\<lparr>i_dev := dev, i_inum := inum, i_ref := 1, i_valid := False\<rparr>) s)))"

text \<open>\<open>ialloc\<close> from inode number \<open>inum\<close>.\<close>

function ialloc_from :: "nat \<Rightarrow> nat \<Rightarrow> 16 word \<Rightarrow> fs \<Rightarrow> (nat \<times> fs) res" where
  "ialloc_from inum dev type s =
     (if inum < unat (sb_ninodes (fsb s)) then
        let k = (dev, IBLOCK (of_nat inum) (fsb s)); at = inum mod IPB * 64; d = fb s k in
        if get16 d at = 0
        then iget dev (of_nat inum) (set_blk k (put16 (\<lambda>j. if at \<le> j \<and> j < at + 64 then 0 else d j) at type) s)
        else ialloc_from (inum + 1) dev type s
      else Inl (Panic ''ialloc: no inodes''))"
  by pat_completeness auto
termination by (relation "measure (\<lambda>(inum, _, _, s). unat (sb_ninodes (fsb s)) - inum)") auto

definition ialloc :: "nat \<Rightarrow> 16 word \<Rightarrow> fs \<Rightarrow> (nat \<times> fs) res" where
  "ialloc dev type s = ialloc_from 1 dev type s"

definition ilock :: "nat \<Rightarrow> fs \<Rightarrow> fs res" where
  "ilock i s =
     (let ip = icache s ! i in
      if i_ref ip < 1 then Inl (Panic ''ilock'')
      else if i_locked ip then Inl Blocks
      else let s1 = upd_ip i (\<lambda>p. p\<lparr>i_locked := True\<rparr>) s in
        if i_valid ip then Inr s1
        else let d = fb s1 (i_dev ip, IBLOCK (i_inum ip) (fsb s1));
                 s2 = upd_ip i (\<lambda>p. (load_dinode d p)\<lparr>i_valid := True\<rparr>) s1 in
          if i_type (icache s2 ! i) = 0 then Inl (Panic ''ilock: no type'') else Inr s2)"

definition iunlock :: "nat \<Rightarrow> fs \<Rightarrow> fs res" where
  "iunlock i s =
     (let ip = icache s ! i in
      if \<not> i_locked ip \<or> i_ref ip < 1 then Inl (Panic ''iunlock'')
      else Inr (upd_ip i (\<lambda>p. p\<lparr>i_locked := False\<rparr>) s))"

section \<open>The blocks of a file\<close>

definition set_addr :: "nat \<Rightarrow> nat \<Rightarrow> u32 \<Rightarrow> fs \<Rightarrow> fs" where
  "set_addr i j a s = upd_ip i (\<lambda>p. p\<lparr>i_addrs := (i_addrs p)[j := a]\<rparr>) s"

text \<open>\<open>ip->addrs[j]\<close>, allocated if it is zero.\<close>

definition addr_or_alloc :: "nat \<Rightarrow> nat \<Rightarrow> fs \<Rightarrow> (u32 \<times> fs) res" where
  "addr_or_alloc i j s =
     (let ip = icache s ! i; a = i_addrs ip ! j in
      if a = 0 then bindR (balloc (i_dev ip) s) (\<lambda>(b, s1). Inr (of_nat b, set_addr i j (of_nat b) s1))
      else Inr (a, s))"

definition bmap :: "nat \<Rightarrow> nat \<Rightarrow> fs \<Rightarrow> (u32 \<times> fs) res" where
  "bmap i bn s =
     (if bn < NDIRECT then addr_or_alloc i bn s
      else let bn' = bn - NDIRECT; dev = i_dev (icache s ! i) in
        if bn' < NINDIRECT then
          bindR (addr_or_alloc i NDIRECT s) (\<lambda>(ind, s1).
            let d = fb s1 (dev, unat ind); a = get32 d (4 * bn') in
            if a = 0 then
              bindR (balloc dev s1) (\<lambda>(b, s2).
                Inr (of_nat b, set_blk (dev, unat ind) (put32 d (4 * bn') (of_nat b)) s2))
            else Inr (a, s1))
        else Inl (Panic ''bmap: out of range''))"

text \<open>The loops of \<open>itrunc\<close> over the direct blocks and over the entries of the indirect one.\<close>

fun free_direct :: "nat \<Rightarrow> nat list \<Rightarrow> fs \<Rightarrow> fs res" where
  "free_direct i [] s = Inr s"
| "free_direct i (j # js) s =
     (let a = i_addrs (icache s ! i) ! j in
      if a \<noteq> 0 then bindR (bfree (i_dev (icache s ! i)) a s) (\<lambda>s1. free_direct i js (set_addr i j 0 s1))
      else free_direct i js s)"

fun free_entries :: "nat \<Rightarrow> block \<Rightarrow> nat list \<Rightarrow> fs \<Rightarrow> fs res" where
  "free_entries dev d [] s = Inr s"
| "free_entries dev d (j # js) s =
     (if get32 d (4 * j) \<noteq> 0 then bindR (bfree dev (get32 d (4 * j)) s) (free_entries dev d js)
      else free_entries dev d js s)"

definition itrunc :: "nat \<Rightarrow> fs \<Rightarrow> fs res" where
  "itrunc i s =
     bindR (free_direct i [0..<NDIRECT] s) (\<lambda>s1.
     bindR (let ip = icache s1 ! i; dev = i_dev ip; a = i_addrs ip ! NDIRECT in
            if a \<noteq> 0 then
              bindR (free_entries dev (fb s1 (dev, unat a)) [0..<NINDIRECT] s1) (\<lambda>s2.
              bindR (bfree dev a s2) (\<lambda>s3. Inr (set_addr i NDIRECT 0 s3)))
            else Inr s1) (\<lambda>s4.
       Inr (iupdate i (upd_ip i (\<lambda>p. p\<lparr>i_size := 0\<rparr>) s4))))"

definition iput :: "nat \<Rightarrow> fs \<Rightarrow> fs res" where
  "iput i s =
     (let ip = icache s ! i in
      if i_locked ip then Inl Blocks
      else let s0 = upd_ip i (\<lambda>p. p\<lparr>i_locked := True\<rparr>) s in
        bindR (if i_valid ip \<and> i_nlink ip = 0 \<and> i_ref ip = 1 then
                 bindR (itrunc i s0) (\<lambda>s1.
                   Inr (upd_ip i (\<lambda>p. p\<lparr>i_valid := False\<rparr>) (iupdate i (upd_ip i (\<lambda>p. p\<lparr>i_type := 0\<rparr>) s1))))
               else Inr s0) (\<lambda>s2.
          Inr (upd_ip i (\<lambda>p. p\<lparr>i_locked := False, i_ref := i_ref p - 1\<rparr>) s2)))"

definition iunlockput :: "nat \<Rightarrow> fs \<Rightarrow> fs res" where
  "iunlockput i s = bindR (iunlock i s) (iput i)"

record stat =
  st_type :: "16 word"
  st_dev :: nat
  st_ino :: u32
  st_nlink :: "16 word"
  st_size :: u32

definition stati :: "inode \<Rightarrow> stat" where
  "stati ip = \<lparr>st_type = i_type ip, st_dev = i_dev ip, st_ino = i_inum ip, st_nlink = i_nlink ip, st_size = i_size ip\<rparr>"

section \<open>Reading and writing\<close>

type_synonym devsw = "nat \<Rightarrow> (u32 \<Rightarrow> u8 list option) option"

function read_blocks_of :: "nat \<Rightarrow> nat \<Rightarrow> nat \<Rightarrow> fs \<Rightarrow> (u8 list \<times> fs) res" where
  "read_blocks_of i off n s =
     (if n = 0 then Inr ([], s)
      else bindR (bmap i (off div BSIZE) s) (\<lambda>(a, s1).
        let m = min n (BSIZE - off mod BSIZE);
            bytes = map (fb s1 (i_dev (icache s ! i), unat a)) [off mod BSIZE..<off mod BSIZE + m] in
        bindR (read_blocks_of i (off + m) (n - m) s1) (\<lambda>(r, s2). Inr (bytes @ r, s2))))"
  by pat_completeness auto
termination by (relation "measure (\<lambda>(_, _, n, _). n)") (auto simp: BSIZE_def)

text \<open>\<open>None\<close> is the result -1; otherwise the bytes stored at \<open>dst\<close>, whose number is the result. A device
  without a read function also answers -1.\<close>

definition readi :: "devsw \<Rightarrow> nat \<Rightarrow> u32 \<Rightarrow> u32 \<Rightarrow> fs \<Rightarrow> (u8 list option \<times> fs) res" where
  "readi dv i off n s =
     (let ip = icache s ! i in
      if i_type ip = T_DEV then
        (if sint (i_major ip) < 0 \<or> sint (i_major ip) \<ge> int NDEV then Inr (None, s)
         else case dv (nat (sint (i_major ip))) of None \<Rightarrow> Inr (None, s) | Some f \<Rightarrow> Inr (f n, s))
      else if off > i_size ip \<or> off + n < off then Inr (None, s)
      else let n' = (if off + n > i_size ip then i_size ip - off else n) in
        bindR (read_blocks_of i (unat off) (unat n') s) (\<lambda>(r, s1). Inr (Some r, s1)))"

text \<open>\<open>memmove(bp->data + o, src, m)\<close> with the bytes of \<open>src\<close>.\<close>

definition blit :: "block \<Rightarrow> nat \<Rightarrow> u8 list \<Rightarrow> block" where
  "blit d at src = (\<lambda>k. if at \<le> k \<and> k < at + length src then src ! (k - at) else d k)"

function write_blocks :: "nat \<Rightarrow> nat \<Rightarrow> u8 list \<Rightarrow> fs \<Rightarrow> fs res" where
  "write_blocks i off src s =
     (if src = [] then Inr s
      else bindR (bmap i (off div BSIZE) s) (\<lambda>(a, s1).
        let m = min (length src) (BSIZE - off mod BSIZE); k = (i_dev (icache s ! i), unat a) in
        write_blocks i (off + m) (drop m src) (set_blk k (blit (fb s1 k) (off mod BSIZE) (take m src)) s1)))"
  by pat_completeness auto
termination by (relation "measure (\<lambda>(_, _, src, _). length src)") (auto simp: BSIZE_def)

text \<open>The result is the number of bytes, \<open>None\<close> for -1. \<open>dw\<close> gives what a device's write function
  returns.\<close>

definition writei :: "(nat \<Rightarrow> (u8 list \<Rightarrow> nat option) option) \<Rightarrow> nat \<Rightarrow> u8 list \<Rightarrow> u32 \<Rightarrow> fs \<Rightarrow> (nat option \<times> fs) res" where
  "writei dw i src off s =
     (let ip = icache s ! i; n = of_nat (length src) :: u32 in
      if i_type ip = T_DEV then
        (if sint (i_major ip) < 0 \<or> sint (i_major ip) \<ge> int NDEV then Inr (None, s)
         else case dw (nat (sint (i_major ip))) of None \<Rightarrow> Inr (None, s) | Some f \<Rightarrow> Inr (f src, s))
      else if off > i_size ip \<or> off + n < off then Inr (None, s)
      else if off + n > of_nat (MAXFILE * BSIZE) then Inr (None, s)
      else bindR (write_blocks i (unat off) src s) (\<lambda>s1.
             if n > 0 \<and> off + n > i_size (icache s1 ! i)
             then Inr (Some (length src), iupdate i (upd_ip i (\<lambda>p. p\<lparr>i_size := off + n\<rparr>) s1))
             else Inr (Some (length src), s1)))"

declare balloc_from.simps [simp del] ialloc_from.simps [simp del] read_blocks_of.simps [simp del] write_blocks.simps [simp del]

section \<open>The bitmap\<close>

lemma sizes: "BSIZE = 512" "BPB = 4096" "NDIRECT = 12" "NINDIRECT = 128" "IPB = 8" "MAXFILE = 140"
  by (simp_all add: BSIZE_def BPB_def NDIRECT_def NINDIRECT_def IPB_def MAXFILE_def)

definition bm_key :: "nat \<Rightarrow> fs \<Rightarrow> nat \<Rightarrow> bkey" where
  "bm_key dev s b = (dev, b div BPB + unat (sb_bmapstart (fsb s)))"

definition used :: "nat \<Rightarrow> fs \<Rightarrow> nat \<Rightarrow> bool" where
  "used dev s b \<longleftrightarrow> bit (fb s (bm_key dev s b) (b mod BPB div 8)) (b mod 8)"

abbreviation fs_size :: "fs \<Rightarrow> nat" where
  "fs_size s \<equiv> unat (sb_size (fsb s))"

text \<open>The first block after the bitmap, where the data blocks start.\<close>

definition data_start :: "fs \<Rightarrow> nat" where
  "data_start s = unat (sb_bmapstart (fsb s)) + fs_size s div BPB + 1"

definition layout_ok :: "nat \<Rightarrow> fs \<Rightarrow> bool" where
  "layout_ok dev s \<longleftrightarrow> data_start s \<le> 2 ^ 32 \<and> (\<forall>b<fs_size s. b < data_start s \<longrightarrow> used dev s b)"

definition is_bitmap :: "nat \<Rightarrow> fs \<Rightarrow> bkey \<Rightarrow> bool" where
  "is_bitmap dev s k \<longleftrightarrow> fst k = dev \<and> unat (sb_bmapstart (fsb s)) \<le> snd k \<and> snd k < data_start s"

lemma BBLOCK_key:
  assumes "data_start s \<le> 2 ^ 32" "b < fs_size s"
  shows "(dev, BBLOCK (of_nat b) (fsb s)) = bm_key dev s b" "is_bitmap dev s (bm_key dev s b)"
proof -
  have "fs_size s < 2 ^ LENGTH(32)" by (rule unsigned_less)
  then have b: "b < 2 ^ 32" using assms(2) by simp
  have le: "b div 4096 \<le> fs_size s div 4096" using assms(2) by (intro div_le_mono) simp
  have "unat (of_nat b div (4096::u32)) = b div 4096" using b by (simp add: unat_div unat_of_nat take_bit_nat_def)
  moreover have "b div 4096 + unat (sb_bmapstart (fsb s)) < 2 ^ 32" using assms(1) le by (simp add: data_start_def sizes)
  ultimately show "(dev, BBLOCK (of_nat b) (fsb s)) = bm_key dev s b"
    by (simp add: BBLOCK_def bm_key_def sizes unat_word_ariths)
  show "is_bitmap dev s (bm_key dev s b)" using le by (simp add: is_bitmap_def bm_key_def data_start_def sizes)
qed

lemma bmask_bit: "x AND bmask bi = 0 \<longleftrightarrow> \<not> bit x (bi mod 8)"
  by (simp add: bmask_def bit_iff_and_push_bit_not_eq_0)

lemma bit_bmask: "bit (bmask bi) n \<longleftrightarrow> n = bi mod 8"
  by (auto simp: bmask_def bit_simps)

lemma free_bit_Some:
  "free_bit d lim = Some bi \<longleftrightarrow> bi < lim \<and> \<not> bit (d (bi div 8)) (bi mod 8) \<and> (\<forall>j<bi. bit (d (j div 8)) (j mod 8))"
  by (auto simp: free_bit_def find_Some_iff bmask_bit)

lemma free_bit_None: "free_bit d lim = None \<longleftrightarrow> (\<forall>j<lim. bit (d (j div 8)) (j mod 8))"
  by (auto simp: free_bit_def find_None_iff bmask_bit)

lemma mod_4096_8: "(b::nat) mod 4096 mod 8 = b mod 8"
  by (rule mod_mod_cancel) simp

lemma used_chunk:
  assumes "b mod BPB = 0" "j < BPB"
  shows "used dev s (b + j) \<longleftrightarrow> bit (fb s (bm_key dev s b) (j div 8)) (j mod 8)" "bm_key dev s (b + j) = bm_key dev s b"
proof -
  obtain q where "b = BPB * q" using assms(1) by (auto simp: mod_0_imp_dvd elim: dvdE)
  then have "(b + j) div BPB = b div BPB" "(b + j) mod BPB = j" using assms(2) by (simp_all add: sizes)
  moreover from this(2) have "(b + j) mod 8 = j mod 8" using mod_4096_8 [of "b + j"] by (simp add: sizes)
  ultimately show "used dev s (b + j) \<longleftrightarrow> bit (fb s (bm_key dev s b) (j div 8)) (j mod 8)" "bm_key dev s (b + j) = bm_key dev s b"
    by (simp_all add: used_def bm_key_def)
qed

text \<open>Setting and clearing a bit.\<close>

definition set_bit_at :: "nat \<Rightarrow> nat \<Rightarrow> fs \<Rightarrow> fs" where
  "set_bit_at dev b s = (let k = bm_key dev s b; d = fb s k; j = b mod BPB in
     set_blk k (d(j div 8 := d (j div 8) OR bmask j)) s)"

lemma bit_position:
  assumes "bm_key dev s b = bm_key dev s b'" "b mod BPB div 8 = b' mod BPB div 8" "b mod 8 = b' mod 8"
  shows "b = b'"
proof -
  have "b mod BPB = 8 * (b mod BPB div 8) + b mod BPB mod 8" "b' mod BPB = 8 * (b' mod BPB div 8) + b' mod BPB mod 8" by simp_all
  then have "b mod BPB = b' mod BPB" using assms(2,3) by (simp add: sizes mod_4096_8)
  moreover have "b div BPB = b' div BPB" using assms(1) by (simp add: bm_key_def)
  ultimately show ?thesis by (metis div_mult_mod_eq)
qed

lemma fs_sel [simp]:
  "fb (set_blk k d s) = (fb s)(k := d)" "fsb (set_blk k d s) = fsb s" "icache (set_blk k d s) = icache s"
  "fb (upd_ip i f s) = fb s" "fsb (upd_ip i f s) = fsb s" "icache (upd_ip i f s) = (icache s)[i := f (icache s ! i)]"
  by (simp_all add: set_blk_def upd_ip_def)

lemma used_set_bit: "used dev (set_bit_at dev b s) b' \<longleftrightarrow> b' = b \<or> used dev s b'"
proof -
  have k: "bm_key dev (set_bit_at dev b s) c = bm_key dev s c" for c by (simp add: set_bit_at_def bm_key_def Let_def)
  have m: "b mod BPB mod 8 = b mod 8" by (simp add: sizes mod_4096_8)
  show ?thesis
  proof (cases "bm_key dev s b' = bm_key dev s b \<and> b' mod BPB div 8 = b mod BPB div 8")
    case True
    then show ?thesis unfolding used_def k using bit_position [of dev s b' b] m
      by (auto simp: set_bit_at_def Let_def bit_or_iff bit_bmask)
  next
    case False
    then show ?thesis unfolding used_def k by (auto simp: set_bit_at_def Let_def)
  qed
qed

lemma used_cong:
  "fsb s' = fsb s \<Longrightarrow> fb s' (bm_key dev s b) = fb s (bm_key dev s b) \<Longrightarrow> used dev s' b = used dev s b"
  by (simp add: used_def bm_key_def)

text \<open>What \<open>balloc\<close> does when it returns block \<open>b\<close>.\<close>

definition allocs :: "nat \<Rightarrow> fs \<Rightarrow> nat \<Rightarrow> fs \<Rightarrow> bool" where
  "allocs dev s b s' \<longleftrightarrow>
     b < fs_size s \<and> \<not> used dev s b \<and> (\<forall>b'<b. used dev s b') \<and> s' = bzero dev b (set_bit_at dev b s)"

lemma balloc_from_spec:
  assumes "data_start s \<le> 2 ^ 32" "b mod BPB = 0" "\<forall>b'<b. used dev s b'"
  shows "if \<exists>c<fs_size s. \<not> used dev s c then \<exists>c s'. balloc_from dev b s = Inr (c, s') \<and> allocs dev s c s'
         else balloc_from dev b s = Inl (Panic ''balloc: out of blocks'')"
  using assms
proof (induction dev b s rule: balloc_from.induct)
  case (1 dev b s)
  let ?k = "(dev, BBLOCK (of_nat b) (fsb s))" and ?lim = "min BPB (fs_size s - b)"
  show ?case
  proof (cases "b < fs_size s")
    case False
    then have "\<forall>c<fs_size s. used dev s c" using "1.prems"(3) by auto
    with False show ?thesis by (auto simp: balloc_from.simps [of dev b s])
  next
    case True
    note key = BBLOCK_key(1) [OF "1.prems"(1) True, of dev]
    note chunk = used_chunk [OF "1.prems"(2)]
    show ?thesis
    proof (cases "free_bit (fb s ?k) ?lim")
      case (Some bi)
      then have bi: "bi < BPB" "b + bi < fs_size s" "\<not> used dev s (b + bi)" "\<forall>j<bi. used dev s (b + j)"
        using chunk by (auto simp: free_bit_Some key)
      have "\<forall>b'<b + bi. used dev s b'"
      proof (intro allI impI)
        fix b' assume "b' < b + bi"
        then show "used dev s b'" using "1.prems"(3) bi(4) by (cases "b' < b") (auto dest!: spec [of _ "b' - b"])
      qed
      moreover have "(b + bi) mod BPB = bi" using "1.prems"(2) bi(1) by (metis add.left_neutral mod_add_left_eq mod_less)
      then have "set_bit_at dev (b + bi) s = set_blk ?k ((fb s ?k)(bi div 8 := fb s ?k (bi div 8) OR bmask bi)) s"
        using chunk(2) [OF bi(1)] by (simp add: set_bit_at_def key Let_def)
      ultimately have "allocs dev s (b + bi) (bzero dev (b + bi) (set_blk ?k ((fb s ?k)(bi div 8 := fb s ?k (bi div 8) OR bmask bi)) s))"
        using bi by (simp add: allocs_def)
      moreover have "balloc_from dev b s = Inr (b + bi, bzero dev (b + bi) (set_blk ?k ((fb s ?k)(bi div 8 := fb s ?k (bi div 8) OR bmask bi)) s))"
        using True Some by (simp add: balloc_from.simps [of dev b s] Let_def)
      ultimately show ?thesis using bi by auto
    next
      case None
      then have all: "\<forall>j<?lim. used dev s (b + j)" using chunk(1) by (auto simp: free_bit_None key)
      have upto: "used dev s c" if "c < b + BPB" "c < fs_size s" for c
        using that "1.prems"(3) all by (cases "c < b") (auto dest!: spec [of _ "c - b"])
      show ?thesis
      proof (cases "b + BPB \<le> fs_size s")
        case True
        with upto have "\<forall>b'<b + BPB. used dev s b'" by simp
        moreover have "(b + BPB) mod BPB = 0" using "1.prems"(2) by simp
        ultimately show ?thesis
          using "1.IH" [OF \<open>b < fs_size s\<close> refl refl None "1.prems"(1)] None True \<open>b < fs_size s\<close>
          by (simp add: balloc_from.simps [of dev b s] Let_def)
      next
        case False
        with upto have "\<forall>c<fs_size s. used dev s c" by simp
        moreover have "balloc_from dev (b + BPB) s = Inl (Panic ''balloc: out of blocks'')"
          using False by (simp add: balloc_from.simps [of dev "b + BPB" s])
        ultimately show ?thesis using None \<open>b < fs_size s\<close>
          by (auto simp: balloc_from.simps [of dev b s] Let_def)
      qed
    qed
  qed
qed

lemma bm_key_range: "c < fs_size s \<Longrightarrow> snd (bm_key dev s c) < data_start s" "fst (bm_key dev s c) = dev"
  using div_le_mono [of c "fs_size s" BPB] by (auto simp: bm_key_def data_start_def)

lemma data_start_cong: "fsb s' = fsb s \<Longrightarrow> data_start s' = data_start s"
  by (simp add: data_start_def)

lemma used_other:
  assumes "fsb s' = fsb s" "c < fs_size s" "\<And>k. fst k = dev \<Longrightarrow> snd k < data_start s \<Longrightarrow> fb s' k = fb s k"
  shows "used dev s' c = used dev s c"
  using used_cong [OF assms(1)] assms(3) [OF bm_key_range(2) bm_key_range(1) [OF assms(2)]] by blast

lemma bm_key_bitmap: "c < fs_size s \<Longrightarrow> is_bitmap dev s (bm_key dev s c)"
  using bm_key_range [of c s dev] by (auto simp: is_bitmap_def bm_key_def)

lemma set_bit_sel: "fsb (set_bit_at dev b s) = fsb s" "icache (set_bit_at dev b s) = icache s"
    "k \<noteq> bm_key dev s b \<Longrightarrow> fb (set_bit_at dev b s) k = fb s k"
  by (simp_all add: set_bit_at_def Let_def)

definition block_spec :: "nat \<Rightarrow> fs \<Rightarrow> nat \<Rightarrow> bool \<Rightarrow> fs \<Rightarrow> bool" where
  "block_spec dev s b u s' \<longleftrightarrow>
     (\<forall>c<fs_size s. used dev s' c \<longleftrightarrow> (if c = b then u else used dev s c)) \<and> fsb s' = fsb s \<and> icache s' = icache s \<and>
     (\<forall>k. k \<noteq> (dev, b) \<longrightarrow> \<not> is_bitmap dev s k \<longrightarrow> fb s' k = fb s k)"

lemma block_spec_layout: "block_spec dev s b u s' \<Longrightarrow> layout_ok dev s \<Longrightarrow> u \<or> data_start s \<le> b \<Longrightarrow> layout_ok dev s'"
  unfolding block_spec_def layout_ok_def by (auto simp: data_start_cong [of s' s])

lemma allocs_spec:
  assumes "layout_ok dev s" "allocs dev s b s'"
  shows "data_start s \<le> b" "b < 2 ^ 32" "b \<noteq> 0" "fb s' (dev, b) = (\<lambda>_. 0)" "block_spec dev s b True s'"
proof -
  have b: "b < fs_size s" "\<not> used dev s b" and s': "s' = bzero dev b (set_bit_at dev b s)"
    using assms(2) unfolding allocs_def by blast+
  show ge: "data_start s \<le> b"
  proof (rule ccontr)
    assume "\<not> data_start s \<le> b"
    then have "b < data_start s" by simp
    with assms(1) b show False unfolding layout_ok_def by blast
  qed
  then show "b \<noteq> 0" by (simp add: data_start_def)
  have "fs_size s < 2 ^ LENGTH(32)" by (rule unsigned_less)
  with b show "b < 2 ^ 32" by simp
  show "fb s' (dev, b) = (\<lambda>_. 0)" by (simp add: s' bzero_def)
  have "used dev s' c = used dev (set_bit_at dev b s) c" if "c < fs_size s" for c
  proof (rule used_other)
    show "fb s' k = fb (set_bit_at dev b s) k" if "fst k = dev" "snd k < data_start (set_bit_at dev b s)" for k
      using that ge data_start_cong [OF set_bit_sel(1), of dev b s] by (cases k) (auto simp: s' bzero_def)
  qed (use that in \<open>simp_all add: s' bzero_def set_bit_sel\<close>)
  then have "used dev s' c \<longleftrightarrow> c = b \<or> used dev s c" if "c < fs_size s" for c using that by (simp add: used_set_bit)
  moreover have "fb s' k = fb s k" if "k \<noteq> (dev, b)" "\<not> is_bitmap dev s k" for k
  proof -
    have "k \<noteq> bm_key dev s b" using that(2) bm_key_bitmap [OF b(1), of dev] by blast
    from set_bit_sel(3) [OF this] that(1) show ?thesis by (simp add: s' bzero_def)
  qed
  ultimately show "block_spec dev s b True s'" by (simp add: block_spec_def s' bzero_def set_bit_sel)
qed

lemma bfree_spec:
  assumes "layout_ok dev s" "unat b < fs_size s"
  shows "if used dev s (unat b) then \<exists>s'. bfree dev b s = Inr s' \<and> block_spec dev s (unat b) False s'
         else bfree dev b s = Inl (Panic ''freeing free block'')"
proof -
  let ?b = "unat b"
  note key = BBLOCK_key(1) [of s ?b dev, simplified]
  have k: "(dev, BBLOCK b (fsb s)) = bm_key dev s ?b" using key assms by (simp add: layout_ok_def)
  have m: "?b mod BPB mod 8 = ?b mod 8" by (simp add: sizes mod_4096_8)
  let ?d = "fb s (bm_key dev s ?b)" and ?j = "?b mod BPB"
  let ?s' = "set_blk (bm_key dev s ?b) (?d(?j div 8 := ?d (?j div 8) AND NOT (bmask ?j))) s"
  show ?thesis
  proof (cases "used dev s ?b")
    case True
    then have "bfree dev b s = Inr ?s'" by (simp add: bfree_def k Let_def bmask_bit used_def m)
    moreover have "used dev ?s' c \<longleftrightarrow> (if c = ?b then False else used dev s c)" for c
    proof -
      have kc: "bm_key dev ?s' c = bm_key dev s c" by (simp add: bm_key_def)
      show ?thesis
      proof (cases "bm_key dev s c = bm_key dev s ?b \<and> c mod BPB div 8 = ?j div 8")
        case True
        then show ?thesis unfolding used_def kc using bit_position [of dev s c ?b] m
          by (auto simp: bit_and_iff bit_not_iff bit_bmask)
      next
        case False
        then show ?thesis unfolding used_def kc by auto
      qed
    qed
    then have "block_spec dev s ?b False ?s'"
      using bm_key_bitmap [OF assms(2), of dev] by (auto simp: block_spec_def)
    ultimately show ?thesis using True by auto
  qed (simp add: bfree_def k Let_def bmask_bit used_def m)
qed

text \<open>
  C28. The block allocator is correct on a disk whose bitmap marks the blocks before the data area as
  used. \<open>balloc\<close> panics exactly when every block is in use; otherwise it returns the first free block,
  which is in the data area, marks that block and no other, zeroes it, and changes no block outside the
  bitmap. \<open>bfree\<close> of a block in use clears its mark alone and changes nothing outside the bitmap, and of
  a free block panics.
\<close>

theorem block_allocator_correct:
  assumes "layout_ok dev s" "unat c < fs_size s"
  shows "(if \<exists>b<fs_size s. \<not> used dev s b
          then \<exists>b s'. balloc dev s = Inr (b, s') \<and> data_start s \<le> b \<and> b < fs_size s \<and> \<not> used dev s b \<and>
                 (\<forall>b'<b. used dev s b') \<and> fb s' (dev, b) = (\<lambda>_. 0) \<and> block_spec dev s b True s' \<and> layout_ok dev s'
          else balloc dev s = Inl (Panic ''balloc: out of blocks'')) \<and>
    (if used dev s (unat c) then \<exists>s'. bfree dev c s = Inr s' \<and> block_spec dev s (unat c) False s'
     else bfree dev c s = Inl (Panic ''freeing free block''))"
proof (intro conjI)
  have spec: "if \<exists>b<fs_size s. \<not> used dev s b then \<exists>b s'. balloc dev s = Inr (b, s') \<and> allocs dev s b s'
        else balloc dev s = Inl (Panic ''balloc: out of blocks'')"
    unfolding balloc_def by (rule balloc_from_spec) (use assms in \<open>simp_all add: layout_ok_def\<close>)
  show "if \<exists>b<fs_size s. \<not> used dev s b
        then \<exists>b s'. balloc dev s = Inr (b, s') \<and> data_start s \<le> b \<and> b < fs_size s \<and> \<not> used dev s b \<and>
               (\<forall>b'<b. used dev s b') \<and> fb s' (dev, b) = (\<lambda>_. 0) \<and> block_spec dev s b True s' \<and> layout_ok dev s'
        else balloc dev s = Inl (Panic ''balloc: out of blocks'')"
  proof (cases "\<exists>b<fs_size s. \<not> used dev s b")
    case True
    with spec obtain b s' where b: "balloc dev s = Inr (b, s')" "allocs dev s b s'" by auto
    note sp = allocs_spec [OF assms(1) b(2)]
    have "layout_ok dev s'" by (rule block_spec_layout [OF sp(5) assms(1)]) simp
    moreover have "b < fs_size s \<and> \<not> used dev s b \<and> (\<forall>b'<b. used dev s b')" using b(2) by (simp add: allocs_def)
    ultimately have "\<exists>b s'. balloc dev s = Inr (b, s') \<and> data_start s \<le> b \<and> b < fs_size s \<and> \<not> used dev s b \<and>
               (\<forall>b'<b. used dev s b') \<and> fb s' (dev, b) = (\<lambda>_. 0) \<and> block_spec dev s b True s' \<and> layout_ok dev s'"
      using b(1) sp(1,4,5) by blast
    with True show ?thesis by (simp only: if_True)
  next
    case False
    with spec show ?thesis by (simp only: if_False)
  qed
qed (rule bfree_spec [OF assms])

text \<open>A disk of ten blocks: the third is the bitmap, the first three are marked used; one inode of
  eight empty ones is in the cache, locked, with nothing in it.\<close>

definition demo_inode :: inode where
  "demo_inode = \<lparr>i_dev = 1, i_inum = 1, i_ref = 1, i_locked = True, i_valid = True, i_type = T_FILE, i_major = 0,
     i_minor = 0, i_nlink = 1, i_size = 0, i_addrs = replicate 13 0\<rparr>"

definition demo_fs :: fs where
  "demo_fs = \<lparr>fb = (\<lambda>k i. if k = (1, 2) \<and> i = 0 then 7 else 0),
     fsb = \<lparr>sb_size = 10, sb_nblocks = 7, sb_ninodes = 8, sb_nlog = 0, sb_logstart = 0, sb_inodestart = 1, sb_bmapstart = 2\<rparr>,
     icache = [demo_inode]\<rparr>"

lemma demo_used: "\<forall>b\<in>set [0..<10]. used 1 demo_fs b \<longleftrightarrow> b < 3"
  by code_simp

lemma demo_layout: "layout_ok 1 demo_fs" "data_start demo_fs = 3" "fs_size demo_fs = 10"
  using demo_used by (simp_all add: layout_ok_def data_start_def demo_fs_def sizes)

theorem block_allocator_correct_witness:
  "\<exists>b s'. balloc 1 demo_fs = Inr (b, s') \<and> b = 3 \<and> fb s' (1, 3) = (\<lambda>_. 0) \<and> used 1 s' 3"
proof -
  have "\<not> used 1 demo_fs 3" "\<forall>b<3. used 1 demo_fs b" using demo_used by auto
  then have ex: "\<exists>b<fs_size demo_fs. \<not> used 1 demo_fs b" by (intro exI [of _ 3]) (simp add: demo_layout)
  obtain b s' where b: "balloc 1 demo_fs = Inr (b, s')" "\<not> used 1 demo_fs b" "\<forall>b'<b. used 1 demo_fs b'" "fb s' (1, b) = (\<lambda>_. 0)"
    "block_spec 1 demo_fs b True s'"
    using block_allocator_correct [OF demo_layout(1), of 0] ex by (auto simp: demo_layout)
  have "b = 3"
    using b(2,3) \<open>\<not> used 1 demo_fs 3\<close> \<open>\<forall>b<3. used 1 demo_fs b\<close> by (metis linorder_neqE_nat)
  with b show ?thesis by (auto simp: block_spec_def demo_layout)
qed

end
