(* ===== verification/File_Data.thy ===== *)
theory File_Data
  imports Inode
begin

text \<open>
  The contents of files, on the definitions of \<open>Inode\<close>: \<open>bmap\<close> extends a file's block map without
  disturbing what it or any other file holds, and \<open>writei\<close> and \<open>readi\<close> act on the file as on an array
  of bytes.
\<close>

section \<open>The block map of an inode\<close>

definition indirect :: "fs \<Rightarrow> nat \<Rightarrow> u32" where
  "indirect s i = i_addrs (icache s ! i) ! NDIRECT"

definition addr_of :: "fs \<Rightarrow> nat \<Rightarrow> nat \<Rightarrow> u32" where
  "addr_of s i bn =
     (if bn < NDIRECT then i_addrs (icache s ! i) ! bn
      else if indirect s i = 0 then 0
      else get32 (fb s (i_dev (icache s ! i), unat (indirect s i))) (4 * (bn - NDIRECT)))"

definition data_block :: "nat \<Rightarrow> fs \<Rightarrow> u32 \<Rightarrow> bool" where
  "data_block dev s a \<longleftrightarrow> data_start s \<le> unat a \<and> unat a < fs_size s \<and> used dev s (unat a)"

text \<open>The block map is well formed: allocated blocks are in use, in the data area and pairwise different.\<close>

definition inode_wf :: "nat \<Rightarrow> nat \<Rightarrow> fs \<Rightarrow> bool" where
  "inode_wf dev i s \<longleftrightarrow>
     layout_ok dev s \<and> i < length (icache s) \<and> i_dev (icache s ! i) = dev \<and>
     length (i_addrs (icache s ! i)) = NDIRECT + 1 \<and>
     (indirect s i \<noteq> 0 \<longrightarrow> data_block dev s (indirect s i)) \<and>
     (\<forall>bn<MAXFILE. addr_of s i bn \<noteq> 0 \<longrightarrow> data_block dev s (addr_of s i bn) \<and> addr_of s i bn \<noteq> indirect s i) \<and>
     (\<forall>bn<MAXFILE. \<forall>bn'<MAXFILE. addr_of s i bn = addr_of s i bn' \<longrightarrow> addr_of s i bn \<noteq> 0 \<longrightarrow> bn = bn')"

lemma inode_wfD:
  assumes "inode_wf dev i s"
  shows "layout_ok dev s" "i < length (icache s)" "i_dev (icache s ! i) = dev" "length (i_addrs (icache s ! i)) = NDIRECT + 1"
    "indirect s i \<noteq> 0 \<Longrightarrow> data_block dev s (indirect s i)"
    "bn < MAXFILE \<Longrightarrow> addr_of s i bn \<noteq> 0 \<Longrightarrow> data_block dev s (addr_of s i bn)"
    "bn < MAXFILE \<Longrightarrow> addr_of s i bn \<noteq> 0 \<Longrightarrow> addr_of s i bn \<noteq> indirect s i"
    "bn < MAXFILE \<Longrightarrow> bn' < MAXFILE \<Longrightarrow> addr_of s i bn = addr_of s i bn' \<Longrightarrow> addr_of s i bn \<noteq> 0 \<Longrightarrow> bn = bn'"
  using assms unfolding inode_wf_def by blast+

definition free_count :: "nat \<Rightarrow> fs \<Rightarrow> nat" where
  "free_count dev s = card {b. b < fs_size s \<and> \<not> used dev s b}"

definition missing_indirect :: "fs \<Rightarrow> nat \<Rightarrow> nat" where
  "missing_indirect s i = (if indirect s i = 0 then 1 else 0)"

lemma balloc_some:
  assumes "layout_ok dev s" "free_count dev s > 0"
  obtains b s' where "balloc dev s = Inr (b, s')" "allocs dev s b s'" "free_count dev s = Suc (free_count dev s')"
proof -
  have "{b. b < fs_size s \<and> \<not> used dev s b} \<noteq> {}" using assms(2) unfolding free_count_def by (metis card.empty less_numeral_extra(3))
  then have ex: "\<exists>c<fs_size s. \<not> used dev s c" by blast
  have "if \<exists>c<fs_size s. \<not> used dev s c then \<exists>c s'. balloc_from dev 0 s = Inr (c, s') \<and> allocs dev s c s'
        else balloc_from dev 0 s = Inl (Panic ''balloc: out of blocks'')"
    by (rule balloc_from_spec) (use assms(1) in \<open>simp_all add: layout_ok_def\<close>)
  with ex obtain b s' where b: "balloc dev s = Inr (b, s')" "allocs dev s b s'" unfolding balloc_def by auto
  have "block_spec dev s b True s'" by (rule allocs_spec [OF assms(1) b(2)])
  then have u: "\<forall>c<fs_size s. used dev s' c \<longleftrightarrow> c = b \<or> used dev s c" and sz: "fs_size s' = fs_size s"
    by (auto simp: block_spec_def)
  have lt: "b < fs_size s" "\<not> used dev s b" using b(2) unfolding allocs_def by blast+
  let ?F = "{c. c < fs_size s \<and> \<not> used dev s c}"
  have "{c. c < fs_size s' \<and> \<not> used dev s' c} = ?F - {b}" using u sz by auto
  then have "free_count dev s' = card ?F - 1" using lt by (simp add: free_count_def)
  moreover have "0 < card ?F" using assms(2) by (simp add: free_count_def)
  ultimately have "free_count dev s = Suc (free_count dev s')" by (simp add: free_count_def)
  with b show thesis by (rule that)
qed

text \<open>The step from \<open>s\<close> to \<open>s'\<close> keeps every mapped block of the file with its data, keeps other used
  data blocks and everything before the bitmap, and touches only the addresses of the inode.\<close>

definition fresh :: "nat \<Rightarrow> fs \<Rightarrow> u32 \<Rightarrow> bool" where
  "fresh dev s a \<longleftrightarrow> unat a < fs_size s \<and> \<not> used dev s (unat a)"

definition extends :: "nat \<Rightarrow> nat \<Rightarrow> fs \<Rightarrow> fs \<Rightarrow> bool" where
  "extends dev i s s' \<longleftrightarrow>
     fsb s' = fsb s \<and> (\<exists>as. icache s' = (icache s)[i := (icache s ! i)\<lparr>i_addrs := as\<rparr>]) \<and>
     (\<forall>bn<MAXFILE. addr_of s i bn \<noteq> 0 \<longrightarrow> addr_of s' i bn = addr_of s i bn) \<and>
     (\<forall>bn<MAXFILE. addr_of s i bn = 0 \<longrightarrow> addr_of s' i bn \<noteq> 0 \<longrightarrow> fresh dev s (addr_of s' i bn)) \<and>
     (indirect s i \<noteq> 0 \<longrightarrow> indirect s' i = indirect s i) \<and>
     (indirect s i = 0 \<longrightarrow> indirect s' i \<noteq> 0 \<longrightarrow> fresh dev s (indirect s' i)) \<and>
     (\<forall>c<fs_size s. used dev s c \<longrightarrow> used dev s' c) \<and>
     (\<forall>c<fs_size s. used dev s c \<longrightarrow> data_start s \<le> c \<longrightarrow> (indirect s i = 0 \<or> c \<noteq> unat (indirect s i)) \<longrightarrow>
        fb s' (dev, c) = fb s (dev, c)) \<and>
     (\<forall>k. fst k \<noteq> dev \<or> snd k < unat (sb_bmapstart (fsb s)) \<longrightarrow> fb s' k = fb s k)"

lemma extends_refl: "extends dev i s s"
  unfolding extends_def by (auto intro!: exI [of _ "i_addrs (icache s ! i)"])

lemma extends_trans:
  assumes "extends dev i s s'" "extends dev i s' s''" "i < length (icache s)"
  shows "extends dev i s s''"
proof -
  from assms(1) obtain as where A: "fsb s' = fsb s" "icache s' = (icache s)[i := (icache s ! i)\<lparr>i_addrs := as\<rparr>]" by (auto simp: extends_def)
  from assms(2) obtain as' where B: "fsb s'' = fsb s'" "icache s'' = (icache s')[i := (icache s' ! i)\<lparr>i_addrs := as'\<rparr>]" by (auto simp: extends_def)
  have ic: "icache s'' = (icache s)[i := (icache s ! i)\<lparr>i_addrs := as'\<rparr>]" using A(2) B(2) assms(3) by simp
  have ds: "data_start s' = data_start s" using A(1) by (rule data_start_cong)
  have 1: "\<And>bn. bn < MAXFILE \<Longrightarrow> addr_of s i bn \<noteq> 0 \<Longrightarrow> addr_of s' i bn = addr_of s i bn"
    "\<And>bn. bn < MAXFILE \<Longrightarrow> addr_of s i bn = 0 \<Longrightarrow> addr_of s' i bn \<noteq> 0 \<Longrightarrow> fresh dev s (addr_of s' i bn)"
    "indirect s i \<noteq> 0 \<Longrightarrow> indirect s' i = indirect s i"
    "indirect s i = 0 \<Longrightarrow> indirect s' i \<noteq> 0 \<Longrightarrow> fresh dev s (indirect s' i)"
    "\<And>c. c < fs_size s \<Longrightarrow> used dev s c \<Longrightarrow> used dev s' c"
    "\<And>c. c < fs_size s \<Longrightarrow> used dev s c \<Longrightarrow> data_start s \<le> c \<Longrightarrow> indirect s i = 0 \<or> c \<noteq> unat (indirect s i) \<Longrightarrow>
        fb s' (dev, c) = fb s (dev, c)"
    "\<And>k. fst k \<noteq> dev \<or> snd k < unat (sb_bmapstart (fsb s)) \<Longrightarrow> fb s' k = fb s k"
    using assms(1) unfolding extends_def by blast+
  have 2: "\<And>bn. bn < MAXFILE \<Longrightarrow> addr_of s' i bn \<noteq> 0 \<Longrightarrow> addr_of s'' i bn = addr_of s' i bn"
    "\<And>bn. bn < MAXFILE \<Longrightarrow> addr_of s' i bn = 0 \<Longrightarrow> addr_of s'' i bn \<noteq> 0 \<Longrightarrow> fresh dev s' (addr_of s'' i bn)"
    "indirect s' i \<noteq> 0 \<Longrightarrow> indirect s'' i = indirect s' i"
    "indirect s' i = 0 \<Longrightarrow> indirect s'' i \<noteq> 0 \<Longrightarrow> fresh dev s' (indirect s'' i)"
    "\<And>c. c < fs_size s \<Longrightarrow> used dev s' c \<Longrightarrow> used dev s'' c"
    "\<And>c. c < fs_size s \<Longrightarrow> used dev s' c \<Longrightarrow> data_start s \<le> c \<Longrightarrow> indirect s' i = 0 \<or> c \<noteq> unat (indirect s' i) \<Longrightarrow>
        fb s'' (dev, c) = fb s' (dev, c)"
    "\<And>k. fst k \<noteq> dev \<or> snd k < unat (sb_bmapstart (fsb s)) \<Longrightarrow> fb s'' k = fb s' k"
    using assms(2) unfolding extends_def A(1) ds by blast+
  have fresh_back: "fresh dev s a" if "fresh dev s' a" for a
    using that 1(5) by (auto simp: fresh_def A(1))
  show ?thesis unfolding extends_def
  proof (intro conjI allI impI)
    show "\<exists>as. icache s'' = (icache s)[i := (icache s ! i)\<lparr>i_addrs := as\<rparr>]" using ic by blast
    show "fsb s'' = fsb s" using A(1) B(1) by simp
    show "addr_of s'' i bn = addr_of s i bn" if "bn < MAXFILE" "addr_of s i bn \<noteq> 0" for bn
      using 1(1) [OF that] 2(1) [OF that(1)] that(2) by simp
    show "fresh dev s (addr_of s'' i bn)" if bn: "bn < MAXFILE" "addr_of s i bn = 0" "addr_of s'' i bn \<noteq> 0" for bn
      using 1(2) [OF bn(1,2)] 2(1,2) [OF bn(1)] bn(3) fresh_back by (cases "addr_of s' i bn = 0") auto
    show "indirect s'' i = indirect s i" if "indirect s i \<noteq> 0" using 1(3) [OF that] 2(3) that by simp
    show "fresh dev s (indirect s'' i)" if "indirect s i = 0" "indirect s'' i \<noteq> 0"
      using 1(4) [OF that(1)] 2(3,4) that(2) fresh_back by (cases "indirect s' i = 0") auto
    show "used dev s'' c" if "c < fs_size s" "used dev s c" for c using 1(5) [OF that] 2(5) [OF that(1)] by blast
    show "fb s'' (dev, c) = fb s (dev, c)"
      if c: "c < fs_size s" "used dev s c" "data_start s \<le> c" "indirect s i = 0 \<or> c \<noteq> unat (indirect s i)" for c
    proof -
      have "indirect s' i = 0 \<or> c \<noteq> unat (indirect s' i)"
        using 1(3,4) c(2,4) by (cases "indirect s i = 0") (auto simp: fresh_def)
      with 2(6) [OF c(1) 1(5) [OF c(1,2)] c(3)] 1(6) [OF c] show ?thesis by simp
    qed
    show "fb s'' k = fb s k" if "fst k \<noteq> dev \<or> snd k < unat (sb_bmapstart (fsb s))" for k
      using 1(7) [OF that] 2(7) [OF that] by simp
  qed
qed

section \<open>Adding one block to a file\<close>

lemma data_block_fresh: "data_block dev s a \<Longrightarrow> fresh dev s x \<Longrightarrow> a \<noteq> x"
  by (auto simp: data_block_def fresh_def)

lemma not_bitmap: "data_start s \<le> c \<Longrightarrow> \<not> is_bitmap dev s (dev, c)"
  by (simp add: is_bitmap_def)

lemma new_block:
  assumes wf: "inode_wf dev i s" and x: "fresh dev s x" "data_start s \<le> unat x" "x \<noteq> 0"
    and s': "fsb s' = fsb s" "icache s' = (icache s)[i := (icache s ! i)\<lparr>i_addrs := as\<rparr>]" "length as = NDIRECT + 1"
    and u: "\<And>c. c < fs_size s \<Longrightarrow> used dev s' c \<longleftrightarrow> c = unat x \<or> used dev s c"
    and ad: "(\<forall>bn<MAXFILE. addr_of s' i bn = (if bn = m then x else addr_of s i bn)) \<and> indirect s' i = indirect s i \<and> addr_of s i m = 0 \<or>
             (\<forall>bn<MAXFILE. addr_of s' i bn = addr_of s i bn) \<and> indirect s' i = x \<and> indirect s i = 0"
    and fr: "\<And>k. k \<noteq> (dev, unat x) \<Longrightarrow> \<not> is_bitmap dev s k \<Longrightarrow> indirect s i = 0 \<or> k \<noteq> (dev, unat (indirect s i)) \<Longrightarrow> fb s' k = fb s k"
  shows "inode_wf dev i s'" "extends dev i s s'"
proof -
  note D = inode_wfD [OF wf]
  have ds: "data_start s' = data_start s" using s'(1) by (rule data_start_cong)
  have db: "data_block dev s' a" if "data_block dev s a \<or> a = x" for a
    using that u x by (auto simp: data_block_def s'(1) ds fresh_def)
  have ip: "icache s' ! i = (icache s ! i)\<lparr>i_addrs := as\<rparr>" using s'(2) D(2) by simp
  have A: "addr_of s' i bn = addr_of s i bn \<or> addr_of s' i bn = x \<and> bn = m \<and> addr_of s i bn = 0 \<and> indirect s' i = indirect s i"
    if "bn < MAXFILE" for bn using ad that by (cases "bn = m") auto
  have I: "indirect s' i = indirect s i \<or> indirect s' i = x \<and> indirect s i = 0 \<and> (\<forall>bn<MAXFILE. addr_of s' i bn = addr_of s i bn)"
    using ad by auto
  have ne: "data_block dev s a \<Longrightarrow> a \<noteq> x" for a using data_block_fresh x(1) by blast
  have lay: "layout_ok dev s'"
    using D(1) u unfolding layout_ok_def ds s'(1) by blast
  show "inode_wf dev i s'" unfolding inode_wf_def
  proof (intro conjI allI impI)
    show "i < length (icache s')" "i_dev (icache s' ! i) = dev" "length (i_addrs (icache s' ! i)) = NDIRECT + 1"
      using D(2,3) s'(2,3) ip by simp_all
    show "data_block dev s' (indirect s' i)" if "indirect s' i \<noteq> 0" using I D(5) db that by auto
    fix bn assume bn: "bn < MAXFILE" "addr_of s' i bn \<noteq> 0"
    show "data_block dev s' (addr_of s' i bn)" using A [OF bn(1)] D(6) [OF bn(1)] db bn(2) by auto
    show "addr_of s' i bn \<noteq> indirect s' i"
      using A [OF bn(1)] I D(6,7) [OF bn(1)] D(5) ne bn x(3) by metis
  next
    fix bn bn' assume bn: "bn < MAXFILE" "bn' < MAXFILE" "addr_of s' i bn = addr_of s' i bn'" "addr_of s' i bn \<noteq> 0"
    show "bn = bn'"
      using A [OF bn(1)] A [OF bn(2)] D(6) [OF bn(1)] D(6) [OF bn(2)] D(8) [OF bn(1,2)] ne bn(3,4) by metis
  qed (rule lay)
  show "extends dev i s s'" unfolding extends_def
  proof (intro conjI allI impI)
    show "\<exists>as. icache s' = (icache s)[i := (icache s ! i)\<lparr>i_addrs := as\<rparr>]" using s'(2) by blast
    show "addr_of s' i bn = addr_of s i bn" if "bn < MAXFILE" "addr_of s i bn \<noteq> 0" for bn using A [OF that(1)] that(2) by auto
    show "fresh dev s (addr_of s' i bn)" if "bn < MAXFILE" "addr_of s i bn = 0" "addr_of s' i bn \<noteq> 0" for bn
      using A [OF that(1)] that x(1) by auto
    show "indirect s' i = indirect s i" if "indirect s i \<noteq> 0" using I that by auto
    show "fresh dev s (indirect s' i)" if "indirect s i = 0" "indirect s' i \<noteq> 0" using I that x(1) by auto
    show "used dev s' c" if "c < fs_size s" "used dev s c" for c using u that by auto
    show "fb s' (dev, c) = fb s (dev, c)"
      if "c < fs_size s" "used dev s c" "data_start s \<le> c" "indirect s i = 0 \<or> c \<noteq> unat (indirect s i)" for c
      by (rule fr) (use that x(1) not_bitmap in \<open>auto simp: fresh_def\<close>)
    show "fb s' k = fb s k" if k: "fst k \<noteq> dev \<or> snd k < unat (sb_bmapstart (fsb s))" for k
    proof (rule fr)
      have lo: "unat (sb_bmapstart (fsb s)) < data_start s" by (simp add: data_start_def)
      show "k \<noteq> (dev, unat x)" using k x(2) lo by auto
      show "\<not> is_bitmap dev s k" using k by (auto simp: is_bitmap_def)
      show "indirect s i = 0 \<or> k \<noteq> (dev, unat (indirect s i))"
        using k D(5) lo by (cases "indirect s i = 0") (auto simp: data_block_def)
    qed
  qed (rule s'(1))
qed

lemma balloc_fresh:
  assumes "layout_ok dev s" "allocs dev s b s'"
  shows "fresh dev s (of_nat b)" "data_start s \<le> unat (of_nat b :: u32)" "(of_nat b :: u32) \<noteq> 0" "unat (of_nat b :: u32) = b"
proof -
  note sp = allocs_spec [OF assms]
  show un: "unat (of_nat b :: u32) = b" using sp(2) by (simp add: unat_of_nat take_bit_nat_def)
  show "fresh dev s (of_nat b)" using assms(2) un by (simp add: fresh_def allocs_def)
  show "data_start s \<le> unat (of_nat b :: u32)" using sp(1) un by simp
  show "(of_nat b :: u32) \<noteq> 0" using sp(3) un by (metis unat_0)
qed

lemma get32_zero [simp]: "get32 (\<lambda>_. 0) j = 0"
  by (simp add: get32_def)

lemma set_addr_sel:
  "fb (set_addr i j a s) = fb s" "fsb (set_addr i j a s) = fsb s"
  "icache (set_addr i j a s) = (icache s)[i := (icache s ! i)\<lparr>i_addrs := (i_addrs (icache s ! i))[j := a]\<rparr>]"
  by (simp_all add: set_addr_def)

lemma addr_or_alloc_spec:
  assumes wf: "inode_wf dev i s" and j: "j \<le> NDIRECT" and fc: "i_addrs (icache s ! i) ! j = 0 \<Longrightarrow> free_count dev s > 0"
  shows "\<exists>a s'. addr_or_alloc i j s = Inr (a, s') \<and> a \<noteq> 0 \<and> i_addrs (icache s' ! i) ! j = a \<and>
     inode_wf dev i s' \<and> extends dev i s s' \<and>
     (if i_addrs (icache s ! i) ! j = 0 then free_count dev s = Suc (free_count dev s') else s' = s) \<and>
     (j < NDIRECT \<longrightarrow> indirect s' i = indirect s i)"
proof (cases "i_addrs (icache s ! i) ! j = 0")
  case False
  then show ?thesis using wf extends_refl by (simp add: addr_or_alloc_def Let_def)
next
  case True
  note D = inode_wfD [OF wf]
  obtain b s1 where b: "balloc dev s = Inr (b, s1)" "allocs dev s b s1" "free_count dev s = Suc (free_count dev s1)"
    using balloc_some [OF D(1) fc [OF True]] by blast
  note sp = allocs_spec [OF D(1) b(2)] and fr = balloc_fresh [OF D(1) b(2)]
  let ?a = "of_nat b :: u32" and ?s' = "set_addr i j (of_nat b) s1"
  have bs: "fsb s1 = fsb s" "icache s1 = icache s" "\<And>c. c < fs_size s \<Longrightarrow> used dev s1 c \<longleftrightarrow> c = b \<or> used dev s c"
    "\<And>k. k \<noteq> (dev, b) \<Longrightarrow> \<not> is_bitmap dev s k \<Longrightarrow> fb s1 k = fb s k"
    using sp(5) by (auto simp: block_spec_def)
  have u': "used dev ?s' c = used dev s1 c" for c by (rule used_cong) (simp_all add: set_addr_sel)
  have jl: "j < length (i_addrs (icache s ! i))" using j D(4) by simp
  have ip: "icache ?s' ! i = (icache s ! i)\<lparr>i_addrs := (i_addrs (icache s ! i))[j := ?a]\<rparr>"
    using D(2) by (simp add: set_addr_sel bs(2))
  have ind: "indirect s i \<noteq> 0 \<Longrightarrow> fb s1 (dev, unat (indirect s i)) = fb s (dev, unat (indirect s i))"
    using D(5) fr(1,4) by (intro bs(4)) (auto simp: data_block_def fresh_def not_bitmap)
  have ad: "(\<forall>bn<MAXFILE. addr_of ?s' i bn = (if bn = j then ?a else addr_of s i bn)) \<and> indirect ?s' i = indirect s i \<and> addr_of s i j = 0 \<or>
             (\<forall>bn<MAXFILE. addr_of ?s' i bn = addr_of s i bn) \<and> indirect ?s' i = ?a \<and> indirect s i = 0"
  proof (cases "j = NDIRECT")
    case T: True
    then have i0: "indirect s i = 0" "indirect ?s' i = ?a" using True jl ip by (simp_all add: indirect_def)
    have "addr_of ?s' i bn = addr_of s i bn" for bn
      using i0 T sp(4) fr(4) D(3) unfolding addr_of_def ip by (simp add: set_addr_sel)
    with i0 show ?thesis by simp
  next
    case F: False
    then have "j < NDIRECT" using j by simp
    then have i0: "indirect ?s' i = indirect s i" using ip by (simp add: indirect_def)
    have "addr_of ?s' i bn = (if bn = j then ?a else addr_of s i bn)" for bn
      using i0 \<open>j < NDIRECT\<close> jl ind D(3) unfolding addr_of_def ip by (simp add: set_addr_sel)
    moreover have "addr_of s i j = 0" using True \<open>j < NDIRECT\<close> by (simp add: addr_of_def)
    ultimately show ?thesis using i0 by simp
  qed
  have P: "fsb ?s' = fsb s" "icache ?s' = (icache s)[i := (icache s ! i)\<lparr>i_addrs := (i_addrs (icache s ! i))[j := ?a]\<rparr>]"
    "length ((i_addrs (icache s ! i))[j := ?a]) = NDIRECT + 1"
    using D(4) by (simp_all add: set_addr_sel bs)
  have U: "used dev ?s' c \<longleftrightarrow> c = unat ?a \<or> used dev s c" if "c < fs_size s" for c using that bs(3) u' fr(4) by simp
  have F: "fb ?s' k = fb s k" if "k \<noteq> (dev, unat ?a)" "\<not> is_bitmap dev s k" for k using bs(4) that fr(4) by (simp add: set_addr_sel)
  note new = new_block [OF wf fr(1-3) P U ad F]
  have "free_count dev ?s' = free_count dev s1" by (simp add: free_count_def u' set_addr_sel)
  moreover have "addr_or_alloc i j s = Inr (?a, ?s')" using True b(1) D(3) by (simp add: addr_or_alloc_def Let_def)
  moreover have "i_addrs (icache ?s' ! i) ! j = ?a" using ip jl by simp
  moreover have "j < NDIRECT \<longrightarrow> indirect ?s' i = indirect s i" using ip by (simp add: indirect_def)
  ultimately show ?thesis using True new b(3) fr(3) by simp
qed

lemma get_put32_word: "4 * e + 4 \<le> off \<or> off + 4 \<le> 4 * e \<or> off = 4 * e \<Longrightarrow>
    get32 (put32 d (4 * e) w) off = (if off = 4 * e then w else get32 d off)"
  by auto

lemma entry_spec:
  assumes wf: "inode_wf dev i s" and e: "NDIRECT \<le> bn" "bn < MAXFILE" and ind: "indirect s i \<noteq> 0" and z: "addr_of s i bn = 0"
    and fc: "free_count dev s > 0"
  shows "\<exists>b s1. balloc dev s = Inr (b, s1) \<and> (of_nat b :: u32) \<noteq> 0 \<and> free_count dev s = Suc (free_count dev s1) \<and>
     (let d = fb s (dev, unat (indirect s i));
          s' = set_blk (dev, unat (indirect s i)) (put32 d (4 * (bn - NDIRECT)) (of_nat b)) s1 in
        inode_wf dev i s' \<and> extends dev i s s' \<and> addr_of s' i bn = of_nat b \<and> indirect s' i = indirect s i \<and>
        free_count dev s' = free_count dev s1)"
proof -
  note D = inode_wfD [OF wf]
  obtain b s1 where b: "balloc dev s = Inr (b, s1)" "allocs dev s b s1" "free_count dev s = Suc (free_count dev s1)"
    using balloc_some [OF D(1) fc] by blast
  note sp = allocs_spec [OF D(1) b(2)] and fr = balloc_fresh [OF D(1) b(2)]
  have bs: "fsb s1 = fsb s" "icache s1 = icache s" "\<And>c. c < fs_size s \<Longrightarrow> used dev s1 c \<longleftrightarrow> c = b \<or> used dev s c"
    "\<And>k. k \<noteq> (dev, b) \<Longrightarrow> \<not> is_bitmap dev s k \<Longrightarrow> fb s1 k = fb s k"
    using sp(5) by (auto simp: block_spec_def)
  let ?a = "of_nat b :: u32" and ?I = "unat (indirect s i)"
  let ?s' = "set_blk (dev, ?I) (put32 (fb s (dev, ?I)) (4 * (bn - NDIRECT)) ?a) s1"
  note di = D(5) [OF ind]
  have iI: "indirect ?s' i = indirect s i" by (simp add: indirect_def bs(2))
  have ad: "addr_of ?s' i m = (if m = bn then ?a else addr_of s i m)" for m
  proof (cases "m < NDIRECT")
    case True
    then show ?thesis using e by (simp add: addr_of_def bs(2))
  next
    case False
    have "4 * (bn - NDIRECT) + 4 \<le> 4 * (m - NDIRECT) \<or> 4 * (m - NDIRECT) + 4 \<le> 4 * (bn - NDIRECT) \<or> 4 * (m - NDIRECT) = 4 * (bn - NDIRECT)"
      by arith
    then show ?thesis using False e ind D(3) iI
      by (auto simp: addr_of_def bs(2) get_put32_word)
  qed
  have "used dev ?s' c = used dev s1 c" if "c < fs_size s" for c
  proof (rule used_other)
    show "fb ?s' q = fb s1 q" if "fst q = dev" "snd q < data_start s1" for q
      using that di data_start_cong [OF bs(1)] by (cases q) (auto simp: data_block_def)
  qed (use that bs(1) in simp_all)
  then have U: "used dev ?s' c \<longleftrightarrow> c = unat ?a \<or> used dev s c" if "c < fs_size s" for c using that bs(3) fr(4) by simp
  have F: "fb ?s' q = fb s q" if "q \<noteq> (dev, unat ?a)" "\<not> is_bitmap dev s q" "indirect s i = 0 \<or> q \<noteq> (dev, ?I)" for q
    using bs(4) that fr(4) ind by simp
  have P: "fsb ?s' = fsb s" "icache ?s' = (icache s)[i := (icache s ! i)\<lparr>i_addrs := i_addrs (icache s ! i)\<rparr>]"
    using bs by simp_all
  have AD: "(\<forall>m<MAXFILE. addr_of ?s' i m = (if m = bn then ?a else addr_of s i m)) \<and> indirect ?s' i = indirect s i \<and> addr_of s i bn = 0 \<or>
             (\<forall>m<MAXFILE. addr_of ?s' i m = addr_of s i m) \<and> indirect ?s' i = ?a \<and> indirect s i = 0"
    using ad iI z by simp
  note new = new_block [OF wf fr(1-3) P D(4) U AD F]
  have "free_count dev ?s' = free_count dev s1"
  proof -
    have "{c. c < fs_size ?s' \<and> \<not> used dev ?s' c} = {c. c < fs_size s1 \<and> \<not> used dev s1 c}"
      using U bs(1,3) fr(4) by auto
    then show ?thesis by (simp add: free_count_def)
  qed
  with b(1,3) fr(3) new ad iI show ?thesis by (auto simp: Let_def)
qed

lemma bmap_spec:
  assumes wf: "inode_wf dev i s" and bn: "bn < MAXFILE"
    and fc: "addr_of s i bn = 0 \<Longrightarrow> free_count dev s \<ge> 1 + missing_indirect s i"
  shows "\<exists>a s'. bmap i bn s = Inr (a, s') \<and> a \<noteq> 0 \<and> addr_of s' i bn = a \<and> inode_wf dev i s' \<and> extends dev i s s' \<and>
     free_count dev s + missing_indirect s' i \<le> free_count dev s' + 1 + missing_indirect s i \<and>
     (addr_of s i bn \<noteq> 0 \<longrightarrow> s' = s)"
proof (cases "bn < NDIRECT")
  case True
  have "i_addrs (icache s ! i) ! bn = addr_of s i bn" using True by (simp add: addr_of_def)
  with addr_or_alloc_spec [OF wf, of bn] fc True obtain a s' where
    a: "addr_or_alloc i bn s = Inr (a, s')" "a \<noteq> 0" "i_addrs (icache s' ! i) ! bn = a" "inode_wf dev i s'" "extends dev i s s'"
      "if addr_of s i bn = 0 then free_count dev s = Suc (free_count dev s') else s' = s" "indirect s' i = indirect s i"
    by fastforce
  have "bmap i bn s = Inr (a, s')" using True a(1) by (simp add: bmap_def)
  moreover have "addr_of s' i bn = a" using True a(3) by (simp add: addr_of_def)
  moreover have "missing_indirect s' i = missing_indirect s i" using a(7) by (simp add: missing_indirect_def)
  moreover have "free_count dev s \<le> free_count dev s' + 1" using a(6) by (auto split: if_splits)
  moreover have "addr_of s i bn \<noteq> 0 \<longrightarrow> s' = s" using a(6) by (auto split: if_splits)
  ultimately show ?thesis using a(2,4,5) by (intro exI [of _ a] exI [of _ s']) simp
next
  case False
  let ?e = "bn - NDIRECT"
  have e: "?e < NINDIRECT" "NDIRECT \<le> bn" using bn False by (auto simp: MAXFILE_def)
  have i0: "i_addrs (icache s ! i) ! NDIRECT = indirect s i" by (simp add: indirect_def)
  have az: "indirect s i = 0 \<Longrightarrow> addr_of s i bn = 0" using False by (simp add: addr_of_def)
  have fc0: "i_addrs (icache s ! i) ! NDIRECT = 0 \<Longrightarrow> free_count dev s > 0" using fc az i0 by simp
  obtain ind s1 where
    q: "addr_or_alloc i NDIRECT s = Inr (ind, s1)" "ind \<noteq> 0" "i_addrs (icache s1 ! i) ! NDIRECT = ind" "inode_wf dev i s1" "extends dev i s s1"
      "if i_addrs (icache s ! i) ! NDIRECT = 0 then free_count dev s = Suc (free_count dev s1) else s1 = s"
    by (rule exE [OF addr_or_alloc_spec [OF wf order_refl fc0]], assumption, elim exE conjE, rule that)
  have s1: "addr_or_alloc i NDIRECT s = Inr (ind, s1)" "ind \<noteq> 0" "indirect s1 i = ind" "inode_wf dev i s1" "extends dev i s s1"
      "if indirect s i = 0 then free_count dev s = Suc (free_count dev s1) else s1 = s"
    using q by (simp_all add: indirect_def)
  have dev: "i_dev (icache s ! i) = dev" "i_dev (icache s1 ! i) = dev" using inode_wfD(3) wf s1(4) by blast+
  have at: "get32 (fb s1 (dev, unat ind)) (4 * ?e) = addr_of s1 i bn" using False s1(2,3) dev by (simp add: addr_of_def)
  have m1: "missing_indirect s1 i = 0" using s1(2,3) by (simp add: missing_indirect_def)
  show ?thesis
  proof (cases "addr_of s1 i bn = 0")
    case F: False
    have "bmap i bn s = Inr (addr_of s1 i bn, s1)" using False e s1(1) dev at F by (simp add: bmap_def Let_def)
    moreover have "addr_of s i bn \<noteq> 0 \<longrightarrow> s1 = s" using az s1(6) by (auto split: if_splits)
    moreover have "free_count dev s + missing_indirect s1 i \<le> free_count dev s1 + 1 + missing_indirect s i"
      using s1(6) m1 by (auto split: if_splits)
    ultimately show ?thesis using F s1(4,5) by blast
  next
    case T: True
    have "addr_of s i bn = 0" using s1(5) T bn unfolding extends_def by metis
    with fc s1(6) have "free_count dev s1 > 0" by (auto simp: missing_indirect_def split: if_splits)
    from entry_spec [OF s1(4) e(2) bn _ T this] s1(2,3) obtain b s2 where
      b: "balloc dev s1 = Inr (b, s2)" "(of_nat b :: u32) \<noteq> 0" "free_count dev s1 = Suc (free_count dev s2)"
      and s': "let d = fb s1 (dev, unat ind); s' = set_blk (dev, unat ind) (put32 d (4 * ?e) (of_nat b)) s2 in
        inode_wf dev i s' \<and> extends dev i s1 s' \<and> addr_of s' i bn = of_nat b \<and> indirect s' i = ind \<and> free_count dev s' = free_count dev s2"
      by auto
    let ?s' = "set_blk (dev, unat ind) (put32 (fb s1 (dev, unat ind)) (4 * ?e) (of_nat b)) s2"
    have "bmap i bn s = Inr (of_nat b, ?s')" using False e s1(1) dev at T b(1) by (simp add: bmap_def Let_def)
    moreover have "extends dev i s ?s'" using extends_trans [OF s1(5)] s' inode_wfD(2) [OF wf] by (auto simp: Let_def)
    moreover have "missing_indirect ?s' i = 0" using s' s1(2) by (simp add: missing_indirect_def Let_def)
    moreover have "free_count dev s \<le> free_count dev ?s' + 1 + missing_indirect s i"
      using s1(6) b(3) s' by (auto simp: missing_indirect_def Let_def split: if_splits)
    ultimately show ?thesis using b(2) s' \<open>addr_of s i bn = 0\<close> by (intro exI [of _ "of_nat b"] exI [of _ ?s']) (simp add: Let_def)
  qed
qed

section \<open>The bytes of a file\<close>

definition file_byte :: "fs \<Rightarrow> nat \<Rightarrow> nat \<Rightarrow> u8" where
  "file_byte s i p = fb s (i_dev (icache s ! i), unat (addr_of s i (p div BSIZE))) (p mod BSIZE)"

definition owns :: "fs \<Rightarrow> nat \<Rightarrow> nat \<Rightarrow> bool" where
  "owns s i c \<longleftrightarrow> indirect s i \<noteq> 0 \<and> c = unat (indirect s i) \<or> (\<exists>bn<MAXFILE. addr_of s i bn \<noteq> 0 \<and> c = unat (addr_of s i bn))"

text \<open>The step from \<open>s\<close> to \<open>s'\<close> stores \<open>src\<close> at \<open>off\<close> of file \<open>i\<close> and disturbs nothing else.\<close>

definition written :: "nat \<Rightarrow> nat \<Rightarrow> nat \<Rightarrow> u8 list \<Rightarrow> fs \<Rightarrow> fs \<Rightarrow> bool" where
  "written dev i off src s s' \<longleftrightarrow>
     fsb s' = fsb s \<and> (\<exists>as. icache s' = (icache s)[i := (icache s ! i)\<lparr>i_addrs := as\<rparr>]) \<and>
     (\<forall>p<MAXFILE * BSIZE. off \<le> p \<and> p < off + length src \<longrightarrow> addr_of s' i (p div BSIZE) \<noteq> 0 \<and> file_byte s' i p = src ! (p - off)) \<and>
     (\<forall>p<MAXFILE * BSIZE. p < off \<or> off + length src \<le> p \<longrightarrow> addr_of s i (p div BSIZE) \<noteq> 0 \<longrightarrow>
        addr_of s' i (p div BSIZE) \<noteq> 0 \<and> file_byte s' i p = file_byte s i p) \<and>
     (\<forall>c<fs_size s. used dev s c \<longrightarrow> used dev s' c) \<and>
     (\<forall>c. owns s' i c \<longrightarrow> owns s i c \<or> c < fs_size s \<and> \<not> used dev s c) \<and>
     (\<forall>c<fs_size s. used dev s c \<longrightarrow> data_start s \<le> c \<longrightarrow> \<not> owns s i c \<longrightarrow> fb s' (dev, c) = fb s (dev, c)) \<and>
     (\<forall>k. fst k \<noteq> dev \<or> snd k < unat (sb_bmapstart (fsb s)) \<longrightarrow> fb s' k = fb s k)"

lemma writtenD:
  assumes "written dev i off src s s'"
  shows "fsb s' = fsb s" "\<exists>as. icache s' = (icache s)[i := (icache s ! i)\<lparr>i_addrs := as\<rparr>]"
    "p < MAXFILE * BSIZE \<Longrightarrow> off \<le> p \<Longrightarrow> p < off + length src \<Longrightarrow> addr_of s' i (p div BSIZE) \<noteq> 0 \<and> file_byte s' i p = src ! (p - off)"
    "p < MAXFILE * BSIZE \<Longrightarrow> p < off \<or> off + length src \<le> p \<Longrightarrow> addr_of s i (p div BSIZE) \<noteq> 0 \<Longrightarrow>
        addr_of s' i (p div BSIZE) \<noteq> 0 \<and> file_byte s' i p = file_byte s i p"
    "c < fs_size s \<Longrightarrow> used dev s c \<Longrightarrow> used dev s' c"
    "owns s' i c \<Longrightarrow> owns s i c \<or> c < fs_size s \<and> \<not> used dev s c"
    "c < fs_size s \<Longrightarrow> used dev s c \<Longrightarrow> data_start s \<le> c \<Longrightarrow> \<not> owns s i c \<Longrightarrow> fb s' (dev, c) = fb s (dev, c)"
    "fst k \<noteq> dev \<or> snd k < unat (sb_bmapstart (fsb s)) \<Longrightarrow> fb s' k = fb s k"
  using assms unfolding written_def by blast+

lemma written_Nil: "written dev i off [] s s"
  unfolding written_def by (auto intro!: exI [of _ "i_addrs (icache s ! i)"])

lemma written_trans:
  assumes "written dev i off a s s1" "written dev i (off + length a) b s1 s2" "i < length (icache s)"
  shows "written dev i off (a @ b) s s2"
proof -
  note A = writtenD [OF assms(1)] and B = writtenD [OF assms(2)]
  from A(2) obtain as where as: "icache s1 = (icache s)[i := (icache s ! i)\<lparr>i_addrs := as\<rparr>]" by blast
  from B(2) obtain as' where as': "icache s2 = (icache s1)[i := (icache s1 ! i)\<lparr>i_addrs := as'\<rparr>]" by blast
  have ds: "data_start s1 = data_start s" using A(1) by (rule data_start_cong)
  show ?thesis unfolding written_def
  proof (intro conjI allI impI)
    show "\<exists>as. icache s2 = (icache s)[i := (icache s ! i)\<lparr>i_addrs := as\<rparr>]" using as as' assms(3) by (intro exI [of _ as']) simp
    show "fsb s2 = fsb s" using A(1) B(1) by simp
    fix c assume c: "owns s2 i c"
    show "owns s i c \<or> c < fs_size s \<and> \<not> used dev s c" using B(6) [OF c] A(5,6) A(1) by metis
  next
    fix p assume p: "p < MAXFILE * BSIZE" "off \<le> p \<and> p < off + length (a @ b)"
    have "addr_of s2 i (p div BSIZE) \<noteq> 0 \<and> file_byte s2 i p = (a @ b) ! (p - off)"
    proof (cases "p < off + length a")
      case True
      with A(3) [OF p(1)] B(4) [OF p(1)] p(2) show ?thesis by (simp add: nth_append less_diff_conv2)
    next
      case False
      with B(3) [OF p(1)] p(2) show ?thesis by (simp add: nth_append less_diff_conv2)
    qed
    then show "addr_of s2 i (p div BSIZE) \<noteq> 0" "file_byte s2 i p = (a @ b) ! (p - off)" by simp_all
  next
    fix p assume p: "p < MAXFILE * BSIZE" "p < off \<or> off + length (a @ b) \<le> p" "addr_of s i (p div BSIZE) \<noteq> 0"
    with A(4) [OF p(1)] B(4) [OF p(1)]
    have "addr_of s2 i (p div BSIZE) \<noteq> 0 \<and> file_byte s2 i p = file_byte s i p" by auto
    then show "addr_of s2 i (p div BSIZE) \<noteq> 0" "file_byte s2 i p = file_byte s i p" by simp_all
  next
    fix c assume c: "c < fs_size s" "used dev s c"
    show "used dev s2 c" using A(5) [OF c] B(5) c(1) A(1) by simp
    assume d: "data_start s \<le> c" "\<not> owns s i c"
    have "\<not> owns s1 i c" using A(6) c d(2) by blast
    with B(7) [of c] A(5) [OF c] A(1) c(1) d(1) ds A(7) [OF c d] show "fb s2 (dev, c) = fb s (dev, c)" by simp
  next
    fix k assume "fst k \<noteq> dev \<or> snd k < unat (sb_bmapstart (fsb s))"
    then show "fb s2 k = fb s k" using A(1,8) B(8) by simp
  qed
qed

lemma store_block:
  assumes wf: "inode_wf dev i s" and bn: "bn < MAXFILE" "addr_of s i bn \<noteq> 0" and s': "s' = set_blk (dev, unat (addr_of s i bn)) d s"
  shows "inode_wf dev i s'" "addr_of s' i m = addr_of s i m" "indirect s' i = indirect s i"
    "c < fs_size s \<Longrightarrow> used dev s' c = used dev s c" "free_count dev s' = free_count dev s"
proof -
  note D = inode_wfD [OF wf]
  have db: "data_block dev s (addr_of s i bn)" using D(6) bn by blast
  have I: "indirect s' i = indirect s i" by (simp add: indirect_def s')
  have "indirect s i \<noteq> 0 \<Longrightarrow> unat (indirect s i) \<noteq> unat (addr_of s i bn)" using D(7) [OF bn] by (metis word_unat_eq_iff)
  then have fbI: "indirect s i \<noteq> 0 \<Longrightarrow> fb s' (dev, unat (indirect s i)) = fb s (dev, unat (indirect s i))" by (simp add: s')
  have ic: "icache s' = icache s" by (simp add: s')
  have A: "addr_of s' i m = addr_of s i m" for m unfolding addr_of_def I ic D(3) by (simp add: fbI)
  have U: "used dev s' c = used dev s c" if "c < fs_size s" for c
    by (rule used_other) (use that db in \<open>auto simp: s' data_block_def\<close>)
  have fsb: "fsb s' = fsb s" by (simp add: s')
  then have ds: "data_start s' = data_start s" by (rule data_start_cong)
  have db': "data_block dev s' x = data_block dev s x" for x using U by (auto simp: data_block_def ds fsb)
  have "layout_ok dev s' = layout_ok dev s" using U by (auto simp: layout_ok_def ds fsb)
  then show "inode_wf dev i s'" using wf unfolding inode_wf_def A I db' by (simp add: s')
  have "{c. c < fs_size s' \<and> \<not> used dev s' c} = {c. c < fs_size s \<and> \<not> used dev s c}" using U by (auto simp: s')
  then show "free_count dev s' = free_count dev s" by (simp add: free_count_def)
  show "addr_of s' i m = addr_of s i m" "indirect s' i = indirect s i" "c < fs_size s \<Longrightarrow> used dev s' c = used dev s c"
    using A I U by blast+
qed

lemma owns_extends:
  assumes "extends dev i s s'" "owns s' i c"
  shows "owns s i c \<or> c < fs_size s \<and> \<not> used dev s c"
  using assms unfolding extends_def owns_def fresh_def by metis

lemma owned_not_fresh: "inode_wf dev i s \<Longrightarrow> owns s i c \<Longrightarrow> c < fs_size s \<and> used dev s c"
  unfolding owns_def inode_wf_def data_block_def by blast

lemma div_in_block:
  assumes "off \<le> p" "p < off + m" "off mod BSIZE + m \<le> BSIZE"
  shows "p div BSIZE = off div BSIZE" "p mod BSIZE = off mod BSIZE + (p - off)"
proof -
  have o: "off = BSIZE * (off div BSIZE) + off mod BSIZE" by simp
  show q: "p div BSIZE = off div BSIZE"
  proof (rule div_nat_eqI)
    show "BSIZE * (off div BSIZE) \<le> p" using o assms(1) by linarith
    have "BSIZE * Suc (off div BSIZE) = BSIZE * (off div BSIZE) + BSIZE" by simp
    then show "p < BSIZE * Suc (off div BSIZE)" using o assms by linarith
  qed
  show "p mod BSIZE = off mod BSIZE + (p - off)"
    using o assms(1) unfolding minus_mult_div_eq_mod [of p BSIZE, symmetric] q by linarith
qed

lemma write_step:
  assumes wf: "inode_wf dev i s" and bn: "off div BSIZE < MAXFILE" and len: "off mod BSIZE + length src \<le> BSIZE"
    and fc: "free_count dev s \<ge> 1 + missing_indirect s i"
  shows "\<exists>a s1. bmap i (off div BSIZE) s = Inr (a, s1) \<and>
     (let s2 = set_blk (dev, unat a) (blit (fb s1 (dev, unat a)) (off mod BSIZE) src) s1 in
        inode_wf dev i s2 \<and> written dev i off src s s2 \<and>
        free_count dev s + missing_indirect s2 i \<le> free_count dev s2 + 1 + missing_indirect s i)"
proof -
  let ?bn = "off div BSIZE"
  obtain a s1 where
    b: "bmap i ?bn s = Inr (a, s1)" "a \<noteq> 0" "addr_of s1 i ?bn = a" "inode_wf dev i s1" "extends dev i s s1"
      "free_count dev s + missing_indirect s1 i \<le> free_count dev s1 + 1 + missing_indirect s i"
    using bmap_spec [OF wf bn] fc by blast
  define s2 where "s2 = set_blk (dev, unat a) (blit (fb s1 (dev, unat a)) (off mod BSIZE) src) s1"
  have az: "addr_of s1 i ?bn \<noteq> 0" using b(2,3) by simp
  note st = store_block [OF b(4) bn az, unfolded b(3), OF s2_def]
  have E: "fsb s1 = fsb s" "\<exists>as. icache s1 = (icache s)[i := (icache s ! i)\<lparr>i_addrs := as\<rparr>]"
    "\<And>bn. bn < MAXFILE \<Longrightarrow> addr_of s i bn \<noteq> 0 \<Longrightarrow> addr_of s1 i bn = addr_of s i bn"
    "\<And>c. c < fs_size s \<Longrightarrow> used dev s c \<Longrightarrow> used dev s1 c"
    "\<And>c. c < fs_size s \<Longrightarrow> used dev s c \<Longrightarrow> data_start s \<le> c \<Longrightarrow> indirect s i = 0 \<or> c \<noteq> unat (indirect s i) \<Longrightarrow> fb s1 (dev, c) = fb s (dev, c)"
    "\<And>k. fst k \<noteq> dev \<or> snd k < unat (sb_bmapstart (fsb s)) \<Longrightarrow> fb s1 k = fb s k"
    using b(5) unfolding extends_def by blast+
  have D: "i_dev (icache s ! i) = dev" "i_dev (icache s1 ! i) = dev" "i_dev (icache s2 ! i) = dev"
    using inode_wfD(3) wf b(4) st(1) by blast+
  have oa: "owns s1 i (unat a)" unfolding owns_def using bn b(2,3) by metis
  have owns2: "owns s2 i c = owns s1 i c" for c unfolding owns_def st(2,3) by (rule refl)
  have adb: "data_start s \<le> unat a" using inode_wfD(6) [OF b(4) bn az] data_start_cong [OF E(1)] b(3) by (simp add: data_block_def)
  have f2: "k \<noteq> (dev, unat a) \<Longrightarrow> fb s2 k = fb s1 k" for k by (simp add: s2_def)
  have "written dev i off src s s2" unfolding written_def
  proof (intro conjI allI impI)
    show "\<exists>as. icache s2 = (icache s)[i := (icache s ! i)\<lparr>i_addrs := as\<rparr>]" using E(2) by (simp add: s2_def)
    show "fsb s2 = fsb s" using E(1) by (simp add: s2_def)
    show "owns s i c \<or> c < fs_size s \<and> \<not> used dev s c" if "owns s2 i c" for c
      using owns_extends [OF b(5)] that unfolding owns2 by blast
    show "used dev s2 c" if "c < fs_size s" "used dev s c" for c using E(1,4) st(4) [of c] that by simp
  next
    fix p assume p: "p < MAXFILE * BSIZE" "off \<le> p \<and> p < off + length src"
    note q = div_in_block [OF conjunct1 [OF p(2)] conjunct2 [OF p(2)] len]
    show "addr_of s2 i (p div BSIZE) \<noteq> 0" unfolding q(1) st(2) by (rule az)
    show "file_byte s2 i p = src ! (p - off)"
      unfolding file_byte_def q st(2) b(3) D using p(2) by (auto simp: s2_def blit_def)
  next
    fix p assume p: "p < MAXFILE * BSIZE" "p < off \<or> off + length src \<le> p" "addr_of s i (p div BSIZE) \<noteq> 0"
    have bp: "p div BSIZE < MAXFILE" using p(1) by (simp add: less_mult_imp_div_less)
    note e = E(3) [OF bp p(3)]
    show "addr_of s2 i (p div BSIZE) \<noteq> 0" using p(3) e unfolding st(2) by simp
    have "fb s1 (dev, unat (addr_of s i (p div BSIZE))) = fb s (dev, unat (addr_of s i (p div BSIZE)))"
    proof (rule E(5))
      show "indirect s i = 0 \<or> unat (addr_of s i (p div BSIZE)) \<noteq> unat (indirect s i)"
        using inode_wfD(7) [OF wf bp p(3)] by (metis word_unat_eq_iff)
    qed (use inode_wfD(6) [OF wf bp p(3)] in \<open>simp_all add: data_block_def\<close>)
    then have same: "file_byte s1 i p = file_byte s i p" unfolding file_byte_def D e by simp
    have "file_byte s2 i p = file_byte s1 i p"
    proof (cases "p div BSIZE = ?bn")
      case True
      then have "p mod BSIZE < off mod BSIZE \<or> off mod BSIZE + length src \<le> p mod BSIZE"
        using p(2) by (metis add.assoc add_le_cancel_left div_mult_mod_eq nat_add_left_cancel_less)
      then show ?thesis unfolding file_byte_def st(2) D True b(3) by (auto simp: s2_def blit_def)
    next
      case False
      have "addr_of s1 i (p div BSIZE) \<noteq> addr_of s1 i ?bn" using inode_wfD(8) [OF b(4) bp bn] p(3) e False by metis
      then have "unat (addr_of s1 i (p div BSIZE)) \<noteq> unat a" using b(3) by (metis word_unat_eq_iff)
      then show ?thesis unfolding file_byte_def st(2) D by (simp add: f2)
    qed
    with same show "file_byte s2 i p = file_byte s i p" by simp
  next
    fix c assume c: "c < fs_size s" "used dev s c" "data_start s \<le> c" "\<not> owns s i c"
    have "c \<noteq> unat a" using owns_extends [OF b(5) oa] c(2,4) by blast
    moreover have "fb s1 (dev, c) = fb s (dev, c)" by (rule E(5)) (use c in \<open>auto simp: owns_def\<close>)
    ultimately show "fb s2 (dev, c) = fb s (dev, c)" by (simp add: f2)
  next
    fix k assume k: "fst k \<noteq> dev \<or> snd k < unat (sb_bmapstart (fsb s))"
    have "unat (sb_bmapstart (fsb s)) < data_start s" by (simp add: data_start_def)
    with k adb have "k \<noteq> (dev, unat a)" by auto
    then show "fb s2 k = fb s k" using E(6) [OF k] f2 by simp
  qed
  moreover have "missing_indirect s2 i = missing_indirect s1 i" by (simp add: missing_indirect_def st(3))
  ultimately show ?thesis using b(1,6) st(1,5) unfolding s2_def [symmetric] Let_def by (intro exI [of _ a] exI [of _ s1]) (simp add: s2_def)
qed

section \<open>The loops of \<open>readi\<close> and \<open>writei\<close>\<close>

text \<open>The number of blocks that \<open>n\<close> bytes from \<open>off\<close> touch.\<close>

definition span :: "nat \<Rightarrow> nat \<Rightarrow> nat" where
  "span off n = (if n = 0 then 0 else (off + n - 1) div BSIZE - off div BSIZE + 1)"

lemma span_step:
  assumes "0 < n" "m = min n (BSIZE - off mod BSIZE)"
  shows "span off n = Suc (span (off + m) (n - m))" "off mod BSIZE + m \<le> BSIZE" "0 < m"
proof -
  have lt: "off mod BSIZE < BSIZE" by (simp add: BSIZE_def)
  then show "off mod BSIZE + m \<le> BSIZE" "0 < m" using assms by simp_all
  have o: "off = BSIZE * (off div BSIZE) + off mod BSIZE" by simp
  show "span off n = Suc (span (off + m) (n - m))"
  proof (cases "n \<le> BSIZE - off mod BSIZE")
    case True
    have "(off + n - 1) div BSIZE = off div BSIZE"
      by (rule div_in_block(1) [of off _ n]) (use True lt assms(1) in \<open>simp_all\<close>)
    then show ?thesis using True assms by (simp add: span_def)
  next
    case False
    then have m: "m = BSIZE - off mod BSIZE" "m < n" using assms(2) by simp_all
    have "BSIZE * (off div BSIZE + 1) = BSIZE * (off div BSIZE) + BSIZE" by simp
    then have nx: "off + m = BSIZE * (off div BSIZE + 1)" using o m(1) lt by linarith
    have d: "(off + m) div BSIZE = off div BSIZE + 1" unfolding nx by (simp add: BSIZE_def)
    have "off + m \<le> off + n - 1" using m(2) by simp
    then have "(off + m) div BSIZE \<le> (off + n - 1) div BSIZE" by (rule div_le_mono)
    moreover have "off + m + (n - m) - 1 = off + n - 1" using m(2) by simp
    ultimately show ?thesis using m(2) assms(1) d by (simp add: span_def)
  qed
qed

lemma write_loop:
  assumes "inode_wf dev i s" "off + length src \<le> MAXFILE * BSIZE" "missing_indirect s i + span off (length src) \<le> free_count dev s"
  shows "\<exists>s'. write_blocks i off src s = Inr s' \<and> inode_wf dev i s' \<and> written dev i off src s s'"
  using assms
proof (induction i off src s rule: write_blocks.induct)
  case (1 i off src s)
  show ?case
  proof (cases "src = []")
    case True
    then show ?thesis using "1.prems"(1) written_Nil by (simp add: write_blocks.simps)
  next
    case False
    define m where "m = min (length src) (BSIZE - off mod BSIZE)"
    have "0 < length src" using False by simp
    note sp = span_step [OF this m_def]
    have lt: "off < MAXFILE * BSIZE" using "1.prems"(2) False by (cases src) simp_all
    have bn: "off div BSIZE < MAXFILE" using lt by (simp add: less_mult_imp_div_less)
    have lm: "length (take m src) = m" by (simp add: m_def)
    have fc: "1 + missing_indirect s i \<le> free_count dev s" using "1.prems"(3) sp(1) by simp
    have le: "off mod BSIZE + length (take m src) \<le> BSIZE" using sp(2) lm by simp
    obtain a s1 where b: "bmap i (off div BSIZE) s = Inr (a, s1)" and
      w: "let s2 = set_blk (dev, unat a) (blit (fb s1 (dev, unat a)) (off mod BSIZE) (take m src)) s1 in
        inode_wf dev i s2 \<and> written dev i off (take m src) s s2 \<and>
        free_count dev s + missing_indirect s2 i \<le> free_count dev s2 + 1 + missing_indirect s i"
      using write_step [OF "1.prems"(1) bn le fc] by blast
    have dev: "i_dev (icache s ! i) = dev" by (rule inode_wfD(3) [OF "1.prems"(1)])
    define s2 where "s2 = set_blk (dev, unat a) (blit (fb s1 (dev, unat a)) (off mod BSIZE) (take m src)) s1"
    have w2: "inode_wf dev i s2" "written dev i off (take m src) s s2"
      "free_count dev s + missing_indirect s2 i \<le> free_count dev s2 + 1 + missing_indirect s i"
      using w unfolding s2_def [symmetric] Let_def by blast+
    have ih: "\<exists>s'. write_blocks i (off + m) (drop m src) s2 = Inr s' \<and> inode_wf dev i s' \<and> written dev i (off + m) (drop m src) s2 s'"
    proof (rule "1.IH" [OF False b refl m_def refl, unfolded dev, folded s2_def])
      show "missing_indirect s2 i + span (off + m) (length (drop m src)) \<le> free_count dev s2"
        using w2(3) "1.prems"(3) sp(1) by simp
      show "off + m + length (drop m src) \<le> MAXFILE * BSIZE" using "1.prems"(2) by (simp add: m_def)
    qed (use w2(1) in simp_all)
    then obtain s' where s': "write_blocks i (off + m) (drop m src) s2 = Inr s'" "inode_wf dev i s'" "written dev i (off + m) (drop m src) s2 s'"
      by blast
    have "written dev i off (take m src @ drop m src) s s'"
      by (rule written_trans [OF w2(2) _ inode_wfD(2) [OF "1.prems"(1)]]) (unfold lm, rule s'(3))
    moreover have "write_blocks i off src s = Inr s'"
      using False b s'(1) by (subst write_blocks.simps) (simp add: Let_def dev m_def [symmetric] s2_def [symmetric])
    ultimately show ?thesis using s'(2) by simp
  qed
qed

lemma readi_loop_spec:
  assumes "inode_wf dev i s" "off + n \<le> MAXFILE * BSIZE" "\<And>p. off \<le> p \<Longrightarrow> p < off + n \<Longrightarrow> addr_of s i (p div BSIZE) \<noteq> 0"
  shows "read_blocks_of i off n s = Inr (map (file_byte s i) [off..<off + n], s)"
  using assms
proof (induction n arbitrary: off rule: less_induct)
  case (less n)
  show ?case
  proof (cases "n = 0")
    case True
    then show ?thesis by (simp add: read_blocks_of.simps)
  next
    case False
    define m where "m = min n (BSIZE - off mod BSIZE)"
    have "0 < n" using False by simp
    note sp = span_step [OF this m_def]
    have lt: "off < MAXFILE * BSIZE" using less.prems(2) False by simp
    have bn: "off div BSIZE < MAXFILE" using lt by (simp add: less_mult_imp_div_less)
    have nz: "addr_of s i (off div BSIZE) \<noteq> 0" using less.prems(3) [of off] False by simp
    have b: "bmap i (off div BSIZE) s = Inr (addr_of s i (off div BSIZE), s)"
      using bmap_spec [OF less.prems(1) bn] nz by blast
    have dev: "i_dev (icache s ! i) = dev" by (rule inode_wfD(3) [OF less.prems(1)])
    have "m \<le> n" by (simp add: m_def)
    then have ih: "read_blocks_of i (off + m) (n - m) s = Inr (map (file_byte s i) [off + m..<off + m + (n - m)], s)"
      using sp(3) less.prems by (intro less.IH) simp_all
    have "map (fb s (dev, unat (addr_of s i (off div BSIZE)))) [off mod BSIZE..<off mod BSIZE + m] = map (file_byte s i) [off..<off + m]"
    proof (rule nth_equalityI)
      fix j assume "j < length (map (fb s (dev, unat (addr_of s i (off div BSIZE)))) [off mod BSIZE..<off mod BSIZE + m])"
      then have "j < m" by simp
      then show "map (fb s (dev, unat (addr_of s i (off div BSIZE)))) [off mod BSIZE..<off mod BSIZE + m] ! j = map (file_byte s i) [off..<off + m] ! j"
        using div_in_block [of off "off + j" m] sp(2) by (simp add: file_byte_def dev)
    qed simp
    moreover have "[off..<off + n] = [off..<off + m] @ [off + m..<off + m + (n - m)]"
      using \<open>m \<le> n\<close> upt_add_eq_append [of off "off + m" "n - m"] by simp
    ultimately show ?thesis
      using False b ih by (subst read_blocks_of.simps) (simp add: Let_def dev m_def [symmetric])
  qed
qed

section \<open>Files as arrays of bytes\<close>

definition contents :: "fs \<Rightarrow> nat \<Rightarrow> u8 list" where
  "contents s i = map (file_byte s i) [0..<unat (i_size (icache s ! i))]"

definition no_holes :: "fs \<Rightarrow> nat \<Rightarrow> bool" where
  "no_holes s i \<longleftrightarrow> unat (i_size (icache s ! i)) \<le> MAXFILE * BSIZE \<and>
     (\<forall>p<unat (i_size (icache s ! i)). addr_of s i (p div BSIZE) \<noteq> 0)"

lemma readi_contents:
  assumes "inode_wf dev i s" "i_type (icache s ! i) \<noteq> T_DEV" "no_holes s i"
    "unat off \<le> unat (i_size (icache s ! i))" "unat off + unat n < 2 ^ 32"
  shows "readi dv i off n s = Inr (Some (take (unat n) (drop (unat off) (contents s i))), s)"
proof -
  define n' where "n' = (if off + n > i_size (icache s ! i) then i_size (icache s ! i) - off else n)"
  have un: "unat (off + n) = unat off + unat n" using assms(5) by (simp add: unat_word_ariths)
  have le: "off \<le> i_size (icache s ! i)" using assms(4) by (simp add: word_le_nat_alt)
  have n': "unat n' = min (unat n) (unat (i_size (icache s ! i)) - unat off)"
    using unat_sub [OF le] un by (auto simp: n'_def word_less_nat_alt)
  have "read_blocks_of i (unat off) (unat n') s = Inr (map (file_byte s i) [unat off..<unat off + unat n'], s)"
    by (rule readi_loop_spec [OF assms(1)]) (use assms(3,4) n' in \<open>auto simp: no_holes_def\<close>)
  moreover have "map (file_byte s i) [unat off..<unat off + unat n'] = take (unat n) (drop (unat off) (contents s i))"
    using assms(4) n' by (simp add: contents_def take_map drop_map drop_upt min_def)
  moreover have "\<not> (off > i_size (icache s ! i) \<or> off + n < off)"
    using le un by (simp add: word_less_nat_alt word_le_nat_alt)
  ultimately show ?thesis using assms(2) by (simp add: readi_def n'_def [symmetric] Let_def)
qed

text \<open>Setting the size and writing the inode back touches the inode's block only.\<close>

lemma set_size_spec:
  assumes wf: "inode_wf dev i s" and ib: "IBLOCK (i_inum (icache s ! i)) (fsb s) < unat (sb_bmapstart (fsb s))"
    and s': "s' = iupdate i (upd_ip i (\<lambda>p. p\<lparr>i_size := z\<rparr>) s)"
  shows "inode_wf dev i s'" "addr_of s' i m = addr_of s i m" "owns s' i c = owns s i c"
    "p < MAXFILE * BSIZE \<Longrightarrow> addr_of s i (p div BSIZE) \<noteq> 0 \<Longrightarrow> file_byte s' i p = file_byte s i p"
    "data_start s \<le> c \<Longrightarrow> fb s' (dev, c) = fb s (dev, c)" "icache s' ! i = (icache s ! i)\<lparr>i_size := z\<rparr>"
proof -
  note D = inode_wfD [OF wf]
  have lo: "unat (sb_bmapstart (fsb s)) < data_start s" by (simp add: data_start_def)
  have fsb: "fsb s' = fsb s" by (simp add: s' iupdate_def Let_def)
  then have ds: "data_start s' = data_start s" by (rule data_start_cong)
  show ip: "icache s' ! i = (icache s ! i)\<lparr>i_size := z\<rparr>" using D(2) by (simp add: s' iupdate_def Let_def)
  have len: "length (icache s') = length (icache s)" by (simp add: s' iupdate_def Let_def)
  have fb: "fb s' k = fb s k" if "k \<noteq> (dev, IBLOCK (i_inum (icache s ! i)) (fsb s))" for k
    using D(2,3) that by (simp add: s' iupdate_def Let_def)
  show dfb: "fb s' (dev, c) = fb s (dev, c)" if "data_start s \<le> c" for c by (rule fb) (use that ib lo in simp)
  have I: "indirect s' i = indirect s i" by (simp add: indirect_def ip)
  have fbI: "indirect s i \<noteq> 0 \<Longrightarrow> fb s' (dev, unat (indirect s i)) = fb s (dev, unat (indirect s i))"
    using D(5) dfb by (simp add: data_block_def)
  have A: "addr_of s' i m = addr_of s i m" for m
    unfolding addr_of_def I using D(3) fbI by (simp add: ip)
  have U: "used dev s' c = used dev s c" if "c < fs_size s" for c
  proof (rule used_cong [OF fsb], rule fb)
    show "bm_key dev s c \<noteq> (dev, IBLOCK (i_inum (icache s ! i)) (fsb s))" using ib by (simp add: bm_key_def)
  qed
  have db': "data_block dev s' x = data_block dev s x" for x using U by (auto simp: data_block_def ds fsb)
  have lay: "layout_ok dev s' = layout_ok dev s" using U by (auto simp: layout_ok_def ds fsb)
  show "inode_wf dev i s'" using wf unfolding inode_wf_def A I db' lay by (simp add: ip len)
  show "addr_of s' i m = addr_of s i m" "owns s' i c = owns s i c" by (simp_all add: owns_def A I)
  show "file_byte s' i p = file_byte s i p" if p: "p < MAXFILE * BSIZE" "addr_of s i (p div BSIZE) \<noteq> 0"
  proof -
    have "p div BSIZE < MAXFILE" using p(1) by (simp add: less_mult_imp_div_less)
    with D(6) p(2) have "data_start s \<le> unat (addr_of s i (p div BSIZE))" by (simp add: data_block_def)
    then show ?thesis using D(3) dfb by (simp add: file_byte_def A ip)
  qed
qed

lemma contents_overwrite:
  assumes nh: "no_holes s i" and off: "off \<le> unat (i_size (icache s ! i))" and le: "off + length src \<le> MAXFILE * BSIZE"
    and sz: "unat (i_size (icache s' ! i)) = max (unat (i_size (icache s ! i))) (off + length src)"
    and new: "\<And>p. p < MAXFILE * BSIZE \<Longrightarrow> off \<le> p \<Longrightarrow> p < off + length src \<Longrightarrow> addr_of s' i (p div BSIZE) \<noteq> 0 \<and> file_byte s' i p = src ! (p - off)"
    and old: "\<And>p. p < MAXFILE * BSIZE \<Longrightarrow> p < off \<or> off + length src \<le> p \<Longrightarrow> addr_of s i (p div BSIZE) \<noteq> 0 \<Longrightarrow>
        addr_of s' i (p div BSIZE) \<noteq> 0 \<and> file_byte s' i p = file_byte s i p"
  shows "no_holes s' i" "contents s' i = take off (contents s i) @ src @ drop (off + length src) (contents s i)"
proof -
  let ?n = "unat (i_size (icache s ! i))" and ?n' = "unat (i_size (icache s' ! i))"
  have n: "?n \<le> MAXFILE * BSIZE" "\<And>p. p < ?n \<Longrightarrow> addr_of s i (p div BSIZE) \<noteq> 0" using nh by (simp_all add: no_holes_def)
  have byte: "addr_of s' i (p div BSIZE) \<noteq> 0 \<and>
      file_byte s' i p = (if off \<le> p \<and> p < off + length src then src ! (p - off) else file_byte s i p)" if p: "p < ?n'" for p
  proof -
    have lt: "p < MAXFILE * BSIZE" using p sz n(1) le by (simp add: max_def split: if_splits)
    show ?thesis
    proof (cases "off \<le> p \<and> p < off + length src")
      case True
      then show ?thesis using new [OF lt] by simp
    next
      case False
      then have "p < ?n" using p off by (auto simp: sz max_def split: if_splits)
      then show ?thesis using False old [OF lt _ n(2)] by auto
    qed
  qed
  then show "no_holes s' i" using sz n(1) le by (simp add: no_holes_def)
  show "contents s' i = take off (contents s i) @ src @ drop (off + length src) (contents s i)"
  proof (rule nth_equalityI)
    show "length (contents s' i) = length (take off (contents s i) @ src @ drop (off + length src) (contents s i))"
      using off by (simp add: contents_def sz)
    fix p assume "p < length (contents s' i)"
    then have p: "p < ?n'" by (simp add: contents_def)
    have l: "length (take off (contents s i)) = off" using off by (simp add: contents_def)
    have "(take off (contents s i) @ src @ drop (off + length src) (contents s i)) ! p =
        (if off \<le> p \<and> p < off + length src then src ! (p - off) else file_byte s i p)"
      using p off by (auto simp: nth_append l contents_def sz)
    with byte [OF p] p show "contents s' i ! p = (take off (contents s i) @ src @ drop (off + length src) (contents s i)) ! p"
      by (simp add: contents_def)
  qed
qed

text \<open>The fields of an inode that writing does not change.\<close>

definition same_kind :: "nat \<Rightarrow> fs \<Rightarrow> fs \<Rightarrow> bool" where
  "same_kind i s s' \<longleftrightarrow> fsb s' = fsb s \<and> i_type (icache s' ! i) = i_type (icache s ! i) \<and> i_inum (icache s' ! i) = i_inum (icache s ! i)"

lemma writei_spec:
  assumes "inode_wf dev i s" "i_type (icache s ! i) \<noteq> T_DEV" "no_holes s i"
    "IBLOCK (i_inum (icache s ! i)) (fsb s) < unat (sb_bmapstart (fsb s))"
    "unat off \<le> unat (i_size (icache s ! i))" "unat off + length src \<le> MAXFILE * BSIZE"
    "missing_indirect s i + span (unat off) (length src) \<le> free_count dev s"
  shows "\<exists>s'. writei dw i src off s = Inr (Some (length src), s') \<and> inode_wf dev i s' \<and> no_holes s' i \<and>
    contents s' i = take (unat off) (contents s i) @ src @ drop (unat off + length src) (contents s i) \<and>
    same_kind i s s' \<and> (\<forall>p n. unat p \<le> unat (i_size (icache s' ! i)) \<longrightarrow> unat p + unat n < 2 ^ 32 \<longrightarrow>
       readi dv i p n s' = Inr (Some (take (unat n) (drop (unat p) (contents s' i))), s')) \<and>
    (\<forall>c<fs_size s. used dev s c \<longrightarrow> data_start s \<le> c \<longrightarrow> \<not> owns s i c \<longrightarrow> fb s' (dev, c) = fb s (dev, c) \<and> \<not> owns s' i c)"
proof -
  let ?ip = "icache s ! i" and ?n = "of_nat (length src) :: u32"
  have max: "MAXFILE * BSIZE = 71680" by (simp add: sizes)
  have un: "unat ?n = length src" "unat (off + ?n) = unat off + length src"
    using assms(6) max by (simp_all add: unat_of_nat unat_word_ariths take_bit_nat_def)
  obtain s1 where s1: "write_blocks i (unat off) src s = Inr s1" "inode_wf dev i s1" "written dev i (unat off) src s s1"
    using write_loop [OF assms(1,6,7)] by blast
  note W = writtenD [OF s1(3)]
  obtain as where as: "icache s1 = (icache s)[i := ?ip\<lparr>i_addrs := as\<rparr>]" using W(2) by blast
  have ip: "icache s1 ! i = ?ip\<lparr>i_addrs := as\<rparr>" using as inode_wfD(2) [OF assms(1)] by simp
  define s2 where "s2 = (if ?n > 0 \<and> off + ?n > i_size ?ip then iupdate i (upd_ip i (\<lambda>p. p\<lparr>i_size := off + ?n\<rparr>) s1) else s1)"
  have "writei dw i src off s = Inr (Some (length src), s2)"
  proof -
    have "\<not> (off > i_size ?ip \<or> off + ?n < off)" "\<not> (off + ?n > of_nat (MAXFILE * BSIZE))"
      using assms(5,6) max un by (simp_all add: word_less_nat_alt word_le_nat_alt)
    then show ?thesis using assms(2) s1(1) by (simp add: writei_def Let_def ip s2_def)
  qed
  moreover have ib: "IBLOCK (i_inum (icache s1 ! i)) (fsb s1) < unat (sb_bmapstart (fsb s1))" using assms(4) ip W(1) by simp
  note S = set_size_spec [OF s1(2) ib refl]
  have ds: "data_start s1 = data_start s" using W(1) by (rule data_start_cong)
  have A: "inode_wf dev i s2" "\<And>m. addr_of s2 i m = addr_of s1 i m" "\<And>c. owns s2 i c = owns s1 i c"
    "\<And>p. p < MAXFILE * BSIZE \<Longrightarrow> addr_of s1 i (p div BSIZE) \<noteq> 0 \<Longrightarrow> file_byte s2 i p = file_byte s1 i p"
    "\<And>c. data_start s \<le> c \<Longrightarrow> fb s2 (dev, c) = fb s1 (dev, c)"
    using S s1(2) ds unfolding s2_def by auto
  have sz: "unat (i_size (icache s2 ! i)) = max (unat (i_size ?ip)) (unat off + length src)"
    using S(6) ip assms(5) un by (auto simp: s2_def word_less_nat_alt)
  have ty: "i_type (icache s2 ! i) \<noteq> T_DEV" using S(6) ip assms(2) by (auto simp: s2_def)
  have C: "no_holes s2 i \<and> contents s2 i = take (unat off) (contents s i) @ src @ drop (unat off + length src) (contents s i)"
    by (rule conjI; rule contents_overwrite [OF assms(3,5,6) sz]) (use W(3,4) A(2,4) in auto)
  moreover have "\<forall>c<fs_size s. used dev s c \<longrightarrow> data_start s \<le> c \<longrightarrow> \<not> owns s i c \<longrightarrow> fb s2 (dev, c) = fb s (dev, c) \<and> \<not> owns s2 i c"
    using W(6,7) A(3,5) by metis
  moreover have "\<forall>p n. unat p \<le> unat (i_size (icache s2 ! i)) \<longrightarrow> unat p + unat n < 2 ^ 32 \<longrightarrow>
       readi dv i p n s2 = Inr (Some (take (unat n) (drop (unat p) (contents s2 i))), s2)"
    using readi_contents [OF A(1) ty conjunct1 [OF C]] by blast
  moreover have "same_kind i s s'" if "s' = s2" for s' using that S(6) ip W(1) by (auto simp: same_kind_def s2_def iupdate_def Let_def)
  ultimately show ?thesis using A(1) by blast
qed


lemma demo_file: "inode_wf 1 0 demo_fs" "no_holes demo_fs 0" "free_count 1 demo_fs = 7" "missing_indirect demo_fs 0 = 1"
proof -
  have ind: "indirect demo_fs 0 = 0" by (simp add: indirect_def demo_fs_def demo_inode_def sizes)
  have ad: "addr_of demo_fs 0 bn = 0" for bn using ind by (simp add: addr_of_def) (simp add: demo_fs_def demo_inode_def sizes)
  show "inode_wf 1 0 demo_fs" unfolding inode_wf_def ad using demo_layout(1) ind by (simp add: demo_fs_def demo_inode_def sizes)
  show "no_holes demo_fs 0" by (simp add: no_holes_def demo_fs_def demo_inode_def)
  have "{b. b < fs_size demo_fs \<and> \<not> used 1 demo_fs b} = {3..<10}" using demo_used by (auto simp: demo_layout)
  then show "free_count 1 demo_fs = 7" by (simp add: free_count_def)
  show "missing_indirect demo_fs 0 = 1" by (simp add: missing_indirect_def ind)
qed


end
