(* ===== verification/Dinode.thy ===== *)
theory Dinode
  imports File_Data
begin

text \<open>
  The on-disk form of an inode: \<open>iupdate\<close> stores what \<open>ilock\<close> loads, field by field, and leaves the
  other inodes of the block alone.
\<close>

unbundle bit_operations_syntax

lemma get_put16 [simp]: "get16 (put16 b off w) off = w"
  by (rule bit_word_eqI) (auto simp: get16_def put16_def bit_simps)

lemma get_put16_other [simp]: "off' + 2 \<le> off \<or> off + 2 \<le> off' \<Longrightarrow> get16 (put16 b off w) off' = get16 b off'"
  by (auto simp: get16_def put16_def)

lemma get16_cong: "b' off = b off \<Longrightarrow> b' (off + 1) = b (off + 1) \<Longrightarrow> get16 b' off = get16 b off"
  by (simp add: get16_def)

lemma get32_cong: "(\<And>j. off \<le> j \<Longrightarrow> j < off + 4 \<Longrightarrow> b' j = b j) \<Longrightarrow> get32 b' off = get32 b off"
  by (simp add: get32_def)

lemma put_addrs_other: "k < off \<or> off + 4 * length as \<le> k \<Longrightarrow> put_addrs d off as k = d k"
  by (induction as arbitrary: d off) (auto simp: put32_def)

lemma get_put_addrs: "j < length as \<Longrightarrow> get32 (put_addrs d off as) (off + 4 * j) = as ! j"
proof (induction as arbitrary: d off j)
  case (Cons a as)
  show ?case
  proof (cases j)
    case 0
    have "get32 (put_addrs (put32 d off a) (off + 4) as) off = get32 (put32 d off a) off"
      by (rule get32_cong) (simp add: put_addrs_other)
    then show ?thesis using 0 by simp
  next
    case (Suc j')
    then show ?thesis using Cons.IH [of j' "put32 d off a" "off + 4"] Cons.prems by (simp add: add.assoc)
  qed
qed simp

lemma put_dinode_other:
  assumes "length (i_addrs ip) = NDIRECT + 1" "k < dinode_at (i_inum ip) \<or> dinode_at (i_inum ip) + 64 \<le> k"
  shows "put_dinode ip d k = d k"
proof -
  have "put_addrs d' (dinode_at (i_inum ip) + 12) (i_addrs ip) k = d' k" for d'
    by (rule put_addrs_other) (use assms in \<open>auto simp: sizes\<close>)
  then show ?thesis using assms(2) by (auto simp: put_dinode_def Let_def put16_def put32_def)
qed

definition same_dinode :: "inode \<Rightarrow> inode \<Rightarrow> bool" where
  "same_dinode p q \<longleftrightarrow> i_type p = i_type q \<and> i_major p = i_major q \<and> i_minor p = i_minor q \<and> i_nlink p = i_nlink q \<and>
     i_size p = i_size q \<and> i_addrs p = i_addrs q"

lemma load_put_dinode:
  assumes "length (i_addrs ip) = NDIRECT + 1" "i_inum q = i_inum ip"
  shows "same_dinode (load_dinode (put_dinode ip d) q) ip"
proof -
  let ?at = "dinode_at (i_inum ip)"
  let ?h = "put32 (put16 (put16 (put16 (put16 d ?at (i_type ip)) (?at + 2) (i_major ip)) (?at + 4) (i_minor ip))
      (?at + 6) (i_nlink ip)) (?at + 8) (i_size ip)"
  have P: "put_dinode ip d = put_addrs ?h (?at + 12) (i_addrs ip)" by (simp add: put_dinode_def Let_def)
  have lo: "k < ?at + 12 \<Longrightarrow> put_dinode ip d k = ?h k" for k unfolding P by (rule put_addrs_other) simp
  have h16: "get16 (put32 b (?at + 8) w) off = get16 b off" if "off + 2 \<le> ?at + 8" for b w off
    using that by (auto simp: get16_def put32_def)
  have "get16 (put_dinode ip d) off = get16 ?h off" if "off + 2 \<le> ?at + 12" for off
    by (rule get16_cong) (use that in \<open>simp_all only: lo\<close>)
  then have "get16 (put_dinode ip d) ?at = i_type ip" "get16 (put_dinode ip d) (?at + 2) = i_major ip"
    "get16 (put_dinode ip d) (?at + 4) = i_minor ip" "get16 (put_dinode ip d) (?at + 6) = i_nlink ip"
    by (simp_all add: h16)
  moreover have "get32 (put_dinode ip d) (?at + 8) = get32 ?h (?at + 8)"
    by (rule get32_cong) (simp only: lo)
  then have "get32 (put_dinode ip d) (?at + 8) = i_size ip" by simp
  moreover have "map (\<lambda>j. get32 (put_dinode ip d) (?at + 12 + 4 * j)) [0..<NDIRECT + 1] = i_addrs ip"
    by (rule nth_equalityI) (use assms(1) in \<open>simp_all add: P get_put_addrs del: upt_Suc\<close>)
  ultimately show ?thesis using assms(2) by (simp add: same_dinode_def load_dinode_def Let_def)
qed

lemma load_dinode_cong:
  assumes "\<And>k. dinode_at (i_inum q) \<le> k \<Longrightarrow> k < dinode_at (i_inum q) + 64 \<Longrightarrow> d' k = d k"
  shows "load_dinode d' q = load_dinode d q"
proof -
  let ?at = "dinode_at (i_inum q)"
  have h: "get16 d' (?at + m) = get16 d (?at + m)" if "m < 8" for m by (rule get16_cong) (use that assms in auto)
  have w: "get32 d' (?at + m) = get32 d (?at + m)" if "m + 4 \<le> 64" for m by (rule get32_cong) (use that assms in auto)
  have "map (\<lambda>j. get32 d' (?at + 12 + 4 * j)) [0..<NDIRECT + 1] = map (\<lambda>j. get32 d (?at + 12 + 4 * j)) [0..<NDIRECT + 1]"
    using w [of "12 + 4 * _"] by (intro map_cong refl) (auto simp: sizes add.assoc)
  then show ?thesis using h [of 0] h [of 2] h [of 4] h [of 6] w [of 8]
    by (simp add: load_dinode_def Let_def)
qed

lemma inode_location:
  assumes "IBLOCK i sb = IBLOCK j sb" "i \<noteq> j"
  shows "dinode_at i + 64 \<le> dinode_at j \<or> dinode_at j + 64 \<le> dinode_at i"
proof -
  have "i div of_nat IPB = j div of_nat IPB" using assms(1) by (simp add: IBLOCK_def word_unat_eq_iff [symmetric])
  then have "unat (i div 8) = unat (j div 8)" by (simp add: sizes)
  then have "unat i div 8 = unat j div 8" by (simp add: unat_div)
  moreover have "unat i \<noteq> unat j" using assms(2) by (simp add: word_unat_eq_iff)
  ultimately have "unat i mod 8 \<noteq> unat j mod 8" by (metis div_mult_mod_eq)
  then show ?thesis by (auto simp: dinode_at_def sizes)
qed

text \<open>
  C29. The on-disk inode is a faithful copy. After \<open>iupdate\<close> of cache entry \<open>i\<close>, \<open>ilock\<close> of a referenced
  but not yet valid entry for the same inode loads exactly the type, device numbers, link count, size and
  block addresses that were written, and locks the entry; loading any other inode of the device, in
  whichever inode block it lies, gives what it gave before.
\<close>

theorem iupdate_ilock_roundtrip:
  assumes "i < length (icache s)" "j < length (icache s)" "length (i_addrs (icache s ! i)) = NDIRECT + 1" "i_type (icache s ! i) \<noteq> 0"
    "i_dev (icache s ! j) = i_dev (icache s ! i)" "i_inum (icache s ! j) = i_inum (icache s ! i)"
    "i_ref (icache s ! j) \<ge> 1" "\<not> i_locked (icache s ! j)" "\<not> i_valid (icache s ! j)"
  shows "(\<exists>s'. ilock j (iupdate i s) = Inr s' \<and> same_dinode (icache s' ! j) (icache s ! i) \<and>
        i_locked (icache s' ! j) \<and> i_valid (icache s' ! j) \<and> fb s' = fb (iupdate i s)) \<and>
    (\<forall>q. i_inum q \<noteq> i_inum (icache s ! i) \<longrightarrow>
        load_dinode (fb (iupdate i s) (i_dev (icache s ! i), IBLOCK (i_inum q) (fsb s))) q =
        load_dinode (fb s (i_dev (icache s ! i), IBLOCK (i_inum q) (fsb s))) q)"
proof (intro conjI allI impI)
  let ?k = "(i_dev (icache s ! i), IBLOCK (i_inum (icache s ! i)) (fsb s))"
  have u: "iupdate i s = set_blk ?k (put_dinode (icache s ! i) (fb s ?k)) s" by (simp add: iupdate_def Let_def)
  let ?d = "put_dinode (icache s ! i) (fb s ?k)"
  have sd: "same_dinode (load_dinode ?d ((icache s ! j)\<lparr>i_locked := True\<rparr>)) (icache s ! i)"
    by (rule load_put_dinode) (use assms in simp_all)
  let ?s' = "upd_ip j (\<lambda>p. (load_dinode ?d p)\<lparr>i_valid := True\<rparr>) (upd_ip j (\<lambda>p. p\<lparr>i_locked := True\<rparr>) (iupdate i s))"
  have q: "icache ?s' ! j = (load_dinode ?d ((icache s ! j)\<lparr>i_locked := True\<rparr>))\<lparr>i_valid := True\<rparr>"
    using assms(2) by (simp add: u)
  have "i_type (icache ?s' ! j) \<noteq> 0" using sd assms(4) unfolding q by (simp add: same_dinode_def)
  then have "ilock j (iupdate i s) = Inr ?s'" using assms by (simp add: ilock_def Let_def u)
  moreover have "same_dinode (icache ?s' ! j) (icache s ! i)" using sd unfolding q by (simp add: same_dinode_def)
  moreover have "i_locked (icache ?s' ! j)" unfolding q by (simp add: load_dinode_def Let_def)
  moreover have "i_valid (icache ?s' ! j)" unfolding q by simp
  ultimately show "\<exists>s'. ilock j (iupdate i s) = Inr s' \<and> same_dinode (icache s' ! j) (icache s ! i) \<and>
        i_locked (icache s' ! j) \<and> i_valid (icache s' ! j) \<and> fb s' = fb (iupdate i s)"
    by (intro exI [of _ ?s']) simp
next
  let ?k = "(i_dev (icache s ! i), IBLOCK (i_inum (icache s ! i)) (fsb s))"
  fix q :: inode assume q: "i_inum q \<noteq> i_inum (icache s ! i)"
  show "load_dinode (fb (iupdate i s) (i_dev (icache s ! i), IBLOCK (i_inum q) (fsb s))) q =
        load_dinode (fb s (i_dev (icache s ! i), IBLOCK (i_inum q) (fsb s))) q"
  proof (cases "IBLOCK (i_inum q) (fsb s) = IBLOCK (i_inum (icache s ! i)) (fsb s)")
    case True
    show ?thesis
    proof (rule load_dinode_cong)
      fix k assume k: "dinode_at (i_inum q) \<le> k" "k < dinode_at (i_inum q) + 64"
      have "k < dinode_at (i_inum (icache s ! i)) \<or> dinode_at (i_inum (icache s ! i)) + 64 \<le> k"
        using inode_location [OF True q] k by auto
      with put_dinode_other [OF assms(3) this]
      show "fb (iupdate i s) (i_dev (icache s ! i), IBLOCK (i_inum q) (fsb s)) k = fb s (i_dev (icache s ! i), IBLOCK (i_inum q) (fsb s)) k"
        by (simp add: iupdate_def Let_def True)
    qed
  qed (simp add: iupdate_def Let_def)
qed

text \<open>The demonstration file, and a second entry of the cache waiting to be loaded.\<close>

theorem iupdate_ilock_roundtrip_witness:
  "\<exists>s'. ilock 1 (iupdate 0 (demo_fs\<lparr>icache := [demo_inode, demo_inode\<lparr>i_locked := False, i_valid := False, i_size := 9\<rparr>]\<rparr>)) = Inr s' \<and>
     i_size (icache s' ! 1) = 0 \<and> i_type (icache s' ! 1) = T_FILE"
proof -
  let ?s = "demo_fs\<lparr>icache := [demo_inode, demo_inode\<lparr>i_locked := False, i_valid := False, i_size := 9\<rparr>]\<rparr>"
  obtain s' where "ilock 1 (iupdate 0 ?s) = Inr s'" "same_dinode (icache s' ! 1) (icache ?s ! 0)"
    using iupdate_ilock_roundtrip [of 0 ?s 1] by (auto simp: demo_inode_def sizes T_FILE_def)
  then show ?thesis by (auto simp: same_dinode_def demo_inode_def)
qed

end
