(* ===== verification/Directory.thy ===== *)
theory Directory
  imports Dinode
begin

text \<open>
  The directory layer of \<open>xv6-public/fs.c\<close>: a directory is a file of 16-byte entries, an inode number and
  a name of at most 14 characters. Strings are the characters before the NUL; a name buffer is the 14
  bytes of the array. \<open>dirlookup\<close> and \<open>dirlink\<close> implement a finite map from names to inode numbers, and
  \<open>skipelem\<close> splits a path into its elements.
\<close>

unbundle bit_operations_syntax

definition DIRSIZ :: nat where "DIRSIZ = 14"
definition ROOTDEV :: nat where "ROOTDEV = 1"
definition ROOTINO :: u32 where "ROOTINO = 1"

section \<open>Names\<close>

text \<open>The character a pointer into a string reads: the terminator at the end.\<close>

definition char0 :: "u8 list \<Rightarrow> u8" where
  "char0 s = (case s of [] \<Rightarrow> 0 | c # _ \<Rightarrow> c)"

text \<open>\<open>strncmp\<close> and \<open>strncpy\<close> of \<open>string.c\<close> on such strings.\<close>

primrec str_ncmp :: "nat \<Rightarrow> u8 list \<Rightarrow> u8 list \<Rightarrow> int" where
  "str_ncmp 0 p q = 0"
| "str_ncmp (Suc n) p q =
     (if char0 p \<noteq> 0 \<and> char0 p = char0 q then str_ncmp n (tl p) (tl q) else uint (char0 p) - uint (char0 q))"

primrec str_ncpy :: "nat \<Rightarrow> u8 list \<Rightarrow> u8 list" where
  "str_ncpy 0 t = []"
| "str_ncpy (Suc n) t = (if char0 t \<noteq> 0 then char0 t # str_ncpy n (tl t) else replicate (Suc n) 0)"

definition namecmp :: "u8 list \<Rightarrow> u8 list \<Rightarrow> int" where
  "namecmp s t = str_ncmp DIRSIZ s t"

text \<open>\<open>struct dirent\<close> as its sixteen bytes.\<close>

definition dirent :: "16 word \<Rightarrow> u8 list \<Rightarrow> u8 list" where
  "dirent inum name = [ucast inum, ucast (drop_bit 8 inum)] @ name"

definition de_inum :: "u8 list \<Rightarrow> 16 word" where
  "de_inum de = ucast (de ! 0) OR push_bit 8 (ucast (de ! 1))"

definition de_name :: "u8 list \<Rightarrow> u8 list" where
  "de_name de = drop 2 de"

section \<open>Lookup and insertion\<close>

text \<open>Reading a file changes neither its size nor its type: the loops over a directory end.\<close>

lemma balloc_icache: "balloc_from dev b s = Inr (c, s') \<Longrightarrow> icache s' = icache s"
  by (induction dev b s rule: balloc_from.induct) (subst (asm) balloc_from.simps,
    auto simp: Let_def bzero_def set_blk_def split: if_splits option.splits)

definition same_meta :: "nat \<Rightarrow> fs \<Rightarrow> fs \<Rightarrow> bool" where
  "same_meta i s s' \<longleftrightarrow> i_size (icache s' ! i) = i_size (icache s ! i) \<and> i_type (icache s' ! i) = i_type (icache s ! i) \<and>
     i_dev (icache s' ! i) = i_dev (icache s ! i)"

lemma set_addr_meta: "icache s1 = icache s \<Longrightarrow> same_meta i s (set_addr i j a s1)"
  by (cases "i < length (icache s)") (simp_all add: same_meta_def set_addr_def upd_ip_def list_update_beyond)

lemma addr_or_alloc_meta: "addr_or_alloc i j s = Inr (a, s') \<Longrightarrow> same_meta i s s'"
  by (auto simp: addr_or_alloc_def balloc_def Let_def bindR_Inr_iff split_beta same_meta_def split: if_splits
      dest!: balloc_icache set_addr_meta [unfolded same_meta_def])

lemma same_meta_trans: "same_meta i s s' \<Longrightarrow> same_meta i s' s'' \<Longrightarrow> same_meta i s s''"
  by (simp add: same_meta_def)

lemma bmap_meta:
  assumes "bmap i bn s = Inr (a, s')"
  shows "same_meta i s s'"
proof (cases "bn < NDIRECT")
  case True
  with assms show ?thesis by (simp add: bmap_def addr_or_alloc_meta)
next
  case False
  with assms obtain ind s1 where s1: "addr_or_alloc i NDIRECT s = Inr (ind, s1)" "icache s' = icache s1"
    by (auto simp: bmap_def Let_def bindR_Inr_iff split_beta balloc_def split: if_splits dest: balloc_icache)
  from addr_or_alloc_meta [OF s1(1)] show ?thesis unfolding same_meta_def s1(2) .
qed

lemma read_blocks_meta: "read_blocks_of i off n s = Inr (r, s') \<Longrightarrow> same_meta i s s'"
proof (induction n arbitrary: off s r s' rule: less_induct)
  case (less n)
  show ?case
  proof (cases "n = 0")
    case True
    with less.prems show ?thesis by (simp add: read_blocks_of.simps same_meta_def)
  next
    case False
    with less.prems obtain a s1 r1 where s1: "bmap i (off div BSIZE) s = Inr (a, s1)"
      "read_blocks_of i (off + min n (BSIZE - off mod BSIZE)) (n - min n (BSIZE - off mod BSIZE)) s1 = Inr (r1, s')"
      by (subst (asm) read_blocks_of.simps) (auto simp: Let_def bindR_Inr_iff split_beta)
    have "n - min n (BSIZE - off mod BSIZE) < n" using False by (simp add: BSIZE_def)
    from less.IH [OF this s1(2)] bmap_meta [OF s1(1)] show ?thesis by (rule same_meta_trans [rotated])
  qed
qed

lemma readi_meta: "readi dv i off n s = Inr (r, s') \<Longrightarrow> same_meta i s s'"
  by (auto simp: readi_def Let_def bindR_Inr_iff split_beta same_meta_def split: if_splits option.splits
      dest!: read_blocks_meta [unfolded same_meta_def])

text \<open>The loop of \<open>dirlookup\<close> from offset \<open>off\<close>: the cache entry and the offset of the match.\<close>

function dirlookup_from :: "devsw \<Rightarrow> nat \<Rightarrow> u8 list \<Rightarrow> nat \<Rightarrow> fs \<Rightarrow> ((nat \<times> nat) option \<times> fs) res" where
  "dirlookup_from dv i name off s =
     (if off < unat (i_size (icache s ! i)) then
        (case readi dv i (of_nat off) 16 s of
           Inl e \<Rightarrow> Inl e
         | Inr (r, s1) \<Rightarrow>
             (case r of
                None \<Rightarrow> Inl (Panic ''dirlookup read'')
              | Some de \<Rightarrow>
                  if length de \<noteq> 16 then Inl (Panic ''dirlookup read'')
                  else if de_inum de = 0 then dirlookup_from dv i name (off + 16) s1
                  else if namecmp name (de_name de) = 0 then
                    bindR (iget (i_dev (icache s1 ! i)) (ucast (de_inum de)) s1) (\<lambda>(j, s2). Inr (Some (j, off), s2))
                  else dirlookup_from dv i name (off + 16) s1))
      else Inr (None, s))"
  by pat_completeness auto
termination
  by (relation "measure (\<lambda>(_, i, _, off, s). unat (i_size (icache s ! i)) - off)") (auto dest!: readi_meta simp: same_meta_def)

definition dirlookup :: "devsw \<Rightarrow> nat \<Rightarrow> u8 list \<Rightarrow> fs \<Rightarrow> ((nat \<times> nat) option \<times> fs) res" where
  "dirlookup dv i name s =
     (if i_type (icache s ! i) \<noteq> T_DIR then Inl (Panic ''dirlookup not DIR'') else dirlookup_from dv i name 0 s)"

text \<open>The loop of \<open>dirlink\<close> that looks for an empty entry: its offset, or the size of the directory.\<close>

function empty_slot :: "devsw \<Rightarrow> nat \<Rightarrow> nat \<Rightarrow> fs \<Rightarrow> (nat \<times> fs) res" where
  "empty_slot dv i off s =
     (if off < unat (i_size (icache s ! i)) then
        (case readi dv i (of_nat off) 16 s of
           Inl e \<Rightarrow> Inl e
         | Inr (r, s1) \<Rightarrow>
             (case r of
                None \<Rightarrow> Inl (Panic ''dirlink read'')
              | Some de \<Rightarrow>
                  if length de \<noteq> 16 then Inl (Panic ''dirlink read'')
                  else if de_inum de = 0 then Inr (off, s1)
                  else empty_slot dv i (off + 16) s1))
      else Inr (off, s))"
  by pat_completeness auto
termination
  by (relation "measure (\<lambda>(_, i, off, s). unat (i_size (icache s ! i)) - off)") (auto dest!: readi_meta simp: same_meta_def)

declare dirlookup_from.simps [simp del] empty_slot.simps [simp del]

definition dirlink :: "devsw \<Rightarrow> (nat \<Rightarrow> (u8 list \<Rightarrow> nat option) option) \<Rightarrow> nat \<Rightarrow> u8 list \<Rightarrow> u32 \<Rightarrow> fs \<Rightarrow> (int \<times> fs) res" where
  "dirlink dv dw i name inum s =
     bindR (dirlookup dv i name s) (\<lambda>(r, s1).
       case r of
         Some (j, off) \<Rightarrow> bindR (iput j s1) (\<lambda>s2. Inr (- 1, s2))
       | None \<Rightarrow>
           bindR (empty_slot dv i 0 s1) (\<lambda>(off, s2).
             let de = dirent (ucast inum) (str_ncpy DIRSIZ name) in
             bindR (writei dw i de (of_nat off) s2) (\<lambda>(n, s3).
               if n \<noteq> Some 16 then Inl (Panic ''dirlink'') else Inr (0, s3))))"

section \<open>Paths\<close>

text \<open>The buffer \<open>name\<close> after an element has been copied into it.\<close>

definition put_name :: "u8 list \<Rightarrow> u8 list \<Rightarrow> u8 list" where
  "put_name el name = (if length el \<ge> DIRSIZ then take DIRSIZ el else el @ [0] @ drop (length el + 1) name)"

definition skipelem :: "u8 list \<Rightarrow> u8 list \<Rightarrow> (u8 list \<times> u8 list) option" where
  "skipelem path name =
     (let s = dropWhile (\<lambda>c. c = 47) path in
      if s = [] then None
      else let el = takeWhile (\<lambda>c. c \<noteq> 47) s; rest = dropWhile (\<lambda>c. c \<noteq> 47) s in
        Some (dropWhile (\<lambda>c. c = 47) rest, put_name el name))"

lemma skipelem_shorter: "skipelem path name = Some (rest, nm) \<Longrightarrow> length rest < length path"
proof -
  assume a: "skipelem path name = Some (rest, nm)"
  define s where "s = dropWhile (\<lambda>c. c = 47) path"
  have s: "s \<noteq> []" "rest = dropWhile (\<lambda>c. c = 47) (dropWhile (\<lambda>c. c \<noteq> 47) s)"
    using a by (auto simp: skipelem_def s_def Let_def split: if_splits)
  obtain c cs where cs: "s = c # cs" using s(1) by (cases s) auto
  have "c \<noteq> 47" using cs hd_dropWhile [of "\<lambda>c. c = 47" path] s(1) unfolding s_def [symmetric] by simp
  then have "length rest \<le> length cs"
    using s(2) cs by (simp add: le_trans [OF length_dropWhile_le length_dropWhile_le])
  moreover have "length s \<le> length path" unfolding s_def by (rule length_dropWhile_le)
  ultimately show ?thesis using cs by simp
qed

text \<open>\<open>idup\<close> of an entry of the inode cache.\<close>

definition inode_dup :: "nat \<Rightarrow> fs \<Rightarrow> fs" where
  "inode_dup i s = upd_ip i (\<lambda>p. p\<lparr>i_ref := i_ref p + 1\<rparr>) s"

text \<open>The loop of \<open>namex\<close>: the inode, or none, and the name buffer.\<close>

function namex_loop :: "devsw \<Rightarrow> bool \<Rightarrow> u8 list \<Rightarrow> u8 list \<Rightarrow> nat \<Rightarrow> fs \<Rightarrow> (nat option \<times> u8 list \<times> fs) res" where
  "namex_loop dv parent path name ip s =
     (case skipelem path name of
        None \<Rightarrow> if parent then bindR (iput ip s) (\<lambda>s1. Inr (None, name, s1)) else Inr (Some ip, name, s)
      | Some (rest, nm) \<Rightarrow>
          bindR (ilock ip s) (\<lambda>s1.
            if i_type (icache s1 ! ip) \<noteq> T_DIR then bindR (iunlockput ip s1) (\<lambda>s2. Inr (None, nm, s2))
            else if parent \<and> rest = [] then bindR (iunlock ip s1) (\<lambda>s2. Inr (Some ip, nm, s2))
            else bindR (dirlookup dv ip nm s1) (\<lambda>(r, s2).
              case r of
                None \<Rightarrow> bindR (iunlockput ip s2) (\<lambda>s3. Inr (None, nm, s3))
              | Some (j, off) \<Rightarrow> bindR (iunlockput ip s2) (\<lambda>s3. namex_loop dv parent rest nm j s3))))"
  by pat_completeness auto
termination by (relation "measure (\<lambda>(_, _, path, _). length path)") (auto dest: skipelem_shorter)

definition namex :: "devsw \<Rightarrow> nat \<Rightarrow> u8 list \<Rightarrow> bool \<Rightarrow> u8 list \<Rightarrow> fs \<Rightarrow> (nat option \<times> u8 list \<times> fs) res" where
  "namex dv cwd path parent name s =
     bindR (if char0 path = 47 then iget ROOTDEV ROOTINO s else Inr (cwd, inode_dup cwd s))
       (\<lambda>(ip, s1). namex_loop dv parent path name ip s1)"

definition namei :: "devsw \<Rightarrow> nat \<Rightarrow> u8 list \<Rightarrow> u8 list \<Rightarrow> fs \<Rightarrow> (nat option \<times> fs) res" where
  "namei dv cwd path name s = bindR (namex dv cwd path False name s) (\<lambda>(r, _, s1). Inr (r, s1))"

definition nameiparent :: "devsw \<Rightarrow> nat \<Rightarrow> u8 list \<Rightarrow> u8 list \<Rightarrow> fs \<Rightarrow> (nat option \<times> u8 list \<times> fs) res" where
  "nameiparent dv cwd path name s = namex dv cwd path True name s"

section \<open>The elements of a path\<close>

text \<open>Splitting at every slash, and the elements of a path: the pieces that are not empty.\<close>

fun split_slash :: "u8 list \<Rightarrow> u8 list list" where
  "split_slash [] = [[]]"
| "split_slash (c # cs) =
     (if c = 47 then [] # split_slash cs else (c # hd (split_slash cs)) # tl (split_slash cs))"

definition elements :: "u8 list \<Rightarrow> u8 list list" where
  "elements p = filter (\<lambda>e. e \<noteq> []) (split_slash p)"

lemma split_slash_ne: "split_slash p \<noteq> []"
  by (cases p) auto

lemma elements_slash: "elements (47 # p) = elements p"
  by (simp add: elements_def)

lemma elements_skip: "elements (dropWhile (\<lambda>c. c = 47) p) = elements p"
  by (induction p) (simp_all add: elements_slash)

lemma split_slash_word:
  "split_slash p = takeWhile (\<lambda>c. c \<noteq> 47) p # (case dropWhile (\<lambda>c. c \<noteq> 47) p of [] \<Rightarrow> [] | _ # r \<Rightarrow> split_slash r)"
  by (induction p) auto

lemma elements_word:
  assumes "p \<noteq> []" "hd p \<noteq> 47"
  shows "elements p = takeWhile (\<lambda>c. c \<noteq> 47) p # elements (dropWhile (\<lambda>c. c \<noteq> 47) p)"
proof -
  have w: "takeWhile (\<lambda>c. c \<noteq> 47) p \<noteq> []" using assms by (cases p) auto
  show ?thesis
  proof (cases "dropWhile (\<lambda>c. c \<noteq> 47) p")
    case Nil
    have "split_slash p = [takeWhile (\<lambda>c. c \<noteq> 47) p]" by (subst split_slash_word) (simp only: Nil list.case)
    then show ?thesis using w unfolding Nil by (simp only: elements_def) simp
  next
    case (Cons c r)
    then have "c = 47" using hd_dropWhile [of "\<lambda>c. c \<noteq> 47" p] by simp
    then show ?thesis using w Cons by (subst elements_def, subst split_slash_word) (simp add: elements_def)
  qed
qed

lemma elements_Nil: "elements p = [] \<longleftrightarrow> dropWhile (\<lambda>c. c = 47) p = []"
proof (cases "dropWhile (\<lambda>c. c = 47) p = []")
  case True
  have "elements (dropWhile (\<lambda>c. c = 47) p) = []" unfolding True by (simp add: elements_def)
  with True show ?thesis unfolding elements_skip by simp
next
  case False
  then have "hd (dropWhile (\<lambda>c. c = 47) p) \<noteq> 47" by (rule hd_dropWhile)
  from elements_word [OF False this] False show ?thesis by (simp add: elements_skip)
qed

text \<open>
  \<open>skipelem\<close> takes a path apart exactly at its slashes: it answers 0 when the path has no element and
  otherwise stores the first one, cut to 14 characters and terminated when it is shorter, and returns a
  rest whose elements are the remaining ones. The rest is empty exactly when the element was the last one,
  which is the test \<open>namex\<close> uses to stop at the parent, and never starts with a slash.
\<close>

lemma skipelem_elements:
  "skipelem path name = (case elements path of [] \<Rightarrow> None | e # es \<Rightarrow> Some (fst (the (skipelem path name)), put_name e name)) \<and>
   (case elements path of [] \<Rightarrow> True
    | e # es \<Rightarrow> (let rest = fst (the (skipelem path name)) in
        elements rest = es \<and> (rest = []) = (es = []) \<and> char0 rest \<noteq> 47 \<and> length rest < length path))"
proof (cases "elements path")
  case Nil
  then have "skipelem path name = None" unfolding elements_Nil by (simp add: skipelem_def)
  with Nil show ?thesis by simp
next
  case (Cons e es)
  define s where "s = dropWhile (\<lambda>c. c = 47) path"
  define rest where "rest = dropWhile (\<lambda>c. c = 47) (dropWhile (\<lambda>c. c \<noteq> 47) s)"
  have s: "s \<noteq> []" using Cons elements_Nil [of path] by (simp add: s_def)
  then have "hd s \<noteq> 47" unfolding s_def by (rule hd_dropWhile)
  from elements_word [OF s this] Cons
  have e: "e = takeWhile (\<lambda>c. c \<noteq> 47) s" "es = elements (dropWhile (\<lambda>c. c \<noteq> 47) s)" by (simp_all add: s_def elements_skip)
  have sk: "skipelem path name = Some (rest, put_name e name)"
    using s by (simp add: skipelem_def s_def [symmetric] rest_def e(1) Let_def)
  have "elements rest = es" by (simp add: rest_def elements_skip e(2))
  moreover have "(rest = []) = (es = [])" using elements_Nil [of "dropWhile (\<lambda>c. c \<noteq> 47) s"] by (simp add: rest_def e(2))
  moreover have "char0 rest \<noteq> 47"
  proof (cases rest)
    case (Cons c r)
    then have "hd rest \<noteq> 47" unfolding rest_def by (intro hd_dropWhile [of "\<lambda>c. c = 47"]) simp
    with Cons show ?thesis by (simp add: char0_def)
  qed (simp add: char0_def)
  moreover have "length rest < length path" by (rule skipelem_shorter [OF sk])
  ultimately show ?thesis unfolding Cons sk list.case Let_def option.sel fst_conv by blast
qed

section \<open>Comparing and copying names\<close>

lemma char0_tl_ncpy: "char0 t = 0 \<Longrightarrow> str_ncpy n t = replicate n 0"
  by (cases n) auto

lemma length_str_ncpy [simp]: "length (str_ncpy n t) = n"
  by (induction n arbitrary: t) auto

lemma str_ncmp_zero: "str_ncmp n p q = 0 \<longleftrightarrow> str_ncpy n p = str_ncpy n q"
proof (induction n arbitrary: p q)
  case (Suc n)
  show ?case
  proof (cases "char0 p = char0 q")
    case True
    then show ?thesis using Suc by (auto simp: char0_tl_ncpy)
  next
    case False
    then have "uint (char0 p) - uint (char0 q) \<noteq> 0" by (simp add: word_uint_eq_iff)
    with False show ?thesis by auto
  qed
qed simp

lemma str_ncpy_idem: "str_ncpy n (str_ncpy n t) = str_ncpy n t"
proof (induction n arbitrary: t)
  case (Suc n)
  then show ?case by (auto simp: char0_def)
qed simp

section \<open>A directory as a finite map\<close>

definition canon :: "u8 list \<Rightarrow> u8 list" where
  "canon nm = str_ncpy DIRSIZ nm"

definition dir_entry :: "fs \<Rightarrow> nat \<Rightarrow> nat \<Rightarrow> u8 list" where
  "dir_entry s i k = take 16 (drop (16 * k) (contents s i))"

definition dir_count :: "fs \<Rightarrow> nat \<Rightarrow> nat" where
  "dir_count s i = unat (i_size (icache s ! i)) div 16"

definition directory :: "nat \<Rightarrow> nat \<Rightarrow> fs \<Rightarrow> bool" where
  "directory dev i s \<longleftrightarrow> inode_wf dev i s \<and> i_type (icache s ! i) = T_DIR \<and> no_holes s i \<and> 16 dvd unat (i_size (icache s ! i))"

text \<open>The entries in use, as a map from padded names to inode numbers; the first of a name counts.\<close>

definition entry_map :: "u8 list list \<Rightarrow> u8 list \<rightharpoonup> 16 word" where
  "entry_map es = map_of (map (\<lambda>d. (canon (de_name d), de_inum d)) (filter (\<lambda>d. de_inum d \<noteq> 0) es))"

definition dir_map :: "fs \<Rightarrow> nat \<Rightarrow> u8 list \<rightharpoonup> 16 word" where
  "dir_map s i = entry_map (map (dir_entry s i) [0..<dir_count s i])"

lemma namecmp_canon: "namecmp a b = 0 \<longleftrightarrow> canon a = canon b"
  by (simp add: namecmp_def canon_def str_ncmp_zero)

lemma entry_map_find:
  "entry_map (map f ks) (canon nm) = map_option (\<lambda>k. de_inum (f k)) (find (\<lambda>k. de_inum (f k) \<noteq> 0 \<and> namecmp nm (de_name (f k)) = 0) ks)"
  by (induction ks) (auto simp: entry_map_def namecmp_canon)

lemma directoryD:
  assumes "directory dev i s"
  shows "inode_wf dev i s" "i_type (icache s ! i) = T_DIR" "no_holes s i" "length (contents s i) = 16 * dir_count s i"
    "unat (i_size (icache s ! i)) = 16 * dir_count s i" "16 * dir_count s i \<le> 71680"
  using assms by (auto simp: directory_def contents_def dir_count_def no_holes_def sizes)

lemma read_entry:
  assumes "directory dev i s" "k < dir_count s i"
  shows "readi dv i (of_nat (16 * k)) 16 s = Inr (Some (dir_entry s i k), s)" "length (dir_entry s i k) = 16"
proof -
  note D = directoryD [OF assms(1)]
  have un: "unat (of_nat (16 * k) :: u32) = 16 * k" using assms(2) D(6) by (simp add: unat_of_nat take_bit_nat_def del: of_nat_mult)
  have "i_type (icache s ! i) \<noteq> T_DEV" using D(2) by (simp add: T_DIR_def T_DEV_def)
  from readi_contents [OF D(1) this D(3), of "of_nat (16 * k)" 16] un assms(2) D(5,6)
  show "readi dv i (of_nat (16 * k)) 16 s = Inr (Some (dir_entry s i k), s)" by (simp add: dir_entry_def)
  show "length (dir_entry s i k) = 16" using assms(2) D(4) by (simp add: dir_entry_def)
qed

lemma dirlookup_from_spec:
  assumes dir: "directory dev i s"
  shows "dirlookup_from dv i name (16 * k) s =
    (case find (\<lambda>j. de_inum (dir_entry s i j) \<noteq> 0 \<and> namecmp name (de_name (dir_entry s i j)) = 0) [k..<dir_count s i] of
       None \<Rightarrow> Inr (None, s)
     | Some j \<Rightarrow> bindR (iget dev (ucast (de_inum (dir_entry s i j))) s) (\<lambda>(q, s2). Inr (Some (q, 16 * j), s2)))"
proof (induction k rule: measure_induct_rule [where f = "\<lambda>k. dir_count s i - k"])
  case (less k)
  show ?case
  proof (cases "k < dir_count s i")
    case False
    then show ?thesis using directoryD(5) [OF dir] by (simp add: dirlookup_from.simps)
  next
    case k: True
    have ih: "dirlookup_from dv i name (16 * k + 16) s =
      (case find (\<lambda>j. de_inum (dir_entry s i j) \<noteq> 0 \<and> namecmp name (de_name (dir_entry s i j)) = 0) [Suc k..<dir_count s i] of
         None \<Rightarrow> Inr (None, s)
       | Some j \<Rightarrow> bindR (iget dev (ucast (de_inum (dir_entry s i j))) s) (\<lambda>(q, s2). Inr (Some (q, 16 * j), s2)))"
      using less [of "Suc k"] k by (simp add: algebra_simps)
    have "[k..<dir_count s i] = k # [Suc k..<dir_count s i]" using k by (rule upt_conv_Cons)
    then show ?thesis
      using read_entry(1) [OF dir k, of dv] read_entry(2) [OF dir k] ih k directoryD(5) [OF dir] inode_wfD(3) [OF directoryD(1) [OF dir]]
      by (subst dirlookup_from.simps) simp
  qed
qed

lemma dirlookup_spec:
  assumes "directory dev i s"
  shows "\<exists>off. dirlookup dv i name s =
    (case dir_map s i (canon name) of
       None \<Rightarrow> Inr (None, s)
     | Some ino \<Rightarrow> bindR (iget dev (ucast ino) s) (\<lambda>(q, s2). Inr (Some (q, off), s2)))"
  using directoryD(2) [OF assms] dirlookup_from_spec [OF assms, of dv name 0]
  by (auto simp: dirlookup_def dir_map_def entry_map_find split: option.splits)

lemma empty_slot_spec:
  assumes dir: "directory dev i s"
  shows "empty_slot dv i (16 * k) s =
    Inr (16 * (case find (\<lambda>j. de_inum (dir_entry s i j) = 0) [k..<dir_count s i] of None \<Rightarrow> max k (dir_count s i) | Some j \<Rightarrow> j), s)"
proof (induction k rule: measure_induct_rule [where f = "\<lambda>k. dir_count s i - k"])
  case (less k)
  show ?case
  proof (cases "k < dir_count s i")
    case False
    then show ?thesis using directoryD(5) [OF dir] by (simp add: empty_slot.simps)
  next
    case k: True
    have ih: "empty_slot dv i (16 * k + 16) s =
      Inr (16 * (case find (\<lambda>j. de_inum (dir_entry s i j) = 0) [Suc k..<dir_count s i] of None \<Rightarrow> dir_count s i | Some j \<Rightarrow> j), s)"
      using less [of "Suc k"] k by (simp add: algebra_simps max_def)
    have "[k..<dir_count s i] = k # [Suc k..<dir_count s i]" using k by (rule upt_conv_Cons)
    then show ?thesis
      using read_entry(1) [OF dir k, of dv] read_entry(2) [OF dir k] ih k directoryD(5) [OF dir]
      by (subst empty_slot.simps) (simp add: max_def split: option.split)
  qed
qed

lemma chunk_overwrite:
  assumes "length d = 16" "16 * j \<le> length c"
  shows "take 16 (drop (16 * k) (take (16 * j) c @ d @ drop (16 * j + 16) c)) = (if k = j then d else take 16 (drop (16 * k) c))"
proof (cases k j rule: linorder_cases)
  case less
  then obtain m where "j = k + 1 + m" using less_iff_Suc_add by auto
  then show ?thesis using assms by (simp add: take_drop min_def)
next
  case equal
  then show ?thesis using assms by simp
next
  case greater
  then obtain m where "k = j + 1 + m" using less_iff_Suc_add by auto
  then show ?thesis using assms by (simp add: algebra_simps)
qed

lemma entry_map_insert:
  assumes "entry_map (as @ bs) (canon (de_name d)) = None" "de_inum d \<noteq> 0"
  shows "entry_map (as @ d # bs) = (entry_map (as @ bs))(canon (de_name d) \<mapsto> de_inum d)"
  using assms by (auto simp: entry_map_def map_add_def fun_eq_iff split: option.splits)

lemma entry_map_dead: "de_inum x = 0 \<Longrightarrow> entry_map (as @ x # bs) = entry_map (as @ bs)"
  by (simp add: entry_map_def)

lemma entry_map_replace:
  assumes "entry_map es (canon (de_name d)) = None" "de_inum d \<noteq> 0" "j = length es \<or> j < length es \<and> de_inum (es ! j) = 0"
  shows "entry_map (take j es @ d # drop (Suc j) es) = (entry_map es)(canon (de_name d) \<mapsto> de_inum d)"
proof -
  have es: "entry_map es = entry_map (take j es @ drop (Suc j) es)"
  proof (cases "j < length es")
    case True
    then have "entry_map es = entry_map (take j es @ es ! j # drop (Suc j) es)" by (simp add: id_take_nth_drop [symmetric])
    with True assms(3) show ?thesis by (simp add: entry_map_dead)
  qed (use assms(3) in simp)
  show ?thesis using entry_map_insert [OF _ assms(2), of "take j es" "drop (Suc j) es"] assms(1) unfolding es by simp
qed

lemma dirent_fields: "length name = DIRSIZ \<Longrightarrow> length (dirent ino name) = 16"
  "de_inum (dirent ino name) = ino" "de_name (dirent ino name) = name"
proof -
  show "de_inum (dirent ino name) = ino" unfolding de_inum_def dirent_def by (rule bit_word_eqI) (auto simp: bit_simps)
qed (simp_all add: dirent_def de_name_def DIRSIZ_def)

lemma canon_idem: "canon (canon nm) = canon nm"
  by (simp add: canon_def str_ncpy_idem)

lemma dirlookup_absent:
  assumes "directory dev i s" "dir_map s i (canon name) = None"
  shows "dirlookup dv i name s = Inr (None, s)"
  using dirlookup_spec [OF assms(1), of dv name] assms(2) by auto

text \<open>The slot \<open>dirlink\<close> writes: the first one out of use, or the one after the last.\<close>

lemma empty_slot_first:
  assumes "directory dev i s"
  obtains j where "empty_slot dv i 0 s = Inr (16 * j, s)"
    "j = dir_count s i \<or> j < dir_count s i \<and> de_inum (dir_entry s i j) = 0"
proof (cases "find (\<lambda>j. de_inum (dir_entry s i j) = 0) [0..<dir_count s i]")
  case None
  then have "empty_slot dv i 0 s = Inr (16 * dir_count s i, s)" using empty_slot_spec [OF assms, of dv 0] by simp
  then show thesis by (rule that) simp
next
  case (Some j)
  then have "j < dir_count s i \<and> de_inum (dir_entry s i j) = 0" by (auto simp: find_Some_iff)
  moreover have "empty_slot dv i 0 s = Inr (16 * j, s)" using empty_slot_spec [OF assms, of dv 0] Some by simp
  ultimately show thesis using that by blast
qed

lemma span_entry: "span (16 * j) 16 = 1"
proof -
  have "16 * j mod BSIZE + 16 \<le> BSIZE"
  proof -
    have "16 * j mod 512 = 16 * (j mod 32)" using mult_mod_right [of 16 j 32] by simp
    then show ?thesis by (simp add: sizes)
  qed
  then have "(16 * j + 16 - 1) div BSIZE = 16 * j div BSIZE"
    by (intro div_in_block(1) [of _ _ 16]) simp_all
  then show ?thesis by (simp add: span_def)
qed

lemma dirlink_spec:
  assumes dir: "directory dev i s" and new: "dir_map s i (canon name) = None" and ino: "(ucast inum :: 16 word) \<noteq> 0"
    and ib: "IBLOCK (i_inum (icache s ! i)) (fsb s) < unat (sb_bmapstart (fsb s))"
    and room: "unat (i_size (icache s ! i)) + 16 \<le> MAXFILE * BSIZE" "missing_indirect s i + 1 \<le> free_count dev s"
  shows "\<exists>s'. dirlink dv dw i name inum s = Inr (0, s') \<and> directory dev i s' \<and> dir_map s' i = (dir_map s i)(canon name \<mapsto> ucast inum) \<and>
    (\<forall>c<fs_size s. used dev s c \<longrightarrow> data_start s \<le> c \<longrightarrow> \<not> owns s i c \<longrightarrow> fb s' (dev, c) = fb s (dev, c) \<and> \<not> owns s' i c)"
proof -
  note D = directoryD [OF dir]
  let ?n = "dir_count s i" and ?de = "dirent (ucast inum) (str_ncpy DIRSIZ name)"
  obtain j where j: "empty_slot dv i 0 s = Inr (16 * j, s)" "j = ?n \<or> j < ?n \<and> de_inum (dir_entry s i j) = 0"
    using empty_slot_first [OF dir] by blast
  have de: "length ?de = 16" "de_inum ?de = ucast inum" "canon (de_name ?de) = canon name"
    using dirent_fields [where name = "str_ncpy DIRSIZ name" and ino = "ucast inum"] by (simp_all add: canon_def str_ncpy_idem)
  have jn: "j \<le> ?n" using j(2) by auto
  have le: "16 * j + 16 \<le> 71680" using jn room(1) D(5) by (simp add: sizes)
  have un: "unat (of_nat (16 * j) :: u32) = 16 * j" using le by (simp add: unat_of_nat take_bit_nat_def del: of_nat_mult)
  have ty: "i_type (icache s ! i) \<noteq> T_DEV" using D(2) by (simp add: T_DIR_def T_DEV_def)
  have pre: "unat (of_nat (16 * j) :: u32) \<le> unat (i_size (icache s ! i))" "unat (of_nat (16 * j) :: u32) + length ?de \<le> MAXFILE * BSIZE"
    "missing_indirect s i + span (unat (of_nat (16 * j) :: u32)) (length ?de) \<le> free_count dev s"
    using un de(1) jn D(5) le room(2) by (simp_all add: sizes span_entry del: of_nat_mult)
  obtain s' where w: "writei dw i ?de (of_nat (16 * j)) s = Inr (Some (length ?de), s')" "inode_wf dev i s'" "no_holes s' i"
    "contents s' i = take (unat (of_nat (16 * j) :: u32)) (contents s i) @ ?de @ drop (unat (of_nat (16 * j) :: u32) + length ?de) (contents s i)"
    "same_kind i s s'"
    "\<forall>c<fs_size s. used dev s c \<longrightarrow> data_start s \<le> c \<longrightarrow> \<not> owns s i c \<longrightarrow> fb s' (dev, c) = fb s (dev, c) \<and> \<not> owns s' i c"
    using writei_spec [OF D(1) ty D(3) ib pre, of dw dv] by blast
  have c': "contents s' i = take (16 * j) (contents s i) @ ?de @ drop (16 * j + 16) (contents s i)" using w(4) unfolding un de(1) .
  have entry': "dir_entry s' i k = (if k = j then ?de else dir_entry s i k)" for k
    unfolding dir_entry_def c' by (rule chunk_overwrite [OF de(1)]) (use jn D(4) in simp)
  have "length (contents s' i) = 16 * max ?n (Suc j)" unfolding c' using jn de(1) D(4) by (simp add: max_def)
  then have size': "unat (i_size (icache s' ! i)) = 16 * max ?n (Suc j)" by (simp add: contents_def)
  then have n': "dir_count s' i = max ?n (Suc j)" by (simp add: dir_count_def)
  have dir': "directory dev i s'" using w(2,3,5) D(2) size' by (simp add: directory_def same_kind_def)
  let ?es = "map (dir_entry s i) [0..<?n]"
  have "map (dir_entry s' i) [0..<dir_count s' i] = take j ?es @ ?de # drop (Suc j) ?es"
  proof (rule nth_equalityI)
    show "length (map (dir_entry s' i) [0..<dir_count s' i]) = length (take j ?es @ ?de # drop (Suc j) ?es)"
      using jn by (simp add: n' max_def)
    fix k assume "k < length (map (dir_entry s' i) [0..<dir_count s' i])"
    then show "map (dir_entry s' i) [0..<dir_count s' i] ! k = (take j ?es @ ?de # drop (Suc j) ?es) ! k"
      using jn by (auto simp: n' entry' nth_append nth_Cons' max_def split: if_splits)
  qed
  moreover have "entry_map (take j ?es @ ?de # drop (Suc j) ?es) = (entry_map ?es)(canon (de_name ?de) \<mapsto> de_inum ?de)"
    by (rule entry_map_replace) (use new ino de(2,3) j(2) in \<open>auto simp: dir_map_def\<close>)
  ultimately have "dir_map s' i = (dir_map s i)(canon name \<mapsto> ucast inum)" by (simp add: dir_map_def de(2,3))
  moreover have "dirlink dv dw i name inum s = Inr (0, s')"
    using dirlookup_absent [OF dir new, of dv] j(1) w(1) de(1) by (simp add: dirlink_def Let_def)
  ultimately show ?thesis using dir' w(6) by blast
qed


text \<open>The empty directory on the demonstration disk, and the file \<open>a\<close> in it.\<close>

definition demo_dir :: fs where
  "demo_dir = demo_fs\<lparr>icache := [demo_inode\<lparr>i_type := T_DIR\<rparr>]\<rparr>"

lemma demo_dir_ok: "directory 1 0 demo_dir" "dir_map demo_dir 0 = Map.empty" "free_count 1 demo_dir = 7" "missing_indirect demo_dir 0 = 1"
proof -
  have ic: "icache demo_fs ! 0 = demo_inode" "length (icache demo_fs) = 1" by (simp_all add: demo_fs_def)
  have U: "used 1 demo_dir b = used 1 demo_fs b" for b by (rule used_cong) (simp_all add: demo_dir_def)
  have I: "indirect demo_dir 0 = indirect demo_fs 0" by (simp add: indirect_def demo_dir_def ic)
  have A: "addr_of demo_dir 0 bn = addr_of demo_fs 0 bn" for bn unfolding addr_of_def I by (simp add: demo_dir_def ic)
  have S: "fsb demo_dir = fsb demo_fs" "data_start demo_dir = data_start demo_fs" by (simp_all add: demo_dir_def data_start_def)
  have db: "data_block 1 demo_dir a = data_block 1 demo_fs a" for a by (simp add: data_block_def U S del: One_nat_def)
  have ly: "layout_ok 1 demo_dir = layout_ok 1 demo_fs" by (simp add: layout_ok_def U S del: One_nat_def)
  have "inode_wf 1 0 demo_dir" using demo_file(1) unfolding inode_wf_def A I db ly by (simp add: demo_dir_def ic del: One_nat_def)
  then show "directory 1 0 demo_dir" by (simp add: directory_def no_holes_def demo_dir_def demo_inode_def)
  show "dir_map demo_dir 0 = Map.empty" by (simp add: dir_map_def entry_map_def dir_count_def demo_dir_def demo_inode_def)
  show "free_count 1 demo_dir = 7" using demo_file(3) by (simp add: free_count_def U S del: One_nat_def)
  show "missing_indirect demo_dir 0 = 1" using demo_file(4) by (simp add: missing_indirect_def I)
qed


end
