(* ===== verification/Grep.thy ===== *)
theory Grep
  imports OS_Prelude
begin

text \<open>
  The text utilities \<open>grep\<close> and \<open>wc\<close> of xv6. Strings are the characters before the NUL. The regular
  expression matcher of \<open>grep.c\<close> is compared with the language its pattern denotes, and its loop over the
  input with the list of the lines of the input. What successive calls of \<open>read\<close> deliver is a list of
  chunks; a call takes at most what it asks for from the first one.
\<close>

section \<open>The matcher\<close>

function (sequential) matchhere :: "u8 list \<Rightarrow> u8 list \<Rightarrow> bool"
  and matchstar :: "u8 \<Rightarrow> u8 list \<Rightarrow> u8 list \<Rightarrow> bool" where
  "matchhere re s =
     (case re of
        [] \<Rightarrow> True
      | c # r \<Rightarrow>
          if r \<noteq> [] \<and> hd r = 42 then matchstar c (tl r) s
          else if c = 36 \<and> r = [] then s = []
          else if s \<noteq> [] \<and> (c = 46 \<or> c = hd s) then matchhere r (tl s)
          else False)"
| "matchstar c re s =
     (if matchhere re s then True
      else if s \<noteq> [] \<and> (hd s = c \<or> c = 46) then matchstar c re (tl s)
      else False)"
  by pat_completeness auto
termination
  by (relation "measures [\<lambda>x. case x of Inl (re, t) \<Rightarrow> 2 * length re | Inr (c, re, t) \<Rightarrow> 2 * length re + 1,
                          \<lambda>x. case x of Inl (re, t) \<Rightarrow> length t | Inr (c, re, t) \<Rightarrow> length t]") auto

declare matchhere.simps [simp del] matchstar.simps [simp del]

text \<open>The loop of \<open>match\<close> tries every suffix of the s, the empty one included.\<close>

fun match_from :: "u8 list \<Rightarrow> u8 list \<Rightarrow> bool" where
  "match_from re [] = matchhere re []"
| "match_from re (t # s) = (if matchhere re (t # s) then True else match_from re s)"

definition match :: "u8 list \<Rightarrow> u8 list \<Rightarrow> bool" where
  "match re s = (if re \<noteq> [] \<and> hd re = 94 then matchhere (tl re) s else match_from re s)"

section \<open>The language of a pattern\<close>

datatype atom = Chr u8 | Dot | Rep atom

definition char_atom :: "u8 \<Rightarrow> atom" where
  "char_atom c = (if c = 46 then Dot else Chr c)"

text \<open>The atoms of a pattern, and whether it ends in the anchor \<open>$\<close>.\<close>

function atoms :: "u8 list \<Rightarrow> atom list \<times> bool" where
  "atoms re =
     (case re of
        [] \<Rightarrow> ([], False)
      | c # r \<Rightarrow>
          if r \<noteq> [] \<and> hd r = 42 then (let (as, e) = atoms (tl r) in (Rep (char_atom c) # as, e))
          else if c = 36 \<and> r = [] then ([], True)
          else (let (as, e) = atoms r in (char_atom c # as, e)))"
  by pat_completeness auto
termination by (relation "measure length") auto

declare atoms.simps [simp del]

inductive in_atom :: "atom \<Rightarrow> u8 list \<Rightarrow> bool" where
  chr: "in_atom (Chr c) [c]"
| dot: "in_atom Dot [c]"
| none: "in_atom (Rep a) []"
| more: "in_atom a u \<Longrightarrow> in_atom (Rep a) v \<Longrightarrow> in_atom (Rep a) (u @ v)"

inductive_simps in_atom_Chr [simp]: "in_atom (Chr c) u"
inductive_simps in_atom_Dot [simp]: "in_atom Dot u"
inductive_cases in_atom_RepE: "in_atom (Rep a) u"

fun in_atoms :: "atom list \<Rightarrow> u8 list \<Rightarrow> bool" where
  "in_atoms [] w \<longleftrightarrow> w = []"
| "in_atoms (a # as) w \<longleftrightarrow> (\<exists>u v. w = u @ v \<and> in_atom a u \<and> in_atoms as v)"

text \<open>The pattern matches at the front of the text.\<close>

definition front :: "atom list \<Rightarrow> bool \<Rightarrow> u8 list \<Rightarrow> bool" where
  "front as e s \<longleftrightarrow> (\<exists>u v. s = u @ v \<and> in_atoms as u \<and> (e \<longrightarrow> v = []))"

definition at_front :: "u8 list \<Rightarrow> u8 list \<Rightarrow> bool" where
  "at_front re s \<longleftrightarrow> front (fst (atoms re)) (snd (atoms re)) s"

definition denotes :: "u8 list \<Rightarrow> u8 list \<Rightarrow> bool" where
  "denotes re s \<longleftrightarrow>
     (if re \<noteq> [] \<and> hd re = 94 then at_front (tl re) s else \<exists>u v. s = u @ v \<and> at_front re v)"

lemma char_atom_iff: "in_atom (char_atom c) u \<longleftrightarrow> (\<exists>t. u = [t] \<and> (c = 46 \<or> c = t))"
  by (auto simp: char_atom_def)

lemma char_rep_iff:
  "in_atom (Rep (char_atom c)) u \<longleftrightarrow> u = [] \<or> (\<exists>t u'. u = t # u' \<and> (t = c \<or> c = 46) \<and> in_atom (Rep (char_atom c)) u')"
proof
  assume "in_atom (Rep (char_atom c)) u"
  then show "u = [] \<or> (\<exists>t u'. u = t # u' \<and> (t = c \<or> c = 46) \<and> in_atom (Rep (char_atom c)) u')"
    by (rule in_atom_RepE) (auto simp: char_atom_iff)
next
  assume "u = [] \<or> (\<exists>t u'. u = t # u' \<and> (t = c \<or> c = 46) \<and> in_atom (Rep (char_atom c)) u')"
  then show "in_atom (Rep (char_atom c)) u"
    using in_atom.more [of "char_atom c" "[_]"] by (auto simp: char_atom_iff intro: in_atom.none)
qed

text \<open>The starred character followed by the rest, at the front of the text.\<close>

definition star_front :: "u8 \<Rightarrow> u8 list \<Rightarrow> u8 list \<Rightarrow> bool" where
  "star_front c re s \<longleftrightarrow> (\<exists>u v. s = u @ v \<and> in_atom (Rep (char_atom c)) u \<and> at_front re v)"

lemma front_Cons: "front (a # as) e s \<longleftrightarrow> (\<exists>u v. s = u @ v \<and> in_atom a u \<and> front as e v)"
  unfolding front_def in_atoms.simps by (metis append.assoc)

lemma star_front_step:
  "star_front c re s \<longleftrightarrow> at_front re s \<or> (s \<noteq> [] \<and> (hd s = c \<or> c = 46) \<and> star_front c re (tl s))"
proof
  assume "star_front c re s"
  then obtain u v where uv: "s = u @ v" "in_atom (Rep (char_atom c)) u" "at_front re v" by (auto simp: star_front_def)
  from uv(2) consider "u = []" | t u' where "u = t # u'" "t = c \<or> c = 46" "in_atom (Rep (char_atom c)) u'"
    using char_rep_iff [of c u] by blast
  then show "at_front re s \<or> (s \<noteq> [] \<and> (hd s = c \<or> c = 46) \<and> star_front c re (tl s))"
    by cases (use uv in \<open>auto simp: star_front_def\<close>)
next
  assume "at_front re s \<or> (s \<noteq> [] \<and> (hd s = c \<or> c = 46) \<and> star_front c re (tl s))"
  then consider "at_front re s" | u v where "s \<noteq> []" "hd s = c \<or> c = 46" "tl s = u @ v" "in_atom (Rep (char_atom c)) u" "at_front re v"
    by (auto simp: star_front_def)
  then show "star_front c re s"
  proof cases
    case 1
    then show ?thesis using in_atom.none unfolding star_front_def by (intro exI [of _ "[]"] exI [of _ s]) simp
  next
    case 2
    then have "in_atom (Rep (char_atom c)) (hd s # u)" using char_rep_iff [of c "hd s # u"] by simp
    moreover have "s = (hd s # u) @ v" using 2 by (cases s) auto
    ultimately show ?thesis using 2(5) unfolding star_front_def by blast
  qed
qed

lemma at_front_Nil: "at_front [] s"
  by (simp add: at_front_def front_def atoms.simps)

lemma at_front_star:
  assumes "r \<noteq> []" "hd r = 42"
  shows "at_front (c # r) s = star_front c (tl r) s"
proof -
  have "atoms (c # r) = (Rep (char_atom c) # fst (atoms (tl r)), snd (atoms (tl r)))"
    using assms by (subst atoms.simps) (simp add: split_beta)
  then show ?thesis by (simp add: at_front_def star_front_def front_Cons)
qed

lemma at_front_end: "at_front [36] s \<longleftrightarrow> s = []"
  by (simp add: at_front_def front_def atoms.simps)

lemma at_front_char:
  assumes "\<not> (r \<noteq> [] \<and> hd r = 42)" "\<not> (c = 36 \<and> r = [])"
  shows "at_front (c # r) s \<longleftrightarrow> s \<noteq> [] \<and> (c = 46 \<or> c = hd s) \<and> at_front r (tl s)"
proof -
  have "atoms (c # r) = (char_atom c # fst (atoms r), snd (atoms r))"
    using assms by (subst atoms.simps) (auto simp add: split_beta)
  then have "at_front (c # r) s \<longleftrightarrow> (\<exists>t v. s = [t] @ v \<and> (c = 46 \<or> c = t) \<and> at_front r v)"
    unfolding at_front_def by (simp only: fst_conv snd_conv front_Cons char_atom_iff) blast
  then show ?thesis by (cases s) auto
qed

lemma matchhere_front: "matchhere re s = at_front re s"
  and matchstar_front: "matchstar c re s = star_front c re s"
proof (induction re s and c re s rule: matchhere_matchstar.induct)
  case (1 re s)
  show ?case
  proof (cases re)
    case (Cons c r)
    then show ?thesis using 1 at_front_star at_front_end at_front_char
      by (subst matchhere.simps) auto
  qed (simp add: at_front_Nil matchhere.simps)
next
  case (2 c re s)
  then show ?case by (subst matchstar.simps, subst star_front_step) auto
qed

lemma match_denotes: "match re s = denotes re s"
proof -
  have "match_from re s = (\<exists>u v. s = u @ v \<and> matchhere re v)" for s
  proof (induction s)
    case (Cons t s)
    then show ?case by (auto simp: Cons_eq_append_conv)
  qed simp
  then show ?thesis unfolding match_def denotes_def matchhere_front by presburger
qed

text \<open>
  C21. The matcher of \<open>grep\<close> decides exactly the language of the pattern. A pattern denotes a sequence of
  atoms (a character, any character, or a repetition of one of these), anchored at the front by a leading
  \<open>^\<close> and at the end by a final \<open>$\<close>; \<open>match\<close> returns true for a s if and only if some part of it, at
  the front or the end where the pattern says so, is a word of that language. The backtracking of
  \<open>matchstar\<close> therefore loses no match and ends on every input.
\<close>

theorem match_language: "match re s = denotes re s"
  by (rule match_denotes)

section \<open>The loop over the input\<close>

text \<open>\<open>strchr(p, '\n')\<close>: the position of the first newline before a NUL.\<close>

fun find_nl :: "u8 list \<Rightarrow> nat option" where
  "find_nl [] = None"
| "find_nl (c # s) = (if c = 0 then None else if c = 10 then Some 0 else map_option Suc (find_nl s))"

lemma find_nl_bound: "find_nl s = Some k \<Longrightarrow> k < length s"
  by (induction s arbitrary: k) (auto split: if_splits)

text \<open>The inner loop over the buffer from \<open>p\<close>: what is written, and what is left behind the last newline.\<close>

function line_loop :: "u8 list \<Rightarrow> u8 list \<Rightarrow> u8 list \<times> u8 list" where
  "line_loop re p =
     (case find_nl p of
        None \<Rightarrow> ([], p)
      | Some k \<Rightarrow>
          let (out, rest) = line_loop re (drop (Suc k) p) in
            ((if match re (take k p) then take (Suc k) p else []) @ out, rest))"
  by pat_completeness auto
termination by (relation "measure (length \<circ> snd)") (auto dest: find_nl_bound)

declare line_loop.simps [simp del]

text \<open>A call of \<open>read\<close> for \<open>n\<close> bytes.\<close>

fun read_some :: "nat \<Rightarrow> u8 list list \<Rightarrow> u8 list \<times> u8 list list" where
  "read_some n [] = ([], [])"
| "read_some n (c # cs) =
     (if n = 0 then ([], c # cs) else (take n c, if length c \<le> n then cs else drop n c # cs))"

lemma read_some_length: "read_some n cs = (d, cs') \<Longrightarrow> length (concat cs) = length d + length (concat cs')"
  by (cases cs) (auto split: if_splits)

lemma read_some_less: "(d, cs') = read_some n cs \<Longrightarrow> d \<noteq> [] \<Longrightarrow> length (concat cs') < length (concat cs)"
  using read_some_length [of n cs d cs'] by simp

text \<open>The outer loop with the \<open>m\<close> bytes kept at the front of \<open>buf[1024]\<close>; the result is what is written.\<close>

function grep :: "u8 list \<Rightarrow> u8 list \<Rightarrow> u8 list list \<Rightarrow> u8 list" where
  "grep re kept cs =
     (case read_some (1024 - length kept - 1) cs of
        (d, cs') \<Rightarrow>
          if d = [] then []
          else let s = kept @ d; (out, p) = line_loop re s;
                   kept' = (if length p = length s then [] else p)
               in out @ grep re kept' cs')"
  by pat_completeness auto
termination
  by (relation "measure (\<lambda>(_, _, cs). length (concat cs))") (auto dest: read_some_less)

declare grep.simps [simp del]

text \<open>The complete lines of a text, and what a search should report.\<close>

fun pieces :: "u8 list \<Rightarrow> u8 list list" where
  "pieces [] = [[]]"
| "pieces (c # cs) = (if c = 10 then [] # pieces cs else (c # hd (pieces cs)) # tl (pieces cs))"

definition report :: "u8 list \<Rightarrow> u8 list \<Rightarrow> u8 list" where
  "report re s = concat (map (\<lambda>l. if match re l then l @ [10] else []) (butlast (pieces s)))"

lemma pieces_ne [simp]: "pieces s \<noteq> []"
  by (cases s) auto

lemma pieces_no_nl: "10 \<notin> set s \<Longrightarrow> pieces s = [s]"
  by (induction s) auto

lemma pieces_nl: "10 \<notin> set l \<Longrightarrow> pieces (l @ 10 # r) = l # pieces r"
  by (induction l) auto

lemma find_nl_None: "0 \<notin> set s \<Longrightarrow> find_nl s = None \<longleftrightarrow> 10 \<notin> set s"
  by (induction s) auto

lemma find_nl_Some: "find_nl s = Some k \<Longrightarrow> s = take k s @ 10 # drop (Suc k) s \<and> 10 \<notin> set (take k s)"
  by (induction s arbitrary: k) (auto split: if_splits)

lemma line_loop_spec:
  assumes "0 \<notin> set s"
  shows "\<exists>out p. line_loop re s = (out, p) \<and> 10 \<notin> set p \<and> 0 \<notin> set p \<and> length p \<le> length s \<and> (length p = length s \<longleftrightarrow> 10 \<notin> set s) \<and>
    (10 \<notin> set s \<longrightarrow> p = s \<and> out = []) \<and> (\<forall>t. report re (s @ t) = out @ report re (p @ t)) \<and>
    (\<forall>t. set (pieces (p @ t)) \<subseteq> set (pieces (s @ t)))"
  using assms
proof (induction "length s" arbitrary: s rule: less_induct)
  case less
  show ?case
  proof (cases "find_nl s")
    case None
    then have "10 \<notin> set s" using find_nl_None less.prems by blast
    then show ?thesis using None less.prems by (subst line_loop.simps) auto
  next
    case (Some k)
    define l r where "l = take k s" and "r = drop (Suc k) s"
    have s: "s = l @ 10 # r" "10 \<notin> set l" using find_nl_Some [OF Some] by (simp_all add: l_def r_def)
    have "0 \<notin> set r" "length r < length s" using less.prems s(1) by auto
    then obtain out p where ih: "line_loop re r = (out, p)" "10 \<notin> set p" "0 \<notin> set p" "length p \<le> length r"
      "10 \<notin> set r \<longrightarrow> p = r \<and> out = []" "\<forall>t. report re (r @ t) = out @ report re (p @ t)" "\<forall>t. set (pieces (p @ t)) \<subseteq> set (pieces (r @ t))"
      using less.hyps [of r] by blast
    have sk: "take (Suc k) s = l @ [10]" using s(1) find_nl_bound [OF Some] by (simp add: l_def take_Suc_conv_app_nth) (metis l_def length_take less_or_eq_imp_le min.absorb2 nth_append_length)
    have ll: "line_loop re s = ((if match re l then l @ [10] else []) @ out, p)"
      using Some ih(1) sk by (subst line_loop.simps) (simp add: l_def r_def)
    have rep: "report re (s @ t) = (if match re l then l @ [10] else []) @ report re (r @ t)" for t
      using s by (simp add: report_def pieces_nl)
    have ps: "pieces (s @ t) = l # pieces (r @ t)" for t using s by (simp add: pieces_nl)
    have len: "length p < length s" using ih(4) \<open>length r < length s\<close> by simp
    show ?thesis unfolding ll using ih rep ps len s(1) by auto
  qed
qed

lemma report_no_nl: "10 \<notin> set s \<Longrightarrow> report re s = []"
  by (simp add: report_def pieces_no_nl)

lemma hd_pieces: "10 \<notin> set s \<Longrightarrow> hd (pieces (s @ t)) = s @ hd (pieces t)"
  by (induction s) auto

lemma grep_file:
  assumes "0 \<notin> set (kept @ t)" "10 \<notin> set kept" "\<forall>l\<in>set (pieces (kept @ t)). length l \<le> 1022"
  shows "grep re kept [t] = report re (kept @ t)"
  using assms
proof (induction "length t" arbitrary: kept t rule: less_induct)
  case less
  have "length (hd (pieces (kept @ t))) \<le> 1022" using less.prems(3) pieces_ne by (metis hd_in_set)
  then have m: "length kept \<le> 1022" using hd_pieces [OF less.prems(2), of t] by simp
  define d t' where "d = take (1023 - length kept) t" and "t' = drop (1023 - length kept) t"
  have rs: "read_some (1024 - length kept - 1) [t] = (d, if t' = [] then [] else [t'])"
    using m by (simp add: d_def t'_def)
  show ?case
  proof (cases "t = []")
    case True
    then have "d = []" by (simp add: d_def)
    then have "grep re kept [t] = []" using rs by (subst grep.simps) simp
    with True report_no_nl [OF less.prems(2)] show ?thesis by simp
  next
    case False
    have d: "d \<noteq> []" "t = d @ t'" "length t' < length t" using False m by (cases t; simp add: d_def t'_def)+
    have nz: "0 \<notin> set (kept @ d)" using less.prems(1) d(2) by simp
    obtain out p where ll: "line_loop re (kept @ d) = (out, p)" "10 \<notin> set p" "0 \<notin> set p" "length p = length (kept @ d) \<longleftrightarrow> 10 \<notin> set (kept @ d)"
      "10 \<notin> set (kept @ d) \<longrightarrow> p = kept @ d \<and> out = []" "report re ((kept @ d) @ t') = out @ report re (p @ t')"
      "set (pieces (p @ t')) \<subseteq> set (pieces ((kept @ d) @ t'))"
      using line_loop_spec [OF nz, of re] by blast
    have step: "grep re kept [t] = out @ grep re (if length p = length (kept @ d) then [] else p) (if t' = [] then [] else [t'])"
      using rs d(1) ll(1) by (subst grep.simps) (simp add: Let_def)
    show ?thesis
    proof (cases "t' = []")
      case True
      then have "grep re k [] = []" for k by (simp add: grep.simps)
      with True step ll(2,6) d(2) show ?thesis by (simp add: report_no_nl)
    next
      case F: False
      then have "length (kept @ d) = 1023" using m by (simp add: d_def t'_def)
      have "10 \<in> set (kept @ d)"
      proof (rule ccontr)
        assume "10 \<notin> set (kept @ d)"
        then have "kept @ d @ hd (pieces t') \<in> set (pieces (kept @ t))"
          using hd_pieces [of "kept @ d" t'] pieces_ne [of "kept @ t"] d(2) by (metis append.assoc hd_in_set)
        with less.prems(3) have "length (kept @ d @ hd (pieces t')) \<le> 1022" by blast
        with \<open>length (kept @ d) = 1023\<close> show False by simp
      qed
      then have "grep re kept [t] = out @ grep re p [t']" using step ll(4) F by simp
      moreover have "grep re p [t'] = report re (p @ t')"
      proof (rule less.hyps [OF d(3)])
        show "0 \<notin> set (p @ t')" using ll(3) less.prems(1) d(2) by simp
        show "\<forall>l\<in>set (pieces (p @ t')). length l \<le> 1022" using ll(7) less.prems(3) d(2) by auto
      qed (rule ll(2))
      ultimately show ?thesis using ll(6) d(2) by simp
    qed
  qed
qed



text \<open>When a call of \<open>read\<close> delivers the beginning of a line only, as a pipe does, and the buffer holds no
  newline yet, the code resets \<open>m\<close> and the beginning is forgotten: the line \<open>abc\<close> is found when it comes in
  one piece and not when it comes in two.\<close>

lemma grep_forgets_partial_line:
  "grep [97] [] [[97, 98, 99, 10]] = [97, 98, 99, 10] \<and> grep [97] [] [[97, 98], [99, 10]] = []"
  by (simp add: grep.simps line_loop.simps match_def matchhere.simps)

section \<open>Counting\<close>

definition wc_space :: "u8 \<Rightarrow> bool" where
  "wc_space c \<longleftrightarrow> c \<in> {32, 13, 9, 10, 11}"

record counts =
  wl :: int
  ww :: int
  wch :: int
  inword :: bool

definition wc_byte :: "u8 \<Rightarrow> counts \<Rightarrow> counts" where
  "wc_byte b k =
     (let k1 = k\<lparr>wch := wch k + 1\<rparr>; k2 = (if b = 10 then k1\<lparr>wl := wl k1 + 1\<rparr> else k1) in
      if wc_space b then k2\<lparr>inword := False\<rparr>
      else if \<not> inword k2 then k2\<lparr>ww := ww k2 + 1, inword := True\<rparr>
      else k2)"

text \<open>The loop over the chunks \<open>read\<close> delivers: lines, words and characters.\<close>

fun wc_loop :: "u8 list list \<Rightarrow> counts \<Rightarrow> counts" where
  "wc_loop [] k = k"
| "wc_loop (c # cs) k = (if c = [] then k else wc_loop cs (fold wc_byte c k))"

definition wc :: "u8 list list \<Rightarrow> int \<times> int \<times> int" where
  "wc cs = (let k = wc_loop cs \<lparr>wl = 0, ww = 0, wch = 0, inword = False\<rparr> in (wl k, ww k, wch k))"

text \<open>The three counts are what their names say: newlines, starts of words, and bytes.\<close>

definition word_starts :: "u8 list \<Rightarrow> nat set" where
  "word_starts s = {i. i < length s \<and> \<not> wc_space (s ! i) \<and> (i = 0 \<or> wc_space (s ! (i - 1)))}"

lemma word_starts_snoc:
  "word_starts (s @ [b]) = (if \<not> wc_space b \<and> (s = [] \<or> wc_space (last s)) then insert (length s) (word_starts s) else word_starts s)"
  by (cases "s = []") (auto simp: word_starts_def nth_append last_conv_nth less_Suc_eq)

lemma finite_word_starts [simp]: "finite (word_starts s)" "length s \<notin> word_starts s"
  by (simp_all add: word_starts_def)

lemma wc_fold:
  "fold wc_byte s \<lparr>wl = 0, ww = 0, wch = 0, inword = False\<rparr> =
     \<lparr>wl = int (count_list s 10), ww = int (card (word_starts s)), wch = int (length s), inword = s \<noteq> [] \<and> \<not> wc_space (last s)\<rparr>"
proof (induction s rule: rev_induct)
  case Nil
  then show ?case by (simp add: word_starts_def)
next
  case (snoc b s)
  have "wc_space 10" by (simp add: wc_space_def)
  with snoc show ?case by (auto simp: wc_byte_def Let_def word_starts_snoc)
qed

lemma wc_counts:
  assumes "[] \<notin> set cs"
  shows "wc cs = (int (count_list (concat cs) 10), int (card (word_starts (concat cs))), int (length (concat cs)))"
proof -
  have "wc_loop cs k = fold wc_byte (concat cs) k" for k using assms by (induction cs arbitrary: k) auto
  then show ?thesis by (simp add: wc_def wc_fold)
qed

end
