(* ===== verification/Kbd.thy ===== *)
theory Kbd
  imports Console
begin

text \<open>
  The keyboard driver \<open>kbd.c\<close>: scan codes to characters through the tables of \<open>kbd.h\<close>, with the state of
  the modifier keys in the bits of \<open>shift\<close>. What the two ports deliver is an argument: \<open>None\<close> when the status
  port says that no data is waiting, otherwise the byte of the data port.
\<close>

unbundle bit_operations_syntax

definition SHIFT :: u32 where "SHIFT = 1"
definition CTL :: u32 where "CTL = 2"
definition ALT :: u32 where "ALT = 4"
definition CAPSLOCK :: u32 where "CAPSLOCK = 8"
definition NUMLOCK :: u32 where "NUMLOCK = 16"
definition SCROLLLOCK :: u32 where "SCROLLLOCK = 32"
definition E0ESC :: u32 where "E0ESC = 64"

text \<open>A table with its leading entries and the designated ones; the others are 0.\<close>

definition scancodes :: "u32 list \<Rightarrow> (nat \<times> u32) list \<Rightarrow> nat \<Rightarrow> u32" where
  "scancodes rows named d = (if d < length rows then rows ! d else case map_of named d of None \<Rightarrow> 0 | Some c \<Rightarrow> c)"

definition shiftcode :: "nat \<Rightarrow> u32" where
  "shiftcode = scancodes [] [(0x1D, CTL), (0x2A, SHIFT), (0x36, SHIFT), (0x38, ALT), (0x9D, CTL), (0xB8, ALT)]"

definition togglecode :: "nat \<Rightarrow> u32" where
  "togglecode = scancodes [] [(0x3A, CAPSLOCK), (0x45, NUMLOCK), (0x46, SCROLLLOCK)]"

definition normalmap :: "nat \<Rightarrow> u32" where
  "normalmap = scancodes
     [0, 27, 49, 50, 51, 52, 53, 54, 55, 56, 57, 48, 45, 61, 8, 9,
      113, 119, 101, 114, 116, 121, 117, 105, 111, 112, 91, 93, 10, 0, 97, 115,
      100, 102, 103, 104, 106, 107, 108, 59, 39, 96, 0, 92, 122, 120, 99, 118,
      98, 110, 109, 44, 46, 47, 0, 42, 0, 32, 0, 0, 0, 0, 0, 0,
      0, 0, 0, 0, 0, 0, 0, 55, 56, 57, 45, 52, 53, 54, 43, 49,
      50, 51, 48, 46, 0, 0, 0, 0]
     [(156, 10), (181, 47), (200, 226), (208, 227), (201, 230), (209, 231), (203, 228), (205, 229), (151, 224), (207, 225), (210, 232), (211, 233)]"

definition shiftmap :: "nat \<Rightarrow> u32" where
  "shiftmap = scancodes
     [0, 27, 33, 64, 35, 36, 37, 94, 38, 42, 40, 41, 95, 43, 8, 9,
      81, 87, 69, 82, 84, 89, 85, 73, 79, 80, 123, 125, 10, 0, 65, 83,
      68, 70, 71, 72, 74, 75, 76, 58, 34, 126, 0, 124, 90, 88, 67, 86,
      66, 78, 77, 60, 62, 63, 0, 42, 0, 32, 0, 0, 0, 0, 0, 0,
      0, 0, 0, 0, 0, 0, 0, 55, 56, 57, 45, 52, 53, 54, 43, 49,
      50, 51, 48, 46, 0, 0, 0, 0]
     [(156, 10), (181, 47), (200, 226), (208, 227), (201, 230), (209, 231), (203, 228), (205, 229), (151, 224), (207, 225), (210, 232), (211, 233)]"

definition ctlmap :: "nat \<Rightarrow> u32" where
  "ctlmap = scancodes
     [0, 0, 0, 0, 0, 0, 0, 0, 0, 0, 0, 0, 0, 0, 0, 0,
      17, 23, 5, 18, 20, 25, 21, 9, 15, 16, 0, 0, 13, 0, 1, 19,
      4, 6, 7, 8, 10, 11, 12, 0, 0, 0, 0, 28, 26, 24, 3, 22,
      2, 14, 13, 0, 0, 239, 0, 0]
     [(156, 13), (181, 239), (200, 226), (208, 227), (201, 230), (209, 231), (203, 228), (205, 229), (151, 224), (207, 225), (210, 232), (211, 233)]"

definition charcode :: "u32 \<Rightarrow> nat \<Rightarrow> u32" where
  "charcode k = [normalmap, shiftmap, ctlmap, ctlmap] ! unat k"

text \<open>The result and the new \<open>shift\<close>; -1 when nothing is waiting, 0 for no character.\<close>

definition kbdgetc :: "u8 option \<Rightarrow> u32 \<Rightarrow> int \<times> u32" where
  "kbdgetc port shift =
     (case port of
        None \<Rightarrow> (- 1, shift)
      | Some b \<Rightarrow>
          let data = unat b in
          if data = 0xE0 then (0, shift OR E0ESC)
          else if b AND 0x80 \<noteq> 0 then
            let data' = (if shift AND E0ESC \<noteq> 0 then data else unat (b AND 0x7F)) in
              (0, shift AND NOT (shiftcode data' OR E0ESC))
          else
            let data' = (if shift AND E0ESC \<noteq> 0 then unat (b OR 0x80) else data);
                shift1 = (if shift AND E0ESC \<noteq> 0 then shift AND NOT E0ESC else shift);
                shift2 = (shift1 OR shiftcode data') XOR togglecode data';
                c = charcode (shift2 AND (CTL OR SHIFT)) data';
                c' = (if shift2 AND CAPSLOCK \<noteq> 0
                      then if 97 \<le> c \<and> c \<le> 122 then c - 32 else if 65 \<le> c \<and> c \<le> 90 then c + 32 else c
                      else c)
            in (uint c', shift2))"

section \<open>Pressing and releasing a key\<close>

lemma code_bits: "\<not> bit (shiftcode k) 6" "\<not> bit (togglecode k) 6"
  by (simp_all add: shiftcode_def togglecode_def scancodes_def CTL_def SHIFT_def ALT_def CAPSLOCK_def NUMLOCK_def SCROLLLOCK_def
      bit_numeral_rec bit_1_iff)

lemma E0ESC_bit: "bit E0ESC n \<longleftrightarrow> n = 6"
proof -
  have e: "E0ESC = push_bit 6 (1 :: u32)" by (simp add: E0ESC_def)
  show ?thesis unfolding e bit_push_bit_iff by (auto simp: bit_1_iff)
qed

lemma AND_E0ESC: "x AND E0ESC = 0 \<longleftrightarrow> \<not> bit x 6"
proof -
  have "E0ESC = push_bit 6 (1 :: u32)" by (simp add: E0ESC_def)
  then show ?thesis using bit_iff_and_push_bit_not_eq_0 [of x 6] by simp
qed

lemma top_bit: "(0x80 :: u8) = push_bit 7 1" "(0x7F :: u8) = mask 7"
  by (simp_all add: mask_eq_exp_minus_1)

lemma release_code:
  fixes k :: u8
  assumes "\<not> bit k 7"
  shows "(k OR 0x80) AND 0x7F = k" "(k OR 0x80) AND 0x80 \<noteq> 0" "k AND 0x80 = 0"
proof -
  show "(k OR 0x80) AND 0x7F = k" unfolding top_bit
    by (rule bit_word_eqI) (use assms in \<open>auto simp: bit_simps less_Suc_eq numeral_eq_Suc\<close>)
  show "(k OR 0x80) AND 0x80 \<noteq> 0" "k AND 0x80 = 0"
    unfolding top_bit using assms bit_iff_and_push_bit_not_eq_0 [of _ 7] by (auto simp: bit_simps)
qed

text \<open>The press of key \<open>k\<close> gives its character and the release gives none; afterwards a lock key has
  toggled its bit, a modifier key is up, and every other bit of the state is as before. The code \<open>0x60\<close>
  cannot be released: its release code is the escape \<open>0xE0\<close>.\<close>

lemma press_release:
  assumes k: "\<not> bit k 7" "k OR 0x80 \<noteq> 0xE0" and e: "\<not> bit shift 6"
  shows "\<exists>c. kbdgetc (Some k) shift = (c, (shift OR shiftcode (unat k)) XOR togglecode (unat k)) \<and>
    kbdgetc (Some (k OR 0x80)) ((shift OR shiftcode (unat k)) XOR togglecode (unat k)) =
      (0, (shift XOR togglecode (unat k)) AND NOT (shiftcode (unat k)))"
proof -
  have code: "unat b = 0xE0 \<longleftrightarrow> b = 0xE0" for b :: u8
  proof -
    have "unat (0xE0 :: u8) = 0xE0" by simp
    then show ?thesis by (metis word_unat_eq_iff)
  qed
  have "k \<noteq> 0xE0" using k(1) by (auto simp: bit_numeral_rec)
  then have ne: "unat k \<noteq> 0xE0" "unat (k OR 0x80) \<noteq> 0xE0" using k(2) code by blast+
  note rel = release_code [OF k(1)]
  let ?s1 = "(shift OR shiftcode (unat k)) XOR togglecode (unat k)"
  have s1: "?s1 AND E0ESC = 0" "shift AND E0ESC = 0" using e code_bits by (simp_all add: AND_E0ESC bit_simps)
  have "kbdgetc (Some (k OR 0x80)) ?s1 = (0, ?s1 AND NOT (shiftcode (unat k) OR E0ESC))"
    using ne(2) rel(1,2) s1(1) by (simp add: kbdgetc_def Let_def)
  moreover have "?s1 AND NOT (shiftcode (unat k) OR E0ESC) = (shift XOR togglecode (unat k)) AND NOT (shiftcode (unat k))"
    by (rule bit_word_eqI) (use e code_bits in \<open>auto simp: bit_simps E0ESC_bit\<close>)
  moreover have "\<exists>c. kbdgetc (Some k) shift = (c, ?s1)"
    using ne(1) rel(3) s1(2) by (simp add: kbdgetc_def Let_def)
  ultimately show ?thesis by simp
qed

section \<open>Types of the result and of the state\<close>

lemma scancodes_bound:
  "\<forall>x\<in>set rows. x \<le> 239 \<Longrightarrow> \<forall>p\<in>set named. snd p \<le> 239 \<Longrightarrow> scancodes rows named d \<le> 239"
  unfolding scancodes_def by (fastforce split: option.splits dest: map_of_SomeD)

lemma charcode_bound: "unat k < 4 \<Longrightarrow> charcode k d \<le> 239"
proof -
  assume "unat k < 4"
  then have "charcode k \<in> {normalmap, shiftmap, ctlmap}" unfolding charcode_def by (auto simp: nth_Cons' less_Suc_eq numeral_eq_Suc)
  moreover have "normalmap d \<le> 239" "shiftmap d \<le> 239" "ctlmap d \<le> 239"
    unfolding normalmap_def shiftmap_def ctlmap_def by (rule scancodes_bound; simp)+
  ultimately show ?thesis by auto
qed

lemma modifier_index: "unat (s AND (CTL OR SHIFT)) < 4"
proof -
  have "s AND (CTL OR SHIFT) = take_bit 2 s" by (simp add: CTL_def SHIFT_def take_bit_eq_mask mask_eq_exp_minus_1)
  then show ?thesis by (simp add: take_bit_eq_mod unat_mod)
qed

lemma small_iff: "(s :: u32) < 128 \<longleftrightarrow> take_bit 7 s = s"
proof -
  have "unat (take_bit 7 s) = unat s mod 128" by (simp add: take_bit_eq_mod unat_mod)
  moreover have "s < 128 \<longleftrightarrow> unat s < 128" by (simp add: word_less_nat_alt)
  moreover have "unat s mod 128 = unat s \<longleftrightarrow> unat s < 128" by (metis mod_less mod_less_divisor zero_less_numeral)
  ultimately show ?thesis by (metis word_unat_eq_iff)
qed

lemma code_small: "shiftcode k < 128" "togglecode k < 128"
  by (simp_all add: shiftcode_def togglecode_def scancodes_def CTL_def SHIFT_def ALT_def CAPSLOCK_def NUMLOCK_def SCROLLLOCK_def)

lemma small_ops:
  fixes s t :: u32
  assumes "s < 128"
  shows "s AND t < 128" "t < 128 \<Longrightarrow> s OR t < 128" "t < 128 \<Longrightarrow> s XOR t < 128"
proof -
  have s: "take_bit 7 s = s" using assms by (simp add: small_iff)
  have "bit s n \<Longrightarrow> n < 7" for n using s by (metis bit_take_bit_iff)
  then have "take_bit 7 (s AND t) = s AND t" by (intro bit_word_eqI) (auto simp: bit_simps)
  then show "s AND t < 128" by (simp only: small_iff)
  show "t < 128 \<Longrightarrow> s OR t < 128" "t < 128 \<Longrightarrow> s XOR t < 128" using s by (simp_all add: small_iff take_bit_or take_bit_xor)
qed



end
