(* ===== verification/Locks.thy ===== *)
theory Locks
  imports OS_Prelude
begin

text \<open>
  The spin locks of \<open>spinlock.c\<close> on several processors, and the sleep locks of \<open>sleeplock.c\<close>. \<open>acquire\<close>
  and \<open>release\<close> are cut at the points where another processor can see their effect: the atomic exchange,
  the recording of the owner and the clearing of the lock word; everything between two cuts touches only
  the processor's own state or a lock it holds. A processor's program may acquire and release any lock at
  any time. The saved call stack \<open>pcs\<close> is not modelled.
\<close>

record spinlock =
  lk_locked :: u32
  lk_cpu :: "nat option"

text \<open>Where a processor is: outside the lock code, spinning, or at one of the later cuts.\<close>

datatype lock_pc = Run | Spin nat | Record_owner nat | Clear_word nat

record cpu =
  c_if :: bool
  c_ncli :: int
  c_intena :: bool
  c_pc :: lock_pc

record machine =
  locks :: "nat \<Rightarrow> spinlock"
  cpus :: "nat \<Rightarrow> cpu"

definition initlock :: spinlock where
  "initlock = \<lparr>lk_locked = 0, lk_cpu = None\<rparr>"

definition pushcli :: "cpu \<Rightarrow> cpu" where
  "pushcli c =
     (let eflags = c_if c; c1 = c\<lparr>c_if := False\<rparr>;
          c2 = (if c_ncli c1 = 0 then c1\<lparr>c_intena := eflags\<rparr> else c1)
      in c2\<lparr>c_ncli := c_ncli c2 + 1\<rparr>)"

definition popcli :: "cpu \<Rightarrow> cpu res" where
  "popcli c =
     (if c_if c then Inl (Panic ''popcli - interruptible'')
      else let c1 = c\<lparr>c_ncli := c_ncli c - 1\<rparr> in
        if c_ncli c1 < 0 then Inl (Panic ''popcli'')
        else if c_ncli c1 = 0 \<and> c_intena c1 then Inr (c1\<lparr>c_if := True\<rparr>)
        else Inr c1)"

definition holding :: "nat \<Rightarrow> spinlock \<Rightarrow> cpu \<Rightarrow> (bool \<times> cpu) res" where
  "holding me lk c =
     (let c1 = pushcli c; r = (lk_locked lk \<noteq> 0 \<and> lk_cpu lk = Some me)
      in bindR (popcli c1) (\<lambda>c2. Inr (r, c2)))"

definition set_cpu :: "nat \<Rightarrow> cpu \<Rightarrow> machine \<Rightarrow> machine" where
  "set_cpu me c m = m\<lparr>cpus := (cpus m)(me := c)\<rparr>"

definition set_lock :: "nat \<Rightarrow> spinlock \<Rightarrow> machine \<Rightarrow> machine" where
  "set_lock l k m = m\<lparr>locks := (locks m)(l := k)\<rparr>"

text \<open>\<open>acquire\<close>: up to the exchange, one exchange, and after the loop.\<close>

definition acquire_enter :: "nat \<Rightarrow> nat \<Rightarrow> machine \<Rightarrow> machine res" where
  "acquire_enter me l m =
     bindR (holding me (locks m l) (pushcli (cpus m me))) (\<lambda>(r, c).
       if r then Inl (Panic ''acquire'') else Inr (set_cpu me (c\<lparr>c_pc := Spin l\<rparr>) m))"

definition acquire_xchg :: "nat \<Rightarrow> nat \<Rightarrow> machine \<Rightarrow> machine" where
  "acquire_xchg me l m =
     (let old = lk_locked (locks m l); m1 = set_lock l ((locks m l)\<lparr>lk_locked := 1\<rparr>) m in
      if old \<noteq> 0 then m1 else set_cpu me ((cpus m1 me)\<lparr>c_pc := Record_owner l\<rparr>) m1)"

definition acquire_record :: "nat \<Rightarrow> nat \<Rightarrow> machine \<Rightarrow> machine" where
  "acquire_record me l m =
     set_cpu me ((cpus m me)\<lparr>c_pc := Run\<rparr>) (set_lock l ((locks m l)\<lparr>lk_cpu := Some me\<rparr>) m)"

text \<open>\<open>release\<close>: up to the store that clears the lock word, and the rest.\<close>

definition release_enter :: "nat \<Rightarrow> nat \<Rightarrow> machine \<Rightarrow> machine res" where
  "release_enter me l m =
     bindR (holding me (locks m l) (cpus m me)) (\<lambda>(r, c).
       if \<not> r then Inl (Panic ''release'')
       else Inr (set_lock l ((locks m l)\<lparr>lk_cpu := None\<rparr>) (set_cpu me (c\<lparr>c_pc := Clear_word l\<rparr>) m)))"

definition release_store :: "nat \<Rightarrow> nat \<Rightarrow> machine \<Rightarrow> machine res" where
  "release_store me l m =
     (let m1 = set_lock l ((locks m l)\<lparr>lk_locked := 0\<rparr>) m in
      bindR (popcli (cpus m1 me)) (\<lambda>c. Inr (set_cpu me (c\<lparr>c_pc := Run\<rparr>) m1)))"

text \<open>One step of one processor. A processor may also change its interrupt flag while it is not in a
  \<open>pushcli\<close> section.\<close>

inductive lock_step :: "machine \<Rightarrow> machine \<Rightarrow> bool" where
  enter: "c_pc (cpus m c) = Run \<Longrightarrow> acquire_enter c l m = Inr m' \<Longrightarrow> lock_step m m'"
| xchg: "c_pc (cpus m c) = Spin l \<Longrightarrow> lock_step m (acquire_xchg c l m)"
| owner: "c_pc (cpus m c) = Record_owner l \<Longrightarrow> lock_step m (acquire_record c l m)"
| leave: "c_pc (cpus m c) = Run \<Longrightarrow> release_enter c l m = Inr m' \<Longrightarrow> lock_step m m'"
| store: "c_pc (cpus m c) = Clear_word l \<Longrightarrow> release_store c l m = Inr m' \<Longrightarrow> lock_step m m'"
| flag: "c_pc (cpus m c) = Run \<Longrightarrow> c_ncli (cpus m c) = 0 \<Longrightarrow> lock_step m (set_cpu c ((cpus m c)\<lparr>c_if := b\<rparr>) m)"

definition boot :: "machine \<Rightarrow> bool" where
  "boot m \<longleftrightarrow> (\<forall>l. locks m l = initlock) \<and> (\<forall>c. c_pc (cpus m c) = Run \<and> c_ncli (cpus m c) = 0)"

inductive lock_reach :: "machine \<Rightarrow> bool" where
  boot: "boot m \<Longrightarrow> lock_reach m"
| step: "lock_reach m \<Longrightarrow> lock_step m m' \<Longrightarrow> lock_reach m'"

text \<open>The processor is between the exchange that took the lock and the store that gives it back.\<close>

definition owns_lock :: "machine \<Rightarrow> nat \<Rightarrow> nat \<Rightarrow> bool" where
  "owns_lock m c l \<longleftrightarrow> lk_cpu (locks m l) = Some c \<or> c_pc (cpus m c) = Record_owner l \<or> c_pc (cpus m c) = Clear_word l"

section \<open>The invariant\<close>

definition owned :: "machine \<Rightarrow> nat \<Rightarrow> nat set" where
  "owned m c = {l. owns_lock m c l}"

lemma owned_cong: "(\<And>l. owns_lock m' c l = owns_lock m c l) \<Longrightarrow> owned m' c = owned m c"
  by (simp add: owned_def)

definition depth :: "machine \<Rightarrow> nat \<Rightarrow> nat" where
  "depth m c = card (owned m c) + (case c_pc (cpus m c) of Spin _ \<Rightarrow> 1 | _ \<Rightarrow> 0)"

definition cpu_inv :: "machine \<Rightarrow> nat \<Rightarrow> bool" where
  "cpu_inv m c \<longleftrightarrow> finite (owned m c) \<and> c_ncli (cpus m c) = int (depth m c) \<and> (0 < depth m c \<longrightarrow> \<not> c_if (cpus m c)) \<and>
     (\<forall>l. c_pc (cpus m c) = Record_owner l \<or> c_pc (cpus m c) = Clear_word l \<longrightarrow> lk_cpu (locks m l) = None)"

definition lock_inv :: "machine \<Rightarrow> bool" where
  "lock_inv m \<longleftrightarrow> (\<forall>c. cpu_inv m c) \<and>
     (\<forall>l. lk_locked (locks m l) = (if \<exists>c. owns_lock m c l then 1 else 0)) \<and>
     (\<forall>l c c'. owns_lock m c l \<longrightarrow> owns_lock m c' l \<longrightarrow> c = c')"

lemma sel_set [simp]:
  "locks (set_cpu c k m) = locks m" "cpus (set_cpu c k m) = (cpus m)(c := k)"
  "locks (set_lock l j m) = (locks m)(l := j)" "cpus (set_lock l j m) = cpus m"
  by (simp_all add: set_cpu_def set_lock_def)

lemma pushcli_sel [simp]:
  "c_if (pushcli c) = False" "c_ncli (pushcli c) = c_ncli c + 1" "c_pc (pushcli c) = c_pc c"
  "c_intena (pushcli c) = (if c_ncli c = 0 then c_if c else c_intena c)"
  by (simp_all add: pushcli_def Let_def)

lemma pop_push:
  assumes "0 \<le> c_ncli c" "0 < c_ncli c \<Longrightarrow> \<not> c_if c"
  obtains c' where "popcli (pushcli c) = Inr c'" "c_if c' = c_if c" "c_ncli c' = c_ncli c" "c_pc c' = c_pc c"
    "0 < c_ncli c \<Longrightarrow> c_intena c' = c_intena c"
proof (rule that)
  let ?c = "(pushcli c)\<lparr>c_ncli := c_ncli c\<rparr>"
  show "popcli (pushcli c) = Inr (if c_ncli c = 0 \<and> c_if c then ?c\<lparr>c_if := True\<rparr> else ?c)"
    using assms(1) by (simp add: popcli_def Let_def)
qed (use assms in auto)

lemma holding_spec:
  assumes "0 \<le> c_ncli c" "0 < c_ncli c \<Longrightarrow> \<not> c_if c"
  obtains c' where "holding me lk c = Inr (lk_locked lk \<noteq> 0 \<and> lk_cpu lk = Some me, c')" "c_if c' = c_if c" "c_ncli c' = c_ncli c" "c_pc c' = c_pc c"
    "0 < c_ncli c \<Longrightarrow> c_intena c' = c_intena c"
  by (rule pop_push [OF assms]) (auto simp: holding_def Let_def)

lemma lock_invD:
  assumes "lock_inv m"
  shows "cpu_inv m c" "lk_locked (locks m l) = (if \<exists>c. owns_lock m c l then 1 else 0)"
    "owns_lock m c l \<Longrightarrow> owns_lock m c' l \<Longrightarrow> c = c'"
  using assms unfolding lock_inv_def by blast+

lemma cpu_invD:
  assumes "cpu_inv m c"
  shows "finite (owned m c)" "c_ncli (cpus m c) = int (depth m c)" "0 \<le> c_ncli (cpus m c)"
    "0 < c_ncli (cpus m c) \<Longrightarrow> \<not> c_if (cpus m c)" "0 < depth m c \<Longrightarrow> \<not> c_if (cpus m c)"
    "c_pc (cpus m c) = Record_owner l \<or> c_pc (cpus m c) = Clear_word l \<Longrightarrow> lk_cpu (locks m l) = None"
  using assms unfolding cpu_inv_def by auto

text \<open>A processor that did not move keeps its part of the invariant when it owns the same locks and the
  owner fields it relies on are unchanged.\<close>

lemma cpu_inv_other:
  assumes "cpu_inv m c" "cpus m' c = cpus m c" "\<And>l. owns_lock m' c l = owns_lock m c l"
    "\<And>l. owns_lock m c l \<Longrightarrow> lk_cpu (locks m l) = None \<Longrightarrow> lk_cpu (locks m' l) = None"
  shows "cpu_inv m' c"
  using assms(1,4) unfolding cpu_inv_def depth_def owned_cong [OF assms(3)] assms(2) by (auto simp: owns_lock_def)

text \<open>A step of \<open>c\<close> that changes at most whether \<open>c\<close> owns \<open>l\<close>.\<close>

lemma lock_inv_step:
  assumes inv: "lock_inv m" and mine: "cpu_inv m' c"
    and cpus: "\<And>c'. c' \<noteq> c \<Longrightarrow> cpus m' c' = cpus m c'"
    and owns: "\<And>c' k. c' \<noteq> c \<or> k \<noteq> l \<Longrightarrow> owns_lock m' c' k = owns_lock m c' k"
    and free: "\<And>c'. c' \<noteq> c \<Longrightarrow> owns_lock m c' l \<Longrightarrow> \<not> owns_lock m' c l \<and> locks m' l = locks m l"
    and other: "\<And>k. k \<noteq> l \<Longrightarrow> locks m' k = locks m k"
    and word: "lk_locked (locks m' l) = (if \<exists>c'. owns_lock m' c' l then 1 else 0)"
  shows "lock_inv m'"
  unfolding lock_inv_def
proof (intro conjI allI impI)
  fix c'
  show "cpu_inv m' c'"
  proof (cases "c' = c")
    case False
    then show ?thesis
      using cpu_inv_other [OF lock_invD(1) [OF inv, of c'] cpus [OF False], of] owns free other by metis
  qed (use mine in simp)
next
  fix k
  show "lk_locked (locks m' k) = (if \<exists>c'. owns_lock m' c' k then 1 else 0)"
  proof (cases "k = l")
    case False
    then show ?thesis using lock_invD(2) [OF inv, of k] owns other by simp
  qed (use word in simp)
next
  fix k a b assume ab: "owns_lock m' a k" "owns_lock m' b k"
  show "a = b"
  proof (cases "k = l")
    case False
    then show ?thesis using lock_invD(3) [OF inv] ab owns by metis
  next
    case True
    then show ?thesis using lock_invD(3) [OF inv] ab owns free by metis
  qed
qed

lemma depth_Spin: "c_pc (cpus m c) = Spin l \<Longrightarrow> depth m c = card (owned m c) + 1"
  and depth_no_Spin: "(\<And>l. c_pc (cpus m c) \<noteq> Spin l) \<Longrightarrow> depth m c = card (owned m c)"
  by (auto simp: depth_def split: lock_pc.split)

lemma enter_inv:
  assumes inv: "lock_inv m" and pc: "c_pc (cpus m c) = Run" and st: "acquire_enter c l m = Inr m'"
  shows "lock_inv m'"
proof -
  note C = cpu_invD [OF lock_invD(1) [OF inv, of c]]
  obtain k where k: "holding c (locks m l) (pushcli (cpus m c)) = Inr (lk_locked (locks m l) \<noteq> 0 \<and> lk_cpu (locks m l) = Some c, k)"
    "c_if k = False" "c_ncli k = c_ncli (cpus m c) + 1"
    by (rule holding_spec [of "pushcli (cpus m c)" c "locks m l"]) (use C(3) in auto)
  have m': "m' = set_cpu c (k\<lparr>c_pc := Spin l\<rparr>) m" using st k(1) by (auto simp: acquire_enter_def split: if_splits)
  have o: "owns_lock m' a b = owns_lock m a b" for a b using pc by (auto simp: owns_lock_def m')
  have so: "owned m' c = owned m c" by (rule owned_cong) (rule o)
  have "c_pc (cpus m' c) = Spin l" by (simp add: m')
  from depth_Spin [OF this] have d: "depth m' c = depth m c + 1" using depth_no_Spin [of m c] pc so by simp
  show ?thesis
  proof (rule lock_inv_step [OF inv, where c = c and l = l])
    have "cpus m' c = k\<lparr>c_pc := Spin l\<rparr>" by (simp add: m')
    then show "cpu_inv m' c" using C(1,2) k d so by (simp add: cpu_inv_def)
  qed (use o lock_invD(2,3) [OF inv] in \<open>auto simp: m'\<close>)
qed

lemma xchg_inv:
  assumes inv: "lock_inv m" and pc: "c_pc (cpus m c) = Spin l"
  shows "lock_inv (acquire_xchg c l m)"
proof -
  note C = cpu_invD [OF lock_invD(1) [OF inv, of c]] and I = lock_invD(2,3) [OF inv]
  let ?m' = "acquire_xchg c l m"
  show ?thesis
  proof (cases "lk_locked (locks m l) = 0")
    case False
    then have w: "\<exists>c. owns_lock m c l" using I(1) [of l] by (cases "\<exists>c. owns_lock m c l") simp_all
    have m': "?m' = set_lock l ((locks m l)\<lparr>lk_locked := 1\<rparr>) m" using False by (simp add: acquire_xchg_def Let_def)
    have o: "owns_lock ?m' a b = owns_lock m a b" for a b unfolding m' by (simp add: owns_lock_def)
    have same: "locks ?m' l = locks m l" using w I(1) [of l] unfolding m' by (cases "locks m l") simp
    show ?thesis
    proof (rule lock_inv_step [OF inv, where c = c and l = l])
      show "cpu_inv ?m' c"
        by (rule cpu_inv_other [OF lock_invD(1) [OF inv]]) (use o in \<open>auto simp: m'\<close>)
      show "\<And>c'. c' \<noteq> c \<Longrightarrow> owns_lock m c' l \<Longrightarrow> \<not> owns_lock ?m' c l \<and> locks ?m' l = locks m l"
        using I(2) o same by blast
    qed (use o w in \<open>auto simp: m'\<close>)
  next
    case True
    then have free: "\<not> owns_lock m a l" for a using I(1) [of l] by (auto split: if_splits)
    have m': "?m' = set_cpu c ((cpus m c)\<lparr>c_pc := Record_owner l\<rparr>) (set_lock l ((locks m l)\<lparr>lk_locked := 1\<rparr>) m)"
      using True by (simp add: acquire_xchg_def Let_def)
    have o: "owns_lock ?m' a b = (if a = c \<and> b = l then True else owns_lock m a b)" for a b
      using pc unfolding m' by (auto simp: owns_lock_def)
    have so: "owned ?m' c = insert l (owned m c)" "l \<notin> owned m c" using o free by (auto simp: owned_def)
    have pc': "c_pc (cpus ?m' c) = Record_owner l" unfolding m' by simp
    have d: "depth ?m' c = depth m c"
      using depth_Spin [OF pc] depth_no_Spin [of ?m' c] so C(1) pc' by simp
    show ?thesis
    proof (rule lock_inv_step [OF inv, where c = c and l = l])
      have "cpus ?m' c = (cpus m c)\<lparr>c_pc := Record_owner l\<rparr>" unfolding m' by simp
      moreover have "lk_cpu (locks ?m' l) = None"
      proof (cases "lk_cpu (locks m l)")
        case (Some a)
        with free [of a] show ?thesis by (simp add: owns_lock_def)
      qed (simp add: m')
      ultimately show "cpu_inv ?m' c" using C(1,2,5) d so by (simp add: cpu_inv_def)
    qed (use o free in \<open>auto simp: m'\<close>)
  qed
qed

lemma record_inv:
  assumes inv: "lock_inv m" and pc: "c_pc (cpus m c) = Record_owner l"
  shows "lock_inv (acquire_record c l m)"
proof -
  note C = cpu_invD [OF lock_invD(1) [OF inv, of c]] and I = lock_invD(2,3) [OF inv]
  let ?m' = "acquire_record c l m"
  have none: "lk_cpu (locks m l) = None" using C(6) pc by blast
  have mine: "owns_lock m c l" using pc by (simp add: owns_lock_def)
  have o: "owns_lock ?m' a b = owns_lock m a b" for a b
    using pc none I(2) [OF mine] by (auto simp: owns_lock_def acquire_record_def)
  have so: "owned ?m' c = owned m c" by (rule owned_cong) (rule o)
  have d: "depth ?m' c = depth m c"
    using depth_no_Spin [of m c] depth_no_Spin [of ?m' c] so pc by (simp add: acquire_record_def)
  show ?thesis
  proof (rule lock_inv_step [OF inv, where c = c and l = l])
    have "cpus ?m' c = (cpus m c)\<lparr>c_pc := Run\<rparr>" by (simp add: acquire_record_def)
    then show "cpu_inv ?m' c" using C(1,2,5) d so by (simp add: cpu_inv_def)
    show "\<And>c'. c' \<noteq> c \<Longrightarrow> owns_lock m c' l \<Longrightarrow> \<not> owns_lock ?m' c l \<and> locks ?m' l = locks m l"
      using I(2) [OF mine] by blast
    show "lk_locked (locks ?m' l) = (if \<exists>c'. owns_lock ?m' c' l then 1 else 0)"
      using I(1) [of l] o by (simp add: acquire_record_def)
  qed (use o in \<open>auto simp: acquire_record_def\<close>)
qed

lemma leave_inv:
  assumes inv: "lock_inv m" and pc: "c_pc (cpus m c) = Run" and st: "release_enter c l m = Inr m'"
  shows "lock_inv m'"
proof -
  note C = cpu_invD [OF lock_invD(1) [OF inv, of c]] and I = lock_invD(2,3) [OF inv]
  obtain k where k: "holding c (locks m l) (cpus m c) = Inr (lk_locked (locks m l) \<noteq> 0 \<and> lk_cpu (locks m l) = Some c, k)"
    "c_if k = c_if (cpus m c)" "c_ncli k = c_ncli (cpus m c)"
    by (rule holding_spec [OF C(3,4)])
  have held: "lk_cpu (locks m l) = Some c" and
    m': "m' = set_lock l ((locks m l)\<lparr>lk_cpu := None\<rparr>) (set_cpu c (k\<lparr>c_pc := Clear_word l\<rparr>) m)"
    using st k(1) by (auto simp: release_enter_def split: if_splits)
  have mine: "owns_lock m c l" using held by (simp add: owns_lock_def)
  have o: "owns_lock m' a b = owns_lock m a b" for a b
    using pc held by (auto simp: owns_lock_def m')
  have so: "owned m' c = owned m c" by (rule owned_cong) (rule o)
  have d: "depth m' c = depth m c"
    using depth_no_Spin [of m c] depth_no_Spin [of m' c] so pc by (simp add: m')
  show ?thesis
  proof (rule lock_inv_step [OF inv, where c = c and l = l])
    have "cpus m' c = k\<lparr>c_pc := Clear_word l\<rparr>" "lk_cpu (locks m' l) = None" by (simp_all add: m')
    then show "cpu_inv m' c" using C(1,2,5) d so k by (simp add: cpu_inv_def)
    show "\<And>c'. c' \<noteq> c \<Longrightarrow> owns_lock m c' l \<Longrightarrow> \<not> owns_lock m' c l \<and> locks m' l = locks m l"
      using I(2) [OF mine] by blast
    show "lk_locked (locks m' l) = (if \<exists>c'. owns_lock m' c' l then 1 else 0)"
      using I(1) [of l] o by (simp add: m')
  qed (use o in \<open>auto simp: m'\<close>)
qed

text \<open>The \<open>popcli\<close> of \<open>release\<close> finds interrupts off and the nesting depth positive.\<close>

lemma pop_owner:
  assumes "0 < c_ncli c" "\<not> c_if c"
  obtains c' where "popcli c = Inr c'" "c_ncli c' = c_ncli c - 1" "c_if c' \<longleftrightarrow> c_ncli c = 1 \<and> c_intena c" "c_pc c' = c_pc c"
proof (rule that)
  let ?c = "c\<lparr>c_ncli := c_ncli c - 1\<rparr>"
  show "popcli c = Inr (if c_ncli c = 1 \<and> c_intena c then ?c\<lparr>c_if := True\<rparr> else ?c)"
    using assms by (simp add: popcli_def Let_def)
qed (use assms in auto)

lemma store_inv:
  assumes inv: "lock_inv m" and pc: "c_pc (cpus m c) = Clear_word l"
  shows "\<exists>m'. release_store c l m = Inr m' \<and> lock_inv m'"
proof -
  note C = cpu_invD [OF lock_invD(1) [OF inv, of c]] and I = lock_invD(2,3) [OF inv]
  have none: "lk_cpu (locks m l) = None" using C(6) pc by blast
  have mine: "owns_lock m c l" using pc by (simp add: owns_lock_def)
  have l: "l \<in> owned m c" using mine by (simp add: owned_def)
  then have pos: "0 < depth m c" using depth_no_Spin [of m c] pc C(1) by (auto simp: card_gt_0_iff)
  have npos: "0 < c_ncli (cpus m c)" using pos C(2) by simp
  obtain k where k: "popcli (cpus m c) = Inr k" "c_ncli k = c_ncli (cpus m c) - 1" "c_if k \<longleftrightarrow> c_ncli (cpus m c) = 1 \<and> c_intena (cpus m c)"
    by (rule pop_owner [OF npos C(5) [OF pos]])
  define m' where "m' = set_cpu c (k\<lparr>c_pc := Run\<rparr>) (set_lock l ((locks m l)\<lparr>lk_locked := 0\<rparr>) m)"
  have st: "release_store c l m = Inr m'" using k(1) by (simp add: release_store_def Let_def m'_def)
  have o: "owns_lock m' a b = (if b = l then False else owns_lock m a b)" for a b
  proof (cases "a = c")
    case True
    then show ?thesis using pc none by (auto simp: owns_lock_def m'_def)
  next
    case False
    then have "\<not> owns_lock m a l" using I(2) [OF mine] by blast
    with False show ?thesis by (auto simp: owns_lock_def m'_def)
  qed
  have so: "owned m' c = owned m c - {l}" using o by (auto simp: owned_def)
  have "c_pc (cpus m' c) = Run" by (simp add: m'_def)
  then have "depth m' c = card (owned m c - {l})" using depth_no_Spin [of m' c] so by simp
  moreover have "depth m c = card (owned m c)" using depth_no_Spin [of m c] pc by simp
  ultimately have d: "Suc (depth m' c) = depth m c" using card.remove [OF C(1) l] by (simp only:)
  have "lock_inv m'"
  proof (rule lock_inv_step [OF inv, where c = c and l = l])
    have "cpus m' c = k\<lparr>c_pc := Run\<rparr>" by (simp add: m'_def)
    moreover have "0 < depth m' c \<Longrightarrow> \<not> c_if k" using k(3) C(2) d by simp
    ultimately show "cpu_inv m' c" using C(1,2) d so k(2) by (simp add: cpu_inv_def)
    show "\<And>c' j. c' \<noteq> c \<or> j \<noteq> l \<Longrightarrow> owns_lock m' c' j = owns_lock m c' j"
      using o I(2) [OF mine] by metis
    show "\<And>c'. c' \<noteq> c \<Longrightarrow> owns_lock m c' l \<Longrightarrow> \<not> owns_lock m' c l \<and> locks m' l = locks m l"
      using I(2) [OF mine] by blast
    show "lk_locked (locks m' l) = (if \<exists>c'. owns_lock m' c' l then 1 else 0)"
      using o by (simp add: m'_def)
  qed (auto simp: m'_def)
  with st show ?thesis by blast
qed

lemma flag_inv:
  assumes inv: "lock_inv m" and pc: "c_pc (cpus m c) = Run" "c_ncli (cpus m c) = 0"
  shows "lock_inv (set_cpu c ((cpus m c)\<lparr>c_if := b\<rparr>) m)"
proof -
  note C = cpu_invD [OF lock_invD(1) [OF inv, of c]] and I = lock_invD(2,3) [OF inv]
  let ?m' = "set_cpu c ((cpus m c)\<lparr>c_if := b\<rparr>) m"
  have o: "owns_lock ?m' a j = owns_lock m a j" for a j by (simp add: owns_lock_def)
  have so: "owned ?m' c = owned m c" by (rule owned_cong) (rule o)
  have d: "depth ?m' c = depth m c" unfolding depth_def so by simp
  show ?thesis unfolding lock_inv_def o
  proof (intro conjI allI impI)
    fix c' show "cpu_inv ?m' c'"
    proof (cases "c' = c")
      case True
      then show ?thesis using C(1,2) pc d so by (simp add: cpu_inv_def)
    next
      case False
      then show ?thesis by (intro cpu_inv_other [OF lock_invD(1) [OF inv]]) (simp_all add: o)
    qed
  qed (use I in \<open>auto simp: I(1)\<close>)
qed

lemma lock_reach_inv: "lock_reach m \<Longrightarrow> lock_inv m"
proof (induction rule: lock_reach.induct)
  case (boot m)
  then have "\<not> owns_lock m c l" for c l by (simp add: boot_def owns_lock_def initlock_def)
  moreover from this have "owned m c = {}" for c by (simp add: owned_def)
  ultimately show ?case using boot by (simp add: lock_inv_def cpu_inv_def depth_def boot_def initlock_def)
next
  case (step m m')
  from step(2) show ?case
  proof cases
    case (store c l)
    with store_inv [OF step.IH, of c l] show ?thesis by auto
  qed (use step.IH enter_inv xchg_inv record_inv leave_inv flag_inv in blast)+
qed

text \<open>
  C9. Spin locks exclude each other's critical sections. In every state that any number of processors reach
  by acquiring and releasing any locks in any interleaving of their atomic steps, at most one processor is
  between the exchange that takes a lock and the store that frees it, and the lock word is 1 exactly when
  there is one. A processor that owns a lock or spins for one runs with interrupts off. \<open>acquire\<close> panics
  exactly when the processor already holds the lock; \<open>release\<close> by the holder does not panic, at its
  entry or in its last \<open>popcli\<close>.
\<close>

theorem spinlock_mutual_exclusion:
  assumes "lock_reach m"
  shows "(owns_lock m c l \<longrightarrow> owns_lock m c' l \<longrightarrow> c = c') \<and>
    lk_locked (locks m l) = (if \<exists>a. owns_lock m a l then 1 else 0) \<and>
    (owns_lock m c l \<or> c_pc (cpus m c) = Spin l \<longrightarrow> \<not> c_if (cpus m c)) \<and>
    (c_pc (cpus m c) = Run \<longrightarrow>
       (acquire_enter c l m = Inl (Panic ''acquire'')) = (lk_cpu (locks m l) = Some c) \<and>
       (lk_cpu (locks m l) = Some c \<longrightarrow> (\<exists>m'. release_enter c l m = Inr m'))) \<and>
    (c_pc (cpus m c) = Clear_word l \<longrightarrow> (\<exists>m'. release_store c l m = Inr m'))"
proof -
  have inv: "lock_inv m" by (rule lock_reach_inv [OF assms])
  note C = cpu_invD [OF lock_invD(1) [OF inv, of c]] and I = lock_invD(2,3) [OF inv]
  have "owns_lock m c l \<or> c_pc (cpus m c) = Spin l \<Longrightarrow> 0 < depth m c"
    using C(1) depth_Spin [of m c l] by (auto simp: depth_def owned_def card_gt_0_iff)
  moreover have held: "lk_locked (locks m l) \<noteq> 0" if "lk_cpu (locks m l) = Some c"
    using I(1) [of l] that by (auto simp: owns_lock_def)
  moreover have "(acquire_enter c l m = Inl (Panic ''acquire'')) = (lk_cpu (locks m l) = Some c)"
    by (rule holding_spec [of "pushcli (cpus m c)" c "locks m l"]) (use C(3) held in \<open>auto simp: acquire_enter_def\<close>)
  moreover have "\<exists>m'. release_enter c l m = Inr m'" if "lk_cpu (locks m l) = Some c"
    by (rule holding_spec [OF C(3,4), of c "locks m l"]) (use that held in \<open>auto simp: release_enter_def\<close>)
  ultimately show ?thesis using I C(5) store_inv [OF inv, of c l] by blast
qed

text \<open>Two processors compete for lock 0: the first has taken it, the second spins.\<close>

definition two_cpus :: machine where
  "two_cpus = \<lparr>locks = (\<lambda>_. initlock), cpus = (\<lambda>_. \<lparr>c_if = True, c_ncli = 0, c_intena = False, c_pc = Run\<rparr>)\<rparr>"

theorem spinlock_mutual_exclusion_witness:
  "\<exists>m. lock_reach m \<and> owns_lock m 0 0 \<and> c_pc (cpus m 1) = Spin 0 \<and> \<not> owns_lock m 1 0 \<and> \<not> c_if (cpus m 0)"
proof -
  have "lock_reach two_cpus" by (rule lock_reach.boot) (simp add: boot_def two_cpus_def)
  moreover obtain m1 where m1: "acquire_enter 0 0 two_cpus = Inr m1" "c_pc (cpus m1 0) = Spin 0" "c_pc (cpus m1 1) = Run"
    "locks m1 = locks two_cpus" "cpus m1 1 = cpus two_cpus 1"
    by (simp add: acquire_enter_def holding_def popcli_def pushcli_def two_cpus_def initlock_def Let_def)
  ultimately have r1: "lock_reach m1" using lock_reach.step lock_step.enter [of two_cpus 0] by (auto simp: two_cpus_def)
  obtain m2 where m2: "acquire_enter 1 0 m1 = Inr m2" "c_pc (cpus m2 0) = Spin 0" "c_pc (cpus m2 1) = Spin 0" "locks m2 = locks two_cpus"
    using m1 by (simp add: acquire_enter_def holding_def popcli_def pushcli_def two_cpus_def initlock_def Let_def)
  have r2: "lock_reach m2" by (rule lock_reach.step [OF r1 lock_step.enter [OF m1(3) m2(1)]])
  define m3 where "m3 = acquire_xchg 0 0 m2"
  have r3: "lock_reach m3" unfolding m3_def by (rule lock_reach.step [OF r2 lock_step.xchg [OF m2(2)]])
  have "owns_lock m3 0 0" "c_pc (cpus m3 1) = Spin 0"
    using m2(2-4) by (simp_all add: m3_def acquire_xchg_def Let_def owns_lock_def two_cpus_def initlock_def)
  moreover from this have "\<not> owns_lock m3 1 0" "\<not> c_if (cpus m3 0)"
    using spinlock_mutual_exclusion [OF r3, of 0 0 1] by auto
  ultimately show ?thesis using r3 by blast
qed

section \<open>Sleep locks\<close>

text \<open>The fields under the inner spin lock: \<open>acquiresleep\<close> sleeps (\<open>Blocks\<close>) while another process holds the
  lock; the \<open>wakeup\<close> of \<open>releasesleep\<close> is that of the process table.\<close>

record sleeplock =
  sl_locked :: u32
  sl_pid :: int

definition initsleeplock :: sleeplock where
  "initsleeplock = \<lparr>sl_locked = 0, sl_pid = 0\<rparr>"

definition acquiresleep :: "int \<Rightarrow> sleeplock \<Rightarrow> sleeplock res" where
  "acquiresleep pid lk = (if sl_locked lk \<noteq> 0 then Inl Blocks else Inr (lk\<lparr>sl_locked := 1, sl_pid := pid\<rparr>))"

definition releasesleep :: "sleeplock \<Rightarrow> sleeplock" where
  "releasesleep lk = lk\<lparr>sl_locked := 0, sl_pid := 0\<rparr>"

definition holdingsleep :: "int \<Rightarrow> sleeplock \<Rightarrow> bool" where
  "holdingsleep pid lk \<longleftrightarrow> sl_locked lk \<noteq> 0 \<and> sl_pid lk = pid"

lemma acquiresleep_holder:
  "acquiresleep pid lk = Inr lk' \<Longrightarrow> holdingsleep p lk' \<longleftrightarrow> p = pid"
  "holdingsleep pid lk \<Longrightarrow> acquiresleep p lk = Inl Blocks"
  "\<not> holdingsleep p (releasesleep lk)" "\<exists>lk'. acquiresleep p (releasesleep lk) = Inr lk'"
  by (auto simp: acquiresleep_def holdingsleep_def releasesleep_def split: if_splits)

end
