(* ===== verification/Sysargs.thy ===== *)
theory Sysargs
  imports Vm
begin

text \<open>
  System call arguments, \<open>syscall.c\<close>: the kernel reads them from the user stack and checks the pointers
  among them against the len of the process. The memory of the running process is a function from
  addresses to bytes; a missing result is the -1 of the code.
\<close>

record uproc =
  u_mem :: mem
  u_sz :: u32
  u_esp :: u32

definition user32 :: "mem \<Rightarrow> u32 \<Rightarrow> u32" where
  "user32 m a = ucast (m a) OR push_bit 8 (ucast (m (a + 1))) OR push_bit 16 (ucast (m (a + 2))) OR push_bit 24 (ucast (m (a + 3)))"

definition fetchint :: "u32 \<Rightarrow> uproc \<Rightarrow> u32 option" where
  "fetchint addr u = (if addr \<ge> u_sz u \<or> addr + 4 > u_sz u then None else Some (user32 (u_mem u) addr))"

text \<open>The loop of \<open>fetchstr\<close> over the \<open>n\<close> bytes below the end of the process.\<close>

fun str_loop :: "nat \<Rightarrow> mem \<Rightarrow> u32 \<Rightarrow> u8 list option" where
  "str_loop 0 m s = None"
| "str_loop (Suc n) m s = (if m s = 0 then Some [] else map_option (Cons (m s)) (str_loop n m (s + 1)))"

definition fetchstr :: "u32 \<Rightarrow> uproc \<Rightarrow> u8 list option" where
  "fetchstr addr u = (if addr \<ge> u_sz u then None else str_loop (unat (u_sz u) - unat addr) (u_mem u) addr)"

definition argint :: "nat \<Rightarrow> uproc \<Rightarrow> u32 option" where
  "argint n u = fetchint (u_esp u + 4 + 4 * of_nat n) u"

definition argptr :: "nat \<Rightarrow> int \<Rightarrow> uproc \<Rightarrow> u32 option" where
  "argptr n len u =
     (case argint n u of
        None \<Rightarrow> None
      | Some i \<Rightarrow> if len < 0 \<or> i \<ge> u_sz u \<or> i + of_int len > u_sz u then None else Some i)"

definition argstr :: "nat \<Rightarrow> uproc \<Rightarrow> u8 list option" where
  "argstr n u = (case argint n u of None \<Rightarrow> None | Some addr \<Rightarrow> fetchstr addr u)"

text \<open>\<open>sys_mmap\<close> of \<open>sysproc.c\<close>: the address that is returned, 0 for a bad len, and the process after it.\<close>

definition sys_mmap :: "uproc \<Rightarrow> u32 option \<times> uproc" where
  "sys_mmap u =
     (case argint 0 u of
        None \<Rightarrow> (None, u)
      | Some len \<Rightarrow>
          if sint len \<le> 0 \<or> len mod PGSIZE \<noteq> 0 then (Some 0, u)
          else (Some (u_sz u), u\<lparr>u_sz := u_sz u + len\<rparr>))"

section \<open>The checks\<close>

lemma unat_plus_below:
  fixes a :: u32
  assumes "a < x" "unat x \<le> 0x80000000" "k < 2 ^ 31"
  shows "unat (a + of_nat k) = unat a + k"
proof -
  have "unat a < 0x80000000" "unat (of_nat k :: u32) = k"
    using assms by (simp_all add: word_less_nat_alt unat_of_nat take_bit_nat_def)
  then show ?thesis using assms(3) by (simp add: unat_word_ariths)
qed

lemma str_loop_spec:
  "unat s + n < 2 ^ 32 \<Longrightarrow> str_loop n m s = Some cs \<Longrightarrow>
   length cs < n \<and> (\<forall>j<length cs. cs ! j = m (s + of_nat j) \<and> cs ! j \<noteq> 0) \<and> m (s + of_nat (length cs)) = 0"
proof (induction n m s arbitrary: cs rule: str_loop.induct)
  case (2 n m s)
  show ?case
  proof (cases "m s = 0")
    case True
    with 2 show ?thesis by simp
  next
    case False
    with 2(3) obtain ds where ds: "str_loop n m (s + 1) = Some ds" "cs = m s # ds" by auto
    have "unat (s + 1) = unat s + 1" using 2(2) by (simp add: unat_Suc32)
    then have "unat (s + 1) + n < 2 ^ 32" using 2(2) by simp
    note ih = 2(1) [OF False this ds(1)]
    have "cs ! j = m (s + of_nat j) \<and> cs ! j \<noteq> 0" if "j < length cs" for j
      using that ih False ds(2) by (cases j) (auto simp: algebra_simps)
    moreover have "length cs < Suc n" "m (s + of_nat (length cs)) = 0" using ih ds(2) by (simp_all add: algebra_simps)
    ultimately show ?thesis by blast
  qed
qed simp

text \<open>
  C27. The kernel reads no user data outside the process. For a process that ends at or below the start of
  the kernel, an integer argument is read from inside it; a pointer accepted by \<open>argptr\<close> for a number of
  bytes addresses a range that lies inside it without wrapping around; and a string accepted by \<open>argstr\<close>
  consists of the bytes from its address up to the first NUL, all of them, the NUL included, inside it.
\<close>

theorem syscall_arguments_in_bounds:
  assumes "unat (u_sz u) \<le> 0x80000000" "len < 2 ^ 31"
  shows "(argint n u = Some w \<longrightarrow> unat (u_esp u + 4 + 4 * of_nat n) + 4 \<le> unat (u_sz u) \<and> w = user32 (u_mem u) (u_esp u + 4 + 4 * of_nat n)) \<and>
    (argptr n len u = Some p \<longrightarrow> argint n u = Some p \<and> 0 \<le> len \<and> unat p + nat len \<le> unat (u_sz u)) \<and>
    (argstr n u = Some cs \<longrightarrow> (\<exists>a. argint n u = Some a \<and> unat a + length cs < unat (u_sz u) \<and> 0 \<notin> set cs \<and>
       (\<forall>j<length cs. cs ! j = u_mem u (a + of_nat j)) \<and> u_mem u (a + of_nat (length cs)) = 0))"
proof (intro conjI impI)
  let ?a = "u_esp u + 4 + 4 * of_nat n"
  assume "argint n u = Some w"
  then have a: "?a < u_sz u" "?a + 4 \<le> u_sz u" "w = user32 (u_mem u) ?a"
    by (auto simp: argint_def fetchint_def not_le split: if_splits)
  have "unat (?a + of_nat 4) = unat ?a + 4" by (rule unat_plus_below [OF a(1) assms(1)]) simp
  then have "unat ?a + 4 \<le> unat (u_sz u)" using a(2) unfolding word_le_nat_alt by simp
  with a(3) show "unat ?a + 4 \<le> unat (u_sz u)" "w = user32 (u_mem u) ?a" by blast+
next
  assume "argptr n len u = Some p"
  then have p: "argint n u = Some p" "0 \<le> len" "p < u_sz u" "p + of_int len \<le> u_sz u"
    by (auto simp: argptr_def not_le split: option.splits if_splits)
  have s: "(of_int len :: u32) = of_nat (nat len)" using p(2) by simp
  have "unat (p + of_nat (nat len)) = unat p + nat len"
    by (rule unat_plus_below [OF p(3) assms(1)]) (use assms(2) p(2) in simp)
  with p(4) s have "unat p + nat len \<le> unat (u_sz u)" unfolding word_le_nat_alt by (simp only:)
  with p show "argint n u = Some p" "0 \<le> len" "unat p + nat len \<le> unat (u_sz u)" by blast+
next
  assume "argstr n u = Some cs"
  then obtain a where a: "argint n u = Some a" "a < u_sz u" "str_loop (unat (u_sz u) - unat a) (u_mem u) a = Some cs"
    by (auto simp: argstr_def fetchstr_def not_le split: option.splits if_splits)
  have lt: "unat a < unat (u_sz u)" using a(2) by (simp add: word_less_nat_alt)
  then have "unat a + (unat (u_sz u) - unat a) < 2 ^ 32" using assms(1) by simp
  from str_loop_spec [OF this a(3)] lt a(1)
  show "\<exists>a. argint n u = Some a \<and> unat a + length cs < unat (u_sz u) \<and> 0 \<notin> set cs \<and>
       (\<forall>j<length cs. cs ! j = u_mem u (a + of_nat j)) \<and> u_mem u (a + of_nat (length cs)) = 0"
    by (intro exI [of _ a]) (auto simp: in_set_conv_nth)
qed

text \<open>A process of one page with the arguments 16 and 5 above its stack pointer and the string \<open>hi\<close> at 16.\<close>

definition demo_user :: uproc where
  "demo_user = \<lparr>u_mem = (\<lambda>a. if a = 4 then 16 else if a = 8 then 5 else if a = 16 then 104 else if a = 17 then 105 else 0),
     u_sz = 0x1000, u_esp = 0\<rparr>"

theorem syscall_arguments_in_bounds_witness:
  "argptr 0 5 demo_user = Some 16 \<and> unat (16 :: u32) + 5 \<le> unat (u_sz demo_user) \<and>
   argstr 0 demo_user = Some [104, 105] \<and> unat (u_sz demo_user) \<le> 0x80000000"
proof -
  have sz: "unat (u_sz demo_user) \<le> 0x80000000" by (simp add: demo_user_def)
  have p: "argptr 0 5 demo_user = Some 16" "argstr 0 demo_user = Some [104, 105]" by code_simp+
  from syscall_arguments_in_bounds [OF sz, of 5 0 0 16] p sz show ?thesis by simp
qed

text \<open>
  \<open>sys_mmap\<close> removes the protection of these checks. It adds the requested len to the len of the
  process without comparing the sum with the start of the kernel; a process with room for its arguments can
  make itself larger than the user half of the address space, and then \<open>argptr\<close> accepts a pointer to kernel
  memory.
\<close>

lemma mmap_defeats_argptr:
  "\<exists>u u'. unat (u_sz u) \<le> 0x80000000 \<and> sys_mmap u = (Some (u_sz u), u') \<and> u_mem u' = u_mem u \<and> u_esp u' = u_esp u \<and>
     argptr 1 100 u = None \<and> argptr 1 100 u' = Some KERNBASE"
proof -
  define u where "u = \<lparr>u_mem = (\<lambda>a. if a = 5 then 0xF0 else if a = 7 then 0x7F else if a = 6 then 0xFF else if a = 11 then 0x80 else 0),
     u_sz = 0x2000, u_esp = 0\<rparr>"
  have i: "argint 0 u = Some 0x7FFFF000" "argint 1 u = Some KERNBASE" unfolding u_def by code_simp+
  have u': "sys_mmap u = (Some (u_sz u), u\<lparr>u_sz := 0x80001000\<rparr>)" using i(1) by (simp add: sys_mmap_def PGSIZE_def) (simp add: u_def)
  have i': "argint 1 (u\<lparr>u_sz := 0x80001000\<rparr>) = Some KERNBASE" unfolding u_def by code_simp
  have "unat (u_sz u) \<le> 0x80000000" "argptr 1 100 u = None" "argptr 1 100 (u\<lparr>u_sz := 0x80001000\<rparr>) = Some KERNBASE"
    using i(2) i' by (simp_all add: argptr_def KERNBASE_def) (simp_all add: u_def)
  with u' show ?thesis by (intro exI [of _ u] exI [of _ "u\<lparr>u_sz := 0x80001000\<rparr>"]) simp
qed

end
