(* ===== verification/Files.thy ===== *)
theory Files
  imports Directory Pipe Sysargs Proc
begin

text \<open>
  Open files, \<open>file.c\<close>, \<open>pipealloc\<close> of \<open>pipe.c\<close> and the descriptor calls of \<open>sysfile.c\<close>. The state holds
  the file system as the buffer cache shows it, the table of open files, the pipes at their pages, the
  descriptor tables of all processes and the running process. A pointer to a file is its position in the
  table. \<open>begin_op\<close> and \<open>end_op\<close> bracket the operations for the log and do not change what the cache shows.
  The page \<open>kalloc\<close> returns for a new pipe is an argument.
\<close>

section \<open>State\<close>

definition NFILE :: nat where "NFILE = 100"

datatype ftype = FD_NONE | FD_PIPE | FD_INODE

record ofile =
  f_type :: ftype
  f_ref :: int
  f_readable :: bool
  f_writable :: bool
  f_pipe :: nat
  f_ip :: nat
  f_off :: u32

record kfile =
  kfs :: fs
  ftab :: "ofile list"
  kpipes :: "nat \<rightharpoonup> pipe"
  fds :: "nat option list list"
  cwds :: "nat list"
  cur :: nat
  kuser :: uproc
  kkilled :: bool

definition upd_file :: "nat \<Rightarrow> (ofile \<Rightarrow> ofile) \<Rightarrow> kfile \<Rightarrow> kfile" where
  "upd_file i g k = k\<lparr>ftab := (ftab k)[i := g (ftab k ! i)]\<rparr>"

section \<open>The file table\<close>

definition filealloc :: "kfile \<Rightarrow> (nat \<times> kfile) option" where
  "filealloc k =
     (case scan (\<lambda>f. f_ref f = 0) (ftab k) of
        None \<Rightarrow> None
      | Some i \<Rightarrow> Some (i, upd_file i (\<lambda>f. f\<lparr>f_ref := 1\<rparr>) k))"

definition file_dup :: "nat \<Rightarrow> kfile \<Rightarrow> kfile res" where
  "file_dup i k =
     (if f_ref (ftab k ! i) < 1 then Inl (Panic ''filedup'') else Inr (upd_file i (\<lambda>f. f\<lparr>f_ref := f_ref f + 1\<rparr>) k))"

text \<open>\<open>pipeclose\<close> on the pipe at page \<open>p\<close>; a page that holds no pipe is a dangling pointer.\<close>

definition close_pipe :: "nat \<Rightarrow> bool \<Rightarrow> kfile \<Rightarrow> kfile res" where
  "close_pipe p w k =
     (case kpipes k p of
        None \<Rightarrow> Inl OutOfBounds
      | Some q \<Rightarrow> let (q', gone) = pipeclose q w in Inr (k\<lparr>kpipes := (kpipes k)(p := if gone then None else Some q')\<rparr>))"

definition fileclose :: "nat \<Rightarrow> kfile \<Rightarrow> kfile res" where
  "fileclose i k =
     (let f = ftab k ! i in
      if f_ref f < 1 then Inl (Panic ''fileclose'')
      else if f_ref f - 1 > 0 then Inr (upd_file i (\<lambda>f. f\<lparr>f_ref := f_ref f - 1\<rparr>) k)
      else let k1 = upd_file i (\<lambda>f. f\<lparr>f_ref := 0, f_type := FD_NONE\<rparr>) k in
        (case f_type f of
           FD_PIPE \<Rightarrow> close_pipe (f_pipe f) (f_writable f) k1
         | FD_INODE \<Rightarrow> bindR (iput (f_ip f) (kfs k1)) (\<lambda>s. Inr (k1\<lparr>kfs := s\<rparr>))
         | FD_NONE \<Rightarrow> Inr k1))"

definition filestat :: "nat \<Rightarrow> kfile \<Rightarrow> (stat option \<times> kfile) res" where
  "filestat i k =
     (let f = ftab k ! i in
      if f_type f = FD_INODE then
        bindR (ilock (f_ip f) (kfs k)) (\<lambda>s1. let st = stati (icache s1 ! f_ip f) in
        bindR (iunlock (f_ip f) s1) (\<lambda>s2. Inr (Some st, k\<lparr>kfs := s2\<rparr>)))
      else Inr (None, k))"

text \<open>The bytes read; \<open>Fails\<close> is the result -1, and a call that \<open>Sleeps\<close> will be repeated.\<close>

definition fileread :: "devsw \<Rightarrow> nat \<Rightarrow> nat \<Rightarrow> kfile \<Rightarrow> (outcome \<times> u8 list \<times> kfile) res" where
  "fileread dv i n k =
     (let f = ftab k ! i in
      if \<not> f_readable f then Inr (Fails, [], k)
      else case f_type f of
        FD_PIPE \<Rightarrow>
          (case kpipes k (f_pipe f) of
             None \<Rightarrow> Inl OutOfBounds
           | Some q \<Rightarrow> let (r, bs, q') = piperead (kkilled k) n q in Inr (r, bs, k\<lparr>kpipes := (kpipes k)(f_pipe f \<mapsto> q')\<rparr>))
      | FD_INODE \<Rightarrow>
          bindR (ilock (f_ip f) (kfs k)) (\<lambda>s1.
          bindR (readi dv (f_ip f) (f_off f) (of_nat n) s1) (\<lambda>(r, s2).
            let k2 = (case r of
                        Some bs \<Rightarrow> upd_file i (\<lambda>f. f\<lparr>f_off := f_off f + of_nat (length bs)\<rparr>) (k\<lparr>kfs := s2\<rparr>)
                      | None \<Rightarrow> k\<lparr>kfs := s2\<rparr>) in
            bindR (iunlock (f_ip f) s2) (\<lambda>s3.
              case r of Some bs \<Rightarrow> Inr (Returns, bs, k2\<lparr>kfs := s3\<rparr>) | None \<Rightarrow> Inr (Fails, [], k2\<lparr>kfs := s3\<rparr>))))
      | FD_NONE \<Rightarrow> Inl (Panic ''fileread''))"

text \<open>The loop of \<open>filewrite\<close> over an inode: at most \<open>max\<close> bytes in one transaction.\<close>

definition max_chunk :: nat where
  "max_chunk = (MAXOPBLOCKS - 1 - 1 - 2) div 2 * 512"

type_synonym devwrite = "nat \<Rightarrow> (u8 list \<Rightarrow> nat option) option"

function write_chunks :: "devwrite \<Rightarrow> nat \<Rightarrow> u8 list \<Rightarrow> kfile \<Rightarrow> (outcome \<times> u8 list \<times> kfile) res" where
  "write_chunks dw i src k =
     (if src = [] then Inr (Returns, [], k)
      else let f = ftab k ! i; n1 = min (length src) max_chunk in
        bindR (ilock (f_ip f) (kfs k)) (\<lambda>s1.
        bindR (writei dw (f_ip f) (take n1 src) (f_off f) s1) (\<lambda>(r, s2).
        bindR (iunlock (f_ip f) s2) (\<lambda>s3.
          case r of
            None \<Rightarrow> Inr (Fails, src, k\<lparr>kfs := s3\<rparr>)
          | Some n \<Rightarrow>
              let k3 = upd_file i (\<lambda>f. f\<lparr>f_off := f_off f + of_nat n\<rparr>) (k\<lparr>kfs := s3\<rparr>) in
              if n \<noteq> n1 then Inl (Panic ''short filewrite'') else write_chunks dw i (drop n1 src) k3))))"
  by pat_completeness auto
termination
  by (relation "measure (\<lambda>(_, _, src, _). length src)") (auto simp: max_chunk_def MAXOPBLOCKS_def)

declare write_chunks.simps [simp del]

text \<open>The bytes that have not been written come back with the result.\<close>

definition filewrite :: "devwrite \<Rightarrow> nat \<Rightarrow> u8 list \<Rightarrow> kfile \<Rightarrow> (outcome \<times> u8 list \<times> kfile) res" where
  "filewrite dw i src k =
     (let f = ftab k ! i in
      if \<not> f_writable f then Inr (Fails, src, k)
      else case f_type f of
        FD_PIPE \<Rightarrow>
          (case kpipes k (f_pipe f) of
             None \<Rightarrow> Inl OutOfBounds
           | Some q \<Rightarrow> let (r, rest, q') = pipewrite (kkilled k) src q in Inr (r, rest, k\<lparr>kpipes := (kpipes k)(f_pipe f \<mapsto> q')\<rparr>))
      | FD_INODE \<Rightarrow> write_chunks dw i src k
      | FD_NONE \<Rightarrow> Inl (Panic ''filewrite''))"

text \<open>\<open>pipealloc\<close>: the two files of a new pipe, or none with everything given back.\<close>

definition pipealloc :: "nat option \<Rightarrow> u8 list \<Rightarrow> kfile \<Rightarrow> ((nat \<times> nat) option \<times> kfile) res" where
  "pipealloc pg page k =
     (case filealloc k of
        None \<Rightarrow> Inr (None, k)
      | Some (f0, k1) \<Rightarrow>
          (case filealloc k1 of
             None \<Rightarrow> bindR (fileclose f0 k1) (\<lambda>k2. Inr (None, k2))
           | Some (f1, k2) \<Rightarrow>
               (case pg of
                  None \<Rightarrow> bindR (fileclose f0 k2) (\<lambda>k3. bindR (fileclose f1 k3) (\<lambda>k4. Inr (None, k4)))
                | Some p \<Rightarrow>
                    Inr (Some (f0, f1),
                      upd_file f1 (\<lambda>f. f\<lparr>f_type := FD_PIPE, f_readable := False, f_writable := True, f_pipe := p\<rparr>)
                        (upd_file f0 (\<lambda>f. f\<lparr>f_type := FD_PIPE, f_readable := True, f_writable := False, f_pipe := p\<rparr>)
                           (k2\<lparr>kpipes := (kpipes k2)(p \<mapsto> pipe_init page)\<rparr>))))))"

section \<open>Descriptors\<close>

definition argfd :: "nat \<Rightarrow> kfile \<Rightarrow> (nat \<times> nat) option" where
  "argfd n k =
     (case argint n (kuser k) of
        None \<Rightarrow> None
      | Some fd \<Rightarrow>
          if sint fd < 0 \<or> sint fd \<ge> int NOFILE then None
          else map_option (\<lambda>f. (nat (sint fd), f)) (fds k ! cur k ! nat (sint fd)))"

definition set_fd :: "nat \<Rightarrow> nat option \<Rightarrow> kfile \<Rightarrow> kfile" where
  "set_fd fd x k = k\<lparr>fds := (fds k)[cur k := (fds k ! cur k)[fd := x]]\<rparr>"

definition fdalloc :: "nat \<Rightarrow> kfile \<Rightarrow> (nat \<times> kfile) option" where
  "fdalloc f k =
     (case scan (\<lambda>x. x = None) (fds k ! cur k) of None \<Rightarrow> None | Some fd \<Rightarrow> Some (fd, set_fd fd (Some f) k))"

text \<open>The results of the system calls; \<open>None\<close> for a call that has gone to sleep.\<close>

definition sys_dup :: "kfile \<Rightarrow> (int \<times> kfile) res" where
  "sys_dup k =
     (case argfd 0 k of
        None \<Rightarrow> Inr (- 1, k)
      | Some (_, f) \<Rightarrow>
          (case fdalloc f k of
             None \<Rightarrow> Inr (- 1, k)
           | Some (fd, k1) \<Rightarrow> bindR (file_dup f k1) (\<lambda>k2. Inr (int fd, k2))))"

definition user_store :: "u32 \<Rightarrow> u8 list \<Rightarrow> uproc \<Rightarrow> uproc" where
  "user_store p bs u = u\<lparr>u_mem := (\<lambda>a. if unat (a - p) < length bs then bs ! unat (a - p) else u_mem u a)\<rparr>"

definition user_bytes :: "u32 \<Rightarrow> nat \<Rightarrow> uproc \<Rightarrow> u8 list" where
  "user_bytes p n u = map (\<lambda>j. u_mem u (p + of_nat j)) [0..<n]"

definition sys_read :: "devsw \<Rightarrow> kfile \<Rightarrow> (int option \<times> kfile) res" where
  "sys_read dv k =
     (case argfd 0 k of
        None \<Rightarrow> Inr (Some (- 1), k)
      | Some (_, f) \<Rightarrow>
          (case argint 2 (kuser k) of
             None \<Rightarrow> Inr (Some (- 1), k)
           | Some n \<Rightarrow>
               (case argptr 1 (sint n) (kuser k) of
                  None \<Rightarrow> Inr (Some (- 1), k)
                | Some p \<Rightarrow>
                    bindR (fileread dv f (nat (sint n)) k) (\<lambda>(r, bs, k1).
                      case r of
                        Returns \<Rightarrow> Inr (Some (int (length bs)), k1\<lparr>kuser := user_store p bs (kuser k1)\<rparr>)
                      | Fails \<Rightarrow> Inr (Some (- 1), k1)
                      | Sleeps \<Rightarrow> Inr (None, k1)))))"

definition sys_write :: "devwrite \<Rightarrow> kfile \<Rightarrow> (int option \<times> kfile) res" where
  "sys_write dw k =
     (case argfd 0 k of
        None \<Rightarrow> Inr (Some (- 1), k)
      | Some (_, f) \<Rightarrow>
          (case argint 2 (kuser k) of
             None \<Rightarrow> Inr (Some (- 1), k)
           | Some n \<Rightarrow>
               (case argptr 1 (sint n) (kuser k) of
                  None \<Rightarrow> Inr (Some (- 1), k)
                | Some p \<Rightarrow>
                    bindR (filewrite dw f (user_bytes p (nat (sint n)) (kuser k)) k) (\<lambda>(r, rest, k1).
                      case r of
                        Returns \<Rightarrow> Inr (Some (sint n), k1)
                      | Fails \<Rightarrow> Inr (Some (- 1), k1)
                      | Sleeps \<Rightarrow> Inr (None, k1)))))"

definition sys_close :: "kfile \<Rightarrow> (int \<times> kfile) res" where
  "sys_close k =
     (case argfd 0 k of
        None \<Rightarrow> Inr (- 1, k)
      | Some (fd, f) \<Rightarrow> bindR (fileclose f (set_fd fd None k)) (\<lambda>k1. Inr (0, k1)))"

text \<open>\<open>sys_fstat\<close> stores the sixteen bytes of a \<open>struct stat\<close> with its padding, given as \<open>layout\<close>.\<close>

definition sys_fstat :: "(stat \<Rightarrow> u8 list) \<Rightarrow> kfile \<Rightarrow> (int \<times> kfile) res" where
  "sys_fstat layout k =
     (case argfd 0 k of
        None \<Rightarrow> Inr (- 1, k)
      | Some (_, f) \<Rightarrow>
          (case argptr 1 20 (kuser k) of
             None \<Rightarrow> Inr (- 1, k)
           | Some p \<Rightarrow>
               bindR (filestat f k) (\<lambda>(st, k1).
                 case st of
                   None \<Rightarrow> Inr (- 1, k1)
                 | Some st \<Rightarrow> Inr (0, k1\<lparr>kuser := user_store p (layout st) (kuser k1)\<rparr>))))"

text \<open>\<open>sys_pipe\<close> stores the two descriptors as 32-bit integers.\<close>

definition le32 :: "u32 \<Rightarrow> u8 list" where
  "le32 w = map (\<lambda>j. ucast (drop_bit (8 * j) w)) [0..<4]"

definition sys_pipe :: "nat option \<Rightarrow> u8 list \<Rightarrow> kfile \<Rightarrow> (int \<times> kfile) res" where
  "sys_pipe pg page k =
     (case argptr 0 8 (kuser k) of
        None \<Rightarrow> Inr (- 1, k)
      | Some p \<Rightarrow>
          bindR (pipealloc pg page k) (\<lambda>(r, k1).
            case r of
              None \<Rightarrow> Inr (- 1, k1)
            | Some (rfile, wfile) \<Rightarrow>
                (case fdalloc rfile k1 of
                   None \<Rightarrow> bindR (fileclose rfile k1) (\<lambda>k2. bindR (fileclose wfile k2) (\<lambda>k3. Inr (- 1, k3)))
                 | Some (fd0, k2) \<Rightarrow>
                     (case fdalloc wfile k2 of
                        None \<Rightarrow> bindR (fileclose rfile (set_fd fd0 None k2)) (\<lambda>k3. bindR (fileclose wfile k3) (\<lambda>k4. Inr (- 1, k4)))
                      | Some (fd1, k3) \<Rightarrow>
                          Inr (0, k3\<lparr>kuser := user_store p (le32 (of_nat fd0) @ le32 (of_nat fd1)) (kuser k3)\<rparr>)))))"

end
