(* ===== verification/Sysfile.thy ===== *)
theory Sysfile
  imports Files
begin

text \<open>
  The system calls of \<open>sysfile.c\<close> that work on paths: link, unlink, open, mkdir, mknod and chdir. The
  directory of the process is its entry of \<open>cwds\<close>. A local \<open>char name[DIRSIZ]\<close> starts with arbitrary
  contents, the argument \<open>nb\<close>. After \<open>namei\<close> and \<open>create\<close> the file system is threaded through every
  call that locks, changes or releases an inode, in the order of the code.
\<close>

unbundle bit_operations_syntax

section \<open>Links\<close>

definition upd_nlink :: "nat \<Rightarrow> 16 word \<Rightarrow> fs \<Rightarrow> fs" where
  "upd_nlink i d s = iupdate i (upd_ip i (\<lambda>p. p\<lparr>i_nlink := i_nlink p + d\<rparr>) s)"

definition fs_call :: "(fs \<Rightarrow> ('a \<times> fs) res) \<Rightarrow> kfile \<Rightarrow> ('a \<times> kfile) res" where
  "fs_call f k = bindR (f (kfs k)) (\<lambda>(r, s). Inr (r, k\<lparr>kfs := s\<rparr>))"

definition link_bad :: "nat \<Rightarrow> fs \<Rightarrow> (int \<times> fs) res" where
  "link_bad ip s =
     bindR (ilock ip s) (\<lambda>s1. bindR (iunlockput ip (upd_nlink ip (- 1) s1)) (\<lambda>s2. Inr (- 1, s2)))"

definition link_at :: "devsw \<Rightarrow> devwrite \<Rightarrow> nat \<Rightarrow> u8 list \<Rightarrow> u8 list \<Rightarrow> u8 list \<Rightarrow> fs \<Rightarrow> (int \<times> fs) res" where
  "link_at dv dw cwd old new nb s =
     bindR (namei dv cwd old nb s) (\<lambda>(ipo, s1).
       case ipo of
         None \<Rightarrow> Inr (- 1, s1)
       | Some ip \<Rightarrow>
           bindR (ilock ip s1) (\<lambda>s2.
             if i_type (icache s2 ! ip) = T_DIR then bindR (iunlockput ip s2) (\<lambda>s3. Inr (- 1, s3))
             else bindR (iunlock ip (upd_nlink ip 1 s2)) (\<lambda>s3.
               bindR (nameiparent dv cwd new nb s3) (\<lambda>(dpo, name, s4).
                 case dpo of
                   None \<Rightarrow> link_bad ip s4
                 | Some dp \<Rightarrow>
                     bindR (ilock dp s4) (\<lambda>s5.
                     bindR (if i_dev (icache s5 ! dp) \<noteq> i_dev (icache s5 ! ip) then Inr (- 1, s5)
                            else dirlink dv dw dp name (i_inum (icache s5 ! ip)) s5) (\<lambda>(r, s6).
                       if r < 0 then bindR (iunlockput dp s6) (link_bad ip)
                       else bindR (iunlockput dp s6) (\<lambda>s7. bindR (iput ip s7) (\<lambda>s8. Inr (0, s8)))))))))"

definition sys_link :: "devsw \<Rightarrow> devwrite \<Rightarrow> u8 list \<Rightarrow> kfile \<Rightarrow> (int \<times> kfile) res" where
  "sys_link dv dw nb k =
     (case (argstr 0 (kuser k), argstr 1 (kuser k)) of
        (Some old, Some new) \<Rightarrow> fs_call (link_at dv dw (cwds k ! cur k) old new nb) k
      | _ \<Rightarrow> Inr (- 1, k))"

section \<open>Unlinking\<close>

function isdirempty_from :: "devsw \<Rightarrow> nat \<Rightarrow> nat \<Rightarrow> fs \<Rightarrow> (bool \<times> fs) res" where
  "isdirempty_from dv dp off s =
     (if off < unat (i_size (icache s ! dp)) then
        (case readi dv dp (of_nat off) 16 s of
           Inl e \<Rightarrow> Inl e
         | Inr (r, s1) \<Rightarrow>
             (case r of
                None \<Rightarrow> Inl (Panic ''isdirempty: readi'')
              | Some de \<Rightarrow>
                  if length de \<noteq> 16 then Inl (Panic ''isdirempty: readi'')
                  else if de_inum de \<noteq> 0 then Inr (False, s1)
                  else isdirempty_from dv dp (off + 16) s1))
      else Inr (True, s))"
  by pat_completeness auto
termination
  by (relation "measure (\<lambda>(_, i, off, s). unat (i_size (icache s ! i)) - off)") (auto dest!: readi_meta simp: same_meta_def)

declare isdirempty_from.simps [simp del]

definition isdirempty :: "devsw \<Rightarrow> nat \<Rightarrow> fs \<Rightarrow> (bool \<times> fs) res" where
  "isdirempty dv dp s = isdirempty_from dv dp 32 s"

text \<open>The label \<open>bad\<close> of \<open>sys_unlink\<close>.\<close>

definition unlink_bad :: "nat \<Rightarrow> fs \<Rightarrow> (int \<times> fs) res" where
  "unlink_bad dp s = bindR (iunlockput dp s) (\<lambda>s1. Inr (- 1, s1))"

text \<open>From the two locked inodes on: clear the entry and drop the links.\<close>

definition unlink_entry :: "devwrite \<Rightarrow> nat \<Rightarrow> nat \<Rightarrow> nat \<Rightarrow> fs \<Rightarrow> (int \<times> fs) res" where
  "unlink_entry dw dp ip off s =
     bindR (writei dw dp (replicate 16 0) (of_nat off) s) (\<lambda>(r, s1).
       if r \<noteq> Some 16 then Inl (Panic ''unlink: writei'')
       else let s2 = (if i_type (icache s1 ! ip) = T_DIR then upd_nlink dp (- 1) s1 else s1) in
         bindR (iunlockput dp s2) (\<lambda>s3.
         bindR (iunlockput ip (upd_nlink ip (- 1) s3)) (\<lambda>s4. Inr (0, s4))))"

definition unlink_at :: "devsw \<Rightarrow> devwrite \<Rightarrow> nat \<Rightarrow> u8 list \<Rightarrow> u8 list \<Rightarrow> fs \<Rightarrow> (int \<times> fs) res" where
  "unlink_at dv dw cwd path nb s =
     bindR (nameiparent dv cwd path nb s) (\<lambda>(dpo, name, s1).
       case dpo of
         None \<Rightarrow> Inr (- 1, s1)
       | Some dp \<Rightarrow>
           bindR (ilock dp s1) (\<lambda>s2.
             if namecmp name [46] = 0 \<or> namecmp name [46, 46] = 0 then unlink_bad dp s2
             else bindR (dirlookup dv dp name s2) (\<lambda>(r, s3).
               case r of
                 None \<Rightarrow> unlink_bad dp s3
               | Some (ip, off) \<Rightarrow>
                   bindR (ilock ip s3) (\<lambda>s4.
                     if sint (i_nlink (icache s4 ! ip)) < 1 then Inl (Panic ''unlink: nlink < 1'')
                     else bindR (if i_type (icache s4 ! ip) = T_DIR then isdirempty dv ip s4 else Inr (True, s4)) (\<lambda>(e, s5).
                       if \<not> e then bindR (iunlockput ip s5) (unlink_bad dp)
                       else unlink_entry dw dp ip off s5)))))"

definition sys_unlink :: "devsw \<Rightarrow> devwrite \<Rightarrow> u8 list \<Rightarrow> kfile \<Rightarrow> (int \<times> kfile) res" where
  "sys_unlink dv dw nb k =
     (case argstr 0 (kuser k) of
        None \<Rightarrow> Inr (- 1, k)
      | Some path \<Rightarrow> fs_call (unlink_at dv dw (cwds k ! cur k) path nb) k)"

section \<open>Creating and opening\<close>

text \<open>The entries \<open>.\<close> and \<open>..\<close> of a new directory.\<close>

definition create_dots :: "devsw \<Rightarrow> devwrite \<Rightarrow> nat \<Rightarrow> nat \<Rightarrow> fs \<Rightarrow> fs res" where
  "create_dots dv dw dp ip s =
     bindR (dirlink dv dw ip [46] (i_inum (icache s ! ip)) s) (\<lambda>(r1, s1).
       if r1 < 0 then Inl (Panic ''create dots'')
       else bindR (dirlink dv dw ip [46, 46] (i_inum (icache s1 ! dp)) s1) (\<lambda>(r2, s2).
         if r2 < 0 then Inl (Panic ''create dots'') else Inr s2))"

definition create :: "devsw \<Rightarrow> devwrite \<Rightarrow> nat \<Rightarrow> u8 list \<Rightarrow> 16 word \<Rightarrow> 16 word \<Rightarrow> 16 word \<Rightarrow> u8 list \<Rightarrow> fs \<Rightarrow> (nat option \<times> fs) res" where
  "create dv dw cwd path type major minor nb s =
     bindR (nameiparent dv cwd path nb s) (\<lambda>(dpo, name, s1).
       case dpo of
         None \<Rightarrow> Inr (None, s1)
       | Some dp \<Rightarrow>
           bindR (ilock dp s1) (\<lambda>s2.
           bindR (dirlookup dv dp name s2) (\<lambda>(r, s3).
             case r of
               Some (ip, off) \<Rightarrow>
                 bindR (iunlockput dp s3) (\<lambda>s4.
                 bindR (ilock ip s4) (\<lambda>s5.
                   if type = T_FILE \<and> i_type (icache s5 ! ip) = T_FILE then Inr (Some ip, s5)
                   else bindR (iunlockput ip s5) (\<lambda>s6. Inr (None, s6))))
             | None \<Rightarrow>
                 bindR (ialloc (i_dev (icache s3 ! dp)) type s3) (\<lambda>(ip, s4).
                 bindR (ilock ip s4) (\<lambda>s5.
                   let s6 = iupdate ip (upd_ip ip (\<lambda>p. p\<lparr>i_major := major, i_minor := minor, i_nlink := 1\<rparr>) s5) in
                   bindR (if type = T_DIR then create_dots dv dw dp ip (upd_nlink dp 1 s6) else Inr s6) (\<lambda>s7.
                   bindR (dirlink dv dw dp name (i_inum (icache s7 ! ip)) s7) (\<lambda>(r2, s8).
                     if r2 < 0 then Inl (Panic ''create: dirlink'')
                     else bindR (iunlockput dp s8) (\<lambda>s9. Inr (Some ip, s9)))))))))"

definition O_RDWR :: u32 where "O_RDWR = 2"

text \<open>Open modes, from \<open>fcntl.h\<close>.\<close>

definition mode_readable :: "u32 \<Rightarrow> bool" where "mode_readable omode \<longleftrightarrow> omode AND 1 = 0"
definition mode_writable :: "u32 \<Rightarrow> bool" where "mode_writable omode \<longleftrightarrow> omode AND 1 \<noteq> 0 \<or> omode AND O_RDWR \<noteq> 0"

text \<open>The inode \<open>sys_open\<close> opens, locked.\<close>

definition open_inode :: "devsw \<Rightarrow> devwrite \<Rightarrow> nat \<Rightarrow> u8 list \<Rightarrow> u32 \<Rightarrow> u8 list \<Rightarrow> fs \<Rightarrow> (nat option \<times> fs) res" where
  "open_inode dv dw cwd path omode nb s =
     (if omode AND 0x200 \<noteq> 0 then create dv dw cwd path T_FILE 0 0 nb s
      else bindR (namei dv cwd path nb s) (\<lambda>(ipo, s1).
        case ipo of
          None \<Rightarrow> Inr (None, s1)
        | Some ip \<Rightarrow>
            bindR (ilock ip s1) (\<lambda>s2.
              if i_type (icache s2 ! ip) = T_DIR \<and> omode \<noteq> 0 then bindR (iunlockput ip s2) (\<lambda>s3. Inr (None, s3))
              else Inr (Some ip, s2))))"

definition sys_open :: "devsw \<Rightarrow> devwrite \<Rightarrow> u8 list \<Rightarrow> kfile \<Rightarrow> (int \<times> kfile) res" where
  "sys_open dv dw nb k =
     (case (argstr 0 (kuser k), argint 1 (kuser k)) of
        (Some path, Some omode) \<Rightarrow>
          bindR (fs_call (open_inode dv dw (cwds k ! cur k) path omode nb) k) (\<lambda>(ipo, k1).
            case ipo of
              None \<Rightarrow> Inr (- 1, k1)
            | Some ip \<Rightarrow>
                (case filealloc k1 of
                   None \<Rightarrow> bindR (iunlockput ip (kfs k1)) (\<lambda>s. Inr (- 1, k1\<lparr>kfs := s\<rparr>))
                 | Some (f, k2) \<Rightarrow>
                     (case fdalloc f k2 of
                        None \<Rightarrow>
                          bindR (fileclose f k2) (\<lambda>k3. bindR (iunlockput ip (kfs k3)) (\<lambda>s. Inr (- 1, k3\<lparr>kfs := s\<rparr>)))
                      | Some (fd, k3) \<Rightarrow>
                          bindR (iunlock ip (kfs k3)) (\<lambda>s.
                            Inr (int fd,
                              upd_file f (\<lambda>f. f\<lparr>f_type := FD_INODE, f_ip := ip, f_off := 0,
                                 f_readable := mode_readable omode, f_writable := mode_writable omode\<rparr>) (k3\<lparr>kfs := s\<rparr>))))))
      | _ \<Rightarrow> Inr (- 1, k))"

definition make_node :: "devsw \<Rightarrow> devwrite \<Rightarrow> nat \<Rightarrow> u8 list \<Rightarrow> 16 word \<Rightarrow> 16 word \<Rightarrow> 16 word \<Rightarrow> u8 list \<Rightarrow> fs \<Rightarrow> (int \<times> fs) res" where
  "make_node dv dw cwd path type major minor nb s =
     bindR (create dv dw cwd path type major minor nb s) (\<lambda>(ipo, s1).
       case ipo of None \<Rightarrow> Inr (- 1, s1) | Some ip \<Rightarrow> bindR (iunlockput ip s1) (\<lambda>s2. Inr (0, s2)))"

definition sys_mkdir :: "devsw \<Rightarrow> devwrite \<Rightarrow> u8 list \<Rightarrow> kfile \<Rightarrow> (int \<times> kfile) res" where
  "sys_mkdir dv dw nb k =
     (case argstr 0 (kuser k) of
        None \<Rightarrow> Inr (- 1, k)
      | Some path \<Rightarrow> fs_call (make_node dv dw (cwds k ! cur k) path T_DIR 0 0 nb) k)"

definition sys_mknod :: "devsw \<Rightarrow> devwrite \<Rightarrow> u8 list \<Rightarrow> kfile \<Rightarrow> (int \<times> kfile) res" where
  "sys_mknod dv dw nb k =
     (case (argstr 0 (kuser k), argint 1 (kuser k), argint 2 (kuser k)) of
        (Some path, Some major, Some minor) \<Rightarrow>
          fs_call (make_node dv dw (cwds k ! cur k) path T_DEV (ucast major) (ucast minor) nb) k
      | _ \<Rightarrow> Inr (- 1, k))"

definition chdir_at :: "devsw \<Rightarrow> nat \<Rightarrow> u8 list \<Rightarrow> u8 list \<Rightarrow> fs \<Rightarrow> (nat option \<times> fs) res" where
  "chdir_at dv cwd path nb s =
     bindR (namei dv cwd path nb s) (\<lambda>(ipo, s1).
       case ipo of
         None \<Rightarrow> Inr (None, s1)
       | Some ip \<Rightarrow>
           bindR (ilock ip s1) (\<lambda>s2.
             if i_type (icache s2 ! ip) \<noteq> T_DIR then bindR (iunlockput ip s2) (\<lambda>s3. Inr (None, s3))
             else bindR (iunlock ip s2) (\<lambda>s3. bindR (iput cwd s3) (\<lambda>s4. Inr (Some ip, s4)))))"

definition sys_chdir :: "devsw \<Rightarrow> u8 list \<Rightarrow> kfile \<Rightarrow> (int \<times> kfile) res" where
  "sys_chdir dv nb k =
     (case argstr 0 (kuser k) of
        None \<Rightarrow> Inr (- 1, k)
      | Some path \<Rightarrow>
          bindR (fs_call (chdir_at dv (cwds k ! cur k) path nb) k) (\<lambda>(r, k1).
            case r of None \<Rightarrow> Inr (- 1, k1) | Some ip \<Rightarrow> Inr (0, k1\<lparr>cwds := (cwds k1)[cur k1 := ip]\<rparr>)))"

section \<open>Arguments of \<open>exec\<close>\<close>

text \<open>The loop of \<open>sys_exec\<close> that collects the argument strings, from entry \<open>i\<close>; \<open>MAXARG\<close> is 32.\<close>

definition MAXARG :: nat where "MAXARG = 32"

function exec_args :: "nat \<Rightarrow> u32 \<Rightarrow> uproc \<Rightarrow> u8 list list option" where
  "exec_args i uargv u =
     (if i \<ge> MAXARG then None
      else case fetchint (uargv + 4 * of_nat i) u of
        None \<Rightarrow> None
      | Some uarg \<Rightarrow>
          if uarg = 0 then Some []
          else case fetchstr uarg u of None \<Rightarrow> None | Some a \<Rightarrow> map_option (Cons a) (exec_args (i + 1) uargv u))"
  by pat_completeness auto
termination by (relation "measure (\<lambda>(i, _, _). MAXARG - i)") auto

declare exec_args.simps [simp del]

definition sys_exec_args :: "uproc \<Rightarrow> (u8 list \<times> u8 list list) option" where
  "sys_exec_args u =
     (case (argstr 0 u, argint 1 u) of
        (Some path, Some uargv) \<Rightarrow> map_option (Pair path) (exec_args 0 uargv u)
      | _ \<Rightarrow> None)"

end
