(* ===== verification/Proc_Files.thy ===== *)
theory Proc_Files
  imports Sysfile
begin

text \<open>
  What \<open>fork\<close> and \<open>exit\<close> of \<open>proc.c\<close> do to the open files and the current directory. The table of processes is
  that of \<open>Proc\<close>; here a process is the row of descriptors and the directory at its index.
\<close>

definition fork_files :: "nat \<Rightarrow> kfile \<Rightarrow> kfile res" where
  "fork_files c k =
     bindR (for_up NOFILE (\<lambda>i k.
        case fds k ! cur k ! i of
          None \<Rightarrow> Inr k
        | Some f \<Rightarrow> bindR (file_dup f k) (\<lambda>k1. Inr (k1\<lparr>fds := (fds k1)[c := (fds k1 ! c)[i := Some f]]\<rparr>))) k) (\<lambda>k2.
     let d = cwds k2 ! cur k2 in
     Inr (k2\<lparr>kfs := inode_dup d (kfs k2), cwds := (cwds k2)[c := d]\<rparr>))"

definition exit_files :: "kfile \<Rightarrow> kfile res" where
  "exit_files k =
     bindR (for_up NOFILE (\<lambda>i k.
        case fds k ! cur k ! i of
          None \<Rightarrow> Inr k
        | Some f \<Rightarrow> bindR (fileclose f k) (\<lambda>k1. Inr (set_fd i None k1))) k) (\<lambda>k2.
     bindR (iput (cwds k2 ! cur k2) (kfs k2)) (\<lambda>s. Inr (k2\<lparr>kfs := s\<rparr>)))"

end
