(* ===== verification/File_Table.thy ===== *)
theory File_Table
  imports Proc_Files
begin

text \<open>
  The invariant of open files: every file of the table is referenced by exactly as many descriptors as its
  count says, free entries have no type, and the ends of a pipe that are open are those some file holds. It
  is stated with the references \<open>x\<close> a system call has in hand, and kept by every step of the calls that
  make, copy, use and close descriptors.
\<close>

section \<open>The invariant\<close>

definition refs :: "kfile \<Rightarrow> nat \<Rightarrow> nat" where
  "refs k f = count_list (concat (fds k)) (Some f)"

definition ends :: "ofile list \<Rightarrow> nat \<Rightarrow> bool \<Rightarrow> nat set" where
  "ends t p w = {f. f < length t \<and> f_type (t ! f) = FD_PIPE \<and> f_pipe (t ! f) = p \<and> f_writable (t ! f) = w}"

definition end_open :: "(nat \<rightharpoonup> pipe) \<Rightarrow> nat \<Rightarrow> bool \<Rightarrow> bool" where
  "end_open ps p w = (case ps p of None \<Rightarrow> False | Some q \<Rightarrow> if w then writeopen q else readopen q)"

definition pipe_ends :: "ofile list \<Rightarrow> (nat \<rightharpoonup> pipe) \<Rightarrow> bool" where
  "pipe_ends t ps \<longleftrightarrow>
     (\<forall>p w. end_open ps p w = (ends t p w \<noteq> {})) \<and>
     (\<forall>p w. \<forall>f\<in>ends t p w. \<forall>g\<in>ends t p w. f = g) \<and>
     (\<forall>f<length t. f_type (t ! f) = FD_PIPE \<longrightarrow> f_readable (t ! f) = (\<not> f_writable (t ! f))) \<and>
     (\<forall>p. ps p \<noteq> None \<longrightarrow> end_open ps p True \<or> end_open ps p False)"

definition tab_ok :: "(nat \<Rightarrow> nat) \<Rightarrow> kfile \<Rightarrow> bool" where
  "tab_ok x k \<longleftrightarrow> cur k < length (fds k) \<and>
     (\<forall>t\<in>set (fds k). length t = NOFILE \<and> (\<forall>f. Some f \<in> set t \<longrightarrow> f < length (ftab k))) \<and>
     (\<forall>f<length (ftab k). f_ref (ftab k ! f) = int (refs k f + x f)) \<and>
     (\<forall>f<length (ftab k). f_ref (ftab k ! f) = 0 \<longrightarrow> f_type (ftab k ! f) = FD_NONE) \<and>
     pipe_ends (ftab k) (kpipes k)"

lemma upd_file_sel [simp]:
  "ftab (upd_file i g k) = (ftab k)[i := g (ftab k ! i)]" "kfs (upd_file i g k) = kfs k" "kpipes (upd_file i g k) = kpipes k"
  "fds (upd_file i g k) = fds k" "cwds (upd_file i g k) = cwds k" "cur (upd_file i g k) = cur k" "kuser (upd_file i g k) = kuser k"
  by (simp_all add: upd_file_def)

lemma set_fd_sel [simp]:
  "ftab (set_fd fd y k) = ftab k" "kpipes (set_fd fd y k) = kpipes k" "kfs (set_fd fd y k) = kfs k"
  "cur (set_fd fd y k) = cur k" "fds (set_fd fd y k) = (fds k)[cur k := (fds k ! cur k)[fd := y]]"
  by (simp_all add: set_fd_def)

lemma tab_okD:
  assumes "tab_ok x k"
  shows "cur k < length (fds k)" "t \<in> set (fds k) \<Longrightarrow> length t = NOFILE" "t \<in> set (fds k) \<Longrightarrow> Some f \<in> set t \<Longrightarrow> f < length (ftab k)"
    "f < length (ftab k) \<Longrightarrow> f_ref (ftab k ! f) = int (refs k f + x f)"
    "f < length (ftab k) \<Longrightarrow> f_ref (ftab k ! f) = 0 \<Longrightarrow> f_type (ftab k ! f) = FD_NONE" "pipe_ends (ftab k) (kpipes k)"
  using assms unfolding tab_ok_def by blast+

text \<open>What only the file system, the user memory and file offsets distinguish satisfies the same invariant.\<close>

lemma tab_ok_cong:
  assumes "tab_ok x k" "fds k' = fds k" "cur k' = cur k" "kpipes k' = kpipes k" "ftab k' = ftab k"
  shows "tab_ok x k'"
  using assms unfolding tab_ok_def refs_def by simp

lemma count_list_update:
  "i < length xs \<Longrightarrow> xs ! i = a \<Longrightarrow> a \<noteq> b \<Longrightarrow>
   count_list (xs[i := b]) y = (if y = a then count_list xs y - 1 else if y = b then count_list xs y + 1 else count_list xs y) \<and>
   (y = a \<longrightarrow> 0 < count_list xs y)"
proof (induction xs arbitrary: i)
  case (Cons z zs)
  then show ?case by (cases i) (auto simp: Suc_diff_le)
qed simp

lemma concat_count: "count_list (concat xss) y = sum_list (map (\<lambda>t. count_list t y) xss)"
  by (induction xss) (simp_all add: count_list_append)

lemma sum_update: "i < length xs \<Longrightarrow> sum_list (xs[i := a]) + xs ! i = sum_list xs + (a :: nat)"
  by (induction xs arbitrary: i) (auto split: nat.splits)

lemma refs_set_fd:
  assumes "cur k < length (fds k)" "fd < length (fds k ! cur k)" "fds k ! cur k ! fd = a" "a \<noteq> y"
  shows "refs (set_fd fd y k) f = (if a = Some f then refs k f - 1 else if y = Some f then refs k f + 1 else refs k f)"
    "a = Some f \<Longrightarrow> 0 < refs k f"
proof -
  let ?t = "fds k ! cur k" and ?g = "\<lambda>t. count_list t (Some f)"
  have c: "?g (?t[fd := y]) = (if Some f = a then ?g ?t - 1 else if Some f = y then ?g ?t + 1 else ?g ?t)" "Some f = a \<Longrightarrow> 0 < ?g ?t"
    using count_list_update [OF assms(2,3,4), of "Some f"] by blast+
  have s: "refs (set_fd fd y k) f + ?g ?t = refs k f + ?g (?t[fd := y])"
    using sum_update [of "cur k" "map ?g (fds k)" "?g (?t[fd := y])"] assms(1)
    by (simp add: refs_def concat_count map_update)
  have le: "?g ?t \<le> refs k f"
  proof -
    have "?t \<in> set (fds k)" using assms(1) by (rule nth_mem)
    then have "?g ?t \<in> set (map ?g (fds k))" by simp
    then show ?thesis unfolding refs_def concat_count by (rule member_le_sum_list) simp
  qed
  show "refs (set_fd fd y k) f = (if a = Some f then refs k f - 1 else if y = Some f then refs k f + 1 else refs k f)"
    using s c le by (auto split: if_splits)
  show "a = Some f \<Longrightarrow> 0 < refs k f" using c(2) le by auto
qed

section \<open>Steps on the table\<close>

lemma ends_irrelevant:
  assumes "\<And>f. f < length t \<Longrightarrow> (f_type (t' ! f) = FD_PIPE \<longleftrightarrow> f_type (t ! f) = FD_PIPE) \<and>
      (f_type (t ! f) = FD_PIPE \<longrightarrow> f_pipe (t' ! f) = f_pipe (t ! f) \<and> f_writable (t' ! f) = f_writable (t ! f) \<and> f_readable (t' ! f) = f_readable (t ! f))"
    "length t' = length t"
  shows "pipe_ends t' ps = pipe_ends t ps"
proof -
  have "ends t' p w = ends t p w" for p w using assms unfolding ends_def by auto
  then show ?thesis using assms unfolding pipe_ends_def by auto
qed

text \<open>Changing the count of one file, with what is in hand.\<close>

lemma tab_ok_ref:
  assumes ok: "tab_ok x k" and i: "i < length (ftab k)" and n: "f_ref (ftab k ! i) + d = int (refs k i + y)"
    and nz: "f_ref (ftab k ! i) + d \<noteq> 0 \<or> f_type (ftab k ! i) = FD_NONE"
  shows "tab_ok (x(i := y)) (upd_file i (\<lambda>f. f\<lparr>f_ref := f_ref f + d\<rparr>) k)"
proof -
  note T = tab_okD [OF ok]
  have r: "refs (upd_file i g k) f = refs k f" for f g by (simp add: refs_def)
  let ?k' = "upd_file i (\<lambda>f. f\<lparr>f_ref := f_ref f + d\<rparr>) k"
  have "pipe_ends (ftab ?k') (kpipes ?k')"
    using T(6) ends_irrelevant [of "ftab k" "ftab ?k'"] i by (simp add: nth_list_update)
  moreover have "\<forall>f<length (ftab ?k'). f_ref (ftab ?k' ! f) = int (refs ?k' f + (x(i := y)) f)"
    using T(4) n i by (simp add: r nth_list_update)
  moreover have "\<forall>f<length (ftab ?k'). f_ref (ftab ?k' ! f) = 0 \<longrightarrow> f_type (ftab ?k' ! f) = FD_NONE"
    using T(5) nz i by (auto simp: nth_list_update)
  ultimately show ?thesis using T(1-3) unfolding tab_ok_def by simp
qed

lemma filealloc_ok:
  assumes ok: "tab_ok x k" and a: "filealloc k = Some (i, k')"
  shows "tab_ok (x(i := Suc 0)) k'" "i < length (ftab k)" "x i = 0" "refs k i = 0" "f_type (ftab k ! i) = FD_NONE"
    "k' = upd_file i (\<lambda>f. f\<lparr>f_ref := 1\<rparr>) k"
proof -
  have i: "i < length (ftab k)" "f_ref (ftab k ! i) = 0" and k': "k' = upd_file i (\<lambda>f. f\<lparr>f_ref := 1\<rparr>) k"
    using a by (auto simp: filealloc_def scan_Some_iff split: option.splits)
  note T = tab_okD [OF ok]
  have z: "refs k i = 0" "x i = 0" using T(4) [OF i(1)] i(2) by simp_all
  have "k' = upd_file i (\<lambda>f. f\<lparr>f_ref := f_ref f + 1\<rparr>) k" using i(2) by (simp add: k' upd_file_def)
  then show "tab_ok (x(i := Suc 0)) k'"
    using tab_ok_ref [OF ok i(1), of 1 "Suc 0"] z i(2) by simp
  show "i < length (ftab k)" "x i = 0" "refs k i = 0" "f_type (ftab k ! i) = FD_NONE" "k' = upd_file i (\<lambda>f. f\<lparr>f_ref := 1\<rparr>) k"
    using i z k' T(5) by auto
qed

lemma file_dup_ok:
  assumes ok: "tab_ok x k" and i: "i < length (ftab k)" "0 < refs k i + x i"
  shows "\<exists>k'. file_dup i k = Inr k' \<and> tab_ok (x(i := Suc (x i))) k' \<and> fds k' = fds k \<and> cur k' = cur k"
  using tab_ok_ref [OF ok i(1), of 1 "Suc (x i)"] tab_okD(4) [OF ok i(1)] i(2)
  by (auto simp: file_dup_def)

lemma fdalloc_ok:
  assumes ok: "tab_ok x k" and f: "f < length (ftab k)" "0 < x f" and a: "fdalloc f k = Some (fd, k')"
  shows "tab_ok (x(f := x f - 1)) k'" "k' = set_fd fd (Some f) k" "fd < NOFILE" "fds k ! cur k ! fd = None"
proof -
  note T = tab_okD [OF ok]
  have fd: "fd < length (fds k ! cur k)" "fds k ! cur k ! fd = None" and k': "k' = set_fd fd (Some f) k"
    using a by (auto simp: fdalloc_def scan_Some_iff split: option.splits)
  have l: "length (fds k ! cur k) = NOFILE" using T(1,2) by simp
  note R = refs_set_fd [OF T(1) fd, of "Some f"]
  have t: "t \<in> set (fds k') \<Longrightarrow> length t = NOFILE \<and> (\<forall>g. Some g \<in> set t \<longrightarrow> g < length (ftab k))" for t
  proof -
    assume "t \<in> set (fds k')"
    then consider "t \<in> set (fds k)" | "t = (fds k ! cur k)[fd := Some f]" unfolding k' set_fd_sel using set_update_subset_insert by fastforce
    then show ?thesis
    proof cases
      case 2
      have "set t \<subseteq> insert (Some f) (set (fds k ! cur k))" unfolding 2 by (rule set_update_subset_insert)
      then show ?thesis using 2 l f(1) T(1) T(3) [of "fds k ! cur k"] by auto
    qed (use T(2,3) in auto)
  qed
  have "int (refs k' g + (x(f := x f - 1)) g) = int (refs k g + x g)" for g
    using R(1) [of g] f(2) by (auto simp: k')
  then show "tab_ok (x(f := x f - 1)) k'" using T(1,4,5,6) t unfolding tab_ok_def by (simp add: k')
  show "k' = set_fd fd (Some f) k" "fd < NOFILE" "fds k ! cur k ! fd = None" using k' fd l by simp_all
qed

lemma free_fd_ok:
  assumes ok: "tab_ok x k" and fd: "fd < NOFILE" "fds k ! cur k ! fd = Some f"
  shows "tab_ok (x(f := Suc (x f))) (set_fd fd None k)" "f < length (ftab k)"
proof -
  note T = tab_okD [OF ok]
  have l: "length (fds k ! cur k) = NOFILE" using T(1,2) by simp
  have "Some f \<in> set (fds k ! cur k)" using fd l by (metis nth_mem)
  then show fl: "f < length (ftab k)" using T(1,3) nth_mem by blast
  note R = refs_set_fd [OF T(1) _ fd(2), of None]
  let ?k' = "set_fd fd None k"
  have t: "t \<in> set (fds ?k') \<Longrightarrow> length t = NOFILE \<and> (\<forall>g. Some g \<in> set t \<longrightarrow> g < length (ftab k))" for t
  proof -
    assume "t \<in> set (fds ?k')"
    then consider "t \<in> set (fds k)" | "t = (fds k ! cur k)[fd := None]" unfolding set_fd_sel using set_update_subset_insert by fastforce
    then show ?thesis
    proof cases
      case 2
      have "set t \<subseteq> insert None (set (fds k ! cur k))" unfolding 2 by (rule set_update_subset_insert)
      then show ?thesis using 2 l T(1) T(3) [of "fds k ! cur k"] by auto
    qed (use T(2,3) in auto)
  qed
  have "int (refs ?k' g + (x(f := Suc (x f))) g) = int (refs k g + x g)" for g
    using R [of g] fd(1) l by auto
  then show "tab_ok (x(f := Suc (x f))) ?k'" using T(1,4,5,6) t unfolding tab_ok_def by simp
qed

section \<open>Closing a file\<close>

lemma end_open_Some: "ps p = Some q \<Longrightarrow> end_open ps p w = (if w then writeopen q else readopen q)"
  by (simp add: end_open_def)

text \<open>Both tables lose the end \<open>w\<close> of pipe \<open>p\<close>.\<close>

lemma pipe_ends_close:
  assumes ok: "pipe_ends t ps"
    and t': "length t' = length t" "\<And>p' w'. ends t' p' w' = (if p' = p \<and> w' = w then {} else ends t p' w')"
      "\<And>f. f < length t \<Longrightarrow> f_type (t' ! f) = FD_PIPE \<Longrightarrow> f_type (t ! f) = FD_PIPE \<and> f_readable (t' ! f) = f_readable (t ! f) \<and> f_writable (t' ! f) = f_writable (t ! f)"
    and ps': "\<And>p' w'. end_open ps' p' w' = (if p' = p \<and> w' = w then False else end_open ps p' w')"
      "\<And>p'. p' \<noteq> p \<Longrightarrow> ps' p' = ps p'" "ps' p \<noteq> None \<Longrightarrow> end_open ps' p True \<or> end_open ps' p False"
  shows "pipe_ends t' ps'"
  unfolding pipe_ends_def
proof (intro conjI allI ballI impI)
  fix p' assume n: "ps' p' \<noteq> None"
  show "end_open ps' p' True \<or> end_open ps' p' False"
  proof (cases "p' = p")
    case False
    then have "ps p' \<noteq> None" using n ps'(2) by simp
    then have "end_open ps p' True \<or> end_open ps p' False" using ok unfolding pipe_ends_def by blast
    then show ?thesis using ps'(1) False by simp
  qed (use n ps'(3) in simp)
next
  fix p' w' show "end_open ps' p' w' = (ends t' p' w' \<noteq> {})" using ok ps'(1) t'(2) unfolding pipe_ends_def by simp
next
  fix p' w' f g assume "f \<in> ends t' p' w'" "g \<in> ends t' p' w'"
  then have "f \<in> ends t p' w'" "g \<in> ends t p' w'" using t'(2) by (auto split: if_splits)
  then show "f = g" using ok unfolding pipe_ends_def by blast
next
  fix f assume "f < length t'" "f_type (t' ! f) = FD_PIPE"
  then show "f_readable (t' ! f) = (\<not> f_writable (t' ! f))" using t'(1,3) ok unfolding pipe_ends_def by metis
qed

lemma close_pipe_spec:
  assumes "end_open (kpipes k) p w"
  shows "\<exists>ps'. close_pipe p w k = Inr (k\<lparr>kpipes := ps'\<rparr>) \<and>
     (\<forall>p' w'. end_open ps' p' w' = (if p' = p \<and> w' = w then False else end_open (kpipes k) p' w')) \<and>
     (\<forall>p'. p' \<noteq> p \<longrightarrow> ps' p' = kpipes k p') \<and> (ps' p \<noteq> None \<longrightarrow> end_open ps' p True \<or> end_open ps' p False)"
proof -
  obtain q where q: "kpipes k p = Some q" using assms by (cases "kpipes k p") (auto simp: end_open_def)
  define q' where "q' = (if w then q\<lparr>writeopen := False\<rparr> else q\<lparr>readopen := False\<rparr>)"
  define ps' where "ps' = (kpipes k)(p := if \<not> readopen q' \<and> \<not> writeopen q' then None else Some q')"
  have "close_pipe p w k = Inr (k\<lparr>kpipes := ps'\<rparr>)"
    using q by (simp add: close_pipe_def pipeclose_def Let_def q'_def ps'_def)
  moreover have "end_open ps' p' w' = (if p' = p \<and> w' = w then False else end_open (kpipes k) p' w')" for p' w'
    using q by (auto simp: end_open_def ps'_def q'_def)
  moreover have "ps' p' = kpipes k p'" if "p' \<noteq> p" for p' using that by (simp add: ps'_def)
  moreover have "ps' p \<noteq> None \<Longrightarrow> end_open ps' p True \<or> end_open ps' p False"
    by (auto simp: end_open_def ps'_def split: if_splits)
  ultimately show ?thesis by blast
qed

lemma pipe_ends_open: "pipe_ends t ps \<Longrightarrow> i < length t \<Longrightarrow> f_type (t ! i) = FD_PIPE \<Longrightarrow> end_open ps (f_pipe (t ! i)) (f_writable (t ! i))"
  unfolding pipe_ends_def ends_def by blast

text \<open>Freeing entry \<open>i\<close> removes one end, and none when the file was no pipe.\<close>

lemma ends_free:
  assumes "pipe_ends t ps" "i < length t" "f_type (t ! i) = FD_PIPE" "f_type g = FD_NONE"
  shows "ends (t[i := g]) p w = (if p = f_pipe (t ! i) \<and> w = f_writable (t ! i) then {} else ends t p w)"
proof -
  have "i \<in> ends t (f_pipe (t ! i)) (f_writable (t ! i))" using assms by (simp add: ends_def)
  then have u: "f = i" if "f \<in> ends t (f_pipe (t ! i)) (f_writable (t ! i))" for f using assms(1) that unfolding pipe_ends_def by blast
  have "ends (t[i := g]) p w = ends t p w - {i}" using assms(2,4) by (auto simp: ends_def nth_list_update split: if_splits)
  moreover have "i \<notin> ends t p w" if "\<not> (p = f_pipe (t ! i) \<and> w = f_writable (t ! i))" using that by (auto simp: ends_def)
  ultimately show ?thesis using u by auto
qed

lemma fileclose_ok:
  assumes ok: "tab_ok x k" and i: "i < length (ftab k)" "0 < x i"
  shows "\<exists>k1. tab_ok (x(i := x i - 1)) k1 \<and> fds k1 = fds k \<and> cur k1 = cur k \<and> length (ftab k1) = length (ftab k) \<and> kfs k1 = kfs k \<and>
     (fileclose i k = Inr k1 \<or> fileclose i k = bindR (iput (f_ip (ftab k ! i)) (kfs k)) (\<lambda>s. Inr (k1\<lparr>kfs := s\<rparr>)))"
proof -
  note T = tab_okD [OF ok]
  have r: "f_ref (ftab k ! i) = int (refs k i + x i)" using T(4) i(1) by blast
  show ?thesis
  proof (cases "f_ref (ftab k ! i) - 1 > 0")
    case True
    let ?k1 = "upd_file i (\<lambda>f. f\<lparr>f_ref := f_ref f - 1\<rparr>) k"
    have "tab_ok (x(i := x i - 1)) ?k1" using tab_ok_ref [OF ok i(1), of "- 1" "x i - 1"] r i(2) True by simp
    moreover have "fileclose i k = Inr ?k1" using True by (simp add: fileclose_def Let_def)
    ultimately show ?thesis by (intro exI [of _ ?k1]) simp
  next
    case False
    then have one: "refs k i = 0" "x i = 1" using r i(2) by simp_all
    let ?g = "(ftab k ! i)\<lparr>f_ref := 0, f_type := FD_NONE\<rparr>" and ?k1 = "upd_file i (\<lambda>f. f\<lparr>f_ref := 0, f_type := FD_NONE\<rparr>) k"
    have R: "refs k' f = refs k f" if "fds k' = fds k" for k' f using that by (simp add: refs_def)
    have base: "tab_ok (x(i := x i - 1)) k'" if k': "fds k' = fds k" "cur k' = cur k" "ftab k' = (ftab k)[i := ?g]" "pipe_ends (ftab k') (kpipes k')" for k'
      using T(1-5) one i(1) k' R [OF k'(1)] unfolding tab_ok_def by (auto simp: nth_list_update)
    have fc: "fileclose i k = (case f_type (ftab k ! i) of
           FD_PIPE \<Rightarrow> close_pipe (f_pipe (ftab k ! i)) (f_writable (ftab k ! i)) ?k1
         | FD_INODE \<Rightarrow> bindR (iput (f_ip (ftab k ! i)) (kfs ?k1)) (\<lambda>s. Inr (?k1\<lparr>kfs := s\<rparr>))
         | FD_NONE \<Rightarrow> Inr ?k1)" using False r i(2) by (simp add: fileclose_def Let_def)
    show ?thesis
    proof (cases "f_type (ftab k ! i) = FD_PIPE")
      case True
      let ?p = "f_pipe (ftab k ! i)" and ?w = "f_writable (ftab k ! i)"
      have "end_open (kpipes ?k1) ?p ?w" using pipe_ends_open [OF T(6) i(1) True] by simp
      then have "end_open (kpipes ?k1) ?p ?w" .
      have kp: "kpipes ?k1 = kpipes k" by simp
      from close_pipe_spec [OF \<open>end_open (kpipes ?k1) ?p ?w\<close>, unfolded kp] obtain ps' where
        c: "close_pipe ?p ?w ?k1 = Inr (?k1\<lparr>kpipes := ps'\<rparr>)"
          "\<And>p' w'. end_open ps' p' w' = (if p' = ?p \<and> w' = ?w then False else end_open (kpipes k) p' w')"
          "\<And>p'. p' \<noteq> ?p \<Longrightarrow> ps' p' = kpipes k p'" "ps' ?p \<noteq> None \<Longrightarrow> end_open ps' ?p True \<or> end_open ps' ?p False"
        by blast
      have "pipe_ends ((ftab k)[i := ?g]) ps'"
      proof (rule pipe_ends_close [OF T(6) _ _ _ c(2-4)])
        show "ends ((ftab k)[i := ?g]) p' w' = (if p' = ?p \<and> w' = ?w then {} else ends (ftab k) p' w')" for p' w'
          by (rule ends_free [OF T(6) i(1) True]) simp
      qed (use i(1) in \<open>auto simp: nth_list_update split: if_splits\<close>)
      then have "tab_ok (x(i := x i - 1)) (?k1\<lparr>kpipes := ps'\<rparr>)" by (intro base) simp_all
      moreover have "fileclose i k = Inr (?k1\<lparr>kpipes := ps'\<rparr>)" using fc c(1) True by simp
      ultimately show ?thesis by (intro exI [of _ "?k1\<lparr>kpipes := ps'\<rparr>"]) simp
    next
      case F: False
      have "pipe_ends ((ftab k)[i := ?g]) (kpipes k)"
        by (subst ends_irrelevant [of "ftab k"]) (use T(6) F i(1) in \<open>auto simp: nth_list_update\<close>)
      then have "tab_ok (x(i := x i - 1)) ?k1" by (intro base) simp_all
      then show ?thesis using fc F by (intro exI [of _ ?k1]) (auto split: ftype.splits)
    qed
  qed
qed

lemma fileclose_Inr:
  assumes "tab_ok x k" "i < length (ftab k)" "0 < x i" "fileclose i k = Inr k2"
  shows "tab_ok (x(i := x i - 1)) k2" "fds k2 = fds k" "cur k2 = cur k" "length (ftab k2) = length (ftab k)"
proof -
  obtain k1 where k1: "tab_ok (x(i := x i - 1)) k1" "fds k1 = fds k" "cur k1 = cur k" "length (ftab k1) = length (ftab k)" and
    c: "fileclose i k = Inr k1 \<or> fileclose i k = bindR (iput (f_ip (ftab k ! i)) (kfs k)) (\<lambda>s. Inr (k1\<lparr>kfs := s\<rparr>))"
    using fileclose_ok [OF assms(1-3)] by blast
  have "k2 = k1 \<or> (\<exists>s. k2 = k1\<lparr>kfs := s\<rparr>)"
    using c unfolding assms(4) by (elim disjE) (simp, drule sym, auto simp: bindR_Inr_iff)
  then obtain s where "k2 = k1 \<or> k2 = k1\<lparr>kfs := s\<rparr>" by blast
  then show "tab_ok (x(i := x i - 1)) k2" "fds k2 = fds k" "cur k2 = cur k" "length (ftab k2) = length (ftab k)"
    using k1 tab_ok_cong [OF k1(1)] by auto
qed

section \<open>Reading and writing keep the table\<close>

definition same_table :: "kfile \<Rightarrow> kfile \<Rightarrow> bool" where
  "same_table k k' \<longleftrightarrow> fds k' = fds k \<and> cur k' = cur k \<and> length (ftab k') = length (ftab k) \<and>
     (\<forall>f<length (ftab k). f_type (ftab k' ! f) = f_type (ftab k ! f) \<and> f_ref (ftab k' ! f) = f_ref (ftab k ! f) \<and>
        f_pipe (ftab k' ! f) = f_pipe (ftab k ! f) \<and> f_readable (ftab k' ! f) = f_readable (ftab k ! f) \<and>
        f_writable (ftab k' ! f) = f_writable (ftab k ! f)) \<and>
     (\<forall>p. (kpipes k' p = None) = (kpipes k p = None) \<and> (\<forall>w. end_open (kpipes k') p w = end_open (kpipes k) p w))"

lemma same_table_trans: "same_table a b \<Longrightarrow> same_table b c \<Longrightarrow> same_table a c"
  unfolding same_table_def by auto

lemma same_table_refl: "fds k' = fds k \<Longrightarrow> cur k' = cur k \<Longrightarrow> ftab k' = ftab k \<Longrightarrow> kpipes k' = kpipes k \<Longrightarrow> same_table k k'"
  by (simp add: same_table_def)

lemma same_table_off: "same_table k (upd_file i (\<lambda>f. f\<lparr>f_off := g f\<rparr>) k)"
proof (cases "i < length (ftab k)")
  case True
  then show ?thesis by (simp add: same_table_def nth_list_update)
qed (simp add: same_table_def list_update_beyond)

lemma same_table_pipe:
  assumes "kpipes k p = Some q" "readopen q' = readopen q" "writeopen q' = writeopen q"
  shows "same_table k (k\<lparr>kpipes := (kpipes k)(p \<mapsto> q')\<rparr>)"
  using assms by (auto simp: same_table_def end_open_def)

lemma tab_ok_same:
  assumes ok: "tab_ok x k" and s: "same_table k k'"
  shows "tab_ok x k'"
proof -
  note T = tab_okD [OF ok]
  have E: "ends (ftab k') p w = ends (ftab k) p w" for p w using s unfolding same_table_def ends_def by auto
  have "pipe_ends (ftab k') (kpipes k')" using T(6) s unfolding pipe_ends_def E same_table_def by auto
  moreover have "refs k' f = refs k f" for f using s by (simp add: refs_def same_table_def)
  ultimately show ?thesis using T(1-5) s unfolding tab_ok_def same_table_def by auto
qed

lemma read_loop_flags: "read_loop n q = (cs, q') \<Longrightarrow> readopen q' = readopen q \<and> writeopen q' = writeopen q"
proof (induction n q arbitrary: cs q' rule: read_loop.induct)
  case (2 n q)
  show ?case
  proof (cases "nread q = nwrite q")
    case False
    obtain ds q1 where l: "read_loop n (q\<lparr>nread := nread q + 1\<rparr>) = (ds, q1)" by fastforce
    from 2(1) [OF False refl l] l False 2(2) show ?thesis by simp
  qed (use 2(2) in simp)
qed simp

lemma pipewrite_flags: "pipewrite kl bs q = (r, rest, q') \<Longrightarrow> readopen q' = readopen q \<and> writeopen q' = writeopen q"
proof (induction kl bs q rule: pipewrite.induct)
  case (2 kl b bs q)
  then show ?case by (fastforce split: if_splits)
qed simp

lemma fileread_same:
  assumes "fileread dv i n k = Inr (r, bs, k')"
  shows "same_table k k'"
proof (cases "f_readable (ftab k ! i)")
  case True
  show ?thesis
  proof (cases "f_type (ftab k ! i)")
    case FD_NONE
    then show ?thesis using assms True by (simp add: fileread_def Let_def)
  next
    case FD_PIPE
    then obtain q q' where q: "kpipes k (f_pipe (ftab k ! i)) = Some q" "piperead (kkilled k) n q = (r, bs, q')"
      "k' = k\<lparr>kpipes := (kpipes k)(f_pipe (ftab k ! i) \<mapsto> q')\<rparr>"
      using assms True by (auto simp: fileread_def Let_def split: option.splits prod.splits)
    have "readopen q' = readopen q \<and> writeopen q' = writeopen q"
      using q(2) read_loop_flags by (auto simp: piperead_def split: if_splits prod.splits)
    then show ?thesis using q same_table_pipe by simp
  next
    case FD_INODE
    have st: "same_table k ((upd_file i (\<lambda>f. f\<lparr>f_off := g f\<rparr>) (k\<lparr>kfs := s\<rparr>))\<lparr>kfs := s'\<rparr>)" for g s s'
    proof -
      have "same_table k (upd_file i (\<lambda>f. f\<lparr>f_off := g f\<rparr>) k)" by (rule same_table_off)
      then show ?thesis unfolding same_table_def by (simp add: upd_file_def)
    qed
    from assms True FD_INODE have "(\<exists>s3. k' = k\<lparr>kfs := s3\<rparr>) \<or>
        (\<exists>m s2 s3. k' = (upd_file i (\<lambda>f. f\<lparr>f_off := f_off f + of_nat m\<rparr>) (k\<lparr>kfs := s2\<rparr>))\<lparr>kfs := s3\<rparr>)"
      by (auto simp: fileread_def Let_def bindR_Inr_iff split_beta split: option.splits, blast)
    then show ?thesis using st same_table_refl by auto
  qed
qed (use assms same_table_refl in \<open>simp add: fileread_def Let_def\<close>)

lemma write_chunks_step:
  assumes "src \<noteq> []" "write_chunks dw i src k = Inr (r, rest, k')"
  obtains q s3 where
    "(case q of None \<Rightarrow> Inr (Fails, src, k\<lparr>kfs := s3\<rparr>)
        | Some n \<Rightarrow> let k3 = upd_file i (\<lambda>f. f\<lparr>f_off := f_off f + of_nat n\<rparr>) (k\<lparr>kfs := s3\<rparr>) in
            if n \<noteq> min (length src) max_chunk then Inl (Panic ''short filewrite'')
            else write_chunks dw i (drop (min (length src) max_chunk) src) k3) = Inr (r, rest, k')"
  using assms(2) by (subst (asm) write_chunks.simps [of dw i src k]) (use assms(1) in \<open>auto simp: Let_def bindR_Inr_iff split_beta\<close>)

lemma write_chunks_same: "write_chunks dw i src k = Inr (r, rest, k') \<Longrightarrow> same_table k k'"
proof (induction "length src" arbitrary: src k rule: less_induct)
  case less
  show ?case
  proof (cases "src = []")
    case True
    then show ?thesis using less.prems same_table_refl by (simp add: write_chunks.simps)
  next
    case False
    obtain q s3 where
      q: "(case q of None \<Rightarrow> Inr (Fails, src, k\<lparr>kfs := s3\<rparr>)
        | Some n \<Rightarrow> let k3 = upd_file i (\<lambda>f. f\<lparr>f_off := f_off f + of_nat n\<rparr>) (k\<lparr>kfs := s3\<rparr>) in
            if n \<noteq> min (length src) max_chunk then Inl (Panic ''short filewrite'')
            else write_chunks dw i (drop (min (length src) max_chunk) src) k3) = Inr (r, rest, k')"
      by (rule write_chunks_step [OF False less.prems])
    show ?thesis
    proof (cases q)
      case None
      then show ?thesis using q by (auto intro: same_table_refl)
    next
      case (Some n)
      let ?k = "upd_file i (\<lambda>f. f\<lparr>f_off := f_off f + of_nat n\<rparr>) (k\<lparr>kfs := s3\<rparr>)"
      have "length (drop (min (length src) max_chunk) src) < length src" using False by (simp add: max_chunk_def MAXOPBLOCKS_def)
      moreover have "write_chunks dw i (drop (min (length src) max_chunk) src) ?k = Inr (r, rest, k')"
        using q Some by (auto simp: Let_def split: if_splits)
      ultimately have t: "same_table ?k k'" by (rule less.hyps)
      have "same_table k (k\<lparr>kfs := s3\<rparr>)" by (rule same_table_refl) simp_all
      from same_table_trans [OF same_table_trans [OF this same_table_off] t] show ?thesis .
    qed
  qed
qed

lemma filewrite_same:
  assumes "filewrite dw i src k = Inr (r, rest, k')"
  shows "same_table k k'"
proof (cases "f_writable (ftab k ! i) \<and> f_type (ftab k ! i) = FD_PIPE")
  case True
  then obtain q q' where q: "kpipes k (f_pipe (ftab k ! i)) = Some q" "pipewrite (kkilled k) src q = (r, rest, q')"
    "k' = k\<lparr>kpipes := (kpipes k)(f_pipe (ftab k ! i) \<mapsto> q')\<rparr>"
    using assms by (auto simp: filewrite_def Let_def split: option.splits prod.splits)
  then show ?thesis using pipewrite_flags same_table_pipe by simp
next
  case False
  then show ?thesis using assms write_chunks_same same_table_refl
    by (auto simp: filewrite_def Let_def split: if_splits ftype.splits)
qed

section \<open>Making files\<close>

lemma tab_ok_retype:
  assumes ok: "tab_ok x k" and f: "f < length (ftab k)" "f_type (ftab k ! f) = FD_NONE" "0 < refs k f + x f"
    and k': "fds k' = fds k" "cur k' = cur k" "ftab k' = (ftab k)[f := g]" "f_ref g = f_ref (ftab k ! f)" "pipe_ends (ftab k') (kpipes k')"
  shows "tab_ok x k'"
proof -
  note T = tab_okD [OF ok]
  have "refs k' h = refs k h" for h using k'(1) by (simp add: refs_def)
  then show ?thesis using T(1-5) f k' unfolding tab_ok_def by (auto simp: nth_list_update)
qed

lemma pipealloc_ok:
  assumes ok: "tab_ok x k" and fresh: "\<And>p. pg = Some p \<Longrightarrow> kpipes k p = None" and st: "pipealloc pg page k = Inr (r, k')"
  shows "case r of None \<Rightarrow> tab_ok x k' \<and> fds k' = fds k \<and> cur k' = cur k
     | Some (a, b) \<Rightarrow> tab_ok (x(a := Suc 0, b := Suc 0)) k' \<and> a \<noteq> b \<and> x a = 0 \<and> x b = 0 \<and> a < length (ftab k') \<and> b < length (ftab k') \<and>
         fds k' = fds k \<and> cur k' = cur k"
proof (cases "filealloc k")
  case None
  then show ?thesis using ok st by (auto simp: pipealloc_def)
next
  case (Some fk)
  obtain f0 k1 where f0: "filealloc k = Some (f0, k1)" using Some by (cases fk) auto
  note A = filealloc_ok [OF ok f0]
  have l1: "length (ftab k1) = length (ftab k)" "fds k1 = fds k" "cur k1 = cur k" "kpipes k1 = kpipes k" by (simp_all add: A(6))
  have n1: "f_type (ftab k1 ! f0) = FD_NONE" using A(2,5) by (simp add: A(6))
  have closeNone: "\<exists>k2. fileclose f k0 = Inr k2 \<and> tab_ok (y(f := y f - 1)) k2 \<and> fds k2 = fds k0 \<and> cur k2 = cur k0 \<and>
      (\<forall>g<length (ftab k0). g \<noteq> f \<longrightarrow> ftab k2 ! g = ftab k0 ! g) \<and> length (ftab k2) = length (ftab k0)"
    if c: "tab_ok y k0" "f < length (ftab k0)" "0 < y f" "f_type (ftab k0 ! f) = FD_NONE" for y k0 f
  proof -
    define k2 where "k2 = (if f_ref (ftab k0 ! f) - 1 > 0 then upd_file f (\<lambda>f. f\<lparr>f_ref := f_ref f - 1\<rparr>) k0
       else upd_file f (\<lambda>f. f\<lparr>f_ref := 0, f_type := FD_NONE\<rparr>) k0)"
    have "\<not> f_ref (ftab k0 ! f) < 1" using tab_okD(4) [OF c(1,2)] c(3) by simp
    then have k2: "fileclose f k0 = Inr k2" using c(4) by (simp add: fileclose_def Let_def k2_def)
    have "\<forall>g<length (ftab k0). g \<noteq> f \<longrightarrow> ftab k2 ! g = ftab k0 ! g" by (simp add: k2_def)
    with k2 fileclose_Inr [OF c(1-3) k2] show ?thesis by blast
  qed
  show ?thesis
  proof (cases "filealloc k1")
    case None
    obtain k2 where "fileclose f0 k1 = Inr k2" "tab_ok (x(f0 := Suc 0, f0 := 0)) k2" "fds k2 = fds k1" "cur k2 = cur k1"
      using closeNone [OF A(1), of f0] A(2) l1 n1 by auto
    then show ?thesis using None st f0 l1 A(3) by (auto simp: pipealloc_def fun_upd_idem)
  next
    case (Some gk)
    obtain f1 k2 where f1: "filealloc k1 = Some (f1, k2)" using Some by (cases gk) auto
    note B = filealloc_ok [OF A(1) f1]
    have ne: "f1 \<noteq> f0" using B(3) by auto
    have l2: "length (ftab k2) = length (ftab k)" "fds k2 = fds k" "cur k2 = cur k" "kpipes k2 = kpipes k" using l1 by (simp_all add: B(6))
    have n2: "f_type (ftab k2 ! f0) = FD_NONE" "f_type (ftab k2 ! f1) = FD_NONE" using n1 B(2,5) ne by (simp_all add: B(6))
    have x1: "x f1 = 0" using B(3) ne by simp
    show ?thesis
    proof (cases pg)
      case None
      obtain k3 where k3: "fileclose f0 k2 = Inr k3" "tab_ok (x(f0 := Suc 0, f1 := Suc 0, f0 := 0)) k3" "fds k3 = fds k2" "cur k3 = cur k2"
        "length (ftab k3) = length (ftab k2)" "ftab k3 ! f1 = ftab k2 ! f1"
        using closeNone [OF B(1), of f0] A(2) l2 n2 ne B(2) l1 by auto
      obtain k4 where k4: "fileclose f1 k3 = Inr k4" "tab_ok (x(f0 := Suc 0, f1 := Suc 0, f0 := 0, f1 := 0)) k4" "fds k4 = fds k3" "cur k4 = cur k3"
        using closeNone [OF k3(2), of f1] k3 l2 l1 n2 ne B(2) by auto
      have "x(f0 := Suc 0, f1 := Suc 0, f0 := 0, f1 := 0) = x" using A(3) x1 by auto
      then show ?thesis using None st f0 f1 k3 k4 l2 by (auto simp: pipealloc_def)
    next
      case (Some p)
      define t where "t = (ftab k2)[f0 := (ftab k2 ! f0)\<lparr>f_type := FD_PIPE, f_readable := True, f_writable := False, f_pipe := p\<rparr>,
          f1 := (ftab k2 ! f1)\<lparr>f_type := FD_PIPE, f_readable := False, f_writable := True, f_pipe := p\<rparr>]"
      define ps where "ps = (kpipes k)(p \<mapsto> pipe_init page)"
      have lt: "f0 < length (ftab k2)" "f1 < length (ftab k2)" using A(2) B(2) l1 l2 by simp_all
      have k': "fds k' = fds k" "cur k' = cur k" "ftab k' = t" "kpipes k' = ps" and r: "r = Some (f0, f1)"
        using Some st f0 f1 l2 ne by (auto simp: pipealloc_def t_def ps_def)
      note T = tab_okD [OF B(1)]
      have none: "ends (ftab k2) p w = {}" for w
      proof -
        have "end_open (kpipes k2) p w = (ends (ftab k2) p w \<noteq> {})" using T(6) unfolding pipe_ends_def by blast
        moreover have "\<not> end_open (kpipes k2) p w" using fresh [OF Some] l2 by (simp add: end_open_def)
        ultimately show ?thesis by simp
      qed
      have E: "ends t p' w = (if p' = p then if w then {f1} else {f0} else ends (ftab k2) p' w)" for p' w
        using none [of w] lt ne n2 by (auto simp: ends_def t_def nth_list_update split: if_splits)
      have O: "end_open ps p' w = (if p' = p then True else end_open (kpipes k2) p' w)" for p' w
        using l2 by (simp add: ps_def end_open_def pipe_init_def)
      have "pipe_ends t ps" unfolding pipe_ends_def E O
      proof (intro conjI allI ballI impI)
        fix f assume "f < length t" "f_type (t ! f) = FD_PIPE"
        then show "f_readable (t ! f) = (\<not> f_writable (t ! f))"
          using T(6) lt ne unfolding pipe_ends_def by (auto simp: t_def nth_list_update split: if_splits)
      qed (use T(6) l2 in \<open>auto simp: pipe_ends_def ps_def split: if_splits\<close>)
      have tt: "tab_ok (x(f0 := Suc 0, f1 := Suc 0)) k'"
      proof -
        have R: "refs k' f = refs k2 f" for f using k'(1) l2 by (simp add: refs_def)
        have "\<forall>f<length t. f_ref (t ! f) = f_ref (ftab k2 ! f)" using lt ne by (auto simp: t_def nth_list_update)
        moreover have "\<forall>f<length t. f_ref (t ! f) = 0 \<longrightarrow> f_type (t ! f) = FD_NONE"
          using T(4) [OF lt(1)] T(4) [OF lt(2)] T(5) lt ne by (auto simp: t_def nth_list_update)
        moreover have "length t = length (ftab k2)" by (simp add: t_def)
        ultimately show ?thesis using T(1-4) \<open>pipe_ends t ps\<close> k' l2 R unfolding tab_ok_def by auto
      qed
      have "length t = length (ftab k2)" by (simp add: t_def)
      then show ?thesis using r tt ne A(3) x1 k' lt by simp
    qed
  qed
qed

section \<open>System calls\<close>

abbreviation table_inv :: "kfile \<Rightarrow> bool" where
  "table_inv k \<equiv> tab_ok (\<lambda>_. 0) k"

lemma argfd_Some:
  assumes "tab_ok x k" "argfd n k = Some (fd, f)"
  shows "fd < NOFILE" "fds k ! cur k ! fd = Some f" "f < length (ftab k)" "0 < refs k f"
proof -
  from assms(2) show fd: "fd < NOFILE" "fds k ! cur k ! fd = Some f"
    by (auto simp: argfd_def split: option.splits if_splits)
  show "f < length (ftab k)" by (rule free_fd_ok(2) [OF assms(1) fd])
  have "fd < length (fds k ! cur k)" using tab_okD(1,2) [OF assms(1)] fd(1) by simp
  then show "0 < refs k f" using refs_set_fd(2) [OF tab_okD(1) [OF assms(1)] _ fd(2), of None f] by simp
qed

lemma sys_dup_ok:
  assumes ok: "table_inv k"
  shows "\<exists>r k'. sys_dup k = Inr (r, k') \<and> table_inv k'"
proof (cases "argfd 0 k")
  case None
  then show ?thesis using ok by (simp add: sys_dup_def)
next
  case (Some p)
  obtain fd0 f where a: "argfd 0 k = Some (fd0, f)" using Some by (cases p) auto
  note A = argfd_Some [OF ok a]
  show ?thesis
  proof (cases "fdalloc f k")
    case None
    then show ?thesis using ok a by (simp add: sys_dup_def)
  next
    case (Some q)
    obtain fd k1 where d: "fdalloc f k = Some (fd, k1)" using Some by (cases q) auto
    obtain k0 where k0: "tab_ok ((\<lambda>_. 0)(f := Suc 0)) k0" "file_dup f k = Inr k0" "k0 = upd_file f (\<lambda>f. f\<lparr>f_ref := f_ref f + 1\<rparr>) k"
      using file_dup_ok [OF ok A(3)] A(4) by (auto simp: file_dup_def split: if_splits)
    have d0: "fdalloc f k0 = Some (fd, set_fd fd (Some f) k0)" using d by (auto simp: fdalloc_def k0(3) split: option.splits)
    have "tab_ok ((\<lambda>_. 0)(f := Suc 0, f := 0)) (set_fd fd (Some f) k0)"
      using fdalloc_ok(1) [OF k0(1) _ _ d0] A(3) by (simp add: k0(3))
    moreover have "file_dup f k1 = Inr (set_fd fd (Some f) k0)"
      using d k0(2,3) by (auto simp: fdalloc_def file_dup_def set_fd_def upd_file_def split: option.splits if_splits)
    ultimately show ?thesis using a d by (simp add: sys_dup_def fun_upd_idem)
  qed
qed

lemma sys_close_ok:
  assumes ok: "table_inv k"
  shows "\<exists>k1. table_inv k1 \<and> (sys_close k = Inr (- 1, k1) \<or> sys_close k = Inr (0, k1) \<or>
     (\<exists>i. sys_close k = bindR (iput i (kfs k)) (\<lambda>s. Inr (0, k1\<lparr>kfs := s\<rparr>))))"
proof (cases "argfd 0 k")
  case None
  then show ?thesis using ok by (auto simp: sys_close_def)
next
  case (Some p)
  obtain fd f where a: "argfd 0 k = Some (fd, f)" using Some by (cases p) auto
  note A = argfd_Some [OF ok a]
  let ?k = "set_fd fd None k"
  have t: "tab_ok ((\<lambda>_. 0)(f := Suc 0)) ?k" using free_fd_ok(1) [OF ok A(1,2)] by simp
  obtain k1 where k1: "tab_ok ((\<lambda>_. 0)(f := Suc 0, f := 0)) k1" and
    c: "fileclose f ?k = Inr k1 \<or> fileclose f ?k = bindR (iput (f_ip (ftab ?k ! f)) (kfs ?k)) (\<lambda>s. Inr (k1\<lparr>kfs := s\<rparr>))"
    using fileclose_ok [OF t, of f] A(3) by auto
  have "table_inv k1" using k1 by (simp add: fun_upd_idem)
  moreover have "sys_close k = bindR (fileclose f ?k) (\<lambda>k1. Inr (0, k1))" using a by (simp add: sys_close_def)
  moreover have "bindR (bindR m (\<lambda>s. Inr (k1\<lparr>kfs := s\<rparr>))) (\<lambda>k1. Inr (0, k1)) = bindR m (\<lambda>s. Inr (0, k1\<lparr>kfs := s\<rparr>))" for m
    by (cases m) simp_all
  moreover have "kfs ?k = kfs k" by simp
  ultimately show ?thesis using c by (metis bindR_simps(2))
qed

lemma sys_pipe_ok:
  assumes ok: "table_inv k" and fresh: "\<And>p. pg = Some p \<Longrightarrow> kpipes k p = None" and st: "sys_pipe pg page k = Inr (r, k')"
  shows "table_inv k'"
proof (cases "argptr 0 8 (kuser k)")
  case None
  then show ?thesis using ok st by (simp add: sys_pipe_def)
next
  case (Some p)
  obtain q k1 where a: "pipealloc pg page k = Inr (q, k1)" using st Some by (auto simp: sys_pipe_def bindR_Inr_iff)
  note P = pipealloc_ok [OF ok fresh a]
  show ?thesis
  proof (cases q)
    case None
    then show ?thesis using P st a Some by (auto simp: sys_pipe_def)
  next
    case (Some ab)
    obtain f0 f1 where ab: "q = Some (f0, f1)" using Some by (cases ab) auto
    define x where "x = (\<lambda>_ :: nat. 0 :: nat)(f0 := Suc 0, f1 := Suc 0)"
    have t1: "tab_ok x k1" and ne: "f0 \<noteq> f1" and l: "f0 < length (ftab k1)" "f1 < length (ftab k1)" using P ab by (auto simp: x_def)
    have x0: "x f0 = 1" "x f1 = 1" using ne by (simp_all add: x_def)
    have z: "x(f0 := 0, f1 := 0) = (\<lambda>_. 0)" by (auto simp: x_def)
    have st': "(case fdalloc f0 k1 of
                   None \<Rightarrow> bindR (fileclose f0 k1) (\<lambda>k2. bindR (fileclose f1 k2) (\<lambda>k3. Inr (- 1, k3)))
                 | Some (fd0, k2) \<Rightarrow>
                     (case fdalloc f1 k2 of
                        None \<Rightarrow> bindR (fileclose f0 (set_fd fd0 None k2)) (\<lambda>k3. bindR (fileclose f1 k3) (\<lambda>k4. Inr (- 1, k4)))
                      | Some (fd1, k3) \<Rightarrow>
                          Inr (0, k3\<lparr>kuser := user_store p (le32 (of_nat fd0) @ le32 (of_nat fd1)) (kuser k3)\<rparr>))) = Inr (r, k')"
      using st a ab \<open>argptr 0 8 (kuser k) = Some p\<close> by (simp add: sys_pipe_def)
    have closing: "table_inv k4"
      if c: "tab_ok x k2" "length (ftab k2) = length (ftab k1)" "fileclose f0 k2 = Inr k3" "fileclose f1 k3 = Inr k4" for k2 k3 k4
    proof -
      have l2: "f0 < length (ftab k2)" using l(1) c(2) by simp
      note C = fileclose_Inr [OF c(1) l2 _ c(3)]
      have t3: "tab_ok (x(f0 := 0)) k3" and l3: "f1 < length (ftab k3)" using C x0 l c(2) by simp_all
      have "tab_ok (x(f0 := 0, f1 := 0)) k4" using fileclose_Inr(1) [OF t3 l3 _ c(4)] x0 ne by simp
      then show ?thesis by (simp add: z)
    qed
    show ?thesis
    proof (cases "fdalloc f0 k1")
      case None
      then show ?thesis using st' closing [OF t1] by (auto simp: bindR_Inr_iff)
    next
      case (Some dk)
      obtain fd0 k2 where d0: "fdalloc f0 k1 = Some (fd0, k2)" using Some by (cases dk) auto
      have "0 < x f0" using x0 by simp
      note D = fdalloc_ok [OF t1 l(1) this d0]
      have t2: "tab_ok (x(f0 := 0)) k2" and l2: "f1 < length (ftab k2)" using D(1,2) l x0 by simp_all
      show ?thesis
      proof (cases "fdalloc f1 k2")
        case None
        have c: "cur k2 = cur k1" "fd0 < length (fds k1 ! cur k1)" "cur k1 < length (fds k1)"
          using D(2,3) tab_okD(1,2) [OF t1] by simp_all
        then have "fds k2 ! cur k2 ! fd0 = Some f0" using D(2) by simp
        from free_fd_ok(1) [OF t2 D(3) this] have "tab_ok (x(f0 := 0, f0 := Suc 0)) (set_fd fd0 None k2)" by simp
        then have "tab_ok x (set_fd fd0 None k2)" using x0(1) by (simp add: fun_upd_idem)
        then show ?thesis using st' d0 None closing [of "set_fd fd0 None k2"] D(2) by (auto simp: bindR_Inr_iff)
      next
        case (Some dk1)
        obtain fd1 k3 where d1: "fdalloc f1 k2 = Some (fd1, k3)" using Some by (cases dk1) auto
        have "tab_ok (x(f0 := 0, f1 := 0)) k3" using fdalloc_ok(1) [OF t2 l2 _ d1] x0 ne by simp
        then have "table_inv k3" by (simp add: z)
        then show ?thesis using st' d0 d1 tab_ok_cong [of _ k3] by auto
      qed
    qed
  qed
qed

lemma sys_open_ok:
  assumes ok: "table_inv k" and st: "sys_open dv dw nb k = Inr (r, k')"
  shows "table_inv k'"
proof (cases "argstr 0 (kuser k) = None \<or> argint 1 (kuser k) = None")
  case True
  then show ?thesis using ok st by (auto simp: sys_open_def split: option.splits)
next
  case False
  then obtain path omode where args: "argstr 0 (kuser k) = Some path" "argint 1 (kuser k) = Some omode" by auto
  have cong: "tab_ok y k2 \<Longrightarrow> tab_ok y (k2\<lparr>kfs := s\<rparr>)" for y k2 s by (rule tab_ok_cong) simp_all
  obtain ipo s1 where o: "fs_call (open_inode dv dw (cwds k ! cur k) path omode nb) k = Inr (ipo, k\<lparr>kfs := s1\<rparr>)"
    using st args by (auto simp: sys_open_def bindR_Inr_iff fs_call_def split_beta)
  let ?k1 = "k\<lparr>kfs := s1\<rparr>"
  have t1: "table_inv ?k1" by (rule cong [OF ok])
  show ?thesis
  proof (cases ipo)
    case None
    then show ?thesis using st args o t1 by (simp add: sys_open_def)
  next
    case (Some ip)
    show ?thesis
    proof (cases "filealloc ?k1")
      case None
      then show ?thesis using st args o Some cong [OF t1] by (auto simp: sys_open_def bindR_Inr_iff)
    next
      case (Some fk)
      obtain f k2 where f: "filealloc ?k1 = Some (f, k2)" using Some by (cases fk) auto
      note A = filealloc_ok [OF t1 f]
      have l2: "f < length (ftab k2)" using A(2) by (simp add: A(6))
      show ?thesis
      proof (cases "fdalloc f k2")
        case None
        then obtain k3 s where k3: "fileclose f k2 = Inr k3" "k' = k3\<lparr>kfs := s\<rparr>"
          using st args o \<open>ipo = Some ip\<close> f by (auto simp: sys_open_def bindR_Inr_iff)
        have "tab_ok ((\<lambda>_. 0)(f := Suc 0, f := 0)) k3" using fileclose_Inr(1) [OF A(1) l2 _ k3(1)] by simp
        then show ?thesis unfolding k3(2) by (intro cong) (simp add: fun_upd_idem)
      next
        case (Some dk)
        obtain fd k3 where d: "fdalloc f k2 = Some (fd, k3)" using Some by (cases dk) auto
        have t3: "table_inv k3" using fdalloc_ok(1) [OF A(1) l2 _ d] by (simp add: fun_upd_idem)
        have k3: "k3 = set_fd fd (Some f) k2" using fdalloc_ok(2) [OF A(1) l2 _ d] by simp
        obtain s where k': "k' = upd_file f (\<lambda>f. f\<lparr>f_type := FD_INODE, f_ip := ip, f_off := 0,
             f_readable := mode_readable omode, f_writable := mode_writable omode\<rparr>) (k3\<lparr>kfs := s\<rparr>)"
          using st args o \<open>ipo = Some ip\<close> f d by (auto simp: sys_open_def bindR_Inr_iff)
        have n: "f_type (ftab k3 ! f) = FD_NONE" "f_ref (ftab k3 ! f) = 1" using A(2,5) by (simp_all add: k3 A(6))
        have l3: "f < length (ftab k3)" using l2 by (simp add: k3)
        show ?thesis
        proof (rule tab_ok_retype [OF t3 l3 n(1)])
          show "ftab k' = (ftab k3)[f := (ftab k3 ! f)\<lparr>f_type := FD_INODE, f_ip := ip, f_off := 0,
             f_readable := mode_readable omode, f_writable := mode_writable omode\<rparr>]" by (simp add: k')
          show "0 < refs k3 f + 0" using tab_okD(4) [OF t3 l3] n(2) by simp
          show "pipe_ends (ftab k') (kpipes k')"
            by (subst ends_irrelevant [of "ftab k3"]) (use tab_okD(6) [OF t3] n l3 in \<open>auto simp: k' nth_list_update\<close>)
        qed (simp_all add: k')
      qed
    qed
  qed
qed

section \<open>Processes come and go\<close>

text \<open>A new reference in a free slot of any process.\<close>

lemma put_fd_ok:
  assumes ok: "tab_ok x k" and f: "f < length (ftab k)" "0 < x f" and c: "c < length (fds k)" "i < NOFILE" "fds k ! c ! i = None"
  shows "tab_ok (x(f := x f - 1)) (k\<lparr>fds := (fds k)[c := (fds k ! c)[i := Some f]]\<rparr>)"
proof -
  let ?k = "k\<lparr>cur := c\<rparr>"
  note T = tab_okD [OF ok]
  have okc: "tab_ok x ?k" using ok c(1) unfolding tab_ok_def refs_def by simp
  have l: "length (fds k ! c) = NOFILE" using T(2) c(1) by simp
  let ?k' = "set_fd i (Some f) ?k"
  note R = refs_set_fd [of ?k i None "Some f"]
  have r: "refs ?k' g = (if g = f then refs k g + 1 else refs k g)" for g using R(1) [of g] c l by (simp add: refs_def)
  have t: "length t = NOFILE \<and> (\<forall>g. Some g \<in> set t \<longrightarrow> g < length (ftab k))" if "t \<in> set (fds ?k')" for t
  proof -
    have "t \<in> set (fds k) \<or> t = (fds k ! c)[i := Some f]" using that set_update_subset_insert [of "fds k" c] by auto
    then show ?thesis
    proof
      assume t: "t = (fds k ! c)[i := Some f]"
      have "set t \<subseteq> insert (Some f) (set (fds k ! c))" unfolding t by (rule set_update_subset_insert)
      then show ?thesis using t l f(1) T(3) [of "fds k ! c"] c(1) by auto
    qed (use T(2,3) in blast)
  qed
  have "tab_ok (x(f := x f - 1)) ?k'" using T(4,5,6) t r f(2) c(1) unfolding tab_ok_def by (simp add: of_nat_diff)
  moreover have "k\<lparr>fds := (fds k)[c := (fds k ! c)[i := Some f]]\<rparr> = ?k'\<lparr>cur := cur k\<rparr>" by (simp add: set_fd_def)
  ultimately show ?thesis using T(1) by (simp add: tab_ok_def refs_def)
qed

lemma fork_files_ok:
  assumes ok: "table_inv k" and c: "c < length (fds k)" "c \<noteq> cur k" "fds k ! c = replicate NOFILE None"
  shows "\<exists>k'. fork_files c k = Inr k' \<and> table_inv k'"
proof -
  define P where "P i k1 \<longleftrightarrow> table_inv k1 \<and> cur k1 = cur k \<and> length (fds k1) = length (fds k) \<and> fds k1 ! cur k = fds k ! cur k \<and>
     (\<forall>j. i \<le> j \<longrightarrow> j < NOFILE \<longrightarrow> fds k1 ! c ! j = None)" for i :: nat and k1
  let ?body = "\<lambda>i k. case fds k ! cur k ! i of None \<Rightarrow> Inr k
        | Some f \<Rightarrow> bindR (file_dup f k) (\<lambda>k1. Inr (k1\<lparr>fds := (fds k1)[c := (fds k1 ! c)[i := Some f]]\<rparr>))"
  have "\<exists>t. for_up NOFILE ?body k = Inr t \<and> P NOFILE t"
  proof (rule for_up_invariant)
    show "P 0 k" using ok c by (simp add: P_def)
    fix i k1 assume i: "i < NOFILE" and p: "P i k1"
    have cl: "c < length (fds k1)" using p c by (simp add: P_def)
    have lc: "length (fds k1 ! c) = NOFILE" using p cl tab_okD(2) [of "\<lambda>_. 0" k1 "fds k1 ! c"] by (auto simp: P_def)
    show "\<exists>t'. ?body i k1 = Inr t' \<and> P (Suc i) t'"
    proof (cases "fds k1 ! cur k1 ! i")
      case None
      then show ?thesis using p by (auto simp: P_def)
    next
      case (Some f)
      have t1: "table_inv k1" using p by (simp add: P_def)
      note F = free_fd_ok(2) [OF t1 i Some]
      have "i < length (fds k1 ! cur k1)" using tab_okD(1,2) [OF t1] i by simp
      then have r: "0 < refs k1 f" using refs_set_fd(2) [OF tab_okD(1) [OF t1] _ Some, of None f] by simp
      then obtain k2 where k2: "file_dup f k1 = Inr k2" "tab_ok ((\<lambda>_. 0)(f := Suc 0)) k2" "fds k2 = fds k1" "cur k2 = cur k1"
        using file_dup_ok [OF t1 F] by auto
      have l2: "length (ftab k2) = length (ftab k1)" using k2(1) by (auto simp: file_dup_def split: if_splits)
      let ?k3 = "k2\<lparr>fds := (fds k2)[c := (fds k2 ! c)[i := Some f]]\<rparr>"
      have "tab_ok ((\<lambda>_. 0)(f := Suc 0, f := 0)) ?k3"
        using put_fd_ok [OF k2(2), of f c i] F l2 cl i p k2(3) by (simp add: P_def)
      then have "table_inv ?k3" by (simp add: fun_upd_idem)
      then have "P (Suc i) ?k3" using p k2 c cl lc by (simp add: P_def nth_list_update)
      moreover have "?body i k1 = Inr ?k3" using Some k2(1) by simp
      ultimately show ?thesis by blast
    qed
  qed
  then obtain k2 where k2: "for_up NOFILE ?body k = Inr k2" "table_inv k2" unfolding P_def by blast
  show ?thesis using tab_ok_cong [OF k2(2)] by (simp add: fork_files_def k2(1) Let_def)
qed

lemma fileclose_fds: "fileclose f (k\<lparr>fds := F\<rparr>) = bindR (fileclose f k) (\<lambda>k1. Inr (k1\<lparr>fds := F\<rparr>))"
proof -
  have u: "upd_file f g (k\<lparr>fds := F\<rparr>) = (upd_file f g k)\<lparr>fds := F\<rparr>" for g by (simp add: upd_file_def)
  have p: "close_pipe p w (k'\<lparr>fds := F\<rparr>) = bindR (close_pipe p w k') (\<lambda>k1. Inr (k1\<lparr>fds := F\<rparr>))" for p w k'
    by (simp add: close_pipe_def split: option.splits prod.splits)
  have b: "bindR m (\<lambda>s. Inr (k'\<lparr>fds := F, kfs := s\<rparr>)) = bindR (bindR m (\<lambda>s. Inr (k'\<lparr>kfs := s\<rparr>))) (\<lambda>k1. Inr (k1\<lparr>fds := F\<rparr>))" for m :: "fs res" and k'
    by (cases m) simp_all
  show ?thesis by (simp add: fileclose_def Let_def u p b split: ftype.splits)
qed

text \<open>Closing every file at an exit can only be stopped by \<open>iput\<close>.\<close>

lemma exit_files_ok:
  assumes ok: "table_inv k"
  shows "(\<exists>k'. exit_files k = Inr k' \<and> table_inv k') \<or> (\<exists>e s i. exit_files k = Inl e \<and> iput i s = Inl e)"
proof -
  define B :: "nat \<Rightarrow> kfile \<Rightarrow> kfile res" where
    "B = (\<lambda>i k. case fds k ! cur k ! i of None \<Rightarrow> Inr k | Some f \<Rightarrow> bindR (fileclose f k) (\<lambda>k1. Inr (set_fd i None k1)))"
  have step: "(\<exists>t'. B i k1 = Inr t' \<and> table_inv t') \<or> (\<exists>e s j. B i k1 = Inl e \<and> iput j s = Inl e)" if i: "i < NOFILE" and t1: "table_inv k1" for i k1
  proof (cases "fds k1 ! cur k1 ! i")
    case None
    then show ?thesis using t1 by (simp add: B_def)
  next
    case (Some f)
    note F = free_fd_ok [OF t1 i Some]
    let ?k = "set_fd i None k1"
    obtain k2 where k2: "tab_ok ((\<lambda>_. 0)(f := Suc 0, f := 0)) k2" "fds k2 = fds ?k" "cur k2 = cur ?k"
      "fileclose f ?k = Inr k2 \<or> fileclose f ?k = bindR (iput (f_ip (ftab ?k ! f)) (kfs ?k)) (\<lambda>s. Inr (k2\<lparr>kfs := s\<rparr>))"
      using fileclose_ok [OF F(1), of f] F(2) by auto
    have t2: "table_inv k2" using k2(1) by (simp add: fun_upd_idem)
    have sf: "set_fd i None k' = k'\<lparr>fds := fds ?k\<rparr>" if "fds k' = fds k1" "cur k' = cur k1" for k'
      using that by (simp add: set_fd_def)
    have fc: "fileclose f ?k = bindR (fileclose f k1) (\<lambda>k'. Inr (set_fd i None k'))"
    proof -
      have "fileclose f ?k = bindR (fileclose f k1) (\<lambda>k'. Inr (k'\<lparr>fds := fds ?k\<rparr>))" using fileclose_fds [where f = f and k = k1 and F = "fds ?k"] sf [of k1] by simp
      also have "\<dots> = bindR (fileclose f k1) (\<lambda>k'. Inr (set_fd i None k'))"
      proof (rule bindR_cong [OF refl])
        fix k' assume "fileclose f k1 = Inr k'"
        then have "fds k' = fds k1 \<and> cur k' = cur k1"
          by (auto simp: fileclose_def close_pipe_def Let_def bindR_Inr_iff split: if_splits ftype.splits option.splits prod.splits)
        then show "Inr (k'\<lparr>fds := fds ?k\<rparr>) = Inr (set_fd i None k')" using sf [of k'] by simp
      qed
      finally show ?thesis .
    qed
    then have b: "B i k1 = fileclose f ?k" using Some by (simp add: B_def)
    show ?thesis
    proof (cases "fileclose f ?k")
      case (Inr k')
      then have "k' = k2 \<or> (\<exists>s. k' = k2\<lparr>kfs := s\<rparr>)" using k2(4) by (auto simp: bindR_def split: sum.splits)
      then have "table_inv k'" using t2 tab_ok_cong [OF t2] by auto
      then show ?thesis unfolding b Inr by simp
    next
      case (Inl e)
      then have "iput (f_ip (ftab ?k ! f)) (kfs ?k) = Inl e" using k2(4) by (auto simp: bindR_def split: sum.splits)
      then show ?thesis unfolding b Inl by auto
    qed
  qed
  have "(\<exists>t. for_up n B k = Inr t \<and> table_inv t) \<or> (\<exists>e s j. for_up n B k = Inl e \<and> iput j s = Inl e)" if "n \<le> NOFILE" for n
    using that
  proof (induction n)
    case (Suc n)
    then consider (a) t where "for_up n B k = Inr t" "table_inv t" | (b) e s j where "for_up n B k = Inl e" "iput j s = Inl e"
      by (metis Suc_leD)
    then show ?case
    proof cases
      case a
      then show ?thesis using step [of n t] Suc.prems by simp
    next
      case b
      then show ?thesis by auto
    qed
  qed (use ok in simp)
  from this [OF order_refl] show ?thesis
  proof (elim disjE exE conjE)
    fix t assume t: "for_up NOFILE B k = Inr t" "table_inv t"
    then have e: "exit_files k = bindR (iput (cwds t ! cur t) (kfs t)) (\<lambda>s. Inr (t\<lparr>kfs := s\<rparr>))" by (simp add: exit_files_def B_def)
    show ?thesis
    proof (cases "iput (cwds t ! cur t) (kfs t)")
      case (Inl err)
      then show ?thesis using e by auto
    next
      case (Inr s)
      then show ?thesis using e tab_ok_cong [OF t(2), of "t\<lparr>kfs := s\<rparr>"] by auto
    qed
  qed (auto simp: exit_files_def B_def)
qed

text \<open>Any process makes any of the calls with any arguments, on any file system, forks into a free slot or exits.\<close>

inductive fd_step :: "kfile \<Rightarrow> kfile \<Rightarrow> bool" where
  dup: "sys_dup k = Inr (r, k') \<Longrightarrow> fd_step k k'"
| closes: "sys_close k = Inr (r, k') \<Longrightarrow> fd_step k k'"
| pipe: "(\<And>p. pg = Some p \<Longrightarrow> kpipes k p = None) \<Longrightarrow> sys_pipe pg page k = Inr (r, k') \<Longrightarrow> fd_step k k'"
| reads: "sys_read dv k = Inr (q, k') \<Longrightarrow> fd_step k k'"
| writes: "sys_write dw k = Inr (q, k') \<Longrightarrow> fd_step k k'"
| opens: "sys_open dv dw nb k = Inr (r, k') \<Longrightarrow> fd_step k k'"
| paths: "fs_call f k = Inr (r' :: int, k') \<Longrightarrow> fd_step k k'"
| chdir: "sys_chdir dv nb k = Inr (r, k') \<Longrightarrow> fd_step k k'"
| forks: "c < length (fds k) \<Longrightarrow> c \<noteq> cur k \<Longrightarrow> fds k ! c = replicate NOFILE None \<Longrightarrow> fork_files c k = Inr k' \<Longrightarrow> fd_step k k'"
| exits: "exit_files k = Inr k' \<Longrightarrow> fd_step k k'"
| switch: "c < length (fds k) \<Longrightarrow> fd_step k (k\<lparr>cur := c, kuser := u, kkilled := b\<rparr>)"

definition no_files :: "kfile \<Rightarrow> bool" where
  "no_files k \<longleftrightarrow> cur k < length (fds k) \<and> (\<forall>t\<in>set (fds k). t = replicate NOFILE None) \<and>
     (\<forall>f\<in>set (ftab k). f_ref f = 0 \<and> f_type f = FD_NONE) \<and> kpipes k = Map.empty"

inductive fd_reach :: "kfile \<Rightarrow> bool" where
  init: "no_files k \<Longrightarrow> fd_reach k"
| step: "fd_reach k \<Longrightarrow> fd_step k k' \<Longrightarrow> fd_reach k'"

lemma no_files_inv: "no_files k \<Longrightarrow> table_inv k"
proof -
  assume n: "no_files k"
  have "count_list (concat xss) (Some f) = 0" if "\<forall>t\<in>set xss. t = replicate NOFILE None" for xss :: "nat option list list" and f :: nat
    using that by (induction xss) (auto simp: count_list_append count_list_0_iff)
  then have "refs k f = 0" for f using n by (simp add: refs_def no_files_def)
  moreover have "ends (ftab k) p w = {}" for p w using n by (auto simp: ends_def no_files_def)
  ultimately show ?thesis using n unfolding tab_ok_def pipe_ends_def by (auto simp: no_files_def end_open_def)
qed

lemma fd_step_inv: "fd_step k k' \<Longrightarrow> table_inv k \<Longrightarrow> table_inv k'"
proof (induction rule: fd_step.induct)
  case (dup k r k')
  then show ?case using sys_dup_ok [of k] by auto
next
  case (closes k r k')
  obtain k1 where k1: "table_inv k1" "sys_close k = Inr (- 1, k1) \<or> sys_close k = Inr (0, k1) \<or>
      (\<exists>i. sys_close k = bindR (iput i (kfs k)) (\<lambda>s. Inr (0, k1\<lparr>kfs := s\<rparr>)))" using sys_close_ok [OF closes(2)] by blast
  have "k' = k1 \<or> (\<exists>s. k' = k1\<lparr>kfs := s\<rparr>)" using k1(2) unfolding closes(1)
    by (elim disjE exE) (simp, simp, drule sym, auto simp: bindR_Inr_iff)
  then show ?case using k1(1) tab_ok_cong [OF k1(1)] by auto
next
  case (pipe pg k page r k')
  then show ?case using sys_pipe_ok by blast
next
  case (reads dv k q k')
  show ?case
  proof (cases "k' = k")
    case False
    with reads(1) obtain f n p where r: "bindR (fileread dv f n k) (\<lambda>(r, bs, k1).
        case r of
          Returns \<Rightarrow> Inr (Some (int (length bs)), k1\<lparr>kuser := user_store p bs (kuser k1)\<rparr>)
        | Fails \<Rightarrow> Inr (Some (- 1), k1)
        | Sleeps \<Rightarrow> Inr (None, k1)) = Inr (q, k')"
      by (auto simp: sys_read_def split: option.splits)
    then obtain r bs k1 where f: "fileread dv f n k = Inr (r, bs, k1)" by (auto simp: bindR_Inr_iff)
    with r have "k' = k1 \<or> k' = k1\<lparr>kuser := user_store p bs (kuser k1)\<rparr>" by (cases r) auto
    moreover have "table_inv k1" by (rule tab_ok_same [OF reads(2) fileread_same [OF f]])
    ultimately show ?thesis using tab_ok_cong [of _ k1] by auto
  qed (use reads(2) in simp)
next
  case (writes dw k q k')
  show ?case
  proof (cases "k' = k")
    case False
    with writes(1) obtain f src n where w: "bindR (filewrite dw f src k) (\<lambda>(r, rest, k1).
        case r of
          Returns \<Rightarrow> Inr (Some n, k1)
        | Fails \<Rightarrow> Inr (Some (- 1), k1)
        | Sleeps \<Rightarrow> Inr (None, k1)) = Inr (q, k')"
      by (auto simp: sys_write_def split: option.splits)
    then obtain r rest k1 where f: "filewrite dw f src k = Inr (r, rest, k1)" by (auto simp: bindR_Inr_iff)
    with w have "k' = k1" by (cases r) auto
    with f have "filewrite dw f src k = Inr (r, rest, k')" by simp
    then show ?thesis using tab_ok_same [OF writes(2) filewrite_same] by blast
  qed (use writes(2) in simp)
next
  case (opens dv dw nb k r k')
  then show ?case using sys_open_ok by blast
next
  case (paths f k r' k')
  then obtain s where "k' = k\<lparr>kfs := s\<rparr>" by (auto simp: fs_call_def bindR_Inr_iff)
  then show ?case using paths(2) tab_ok_cong [of _ k] by simp
next
  case (chdir dv nb k r k')
  show ?case
  proof (cases "k' = k")
    case False
    with chdir(1) have "(\<exists>s. k' = k\<lparr>kfs := s\<rparr>) \<or> (\<exists>s c. k' = k\<lparr>kfs := s, cwds := c\<rparr>)"
      by (auto simp: sys_chdir_def fs_call_def bindR_Inr_iff split: option.splits prod.splits, blast)
    then show ?thesis using chdir(2) tab_ok_cong [of _ k] by auto
  qed (use chdir(2) in simp)
next
  case (forks c k k')
  then show ?case using fork_files_ok [of k c] by auto
next
  case (exits k k')
  then show ?case using exit_files_ok [of k] by auto
next
  case (switch c k u b)
  then have "tab_ok (\<lambda>_. 0) k" "c < length (fds k)" by simp_all
  then show ?case by (simp add: tab_ok_def refs_def)
qed

lemma fd_reach_inv: "fd_reach k \<Longrightarrow> table_inv k"
  by (induction rule: fd_reach.induct) (auto intro: no_files_inv fd_step_inv)

text \<open>
  C8. The table of open files counts its references. After any sequence of open, close, dup, pipe, read,
  write, the calls on paths, fork and exit by any processes, the count of every file is the number of descriptors that
  refer to it, in all processes together, so an entry is free exactly when nothing refers to it; the read or
  write end of a pipe is open exactly as long as some descriptor refers to a file for it, of which there is
  at most one, and a pipe with no open end has been freed. Consequently \<open>fork\<close> never hits the panic of \<open>filedup\<close>, \<open>dup\<close> always succeeds or returns an
  error code, and \<open>close\<close> and the closing at an exit never hit
  their panic or a freed pipe: the only call in them that can fail is \<open>iput\<close>.
\<close>

theorem file_table_counts_references:
  assumes "fd_reach k"
  shows "(\<forall>f<length (ftab k). f_ref (ftab k ! f) = int (refs k f)) \<and>
    (\<forall>p w. end_open (kpipes k) p w = (\<exists>f<length (ftab k). 0 < refs k f \<and> f_type (ftab k ! f) = FD_PIPE \<and> f_pipe (ftab k ! f) = p \<and> f_writable (ftab k ! f) = w)) \<and>
    (\<forall>p w. \<forall>f\<in>ends (ftab k) p w. \<forall>g\<in>ends (ftab k) p w. f = g) \<and>
    (\<forall>p. kpipes k p \<noteq> None \<longrightarrow> end_open (kpipes k) p True \<or> end_open (kpipes k) p False) \<and>
    (\<exists>r k'. sys_dup k = Inr (r, k')) \<and>
    (\<forall>c<length (fds k). c \<noteq> cur k \<and> fds k ! c = replicate NOFILE None \<longrightarrow> (\<exists>k'. fork_files c k = Inr k')) \<and>
    (\<forall>e. exit_files k = Inl e \<longrightarrow> (\<exists>s i. iput i s = Inl e)) \<and>
    (\<forall>e. sys_close k = Inl e \<longrightarrow> (\<exists>i. iput i (kfs k) = Inl e))"
proof -
  have inv: "table_inv k" by (rule fd_reach_inv [OF assms])
  note T = tab_okD [OF inv]
  have "end_open (kpipes k) p w = (\<exists>f<length (ftab k). 0 < refs k f \<and> f_type (ftab k ! f) = FD_PIPE \<and> f_pipe (ftab k ! f) = p \<and> f_writable (ftab k ! f) = w)" for p w
  proof -
    have "end_open (kpipes k) p w = (ends (ftab k) p w \<noteq> {})" using T(6) unfolding pipe_ends_def by blast
    moreover have "0 < refs k f" if "f < length (ftab k)" "f_type (ftab k ! f) = FD_PIPE" for f
      using T(4,5) [OF that(1)] that(2) by (cases "refs k f") auto
    ultimately show ?thesis by (auto simp: ends_def)
  qed
  moreover have "\<exists>i. iput i (kfs k) = Inl e" if c: "sys_close k = Inl e" for e
  proof -
    obtain k1 where "sys_close k = Inr (- 1, k1) \<or> sys_close k = Inr (0, k1) \<or>
        (\<exists>i. sys_close k = bindR (iput i (kfs k)) (\<lambda>s. Inr (0, k1\<lparr>kfs := s\<rparr>)))" using sys_close_ok [OF inv] by blast
    then obtain i where "bindR (iput i (kfs k)) (\<lambda>s. Inr (0 :: int, k1\<lparr>kfs := s\<rparr>)) = Inl e" using c by force
    then show ?thesis by (auto simp: bindR_Inl_iff)
  qed
  moreover have "\<exists>r k'. sys_dup k = Inr (r, k')" using sys_dup_ok [OF inv] by blast
  moreover have "\<forall>c<length (fds k). c \<noteq> cur k \<and> fds k ! c = replicate NOFILE None \<longrightarrow> (\<exists>k'. fork_files c k = Inr k')"
    using fork_files_ok [OF inv] by blast
  moreover have "\<forall>e. exit_files k = Inl e \<longrightarrow> (\<exists>s i. iput i s = Inl e)" using exit_files_ok [OF inv] by force
  moreover have "\<forall>p w. \<forall>f\<in>ends (ftab k) p w. \<forall>g\<in>ends (ftab k) p w. f = g" using T(6) unfolding pipe_ends_def by blast
  moreover have "\<forall>p. kpipes k p \<noteq> None \<longrightarrow> end_open (kpipes k) p True \<or> end_open (kpipes k) p False" using T(6) unfolding pipe_ends_def by blast
  moreover have "\<forall>f<length (ftab k). f_ref (ftab k ! f) = int (refs k f)" using T(4) by simp
  ultimately show ?thesis by blast
qed

text \<open>One process with no open file makes a pipe.\<close>

definition demo_kfile :: kfile where
  "demo_kfile = \<lparr>kfs = demo_fs, ftab = replicate 2 \<lparr>f_type = FD_NONE, f_ref = 0, f_readable = False, f_writable = False, f_pipe = 0, f_ip = 0, f_off = 0\<rparr>,
     kpipes = Map.empty, fds = [replicate NOFILE None], cwds = [0], cur = 0, kuser = demo_user, kkilled = False\<rparr>"

theorem file_table_counts_references_witness:
  "\<exists>k. fd_reach k \<and> 0 < length (ftab k) \<and> f_ref (ftab k ! 0) = int (refs k 0) \<and> end_open (kpipes k) 5 True \<and> end_open (kpipes k) 5 False"
proof -
  have p: "argptr 0 8 (kuser demo_kfile) = Some 16" by code_simp
  have scan: "scan (\<lambda>x. x = None) (replicate NOFILE None :: nat option list) = Some 0"
      "scan (\<lambda>x. x = None) ((replicate NOFILE None)[0 := Some 0 :: nat option]) = Some 1" by (simp_all add: NOFILE_def eval_nat_numeral)
  obtain k1 where k1: "pipealloc (Some 5) [] demo_kfile = Inr (Some (0, 1), k1)" "fds k1 = [replicate NOFILE None]" "cur k1 = 0"
      "kpipes k1 5 = Some (pipe_init [])" "length (ftab k1) = 2"
    by (simp add: pipealloc_def filealloc_def demo_kfile_def upd_file_def numeral_2_eq_2)
  have d: "fdalloc 0 k1 = Some (0, set_fd 0 (Some 0) k1)"
    using scan(1) k1(2,3) by (simp add: fdalloc_def)
  have d': "fdalloc 1 (set_fd 0 (Some 0) k1) = Some (1, set_fd 1 (Some 1) (set_fd 0 (Some 0) k1))"
    using scan(2) k1(2,3) by (simp add: fdalloc_def set_fd_def)
  define k where "k = (set_fd 1 (Some 1) (set_fd 0 (Some 0) k1))\<lparr>kuser :=
      user_store 16 (le32 (of_nat 0) @ le32 (of_nat 1)) (kuser (set_fd 1 (Some 1) (set_fd 0 (Some 0) k1)))\<rparr>"
  have k: "sys_pipe (Some 5) [] demo_kfile = Inr (0, k)"
    unfolding sys_pipe_def p k_def by (simp add: k1(1) d d' del: One_nat_def)
  have k2: "kpipes k 5 = Some (pipe_init [])" "length (ftab k) = 2" using k1(4,5) by (simp_all add: k_def set_fd_def)
  have "fd_reach demo_kfile" by (rule fd_reach.init) (simp add: no_files_def demo_kfile_def)
  then have r: "fd_reach k" by (rule fd_reach.step [OF _ fd_step.pipe [OF _ k]]) (simp add: demo_kfile_def)
  have e: "end_open (kpipes k) 5 True" "end_open (kpipes k) 5 False" using k2(1) by (simp_all add: end_open_def pipe_init_def)
  have l: "0 < length (ftab k)" using k2(2) by simp
  have "f_ref (ftab k ! 0) = int (refs k 0)" by (rule conjunct1 [OF file_table_counts_references [OF r], rule_format, OF l])
  with r e l show ?thesis by blast
qed

end
