(* ===== verification/Umalloc.thy ===== *)
theory Umalloc
  imports OS_Prelude
begin

text \<open>
  The memory allocator of user programs, \<open>umalloc.c\<close>: a circular list of free blocks in order of address,
  each block a header of eight bytes and the units behind it. Addresses are byte addresses as natural
  numbers (the address space ends far below \<open>2 ^ 32\<close>); the headers are two maps from addresses; requests are
  32-bit words, so their rounding wraps as in C. The searches through the list can run for ever on a
  damaged list and are partial functions: returning is part of what is proved. Whether the kernel grants
  memory to \<open>sbrk\<close> is an argument.
\<close>

section \<open>The allocator\<close>

record heap =
  h_ptr :: "nat \<Rightarrow> nat"
  h_size :: "nat \<Rightarrow> nat"
  freep :: nat
  brk :: nat
  base :: nat

text \<open>\<open>sbrk\<close>: \<open>sys_sbrk\<close> and \<open>growproc\<close>. A negative number shrinks the process unless the new size wraps.\<close>

definition sbrk :: "bool \<Rightarrow> u32 \<Rightarrow> heap \<Rightarrow> nat option \<times> heap" where
  "sbrk ok n h =
     (if 0 < sint n then
        if ok \<and> brk h + unat n < 0x80000000 then (Some (brk h), h\<lparr>brk := brk h + unat n\<rparr>) else (None, h)
      else if int (brk h) + sint n < 0 then (Some (brk h), h)
      else if int (brk h) + sint n = 0 \<and> n \<noteq> 0 then (None, h)
      else (Some (brk h), h\<lparr>brk := nat (int (brk h) + sint n)\<rparr>))"

text \<open>The loop of \<open>free\<close>: the free block after which \<open>bp\<close> belongs.\<close>

partial_function (option) place_loop :: "heap \<Rightarrow> nat \<Rightarrow> nat \<Rightarrow> nat option" where
  "place_loop h bp p =
     (if bp > p \<and> bp < h_ptr h p then Some p
      else if p \<ge> h_ptr h p \<and> (bp > p \<or> bp < h_ptr h p) then Some p
      else place_loop h bp (h_ptr h p))"

text \<open>Joining \<open>bp\<close> with the block after \<open>p\<close>, and then with \<open>p\<close>.\<close>

definition link_next :: "nat \<Rightarrow> nat \<Rightarrow> heap \<Rightarrow> heap" where
  "link_next bp p h =
     (if bp + 8 * h_size h bp = h_ptr h p
      then h\<lparr>h_size := (h_size h)(bp := h_size h bp + h_size h (h_ptr h p)), h_ptr := (h_ptr h)(bp := h_ptr h (h_ptr h p))\<rparr>
      else h\<lparr>h_ptr := (h_ptr h)(bp := h_ptr h p)\<rparr>)"

definition link_prev :: "nat \<Rightarrow> nat \<Rightarrow> heap \<Rightarrow> heap" where
  "link_prev bp p h =
     (if p + 8 * h_size h p = bp
      then h\<lparr>h_size := (h_size h)(p := h_size h p + h_size h bp), h_ptr := (h_ptr h)(p := h_ptr h bp)\<rparr>
      else h\<lparr>h_ptr := (h_ptr h)(p := bp)\<rparr>)"

definition free_link :: "nat \<Rightarrow> nat \<Rightarrow> heap \<Rightarrow> heap" where
  "free_link bp p h = (link_prev bp p (link_next bp p h))\<lparr>freep := p\<rparr>"

definition free :: "nat \<Rightarrow> heap \<Rightarrow> heap option" where
  "free ap h =
     (let bp = ap - 8 in
      (case place_loop h bp (freep h) of None \<Rightarrow> None | Some p \<Rightarrow> Some (free_link bp p h)))"

definition morecore :: "bool \<Rightarrow> u32 \<Rightarrow> heap \<Rightarrow> (nat option \<times> heap) option" where
  "morecore ok nu h =
     (let nu = (if nu < 4096 then 4096 else nu) in
      (case sbrk ok (nu * 8) h of
         (None, h1) \<Rightarrow> Some (None, h1)
       | (Some p, h1) \<Rightarrow>
           (case free (p + 8) (h1\<lparr>h_size := (h_size h1)(p := unat nu)\<rparr>) of
              None \<Rightarrow> None
            | Some h2 \<Rightarrow> Some (Some (freep h2), h2))))"

text \<open>Taking a block that is large enough out of the list, whole or its tail.\<close>

definition take_block :: "nat \<Rightarrow> nat \<Rightarrow> nat \<Rightarrow> heap \<Rightarrow> nat \<times> heap" where
  "take_block n prevp p h =
     (if h_size h p = n then (p + 8, h\<lparr>h_ptr := (h_ptr h)(prevp := h_ptr h p), freep := prevp\<rparr>)
      else let sz = h_size h p - n; q = p + 8 * sz in
        (q + 8, h\<lparr>h_size := (h_size h)(p := sz, q := n), freep := prevp\<rparr>))"

partial_function (option) malloc_loop :: "bool \<Rightarrow> u32 \<Rightarrow> nat \<Rightarrow> nat \<Rightarrow> heap \<Rightarrow> (nat option \<times> heap) option" where
  "malloc_loop ok n prevp p h =
     (if h_size h p \<ge> unat n then Some (Some (fst (take_block (unat n) prevp p h)), snd (take_block (unat n) prevp p h))
      else if p = freep h then
        (case morecore ok n h of
           None \<Rightarrow> None
         | Some (r, h') \<Rightarrow>
             (case r of
                None \<Rightarrow> Some (None, h')
              | Some q \<Rightarrow> malloc_loop ok n q (h_ptr h' q) h'))
      else malloc_loop ok n p (h_ptr h p) h)"

definition nunits :: "u32 \<Rightarrow> u32" where
  "nunits nbytes = (nbytes + 8 - 1) div 8 + 1"

definition malloc :: "bool \<Rightarrow> u32 \<Rightarrow> heap \<Rightarrow> (nat option \<times> heap) option" where
  "malloc ok nbytes h =
     (let h1 = (if freep h = 0
                then h\<lparr>h_ptr := (h_ptr h)(base h := base h), freep := base h, h_size := (h_size h)(base h := 0)\<rparr>
                else h)
      in malloc_loop ok (nunits nbytes) (freep h1) (h_ptr h1 (freep h1)) h1)"

section \<open>The list of free blocks\<close>

fun chain :: "heap \<Rightarrow> nat \<Rightarrow> nat list \<Rightarrow> nat \<Rightarrow> bool" where
  "chain h p [] e \<longleftrightarrow> h_ptr h p = e"
| "chain h p (x # xs) e \<longleftrightarrow> h_ptr h p = x \<and> chain h x xs e"

lemma chain_append: "chain h p (xs @ y # ys) e \<longleftrightarrow> chain h p xs y \<and> chain h y ys e"
  by (induction xs arbitrary: p) auto

lemma chain_cong: "(\<And>x. x \<in> set (p # xs) \<Longrightarrow> h_ptr h' x = h_ptr h x) \<Longrightarrow> chain h' p xs e = chain h p xs e"
  by (induction xs arbitrary: p) auto

definition gap :: "heap \<Rightarrow> nat \<Rightarrow> nat \<Rightarrow> bool" where
  "gap h x y \<longleftrightarrow> x + 8 * h_size h x < y"

text \<open>The ring: the base and, above it in ascending order, the free blocks \<open>fs\<close>, no two of them adjacent.\<close>

definition ring :: "heap \<Rightarrow> nat list \<Rightarrow> bool" where
  "ring h fs \<longleftrightarrow> chain h (base h) fs (base h) \<and> sorted_wrt (gap h) (base h # fs) \<and>
     h_size h (base h) = 0 \<and> (\<forall>x\<in>set fs. 0 < h_size h x) \<and> freep h \<in> set (base h # fs) \<and> 0 < base h"

definition reg :: "heap \<Rightarrow> nat \<Rightarrow> nat set" where
  "reg h x = {x..<x + 8 * h_size h x}"

definition area :: "heap \<Rightarrow> nat set \<Rightarrow> nat set" where
  "area h X = (\<Union>x\<in>X. reg h x)"

lemma gap_less: "gap h x y \<Longrightarrow> x < y"
  by (simp add: gap_def)

lemma place_loop_forward:
  assumes "chain h p (ws @ zs) e" "sorted_wrt (<) (p # ws @ zs)" "\<forall>x\<in>set (p # ws). x < bp" "\<forall>x\<in>set zs. bp < x" "e \<le> p"
  shows "place_loop h bp p = Some (last (p # ws))"
  using assms
proof (induction ws arbitrary: p)
  case Nil
  then show ?case by (cases zs) (auto simp: place_loop.simps [of h bp p])
next
  case (Cons w ws)
  then show ?case by (auto simp: place_loop.simps [of h bp p])
qed

lemma place_loop_wrap:
  assumes "chain h p ws e" "sorted_wrt (<) (p # ws)" "\<forall>x\<in>set (p # ws). bp < x" "e < bp"
  shows "place_loop h bp p = place_loop h bp e"
  using assms
proof (induction ws arbitrary: p)
  case Nil
  then show ?case by (subst place_loop.simps) auto
next
  case (Cons w ws)
  then have "place_loop h bp p = place_loop h bp w" by (subst place_loop.simps) auto
  with Cons show ?case by auto
qed

lemma ring_sorted: "ring h fs \<Longrightarrow> sorted_wrt (<) (base h # fs)"
  unfolding ring_def using sorted_wrt_mono_rel [of _ "gap h" "(<)"] gap_less by (auto simp del: sorted_wrt.simps)

text \<open>The search finds the last block below \<open>bp\<close>, wherever it starts.\<close>

lemma place_loop_spec:
  assumes r: "ring h fs" and bp: "base h < bp" "bp \<notin> set fs"
  shows "\<exists>us ws. base h # fs = us @ ws \<and> us \<noteq> [] \<and> (\<forall>x\<in>set us. x < bp) \<and> (\<forall>x\<in>set ws. bp < x) \<and>
    place_loop h bp (freep h) = Some (last us)"
proof -
  define us where "us = takeWhile (\<lambda>x. x < bp) (base h # fs)"
  define ws where "ws = dropWhile (\<lambda>x. x < bp) (base h # fs)"
  have split: "base h # fs = us @ ws" by (simp only: us_def ws_def takeWhile_dropWhile_id)
  have srt: "sorted_wrt (<) (us @ ws)" using ring_sorted [OF r] by (simp only: split)
  have ch: "chain h (base h) fs (base h)" using r by (simp add: ring_def)
  have lt: "\<forall>x\<in>set us. x < bp" unfolding us_def by (auto dest: set_takeWhileD)
  have gt: "\<forall>x\<in>set ws. bp < x"
  proof (cases ws)
    case (Cons w ws')
    then have "\<not> w < bp" using hd_dropWhile [of "\<lambda>x. x < bp" "base h # fs"] unfolding ws_def by auto
    moreover have "w \<noteq> bp"
    proof
      assume "w = bp"
      then have "bp \<in> set (base h # fs)" by (simp only: split Cons set_append) simp
      with bp show False by simp
    qed
    ultimately show ?thesis using srt Cons by (auto simp: sorted_wrt_append)
  qed simp
  have ne: "us \<noteq> []" using bp(1) by (simp add: us_def)
  obtain us' where us': "us = base h # us'" using split ne by (cases us) auto
  then have fs: "fs = us' @ ws" using split by simp
  have base: "place_loop h bp (base h) = Some (last us)"
    using place_loop_forward [of h "base h" us' ws "base h" bp] ch srt lt gt us' fs by simp
  have "freep h \<in> set us \<or> freep h \<in> set ws" using r split unfolding ring_def by (metis Un_iff set_append)
  then have "place_loop h bp (freep h) = Some (last us)"
  proof
    assume "freep h \<in> set us"
    then obtain as bs where ab: "us = as @ freep h # bs" by (auto simp: in_set_conv_decomp)
    have "chain h (freep h) (bs @ ws) (base h)"
    proof (cases as)
      case Nil
      then show ?thesis using ab us' ch fs by simp
    next
      case (Cons a as')
      then have "fs = as' @ freep h # bs @ ws" using ab us' fs by simp
      then show ?thesis using ch by (simp add: chain_append)
    qed
    moreover have "base h \<le> freep h" using ab us' srt by (cases as) (auto simp: sorted_wrt_append)
    ultimately show ?thesis using place_loop_forward [of h "freep h" bs ws "base h" bp] srt lt gt ab
      by (simp add: sorted_wrt_append)
  next
    assume "freep h \<in> set ws"
    then obtain as bs where ab: "ws = as @ freep h # bs" by (auto simp: in_set_conv_decomp)
    have "chain h (freep h) bs (base h)" using ch fs ab chain_append [of h "base h" "us' @ as"] by simp
    then have "place_loop h bp (freep h) = place_loop h bp (base h)"
      using place_loop_wrap [of h "freep h" bs "base h" bp] srt gt ab bp(1) by (simp add: sorted_wrt_append)
    with base show ?thesis by simp
  qed
  with split ne lt gt show ?thesis by blast
qed

section \<open>Linking a block in\<close>

lemma reg_overlap: "0 < h_size h x \<Longrightarrow> 0 < h_size h y \<Longrightarrow> reg h x \<inter> reg h y = {} \<Longrightarrow> x < y \<Longrightarrow> x + 8 * h_size h x \<le> y"
proof (rule ccontr)
  assume a: "0 < h_size h x" "0 < h_size h y" "reg h x \<inter> reg h y = {}" "x < y" "\<not> x + 8 * h_size h x \<le> y"
  then have "y \<in> reg h x \<inter> reg h y" by (simp add: reg_def)
  with a show False by simp
qed

lemma area_cong: "(\<And>x. x \<in> X \<Longrightarrow> h_size h' x = h_size h x) \<Longrightarrow> area h' X = area h X"
  by (auto simp: area_def reg_def)

lemma area_Un: "area h (X \<union> Y) = area h X \<union> area h Y"
  by (auto simp: area_def)

lemma area_insert [simp]: "area h (insert x X) = reg h x \<union> area h X" "area h {} = {}"
  by (auto simp: area_def)

lemma sorted_gap_cong:
  "(\<And>x. x \<in> set xs \<Longrightarrow> h_size h' x = h_size h x) \<Longrightarrow> sorted_wrt (gap h') xs = sorted_wrt (gap h) xs"
  by (induction xs) (auto simp: gap_def)

lemma interval_join: "(a :: nat) \<le> b \<Longrightarrow> b \<le> c \<Longrightarrow> {a..<b} \<union> {b..<c} = {a..<c}"
  by auto

lemma link_next_spec:
  assumes "chain h p ws e" "sorted_wrt (gap h) ws" "\<forall>x\<in>set ws. bp < x \<and> 0 < h_size h x" "0 < h_size h bp"
    "reg h bp \<inter> area h (set ws) = {}" "e < bp" "p < bp"
  defines "h1 \<equiv> link_next bp p h"
  shows "\<exists>vs. set vs \<subseteq> set ws \<and> chain h1 bp vs e \<and> sorted_wrt (gap h1) (bp # vs) \<and>
    area h1 (insert bp (set vs)) = reg h bp \<union> area h (set ws)"
proof (cases ws)
  case Nil
  then have "h_ptr h p = e" using assms(1) by simp
  then have "h1 = h\<lparr>h_ptr := (h_ptr h)(bp := e)\<rparr>" using assms(4,6) by (simp add: h1_def link_next_def)
  then show ?thesis using Nil by (auto intro!: exI [of _ "[]"] simp: reg_def area_def)
next
  case (Cons w vs)
  have pw: "h_ptr h p = w" and cw: "chain h w vs e" using assms(1) Cons by simp_all
  have le: "bp + 8 * h_size h bp \<le> w" using assms(3,4,5) Cons by (intro reg_overlap) (auto simp: area_def)
  have bpn: "bp \<notin> set vs" "bp \<noteq> w" using assms(3) Cons by auto
  show ?thesis
  proof (cases "bp + 8 * h_size h bp = w")
    case True
    then have h1: "h1 = h\<lparr>h_size := (h_size h)(bp := h_size h bp + h_size h w), h_ptr := (h_ptr h)(bp := h_ptr h w)\<rparr>"
      using pw by (simp add: h1_def link_next_def)
    have "chain h1 bp vs e"
    proof (cases vs)
      case (Cons v us)
      then have "chain h1 v us e = chain h v us e" using bpn by (intro chain_cong) (auto simp: h1)
      then show ?thesis using cw Cons by (simp add: h1)
    qed (use cw in \<open>simp add: h1\<close>)
    moreover have "sorted_wrt (gap h1) vs" using assms(2) Cons bpn by (subst sorted_gap_cong [of _ _ h]) (auto simp: h1)
    moreover have "gap h1 bp v" if "v \<in> set vs" for v
      using assms(2) Cons that True by (auto simp: gap_def h1 algebra_simps)
    moreover have "reg h1 bp = reg h bp \<union> reg h w" using True by (auto simp: reg_def h1 interval_join)
    moreover have "area h1 (set vs) = area h (set vs)" using bpn by (intro area_cong) (auto simp: h1)
    ultimately show ?thesis using Cons by (intro exI [of _ vs]) auto
  next
    case False
    then have h1: "h1 = h\<lparr>h_ptr := (h_ptr h)(bp := w)\<rparr>" using pw by (simp add: h1_def link_next_def)
    have "chain h1 w vs e" using cw bpn by (subst chain_cong [of _ _ _ h]) (auto simp: h1)
    moreover have "sorted_wrt (gap h1) ws" using assms(2) by (subst sorted_gap_cong [of _ _ h]) (auto simp: h1)
    moreover have "gap h1 bp v" if "v \<in> set ws" for v
    proof -
      have "w \<le> v" using assms(2) Cons that gap_less [of h w v] by auto
      then show ?thesis using le False by (simp add: gap_def h1)
    qed
    moreover have "area h1 (insert bp (set ws)) = area h (insert bp (set ws))" by (rule area_cong) (simp add: h1)
    ultimately show ?thesis using Cons by (intro exI [of _ ws]) (auto simp: h1)
  qed
qed

lemma link_next_frame:
  "x \<noteq> bp \<Longrightarrow> h_ptr (link_next bp p h) x = h_ptr h x" "x \<noteq> bp \<Longrightarrow> h_size (link_next bp p h) x = h_size h x"
  "base (link_next bp p h) = base h" "brk (link_next bp p h) = brk h" "h_size h bp \<le> h_size (link_next bp p h) bp"
  by (simp_all add: link_next_def)

lemma link_prev_frame:
  "x \<noteq> p \<Longrightarrow> h_ptr (link_prev bp p h) x = h_ptr h x" "x \<noteq> p \<Longrightarrow> h_size (link_prev bp p h) x = h_size h x"
  "base (link_prev bp p h) = base h" "brk (link_prev bp p h) = brk h" "h_size h p \<le> h_size (link_prev bp p h) p"
  by (simp_all add: link_prev_def)

lemma link_prev_spec:
  assumes c: "chain h bp vs e" and s: "sorted_wrt (gap h) (bp # vs)" and le: "p + 8 * h_size h p \<le> bp" "p < bp"
  defines "h2 \<equiv> link_prev bp p h"
  shows "\<exists>us. set us \<subseteq> insert bp (set vs) \<and> chain h2 p us e \<and> sorted_wrt (gap h2) (p # us) \<and>
    area h2 (insert p (set us)) = area h (insert p (insert bp (set vs))) \<and>
    (bp \<in> set us \<or> p + 8 * h_size h p = bp \<and> h_size h bp \<le> h_size h2 p)"
proof -
  have vs: "bp < v" if "v \<in> set vs" for v using s that by (auto dest: gap_less)
  have pv: "p \<notin> set vs" using vs le(2) by force
  show ?thesis
  proof (cases "p + 8 * h_size h p = bp")
    case True
    then have h2: "h2 = h\<lparr>h_size := (h_size h)(p := h_size h p + h_size h bp), h_ptr := (h_ptr h)(p := h_ptr h bp)\<rparr>"
      by (simp add: h2_def link_prev_def)
    have "chain h2 p vs e"
    proof (cases vs)
      case (Cons v ts)
      then have "chain h2 v ts e = chain h v ts e" using pv by (intro chain_cong) (auto simp: h2)
      then show ?thesis using c Cons by (simp add: h2)
    qed (use c in \<open>simp add: h2\<close>)
    moreover have "sorted_wrt (gap h2) vs" using s pv by (subst sorted_gap_cong [of _ _ h]) (auto simp: h2)
    moreover have "gap h2 p v" if "v \<in> set vs" for v using s that True by (auto simp: gap_def h2 algebra_simps)
    moreover have "reg h2 p = reg h p \<union> reg h bp" using True by (auto simp: reg_def h2)
    moreover have "area h2 (set vs) = area h (set vs)" using pv by (intro area_cong) (auto simp: h2)
    moreover have "h_size h bp \<le> h_size h2 p" by (simp add: h2)
    ultimately show ?thesis using True by (intro exI [of _ vs]) auto
  next
    case False
    then have h2: "h2 = h\<lparr>h_ptr := (h_ptr h)(p := bp)\<rparr>" by (simp add: h2_def link_prev_def)
    have "chain h2 bp vs e" using c pv le(2) by (subst chain_cong [of _ _ _ h]) (auto simp: h2)
    moreover have "h_ptr h2 p = bp" by (simp add: h2)
    moreover have "sorted_wrt (gap h2) (bp # vs)" using s by (subst sorted_gap_cong [of _ _ h]) (auto simp: h2)
    moreover have "gap h2 p v" if "v \<in> set (bp # vs)" for v
    proof -
      have "bp \<le> v" using that vs by force
      then show ?thesis using le False by (simp add: gap_def h2)
    qed
    moreover have "area h2 (insert p (set (bp # vs))) = area h (insert p (insert bp (set vs)))"
      unfolding list.set by (rule area_cong) (simp add: h2)
    ultimately show ?thesis by (intro exI [of _ "bp # vs"]) (simp del: area_insert)
  qed
qed

lemma chain_split:
  "b # fs = as @ p # us \<Longrightarrow> chain h b fs e \<longleftrightarrow> (as = [] \<or> chain h b (tl as) p) \<and> chain h p us e"
  by (cases as) (auto simp: chain_append)

lemma reg_free_not_in: "0 < h_size h x \<Longrightarrow> reg h x \<inter> area h X = {} \<Longrightarrow> x \<notin> X"
  by (force simp: area_def reg_def)

text \<open>Freeing a block adds exactly its bytes to those of the list, and touches no other header.\<close>

lemma free_spec:
  assumes r: "ring h fs" and bp: "base h < bp" "0 < h_size h bp" "reg h bp \<inter> area h (set fs) = {}"
  shows "\<exists>h' fs'. free (bp + 8) h = Some h' \<and> ring h' fs' \<and> area h' (set fs') = reg h bp \<union> area h (set fs) \<and>
    base h' = base h \<and> brk h' = brk h \<and> (\<forall>x. x \<notin> set fs \<longrightarrow> x \<noteq> bp \<longrightarrow> h_size h' x = h_size h x) \<and> (\<exists>x\<in>set fs'. h_size h bp \<le> h_size h' x)"
proof -
  have R: "chain h (base h) fs (base h)" "sorted_wrt (gap h) (base h # fs)" "h_size h (base h) = 0" "\<forall>x\<in>set fs. 0 < h_size h x" "0 < base h"
    using r by (auto simp: ring_def)
  have "bp \<notin> set fs" by (rule reg_free_not_in [OF bp(2,3)])
  then obtain us ws where f: "base h # fs = us @ ws" "us \<noteq> []" "\<forall>x\<in>set us. x < bp" "\<forall>x\<in>set ws. bp < x"
      "place_loop h bp (freep h) = Some (last us)" using place_loop_spec [OF r bp(1)] by blast
  define p where "p = last us"
  obtain as where us: "us = as @ [p]" using f(2) by (metis append_butlast_last_id p_def)
  have fs: "base h # fs = as @ p # ws" using f(1) us by simp
  have pbp: "p < bp" using f(2,3) by (simp add: p_def)
  define h1 where "h1 = link_next bp p h"
  define h2 where "h2 = link_prev bp p h1"
  have fr: "free (bp + 8) h = Some (h2\<lparr>freep := p\<rparr>)" using f(5) by (simp add: free_def free_link_def p_def h1_def h2_def)
  have ws: "set ws \<subseteq> set fs" using fs by (cases as) auto
  have cw: "chain h p ws (base h)" "as = [] \<or> chain h (base h) (tl as) p" using R(1) chain_split [OF fs] by simp_all
  have sw: "sorted_wrt (gap h) ws" "sorted_wrt (gap h) (as @ [p])" using R(2) unfolding fs by (auto simp: sorted_wrt_append)
  have "\<forall>x\<in>set ws. bp < x \<and> 0 < h_size h x" using f(4) R(4) ws by auto
  moreover have "reg h bp \<inter> area h (set ws) = {}" using bp(3) ws by (auto simp: area_def)
  ultimately obtain vs where vs: "set vs \<subseteq> set ws" "chain h1 bp vs (base h)" "sorted_wrt (gap h1) (bp # vs)"
      "area h1 (insert bp (set vs)) = reg h bp \<union> area h (set ws)"
    using link_next_spec [OF cw(1) sw(1) _ bp(2) _ bp(1) pbp] unfolding h1_def by blast
  have p1: "h_size h1 x = h_size h x" "h_ptr h1 x = h_ptr h x" if "x \<noteq> bp" for x using that by (simp_all add: h1_def link_next_frame)
  have le: "p + 8 * h_size h1 p \<le> bp"
  proof (cases "p = base h")
    case False
    then have "p \<in> set fs" using fs by (cases as) auto
    then have "p + 8 * h_size h p \<le> bp" using R(4) bp(2,3) pbp by (intro reg_overlap) (auto simp: area_def)
    then show ?thesis using pbp by (simp add: p1)
  qed (use pbp R(3) in \<open>simp add: p1\<close>)
  obtain ts where ts: "set ts \<subseteq> insert bp (set vs)" "chain h2 p ts (base h)" "sorted_wrt (gap h2) (p # ts)"
      "area h2 (insert p (set ts)) = area h1 (insert p (insert bp (set vs)))"
      "bp \<in> set ts \<or> p + 8 * h_size h1 p = bp \<and> h_size h1 bp \<le> h_size h2 p"
    using link_prev_spec [OF vs(2,3) le pbp] unfolding h2_def by blast
  have as: "x < p" if "x \<in> set as" for x using sw(2) that by (auto simp: sorted_wrt_append dest: gap_less)
  have as_frame: "h_size h2 x = h_size h x" "h_ptr h2 x = h_ptr h x" if "x \<in> set as" for x
    using as [OF that] pbp by (simp_all add: h2_def link_prev_frame p1)
  define fs' where "fs' = tl (as @ p # ts)"
  have fs': "base h # fs' = as @ p # ts" using fs by (cases as) (auto simp: fs'_def)
  have mono: "h_size h x \<le> h_size h2 x" for x
  proof -
    have "h_size h x \<le> h_size h1 x" using link_next_frame(5) [of h bp p] by (cases "x = bp") (auto simp: h1_def link_next_frame(2))
    also have "\<dots> \<le> h_size h2 x" using link_prev_frame(5) [of h1 p bp] by (cases "x = p") (auto simp: h2_def link_prev_frame(2))
    finally show ?thesis .
  qed
  have ch: "chain h2 (base h) fs' (base h)"
  proof -
    have "chain h2 (base h) (tl as) p" if "as \<noteq> []"
    proof -
      have "chain h (base h) (tl as) p" using cw(2) that by simp
      moreover have "set (base h # tl as) = set as" using fs that by (cases as) auto
      ultimately show ?thesis using as_frame by (subst chain_cong [of _ _ _ h]) auto
    qed
    then show ?thesis using ts(2) chain_split [OF fs'] by blast
  qed
  have srt: "sorted_wrt (gap h2) (base h # fs')"
  proof -
    have "sorted_wrt (gap h2) as" using sw(2) as_frame by (subst sorted_gap_cong [of _ _ h]) (auto simp: sorted_wrt_append)
    moreover have "gap h2 x y" if "x \<in> set as" "y \<in> set (p # ts)" for x y
    proof -
      have "gap h x p" using sw(2) that(1) by (auto simp: sorted_wrt_append)
      moreover have "p \<le> y" using that(2) ts(3) gap_less [of h2 p y] by auto
      ultimately show ?thesis using as_frame(1) [OF that(1)] by (simp add: gap_def)
    qed
    ultimately show ?thesis unfolding fs' using ts(3) by (auto simp: sorted_wrt_append)
  qed
  have p0: "h_size h2 (base h) = 0"
  proof (cases "base h \<in> set as")
    case True
    then show ?thesis using as_frame R(3) by simp
  next
    case False
    then have "p = base h" using fs by (cases as) auto
    then show ?thesis using pbp R(3) by (simp add: h2_def link_prev_def p1)
  qed
  have sub: "set (base h # fs') \<subseteq> insert bp (set (base h # fs))" using ts(1) vs(1) unfolding fs' fs by auto
  have "0 < h_size h2 x" if x: "x \<in> set fs'" for x
  proof -
    have "x \<noteq> base h" using srt x by (auto dest: gap_less)
    then have "0 < h_size h x" using sub x R(4) bp(2) by auto
    then show ?thesis using mono [of x] by simp
  qed
  moreover have "p \<in> set (base h # fs')" unfolding fs' by simp
  moreover have "base h2 = base h" "brk h2 = brk h" by (simp_all add: h2_def h1_def link_prev_frame link_next_frame)
  moreover have "chain (h2\<lparr>freep := p\<rparr>) x ys e = chain h2 x ys e" for x ys e by (rule chain_cong) simp
  moreover have "gap (h2\<lparr>freep := p\<rparr>) = gap h2" by (intro ext) (simp add: gap_def)
  ultimately have ring: "ring (h2\<lparr>freep := p\<rparr>) fs'" using ch srt p0 R(5) by (simp add: ring_def)
  have "area h2 (set (base h # fs')) = reg h bp \<union> area h (set (base h # fs))"
  proof -
    have "area h2 (set as) = area h (set as)" using as_frame by (intro area_cong) simp
    moreover have "reg h1 p = reg h p" using pbp by (simp add: reg_def p1)
    ultimately show ?thesis unfolding fs fs' using ts(4) vs(4) by (auto simp: area_Un)
  qed
  moreover have "reg h (base h) = {}" "reg h2 (base h) = {}" using R(3) p0 by (simp_all add: reg_def)
  ultimately have "area h2 (set fs') = reg h bp \<union> area h (set fs)" by simp
  then have ar: "area (h2\<lparr>freep := p\<rparr>) (set fs') = reg h bp \<union> area h (set fs)" by (subst area_cong [of _ _ h2]) simp_all
  have "h_size h2 x = h_size h x" if "x \<notin> set fs" "x \<noteq> bp" for x
  proof (cases "x = p")
    case True
    then have "x = base h" using that(1) fs by (cases as) auto
    then show ?thesis using p0 R(3) by simp
  qed (use that in \<open>simp add: h2_def link_prev_frame p1\<close>)
  moreover have "\<exists>x\<in>set fs'. h_size h bp \<le> h_size h2 x"
  proof (cases "bp \<in> set ts")
    case True
    then have "bp \<in> set fs'" using fs' bp(1) by (cases as) auto
    then show ?thesis using mono by blast
  next
    case False
    then have t: "p + 8 * h_size h1 p = bp" "h_size h1 bp \<le> h_size h2 p" using ts(5) by simp_all
    have "p \<noteq> base h" using t(1) pbp R(3) by (auto simp: p1)
    then have "p \<in> set fs'" using fs' by (cases as) auto
    moreover have "h_size h bp \<le> h_size h1 bp" by (simp add: h1_def link_next_frame(5))
    ultimately show ?thesis using t(2) by (metis order_trans)
  qed
  ultimately show ?thesis using fr ring ar \<open>base h2 = base h\<close> \<open>brk h2 = brk h\<close> by (intro exI [of _ "h2\<lparr>freep := p\<rparr>"] exI [of _ fs']) simp
qed

section \<open>Searching and taking\<close>

lemma malloc_scan:
  assumes "chain h q ws e" "freep h \<notin> set ws"
  shows "(\<exists>as x bs. ws = as @ x # bs \<and> unat n \<le> h_size h x \<and>
      malloc_loop ok n q (h_ptr h q) h = Some (Some (fst (take_block (unat n) (last (q # as)) x h)), snd (take_block (unat n) (last (q # as)) x h))) \<or>
    (\<forall>x\<in>set ws. h_size h x < unat n) \<and> malloc_loop ok n q (h_ptr h q) h = malloc_loop ok n (last (q # ws)) e h"
  using assms
proof (induction ws arbitrary: q)
  case (Cons w ws)
  then have q: "h_ptr h q = w" "chain h w ws e" "w \<noteq> freep h" "freep h \<notin> set ws" by auto
  show ?case
  proof (cases "unat n \<le> h_size h w")
    case True
    then show ?thesis using q(1) by (intro disjI1 exI [of _ "[]"]) (auto simp: malloc_loop.simps [of ok n q w])
  next
    case False
    then have l: "malloc_loop ok n q (h_ptr h q) h = malloc_loop ok n w (h_ptr h w) h"
      using q(1,3) by (simp add: malloc_loop.simps [of ok n q w])
    from Cons.IH [OF q(2,4)] show ?thesis
    proof
      assume "\<exists>as x bs. ws = as @ x # bs \<and> unat n \<le> h_size h x \<and>
          malloc_loop ok n w (h_ptr h w) h = Some (Some (fst (take_block (unat n) (last (w # as)) x h)), snd (take_block (unat n) (last (w # as)) x h))"
      then obtain as x bs where "ws = as @ x # bs" "unat n \<le> h_size h x"
          "malloc_loop ok n w (h_ptr h w) h = Some (Some (fst (take_block (unat n) (last (w # as)) x h)), snd (take_block (unat n) (last (w # as)) x h))" by blast
      then show ?thesis using l by (intro disjI1 exI [of _ "w # as"]) auto
    next
      assume "(\<forall>x\<in>set ws. h_size h x < unat n) \<and> malloc_loop ok n w (h_ptr h w) h = malloc_loop ok n (last (w # ws)) e h"
      then show ?thesis using l False by (intro disjI2) auto
    qed
  qed
qed simp

definition grow_then :: "bool \<Rightarrow> u32 \<Rightarrow> heap \<Rightarrow> (nat option \<times> heap) option" where
  "grow_then ok n h =
     (case morecore ok n h of
        None \<Rightarrow> None
      | Some (r, h') \<Rightarrow> (case r of None \<Rightarrow> Some (None, h') | Some q \<Rightarrow> malloc_loop ok n q (h_ptr h' q) h'))"

text \<open>A search from \<open>freep\<close> finds a large enough block with its predecessor, or every block is too small.\<close>

lemma malloc_search:
  assumes r: "ring h fs" and n: "0 < unat n"
  shows "(\<exists>us x y ws. base h # fs = us @ x # y # ws \<and> unat n \<le> h_size h y \<and>
      malloc_loop ok n (freep h) (h_ptr h (freep h)) h = Some (Some (fst (take_block (unat n) x y h)), snd (take_block (unat n) x y h))) \<or>
    (\<forall>x\<in>set fs. h_size h x < unat n) \<and> malloc_loop ok n (freep h) (h_ptr h (freep h)) h = grow_then ok n h"
    (is "?found \<or> _")
proof -
  define fp where "fp = freep h"
  have R: "chain h (base h) fs (base h)" "h_size h (base h) = 0" using r by (auto simp: ring_def)
  have "fp \<in> set (base h # fs)" using r by (simp add: ring_def fp_def)
  then obtain lo hi where f: "base h # fs = lo @ fp # hi" by (meson split_list)
  have c: "lo = [] \<or> chain h (base h) (tl lo) fp" "chain h fp hi (base h)" using chain_split [OF f] R(1) by simp_all
  have srt: "sorted_wrt (<) (lo @ fp # hi)" using ring_sorted [OF r] by (simp only: f)
  have nin: "fp \<notin> set hi" "fp \<notin> set lo" using srt by (auto simp: sorted_wrt_append)
  let ?take = "\<lambda>x y. Some (Some (fst (take_block (unat n) x y h)), snd (take_block (unat n) x y h))"
  let ?L = "malloc_loop ok n fp (h_ptr h fp) h"
  have found: "?found" if "base h # fs = us @ (q # as) @ x # bs" "unat n \<le> h_size h x" "?L = ?take (last (q # as)) x" for us q as x bs
  proof -
    have "base h # fs = (us @ butlast (q # as)) @ last (q # as) # x # bs"
      using that(1) append_butlast_last_id [of "q # as"] by (metis append.assoc append_Cons append_Nil list.distinct(1))
    then show ?thesis using that(2,3) unfolding fp_def by blast
  qed
  have stop: "malloc_loop ok n z fp h = (if unat n \<le> h_size h fp then ?take z fp else grow_then ok n h)" for z
    unfolding grow_then_def fp_def by (subst malloc_loop.simps) simp
  from malloc_scan [OF c(2), of n ok, unfolded fp_def [symmetric], OF nin(1)] show ?thesis
  proof (elim disjE exE conjE)
    fix as x bs
    assume "hi = as @ x # bs" "unat n \<le> h_size h x" "?L = ?take (last (fp # as)) x"
    then show ?thesis using found [of lo fp as x bs] f by simp
  next
    assume hi: "\<forall>x\<in>set hi. h_size h x < unat n" "?L = malloc_loop ok n (last (fp # hi)) (base h) h"
    show ?thesis
    proof (cases lo)
      case Nil
      then have "base h = fp" "fs = hi" using f by simp_all
      then show ?thesis using hi stop R(2) n by (auto simp: fp_def)
    next
      case (Cons b lo')
      then have lo: "lo = base h # lo'" "fs = lo' @ fp # hi" "base h \<noteq> fp" using f nin by auto
      have "malloc_loop ok n z (base h) h = malloc_loop ok n (base h) (h_ptr h (base h)) h" for z
        using lo(3) R(2) n by (subst malloc_loop.simps) (simp add: fp_def)
      then have L: "?L = malloc_loop ok n (base h) (h_ptr h (base h)) h" using hi(2) by (simp only:)
      have "chain h (base h) lo' fp" "fp \<notin> set lo'" using c(1) lo(1) nin by auto
      from malloc_scan [OF this(1), of n ok, unfolded fp_def [symmetric], OF this(2)] show ?thesis
      proof (elim disjE exE conjE)
        fix as x bs
        assume "lo' = as @ x # bs" "unat n \<le> h_size h x" "malloc_loop ok n (base h) (h_ptr h (base h)) h = ?take (last (base h # as)) x"
        then show ?thesis using found [of "[]" "base h" as x "bs @ fp # hi"] lo L by simp
      next
        assume l: "\<forall>x\<in>set lo'. h_size h x < unat n" "malloc_loop ok n (base h) (h_ptr h (base h)) h = malloc_loop ok n (last (base h # lo')) fp h"
        show ?thesis
        proof (cases "unat n \<le> h_size h fp")
          case True
          then show ?thesis using found [of "[]" "base h" lo' fp hi] lo L l(2) stop by simp
        next
          case False
          then show ?thesis using L l hi(1) lo(2) stop by (auto simp: fp_def)
        qed
      qed
    qed
  qed
qed

lemma take_block_spec:
  assumes r: "ring h fs" and f: "base h # fs = us @ x # y # ws" and n: "0 < n" "n \<le> h_size h y"
  defines "q \<equiv> fst (take_block n x y h) - 8" and "h' \<equiv> snd (take_block n x y h)"
  shows "\<exists>fs'. ring h' fs' \<and> fst (take_block n x y h) = q + 8 \<and> h_size h' q = n \<and> q \<in> area h (set fs) \<and>
    area h (set fs) = area h' (set fs') \<union> reg h' q \<and> area h' (set fs') \<inter> reg h' q = {} \<and>
    base h' = base h \<and> brk h' = brk h \<and> (\<forall>z. z \<notin> set fs \<longrightarrow> z \<noteq> q \<longrightarrow> h_size h' z = h_size h z)"
proof -
  have R: "chain h (base h) fs (base h)" "sorted_wrt (gap h) (base h # fs)" "h_size h (base h) = 0" "\<forall>x\<in>set fs. 0 < h_size h x" "0 < base h"
    using r by (auto simp: ring_def)
  have y: "y \<in> set fs" using f by (cases us) auto
  have srt: "sorted_wrt (<) (us @ x # y # ws)" using ring_sorted [OF r] by (simp only: f)
  have gaps: "sorted_wrt (gap h) (us @ x # y # ws)" using R(2) by (simp only: f)
  have xs: "x \<in> set (base h # fs)" by (simp only: f) simp
  have nb: "base h \<notin> set fs" using R(2) by (auto dest: gap_less)
  have yb: "base h < y" using R(2) y by (auto dest: gap_less)
  have apart: "reg h z \<inter> reg h y = {}" if "z \<in> set us \<union> {x} \<union> set ws" for z
  proof -
    have "gap h z y \<or> gap h y z" using gaps that by (auto simp: sorted_wrt_append)
    then show ?thesis by (auto simp: gap_def reg_def)
  qed
  show ?thesis
  proof (cases "h_size h y = n")
    case True
    then have q: "q = y" and fst: "fst (take_block n x y h) = y + 8" and h': "h' = h\<lparr>h_ptr := (h_ptr h)(x := h_ptr h y), freep := x\<rparr>"
      by (simp_all add: q_def h'_def take_block_def)
    have area: "area h' X = area h X" for X by (rule area_cong) (simp add: h')
    define fs' where "fs' = tl (us @ x # ws)"
    have fs': "base h # fs' = us @ x # ws" using f by (cases us) (auto simp: fs'_def)
    have set: "set (base h # fs) = insert y (set (base h # fs'))" by (simp only: f fs') auto
    have yn: "y \<notin> set (base h # fs')" using srt by (simp only: fs') (auto simp: sorted_wrt_append)
    have c: "us = [] \<or> chain h (base h) (tl us) x" "chain h x (y # ws) (base h)" using chain_split [OF f] R(1) by simp_all
    have "chain h' x ws (base h)"
    proof (cases ws)
      case (Cons w ws')
      have "chain h' w ws' (base h) = chain h w ws' (base h)"
        using srt Cons by (intro chain_cong) (auto simp: h' sorted_wrt_append)
      then show ?thesis using c(2) Cons by (simp add: h')
    qed (use c(2) in \<open>simp add: h'\<close>)
    moreover have "chain h' (base h) (tl us) x" if "us \<noteq> []"
    proof -
      have "set (base h # tl us) = set us" using f that by (cases us) auto
      moreover have "x \<notin> set us" using srt by (auto simp: sorted_wrt_append)
      ultimately show ?thesis using c(1) that by (subst chain_cong [of _ _ _ h]) (auto simp: h')
    qed
    ultimately have "chain h' (base h) fs' (base h)" using chain_split [OF fs'] by blast
    moreover have "sorted_wrt (gap h') (base h # fs')" using gaps unfolding fs'
      by (subst sorted_gap_cong [of _ _ h]) (auto simp: h' sorted_wrt_append)
    moreover have "freep h' \<in> set (base h # fs')" unfolding fs' by (simp add: h')
    moreover have fss: "set fs = insert y (set fs')" using f unfolding fs'_def by (cases us) auto
    ultimately have "ring h' fs'" using R(3,4,5) by (auto simp: ring_def h')
    moreover have "area h (set fs') \<inter> reg h y = {}"
    proof -
      have "set fs' \<subseteq> set us \<union> {x} \<union> set ws" using fs' by (cases us) auto
      then show ?thesis using apart by (auto simp: area_def)
    qed
    moreover have "area h (set fs) = reg h y \<union> area h (set fs')" by (simp add: fss)
    moreover have "reg h' y = reg h y" by (simp add: reg_def h')
    moreover have "y \<in> reg h y" using n True by (simp add: reg_def)
    ultimately show ?thesis using q fst True area by (intro exI [of _ fs']) (auto simp: h')
  next
    case False
    define sz where "sz = h_size h y - n"
    have sz: "0 < sz" "h_size h y = sz + n" using False n by (auto simp: sz_def)
    have q: "q = y + 8 * sz" and fst: "fst (take_block n x y h) = q + 8"
      using False by (simp_all add: q_def take_block_def sz_def Let_def)
    have h': "h' = h\<lparr>h_size := (h_size h)(y := sz, q := n), freep := x\<rparr>"
      using False unfolding q by (simp add: h'_def take_block_def sz_def Let_def)
    have qy: "q \<in> reg h y" "y < q" using sz n by (auto simp: q reg_def)
    have qn: "q \<notin> set (base h # fs)"
    proof
      assume a: "q \<in> set (base h # fs)"
      then have "q \<in> set us \<union> {x} \<union> set ws" using qy(2) unfolding f by auto
      then have "reg h q \<inter> reg h y = {}" by (rule apart)
      moreover have "q \<noteq> base h" using qy(2) yb by simp
      then have "q \<in> reg h q" using a R(4) by (auto simp: reg_def)
      ultimately show False using qy(1) by auto
    qed
    have sizes: "h_size h' z = h_size h z" if "z \<in> set (base h # fs)" "z \<noteq> y" for z using that qn by (auto simp: h')
    have szy: "h_size h' y = sz" using qy(2) by (simp add: h')
    have "chain h' (base h) fs (base h)" using R(1) by (subst chain_cong [of _ _ _ h]) (auto simp: h')
    moreover have "sorted_wrt (gap h') (base h # fs)"
    proof (rule sorted_wrt_mono_rel [OF _ R(2)])
      fix a b assume a: "a \<in> set (base h # fs)" and g: "gap h a b"
      have "h_size h' a \<le> h_size h a" using sizes [OF a] szy sz(2) by (cases "a = y") auto
      then show "gap h' a b" using g by (simp add: gap_def)
    qed
    moreover have "h_size h' (base h) = 0" using sizes [of "base h"] R(3) yb by simp
    moreover have "0 < h_size h' z" if "z \<in> set fs" for z using sizes [of z] szy sz R(4) that by (cases "z = y") auto
    ultimately have ring: "ring h' fs" using R(5) xs by (simp add: ring_def h')
    have regq: "reg h' q = {q..<q + 8 * n}" by (simp add: reg_def h')
    have ry: "reg h y = reg h' y \<union> reg h' q" "reg h' y \<inter> reg h' q = {}"
      using sz by (auto simp: reg_def szy h' q)
    have dz: "reg h z \<inter> reg h' q = {}" if "z \<in> set fs - {y}" for z
    proof -
      have "z \<in> set (us @ x # y # ws)" using that f by (metis DiffD1 list.set_intros(2))
      then have "reg h z \<inter> reg h y = {}" using apart that by auto
      then show ?thesis using ry(1) by auto
    qed
    have rest: "area h' (set fs - {y}) = area h (set fs - {y})" by (rule area_cong) (simp add: sizes)
    have parts: "area k (set fs) = reg k y \<union> area k (set fs - {y})" for k using y by (auto simp: area_def)
    have "area h (set fs - {y}) \<inter> reg h' q = {}" using dz by (auto simp: area_def)
    then have "area h (set fs) = area h' (set fs) \<union> reg h' q" "area h' (set fs) \<inter> reg h' q = {}"
      unfolding parts [of h] parts [of h'] rest using ry by blast+
    moreover have "q \<in> area h (set fs)" using qy(1) y by (auto simp: area_def)
    ultimately show ?thesis using ring fst y by (intro exI [of _ fs]) (auto simp: h')
  qed
qed

section \<open>The allocator as its clients see it\<close>

text \<open>\<open>L\<close> are the headers of the blocks that are in use, \<open>A\<close> the bytes obtained from the kernel.\<close>

definition heap_ok :: "heap \<Rightarrow> nat set \<Rightarrow> nat set \<Rightarrow> bool" where
  "heap_ok h L A \<longleftrightarrow>
     (if freep h = 0 then L = {} \<and> A = {}
      else \<exists>fs. ring h fs \<and> area h (set fs) \<union> area h L = A \<and> area h (set fs) \<inter> area h L = {}) \<and>
     0 < base h \<and> base h + 8 \<le> brk h \<and> A \<subseteq> {base h + 8..<brk h} \<and> (\<forall>x\<in>L. 0 < h_size h x) \<and>
     (\<forall>x\<in>L. \<forall>y\<in>L. x \<noteq> y \<longrightarrow> reg h x \<inter> reg h y = {})"

lemma heap_okD:
  assumes "heap_ok h L A" "freep h \<noteq> 0"
  obtains fs where "ring h fs" "area h (set fs) \<union> area h L = A" "area h (set fs) \<inter> area h L = {}"
    "base h + 8 \<le> brk h" "A \<subseteq> {base h + 8..<brk h}" "\<forall>x\<in>L. 0 < h_size h x"
    "\<forall>x\<in>L. \<forall>y\<in>L. x \<noteq> y \<longrightarrow> reg h x \<inter> reg h y = {}"
  using assms unfolding heap_ok_def by auto

lemma heap_okI:
  assumes "ring h fs" "area h (set fs) \<union> area h L = A" "area h (set fs) \<inter> area h L = {}"
    "base h + 8 \<le> brk h" "A \<subseteq> {base h + 8..<brk h}" "\<forall>x\<in>L. 0 < h_size h x"
    "\<forall>x\<in>L. \<forall>y\<in>L. x \<noteq> y \<longrightarrow> reg h x \<inter> reg h y = {}"
  shows "heap_ok h L A"
proof -
  have "freep h = base h \<or> base h < freep h" "0 < base h" using assms(1) gap_less [of h "base h" "freep h"] by (auto simp: ring_def)
  then show ?thesis using assms unfolding heap_ok_def by auto
qed

lemma self_in_reg: "0 < h_size h x \<Longrightarrow> x \<in> reg h x"
  by (simp add: reg_def)

lemma reg_cong: "h_size h' x = h_size h x \<Longrightarrow> reg h' x = reg h x"
  by (simp add: reg_def)

lemma free_ok:
  assumes "heap_ok h L A" "q \<in> L"
  shows "\<exists>h'. free (q + 8) h = Some h' \<and> heap_ok h' (L - {q}) A \<and> brk h' = brk h \<and> (\<forall>x\<in>L - {q}. h_size h' x = h_size h x)"
proof -
  have "freep h \<noteq> 0" using assms unfolding heap_ok_def by (metis empty_iff)
  then obtain fs where H: "ring h fs" "area h (set fs) \<union> area h L = A" "area h (set fs) \<inter> area h L = {}"
    "base h + 8 \<le> brk h" "A \<subseteq> {base h + 8..<brk h}" "\<forall>x\<in>L. 0 < h_size h x"
    "\<forall>x\<in>L. \<forall>y\<in>L. x \<noteq> y \<longrightarrow> reg h x \<inter> reg h y = {}" using heap_okD [OF assms(1)] by blast
  have inA: "reg h x \<subseteq> area h L" if "x \<in> L" for x using that by (auto simp: area_def)
  have "q \<in> A" using inA [OF assms(2)] self_in_reg [of h q] H(2,6) assms(2) by auto
  then have "base h < q" using H(5) by auto
  moreover have "reg h q \<inter> area h (set fs) = {}" using inA [OF assms(2)] H(3) by auto
  ultimately obtain h' fs' where f: "free (q + 8) h = Some h'" "ring h' fs'" "area h' (set fs') = reg h q \<union> area h (set fs)"
      "base h' = base h" "brk h' = brk h" "\<forall>x. x \<notin> set fs \<longrightarrow> x \<noteq> q \<longrightarrow> h_size h' x = h_size h x"
    using free_spec [OF H(1), of q] bspec [OF H(6) assms(2)] by blast
  have notin: "x \<notin> set fs" if "x \<in> L" for x
  proof
    assume "x \<in> set fs"
    then have "reg h x \<subseteq> area h (set fs)" by (auto simp: area_def)
    then show False using inA [OF that] self_in_reg [of h x] H(3,6) that by auto
  qed
  have sz: "h_size h' x = h_size h x" if "x \<in> L - {q}" for x using f(6) notin that by auto
  have ar: "area h' (L - {q}) = area h (L - {q})" by (rule area_cong) (rule sz)
  have dq: "reg h q \<inter> area h (L - {q}) = {}" using H(7) assms(2) by (auto simp: area_def)
  have aL: "area h L = reg h q \<union> area h (L - {q})" using assms(2) by (auto simp: area_def)
  have "heap_ok h' (L - {q}) A"
  proof (rule heap_okI [OF f(2)])
    show "area h' (set fs') \<union> area h' (L - {q}) = A" using H(2) f(3) ar aL by auto
    show "area h' (set fs') \<inter> area h' (L - {q}) = {}" using H(3) f(3) ar aL dq by auto
    show "\<forall>x\<in>L - {q}. \<forall>y\<in>L - {q}. x \<noteq> y \<longrightarrow> reg h' x \<inter> reg h' y = {}" using H(7) reg_cong [OF sz] by auto
  qed (use H(4,5,6) f(4,5) sz in auto)
  then show ?thesis using f(1,5) sz by blast
qed

text \<open>Taking a block from the list.\<close>

lemma take_ok:
  assumes "heap_ok h L A" "ring h fs" "area h (set fs) \<union> area h L = A" "area h (set fs) \<inter> area h L = {}"
    and f: "base h # fs = us @ x # y # ws" and n: "0 < n" "n \<le> h_size h y"
  shows "\<exists>q h'. take_block n x y h = (q + 8, h') \<and> heap_ok h' (insert q L) A \<and> q \<notin> L \<and> h_size h' q = n \<and> brk h' = brk h \<and>
    (\<forall>z\<in>L. h_size h' z = h_size h z)"
proof -
  have H: "base h + 8 \<le> brk h" "A \<subseteq> {base h + 8..<brk h}" "\<forall>x\<in>L. 0 < h_size h x"
    "\<forall>x\<in>L. \<forall>y\<in>L. x \<noteq> y \<longrightarrow> reg h x \<inter> reg h y = {}" using assms(1) by (auto simp: heap_ok_def)
  obtain q h' where t: "take_block n x y h = (q + 8, h')" and qdef: "q = fst (take_block n x y h) - 8" "h' = snd (take_block n x y h)"
    using take_block_spec [OF assms(2) f n] by (metis prod.collapse)
  obtain fs' where s: "ring h' fs'" "h_size h' q = n" "q \<in> area h (set fs)" "area h (set fs) = area h' (set fs') \<union> reg h' q"
      "area h' (set fs') \<inter> reg h' q = {}" "base h' = base h" "brk h' = brk h" "\<forall>z. z \<notin> set fs \<longrightarrow> z \<noteq> q \<longrightarrow> h_size h' z = h_size h z"
    using take_block_spec [OF assms(2) f n] unfolding qdef by blast
  have inA: "z \<in> area h L" if "z \<in> L" for z using that self_in_reg [of h z] H(3) by (auto simp: area_def)
  have fsA: "z \<in> area h (set fs)" if "z \<in> set fs" for z
    using that self_in_reg [of h z] assms(2) by (auto simp: area_def ring_def)
  have sz: "h_size h' z = h_size h z" if "z \<in> L" for z using s(3,8) inA [OF that] fsA [of z] assms(4) by blast
  have ar: "area h' L = area h L" by (rule area_cong) (rule sz)
  have qL: "q \<notin> L" using inA [of q] s(3) assms(4) by blast
  have dq: "reg h' q \<inter> area h' L = {}" using s(4) assms(4) ar by auto
  have "heap_ok h' (insert q L) A"
  proof (rule heap_okI [OF s(1)])
    show "area h' (set fs') \<union> area h' (insert q L) = A" using s(4) ar assms(3) by auto
    show "area h' (set fs') \<inter> area h' (insert q L) = {}" using s(4,5) ar assms(4) by auto
    show "\<forall>a\<in>insert q L. \<forall>b\<in>insert q L. a \<noteq> b \<longrightarrow> reg h' a \<inter> reg h' b = {}"
    proof (intro ballI impI)
      fix a b assume a: "a \<in> insert q L" "b \<in> insert q L" "a \<noteq> b"
      have r: "reg h' z = reg h z" "reg h' q \<inter> reg h' z = {}" if "z \<in> L" for z
        using reg_cong [OF sz [OF that]] dq that by (auto simp: area_def)
      from a r H(4) show "reg h' a \<inter> reg h' b = {}" by (cases "a = q"; cases "b = q") auto
    qed
  qed (use H s(2,6,7) n sz in auto)
  then show ?thesis using t qL s(2,7) sz by blast
qed

lemma unat_times8: "unat (nu :: u32) < 0x10000000 \<Longrightarrow> unat (nu * 8) = 8 * unat nu"
  by (simp add: unat_word_ariths)

lemma sint_pos32: "0 < unat (x :: u32) \<Longrightarrow> unat x < 0x80000000 \<Longrightarrow> 0 < sint x"
proof -
  assume "0 < unat x" "unat x < 0x80000000"
  then have "0 < uint x" "uint x < 2147483648" unfolding uint_nat by linarith+
  then show ?thesis by (simp add: sint32_uint)
qed

lemma ring_cong:
  assumes "ring h fs" "h_ptr h' = h_ptr h" "\<And>x. x \<in> set (base h # fs) \<Longrightarrow> h_size h' x = h_size h x" "freep h' = freep h" "base h' = base h"
  shows "ring h' fs"
proof -
  have "chain h' (base h) fs (base h) = chain h (base h) fs (base h)" using assms(2) by (intro chain_cong) simp
  moreover have "sorted_wrt (gap h') (base h # fs) = sorted_wrt (gap h) (base h # fs)" by (rule sorted_gap_cong) (rule assms(3))
  ultimately show ?thesis using assms unfolding ring_def by (metis list.set_intros)
qed

definition core_units :: "u32 \<Rightarrow> nat" where
  "core_units nu = max 4096 (unat nu)"

text \<open>\<open>morecore\<close> adds the new memory to the list, or the kernel has refused it.\<close>

lemma morecore_ok:
  assumes H: "heap_ok h L A" "freep h \<noteq> 0" and nu: "unat nu < 0x10000000"
  shows "if ok \<and> brk h + 8 * core_units nu < 0x80000000
    then \<exists>h' fs. morecore ok nu h = Some (Some (freep h'), h') \<and> heap_ok h' L (A \<union> {brk h..<brk h'}) \<and> brk h' = brk h + 8 * core_units nu \<and>
      ring h' fs \<and> area h' (set fs) \<union> area h' L = A \<union> {brk h..<brk h'} \<and> area h' (set fs) \<inter> area h' L = {} \<and>
      (\<forall>x\<in>L. h_size h' x = h_size h x) \<and> (\<exists>x\<in>set fs. unat nu \<le> h_size h' x)
    else morecore ok nu h = Some (None, h)"
proof -
  obtain fs where R: "ring h fs" "area h (set fs) \<union> area h L = A" "area h (set fs) \<inter> area h L = {}"
    "base h + 8 \<le> brk h" "A \<subseteq> {base h + 8..<brk h}" "\<forall>x\<in>L. 0 < h_size h x"
    "\<forall>x\<in>L. \<forall>y\<in>L. x \<noteq> y \<longrightarrow> reg h x \<inter> reg h y = {}" using heap_okD [OF H] by blast
  define mu where "mu = (if nu < 4096 then 4096 else nu)"
  have mu: "unat mu = core_units nu" by (auto simp: mu_def core_units_def word_less_nat_alt)
  have mu8: "unat (mu * 8) = 8 * core_units nu" "4096 \<le> core_units nu" "unat nu \<le> core_units nu"
    using unat_times8 [of mu] nu mu by (auto simp: core_units_def)
  have sb: "sbrk ok (mu * 8) h = (if ok \<and> brk h + 8 * core_units nu < 0x80000000 then (Some (brk h), h\<lparr>brk := brk h + 8 * core_units nu\<rparr>) else (None, h))"
  proof -
    have "0 < sint (mu * 8)" using sint_pos32 [of "mu * 8"] mu8 nu by (auto simp: core_units_def)
    then show ?thesis by (simp add: sbrk_def mu8)
  qed
  show ?thesis
  proof (cases "ok \<and> brk h + 8 * core_units nu < 0x80000000")
    case True
    define bp where "bp = brk h"
    define h1 where "h1 = h\<lparr>brk := bp + 8 * core_units nu, h_size := (h_size h)(bp := core_units nu)\<rparr>"
    have m: "morecore ok nu h = (case free (bp + 8) h1 of None \<Rightarrow> None | Some h2 \<Rightarrow> Some (Some (freep h2), h2))"
      using sb True mu by (simp add: morecore_def mu_def [symmetric] h1_def bp_def)
    have inA: "x < bp" if "x \<in> set fs \<union> L" for x
    proof -
      have "x \<in> reg h x" using that R(1,6) self_in_reg [of h x] by (auto simp: ring_def)
      then have "x \<in> A" using that R(2) by (auto simp: area_def)
      then show ?thesis using R(5) by (auto simp: bp_def)
    qed
    have sz: "h_size h1 x = h_size h x" if "x \<in> set (base h # fs) \<union> L" for x using that inA R(4) by (force simp: h1_def bp_def)
    have ring1: "ring h1 fs"
    proof (rule ring_cong [OF R(1)])
      show "h_size h1 x = h_size h x" if "x \<in> set (base h # fs)" for x using sz that by blast
    qed (simp_all add: h1_def)
    have ar: "area h1 (set fs) = area h (set fs)" "area h1 L = area h L" by (rule area_cong, simp add: sz)+
    have regbp: "reg h1 bp = {bp..<bp + 8 * core_units nu}" by (simp add: reg_def h1_def)
    have "reg h1 bp \<inter> area h1 (set fs) = {}" using R(2,5) ar regbp by (auto simp: bp_def)
    moreover have "base h1 < bp" "0 < h_size h1 bp" using R(4) mu8 by (simp_all add: h1_def bp_def)
    ultimately obtain h2 fs2 where f: "free (bp + 8) h1 = Some h2" "ring h2 fs2" "area h2 (set fs2) = reg h1 bp \<union> area h1 (set fs)"
      "base h2 = base h1" "brk h2 = brk h1" "\<forall>x. x \<notin> set fs \<longrightarrow> x \<noteq> bp \<longrightarrow> h_size h2 x = h_size h1 x" "\<exists>x\<in>set fs2. h_size h1 bp \<le> h_size h2 x"
      using free_spec [OF ring1, of bp] by blast
    have szL: "h_size h2 x = h_size h x" if "x \<in> L" for x
    proof -
      have "x \<notin> set fs"
      proof
        assume a: "x \<in> set fs"
        then have "x \<in> reg h x" using R(1) self_in_reg [of h x] by (auto simp: ring_def)
        then show False using a that R(3) by (auto simp: area_def)
      qed
      moreover have "x \<noteq> bp" using inA [of x] that by auto
      ultimately show ?thesis using f(6) sz that by auto
    qed
    have arL: "area h2 L = area h L" by (rule area_cong) (rule szL)
    have b2: "brk h2 = bp + 8 * core_units nu" using f(5) by (simp add: h1_def)
    have un: "area h2 (set fs2) \<union> area h2 L = A \<union> {brk h..<brk h2}" using f(3) arL ar regbp R(2) b2 by (auto simp: bp_def)
    have di: "area h2 (set fs2) \<inter> area h2 L = {}" using f(3) arL ar regbp R(2,3,5) by (auto simp: bp_def)
    have "heap_ok h2 L (A \<union> {brk h..<brk h2})"
    proof (rule heap_okI [OF f(2) un di])
      show "\<forall>x\<in>L. \<forall>y\<in>L. x \<noteq> y \<longrightarrow> reg h2 x \<inter> reg h2 y = {}" using R(7) reg_cong [OF szL] by auto
      show "base h2 + 8 \<le> brk h2" using R(4) f(4) b2 by (simp add: h1_def bp_def)
      show "A \<union> {brk h..<brk h2} \<subseteq> {base h2 + 8..<brk h2}" using R(4,5) f(4) b2 by (auto simp: h1_def bp_def)
      show "\<forall>x\<in>L. 0 < h_size h2 x" using R(6) szL by auto
    qed
    moreover have "\<exists>x\<in>set fs2. unat nu \<le> h_size h2 x" using f(7) mu8(3) by (auto simp: h1_def intro: order_trans)
    ultimately show ?thesis using True m f(1,2) un di szL b2 by (auto simp: bp_def)
  next
    case False
    then have "sbrk ok (mu * 8) h = (None, h)" unfolding sb by (rule if_not_P)
    then have "morecore ok nu h = Some (None, h)" by (simp add: morecore_def mu_def [symmetric])
    then show ?thesis unfolding if_not_P [OF False] .
  qed
qed

text \<open>\<open>malloc\<close> returns, with a block of its own, unless the kernel has refused memory.\<close>

lemma malloc_loop_ok:
  assumes H: "heap_ok h L A" "freep h \<noteq> 0" and n: "0 < unat n" "unat n < 0x10000000"
  shows "\<exists>r h'. malloc_loop ok n (freep h) (h_ptr h (freep h)) h = Some (r, h') \<and>
    (case r of None \<Rightarrow> heap_ok h' L (A \<union> {brk h..<brk h'}) \<and> \<not> (ok \<and> brk h + 8 * core_units n < 0x80000000)
     | Some ap \<Rightarrow> \<exists>q. ap = q + 8 \<and> q \<notin> L \<and> h_size h' q = unat n \<and> heap_ok h' (insert q L) (A \<union> {brk h..<brk h'})) \<and>
    brk h \<le> brk h' \<and> (\<forall>x\<in>L. h_size h' x = h_size h x)"
proof -
  obtain fs where R: "ring h fs" "area h (set fs) \<union> area h L = A" "area h (set fs) \<inter> area h L = {}" using heap_okD [OF H] by blast
  from malloc_search [OF R(1) n(1), of ok] show ?thesis
  proof (elim disjE exE conjE)
    fix us x y ws
    assume a: "base h # fs = us @ x # y # ws" "unat n \<le> h_size h y"
      "malloc_loop ok n (freep h) (h_ptr h (freep h)) h = Some (Some (fst (take_block (unat n) x y h)), snd (take_block (unat n) x y h))"
    then show ?thesis using take_ok [OF H(1) R a(1) n(1) a(2)] by auto
  next
    assume l: "malloc_loop ok n (freep h) (h_ptr h (freep h)) h = grow_then ok n h"
    show ?thesis
    proof (cases "ok \<and> brk h + 8 * core_units n < 0x80000000")
      case True
      then obtain h1 fs1 where m: "morecore ok n h = Some (Some (freep h1), h1)" "heap_ok h1 L (A \<union> {brk h..<brk h1})" "brk h1 = brk h + 8 * core_units n"
        "ring h1 fs1" "area h1 (set fs1) \<union> area h1 L = A \<union> {brk h..<brk h1}" "area h1 (set fs1) \<inter> area h1 L = {}"
        "\<forall>x\<in>L. h_size h1 x = h_size h x" "\<exists>x\<in>set fs1. unat n \<le> h_size h1 x"
        using morecore_ok [OF H n(2), of ok] unfolding if_P [OF True] by blast
      have g: "grow_then ok n h = malloc_loop ok n (freep h1) (h_ptr h1 (freep h1)) h1" by (simp add: grow_then_def m(1))
      have "\<not> (\<forall>x\<in>set fs1. h_size h1 x < unat n)" using m(8) by force
      with malloc_search [OF m(4) n(1), of ok] obtain us x y ws where a: "base h1 # fs1 = us @ x # y # ws" "unat n \<le> h_size h1 y"
        "malloc_loop ok n (freep h1) (h_ptr h1 (freep h1)) h1 = Some (Some (fst (take_block (unat n) x y h1)), snd (take_block (unat n) x y h1))" by blast
      obtain q h' where t: "take_block (unat n) x y h1 = (q + 8, h')" "heap_ok h' (insert q L) (A \<union> {brk h..<brk h1})" "q \<notin> L" "h_size h' q = unat n"
        "brk h' = brk h1" "\<forall>z\<in>L. h_size h' z = h_size h1 z" using take_ok [OF m(2,4,5,6) a(1) n(1) a(2)] by blast
      have "malloc_loop ok n (freep h) (h_ptr h (freep h)) h = Some (Some (q + 8), h')" using l g a(3) t(1) by simp
      then show ?thesis using t(2-6) m(3,7) by auto
    next
      case False
      then have "grow_then ok n h = Some (None, h)" using morecore_ok [OF H n(2), of ok] by (simp add: grow_then_def)
      then show ?thesis using l False H(1) by auto
    qed
  qed
qed

lemma nunits_bound: "unat n < 0x7FFFFFF0 \<Longrightarrow> 0 < unat (nunits n) \<and> unat (nunits n) < 0x10000000 \<and> unat n + 8 \<le> 8 * unat (nunits n)"
proof -
  assume a: "unat n < 0x7FFFFFF0"
  have "unat (n + 8 - 1) = unat n + 7" using a by (simp add: unat_word_ariths)
  then have "unat (nunits n) = (unat n + 7) div 8 + 1" using a by (simp add: nunits_def unat_word_ariths unat_div)
  then show ?thesis using a by linarith
qed

lemma malloc_ok:
  assumes H: "heap_ok h L A" and n: "unat n < 0x7FFFFFF0"
  shows "\<exists>r h'. malloc ok n h = Some (r, h') \<and>
    (case r of None \<Rightarrow> heap_ok h' L (A \<union> {brk h..<brk h'}) \<and> \<not> (ok \<and> brk h + 8 * core_units (nunits n) < 0x80000000)
     | Some ap \<Rightarrow> \<exists>q. ap = q + 8 \<and> q \<notin> L \<and> h_size h' q = unat (nunits n) \<and> heap_ok h' (insert q L) (A \<union> {brk h..<brk h'})) \<and>
    brk h \<le> brk h' \<and> (\<forall>x\<in>L. h_size h' x = h_size h x)"
proof -
  define h1 where "h1 = (if freep h = 0 then h\<lparr>h_ptr := (h_ptr h)(base h := base h), freep := base h, h_size := (h_size h)(base h := 0)\<rparr> else h)"
  have m: "malloc ok n h = malloc_loop ok (nunits n) (freep h1) (h_ptr h1 (freep h1)) h1" by (simp add: malloc_def h1_def Let_def)
  have "heap_ok h1 L A \<and> freep h1 \<noteq> 0 \<and> brk h1 = brk h \<and> (\<forall>x\<in>L. h_size h1 x = h_size h x)"
  proof (cases "freep h = 0")
    case True
    then have e: "L = {}" "A = {}" "0 < base h" "base h + 8 \<le> brk h" using H by (auto simp: heap_ok_def)
    have "ring h1 []" using True e by (simp add: ring_def h1_def)
    then have "heap_ok h1 {} {}" by (rule heap_okI) (use e True in \<open>simp_all add: h1_def\<close>)
    then show ?thesis using e True by (simp add: h1_def)
  qed (use H in \<open>simp add: h1_def\<close>)
  then have e: "heap_ok h1 L A" "freep h1 \<noteq> 0" "brk h1 = brk h" "\<forall>x\<in>L. h_size h1 x = h_size h x" by simp_all
  have n1: "0 < unat (nunits n)" "unat (nunits n) < 0x10000000" using nunits_bound [OF n] by simp_all
  show ?thesis using malloc_loop_ok [OF e(1,2) n1, of ok] e(4) unfolding m e(3) by (elim exE, intro exI) auto
qed

text \<open>What a program does with its heap: it allocates, frees blocks that are in use, writes into them (also
  where a header lies inside), and may ask the kernel for memory on its own.\<close>

inductive heap_step :: "heap \<times> nat set \<times> nat set \<Rightarrow> heap \<times> nat set \<times> nat set \<Rightarrow> bool" where
  alloc: "unat n < 0x7FFFFFF0 \<Longrightarrow> malloc ok n h = Some (Some (q + 8), h') \<Longrightarrow>
    heap_step (h, L, A) (h', insert q L, A \<union> {brk h..<brk h'})"
| refused: "unat n < 0x7FFFFFF0 \<Longrightarrow> malloc ok n h = Some (None, h') \<Longrightarrow> heap_step (h, L, A) (h', L, A \<union> {brk h..<brk h'})"
| frees: "q \<in> L \<Longrightarrow> free (q + 8) h = Some h' \<Longrightarrow> heap_step (h, L, A) (h', L - {q}, A)"
| store: "(\<And>x. {x..<x + 8} \<inter> (\<Union>q\<in>L. {q + 8..<q + 8 * h_size h q}) = {} \<Longrightarrow> P x = h_ptr h x \<and> S x = h_size h x) \<Longrightarrow>
    heap_step (h, L, A) (h\<lparr>h_ptr := P, h_size := S\<rparr>, L, A)"
| own: "brk h \<le> b \<Longrightarrow> heap_step (h, L, A) (h\<lparr>brk := b\<rparr>, L, A)"

inductive heap_use :: "heap \<times> nat set \<times> nat set \<Rightarrow> bool" where
  init: "freep h = 0 \<Longrightarrow> 0 < base h \<Longrightarrow> base h + 8 \<le> brk h \<Longrightarrow> heap_use (h, {}, {})"
| step: "heap_use s \<Longrightarrow> heap_step s t \<Longrightarrow> heap_use t"

lemma heap_ok_store:
  assumes H: "heap_ok h L A" and st: "\<And>x. {x..<x + 8} \<inter> (\<Union>q\<in>L. {q + 8..<q + 8 * h_size h q}) = {} \<Longrightarrow> P x = h_ptr h x \<and> S x = h_size h x"
  shows "heap_ok (h\<lparr>h_ptr := P, h_size := S\<rparr>) L A"
proof (cases "freep h = 0")
  case True
  then have e: "L = {}" "A = {}" using H by (auto simp: heap_ok_def)
  then show ?thesis using H True unfolding heap_ok_def by simp
next
  case False
  let ?h = "h\<lparr>h_ptr := P, h_size := S\<rparr>"
  obtain fs where R: "ring h fs" "area h (set fs) \<union> area h L = A" "area h (set fs) \<inter> area h L = {}"
    "base h + 8 \<le> brk h" "A \<subseteq> {base h + 8..<brk h}" "\<forall>x\<in>L. 0 < h_size h x"
    "\<forall>x\<in>L. \<forall>y\<in>L. x \<noteq> y \<longrightarrow> reg h x \<inter> reg h y = {}" using heap_okD [OF H False] by blast
  have pay: "{q + 8..<q + 8 * h_size h q} \<subseteq> area h L" if "q \<in> L" for q using that by (auto simp: area_def reg_def)
  have head: "{x..<x + 8} \<subseteq> reg h x" if "0 < h_size h x" for x using that by (auto simp: reg_def)
  have fr: "P x = h_ptr h x \<and> S x = h_size h x" if x: "x \<in> set (base h # fs) \<union> L" for x
  proof (rule st)
    have "{x..<x + 8} \<inter> {q + 8..<q + 8 * h_size h q} = {}" if q: "q \<in> L" for q
    proof (cases "x = q")
      case False
      consider "x = base h" | "x \<in> set fs" | "x \<in> L" using x by auto
      then show ?thesis
      proof cases
        case 1
        have "{q + 8..<q + 8 * h_size h q} \<subseteq> {base h + 8..<brk h}" using pay [OF q] R(2,5) by blast
        then show ?thesis using 1 by force
      next
        case 2
        then have "{x..<x + 8} \<subseteq> area h (set fs)" using R(1) head [of x] by (force simp: ring_def area_def)
        then show ?thesis using pay [OF q] R(3) by blast
      next
        case 3
        then have "reg h x \<inter> reg h q = {}" using R(7) q False by blast
        moreover have "{q + 8..<q + 8 * h_size h q} \<subseteq> reg h q" by (auto simp: reg_def)
        moreover have "{x..<x + 8} \<subseteq> reg h x" using head R(6) 3 by blast
        ultimately show ?thesis by blast
      qed
    qed auto
    then show "{x..<x + 8} \<inter> (\<Union>q\<in>L. {q + 8..<q + 8 * h_size h q}) = {}" by blast
  qed
  have P: "h_ptr ?h x = h_ptr h x" and S: "h_size ?h x = h_size h x" if "x \<in> set (base h # fs) \<union> L" for x
    using fr [OF that] by simp_all
  have ch: "chain ?h (base h) fs (base h) = chain h (base h) fs (base h)" by (rule chain_cong, rule P, blast)
  have so: "sorted_wrt (gap ?h) (base h # fs) = sorted_wrt (gap h) (base h # fs)" by (rule sorted_gap_cong, rule S, blast)
  have s0: "h_size ?h (base h) = h_size h (base h)" by (rule S) simp
  have sf: "\<forall>x\<in>set fs. 0 < h_size ?h x" using R(1) S by (auto simp: ring_def)
  have ring: "ring ?h fs" using R(1) ch so s0 sf by (simp add: ring_def)
  have ar: "area ?h (set fs) = area h (set fs)" by (rule area_cong, rule S) simp
  have aL: "area ?h L = area h L" by (rule area_cong, rule S) simp
  have rg: "reg ?h x = reg h x" if "x \<in> L" for x by (rule reg_cong, rule S) (use that in simp)
  have sL: "\<forall>x\<in>L. 0 < h_size ?h x" using R(6) S by auto
  show ?thesis by (rule heap_okI [OF ring]) (use R ar aL rg sL in \<open>simp_all\<close>)
qed

lemma heap_step_ok: "heap_step s t \<Longrightarrow> heap_ok (fst s) (fst (snd s)) (snd (snd s)) \<Longrightarrow> heap_ok (fst t) (fst (snd t)) (snd (snd t))"
proof (induction rule: heap_step.induct)
  case (alloc n ok h q h' L A)
  then show ?case using malloc_ok [of h L A n ok] by auto
next
  case (refused n ok h h' L A)
  then show ?case using malloc_ok [of h L A n ok] by auto
next
  case (frees q L h h' A)
  then show ?case using free_ok [of h L A q] by auto
next
  case store
  then show ?case using heap_ok_store [OF _ store(1)] by simp
next
  case (own h b L A)
  have r: "ring (h\<lparr>brk := b\<rparr>) fs = ring h fs" for fs
  proof
    show "ring h fs \<Longrightarrow> ring (h\<lparr>brk := b\<rparr>) fs" by (erule ring_cong) simp_all
    show "ring (h\<lparr>brk := b\<rparr>) fs \<Longrightarrow> ring h fs" by (erule ring_cong) simp_all
  qed
  have a: "area (h\<lparr>brk := b\<rparr>) X = area h X" for X by (rule area_cong) simp
  have g: "reg (h\<lparr>brk := b\<rparr>) x = reg h x" for x by (rule reg_cong) simp
  have H: "heap_ok h L A" using own(2) by simp
  then have "A \<subseteq> {base h + 8..<b}" "base h + 8 \<le> b" using own(1) unfolding heap_ok_def by force+
  then have "heap_ok (h\<lparr>brk := b\<rparr>) L A" using H unfolding heap_ok_def r a g by simp
  then show ?case by simp
qed

lemma heap_use_ok: "heap_use s \<Longrightarrow> heap_ok (fst s) (fst (snd s)) (snd (snd s))"
proof (induction rule: heap_use.induct)
  case (init h)
  then show ?case by (simp add: heap_ok_def)
next
  case (step s t)
  show ?case by (rule heap_step_ok [OF step(2,3)])
qed

text \<open>
  C10. The user allocator. However a program allocates, frees, fills its blocks and moves its break, the
  blocks in use never overlap and every byte obtained from the kernel belongs to exactly one block, in use or
  free, so nothing is lost. Freeing any block in use returns, and a request of less than two gigabytes returns:
  with a block that has room for it and overlaps no other, or with 0 when the kernel has refused memory.
\<close>

theorem umalloc_blocks_disjoint:
  assumes "heap_use (h, L, A)" "unat n < 0x7FFFFFF0"
  shows "(\<forall>x\<in>L. \<forall>y\<in>L. x \<noteq> y \<longrightarrow> reg h x \<inter> reg h y = {}) \<and>
    (L \<noteq> {} \<longrightarrow> (\<exists>fs. ring h fs \<and> area h (set fs) \<union> area h L = A \<and> area h (set fs) \<inter> area h L = {})) \<and>
    (\<forall>q\<in>L. \<exists>h'. free (q + 8) h = Some h') \<and>
    (\<exists>r h'. malloc ok n h = Some (r, h') \<and>
      (case r of
         None \<Rightarrow> \<not> (ok \<and> brk h + 8 * core_units (nunits n) < 0x80000000)
       | Some ap \<Rightarrow> {ap..<ap + unat n} \<subseteq> A \<union> {brk h..<brk h'} \<and> (\<forall>q\<in>L. {ap..<ap + unat n} \<inter> reg h q = {})))"
proof -
  have H: "heap_ok h L A" using heap_use_ok [OF assms(1)] by simp
  have 1: "\<forall>x\<in>L. \<forall>y\<in>L. x \<noteq> y \<longrightarrow> reg h x \<inter> reg h y = {}" using H by (simp add: heap_ok_def)
  have 2: "\<exists>fs. ring h fs \<and> area h (set fs) \<union> area h L = A \<and> area h (set fs) \<inter> area h L = {}" if "L \<noteq> {}"
  proof -
    have "freep h \<noteq> 0" using H that unfolding heap_ok_def by metis
    then show ?thesis using heap_okD [OF H] by blast
  qed
  have 3: "\<forall>q\<in>L. \<exists>h'. free (q + 8) h = Some h'" using free_ok [OF H] by blast
  obtain r h' where m: "malloc ok n h = Some (r, h')" "case r of None \<Rightarrow> heap_ok h' L (A \<union> {brk h..<brk h'}) \<and> \<not> (ok \<and> brk h + 8 * core_units (nunits n) < 0x80000000)
     | Some ap \<Rightarrow> \<exists>q. ap = q + 8 \<and> q \<notin> L \<and> h_size h' q = unat (nunits n) \<and> heap_ok h' (insert q L) (A \<union> {brk h..<brk h'})" "\<forall>x\<in>L. h_size h' x = h_size h x"
    using malloc_ok [OF H assms(2), of ok] by blast
  have "case r of
         None \<Rightarrow> \<not> (ok \<and> brk h + 8 * core_units (nunits n) < 0x80000000)
       | Some ap \<Rightarrow> {ap..<ap + unat n} \<subseteq> A \<union> {brk h..<brk h'} \<and> (\<forall>q\<in>L. {ap..<ap + unat n} \<inter> reg h q = {})"
  proof (cases r)
    case (Some ap)
    with m(2) obtain q where q: "ap = q + 8" "q \<notin> L" "h_size h' q = unat (nunits n)" "heap_ok h' (insert q L) (A \<union> {brk h..<brk h'})" by auto
    have sub: "{ap..<ap + unat n} \<subseteq> reg h' q" using nunits_bound [OF assms(2)] q(1,3) by (auto simp: reg_def)
    have fz: "freep h' \<noteq> 0" using q(4) unfolding heap_ok_def by (metis insert_not_empty)
    have "area h' (insert q L) \<subseteq> A \<union> {brk h..<brk h'}" by (rule heap_okD [OF q(4) fz]) blast
    moreover have "reg h' q \<inter> reg h x = {}" if "x \<in> L" for x
    proof -
      have "reg h' x = reg h x" using m(3) that by (intro reg_cong) auto
      moreover have "reg h' q \<inter> reg h' x = {}" using q(2,4) that by (auto simp: heap_ok_def)
      ultimately show ?thesis by simp
    qed
    ultimately show ?thesis using sub Some by auto
  qed (use m(2) in simp)
  with 1 2 3 m(1) show ?thesis by blast
qed

definition demo_heap :: heap where
  "demo_heap = \<lparr>h_ptr = \<lambda>_. 0, h_size = \<lambda>_. 0, freep = 0, brk = 0x4000, base = 0x1000\<rparr>"

theorem umalloc_blocks_disjoint_witness:
  "\<exists>r h'. malloc True 100 demo_heap = Some (r, h') \<and> r \<noteq> None"
proof -
  have "heap_use (demo_heap, {}, {})" by (rule heap_use.init) (simp_all add: demo_heap_def)
  from umalloc_blocks_disjoint [OF this, of 100 True] obtain r h' where "malloc True 100 demo_heap = Some (r, h')"
      "r = None \<Longrightarrow> \<not> brk demo_heap + 8 * core_units (nunits 100) < 0x80000000" by (auto split: option.splits)
  moreover have "brk demo_heap + 8 * core_units (nunits 100) < 0x80000000"
    by (simp add: demo_heap_def core_units_def nunits_def)
  ultimately show ?thesis by blast
qed

text \<open>Requests near the end of the address space wrap: the block returned has no byte behind its header.\<close>

lemma malloc_wraps: "nunits 0xFFFFFFFF = 1"
  by (simp add: nunits_def)

end
