(* ===== verification/Malloc_Ex.thy ===== *)
theory Malloc_Ex
  imports OS_Prelude
begin

text \<open>
  The two allocators of \<open>malloc-code\<close>: \<open>alloc.c\<close> hands out runs of 8-byte chunks of one page, \<open>ealloc.c\<close> runs of
  256-byte chunks of up to four pages. Each keeps a flag per chunk (true when it is free) and, at the first chunk of a
  block, its length. Pointers are offsets from the page in the first and addresses in the second; what \<open>mmap\<close>
  returns is an argument. The searches do not test that a run ends inside the array: in the first that is an access
  out of bounds, in the second, whose flags are one array of four rows, it goes on in the row of the next page.
\<close>

section \<open>Runs of chunks\<close>

text \<open>The inner loop of both \<open>alloc\<close>s: how many of the \<open>req\<close> chunks from \<open>i\<close> are free, up to the first that is not.\<close>

function run_loop :: "bool list \<Rightarrow> nat \<Rightarrow> int \<Rightarrow> nat \<Rightarrow> nat res" where
  "run_loop bm i req x =
     (if int x < req then
        if i + x \<ge> length bm then Inl OutOfBounds
        else if \<not> bm ! (i + x) then Inr x
        else run_loop bm i req (x + 1)
      else Inr x)"
  by pat_completeness auto
termination by (relation "measure (\<lambda>(bm, i, req, x). nat (req - int x))") auto

declare run_loop.simps [simp del]

primrec mark :: "bool \<Rightarrow> nat \<Rightarrow> nat \<Rightarrow> bool list \<Rightarrow> bool list" where
  "mark v i 0 bm = bm"
| "mark v i (Suc n) bm = (mark v i n bm)[i + n := v]"

section \<open>One page\<close>

definition MINALLOC :: int where "MINALLOC = 8"
definition NUM_ELE :: nat where "NUM_ELE = 512"

record arena =
  a_bits :: "bool list"
  a_many :: "nat list"
  a_mem :: "nat \<Rightarrow> u8"

definition init_alloc :: arena where
  "init_alloc = \<lparr>a_bits = replicate NUM_ELE True, a_many = replicate NUM_ELE 0, a_mem = \<lambda>_. 0\<rparr>"

function chunk_loop :: "int \<Rightarrow> nat \<Rightarrow> arena \<Rightarrow> (nat option \<times> arena) res" where
  "chunk_loop req i a =
     (if i < NUM_ELE then
        bindR (run_loop (a_bits a) i req 0) (\<lambda>x.
          if int x = req
          then Inr (Some (i * 8), a\<lparr>a_many := (a_many a)[i := a_many a ! i + x], a_bits := mark False i x (a_bits a)\<rparr>)
          else chunk_loop req (i + 1) a)
      else Inr (None, a))"
  by pat_completeness auto
termination by (relation "measure (\<lambda>(req, i, a). NUM_ELE - i)") auto

declare chunk_loop.simps [simp del]

text \<open>A size that is not a multiple of the chunk prints a message. (\<open>size % MINALLOC\<close> is zero exactly when \<open>mod\<close> is.)\<close>

definition alloc :: "int \<Rightarrow> arena \<Rightarrow> (nat option \<times> arena) res" where
  "alloc n a = (if n mod MINALLOC \<noteq> 0 then Inr (None, a) else chunk_loop (n div MINALLOC) 0 a)"

definition dealloc :: "nat \<Rightarrow> arena \<Rightarrow> arena res" where
  "dealloc pos a =
     (let chunk = pos div 8 in
      if chunk \<ge> NUM_ELE then Inl OutOfBounds
      else let x = a_many a ! chunk in
        Inr (a\<lparr>a_many := (a_many a)[chunk := 0],
               a_mem := (\<lambda>p. if pos \<le> p \<and> p < pos + x * 8 then 0 else a_mem a p),
               a_bits := mark True chunk x (a_bits a)\<rparr>))"

section \<open>Searching\<close>

lemma mark_length [simp]: "length (mark v i n bm) = length bm"
  by (induction n) auto

lemma nth_mark: "i + n \<le> length bm \<Longrightarrow> k < length bm \<Longrightarrow> mark v i n bm ! k = (if i \<le> k \<and> k < i + n then v else bm ! k)"
  by (induction n) (auto simp: nth_list_update)

lemma run_loop_spec:
  assumes "x \<le> n" "\<forall>j<x. i + j < length bm \<and> bm ! (i + j)"
  shows "(run_loop bm i (int n) x = Inr n \<and> (\<forall>j<n. i + j < length bm \<and> bm ! (i + j))) \<or>
    (\<exists>y<n. run_loop bm i (int n) x = Inr y \<and> i + y < length bm \<and> \<not> bm ! (i + y)) \<or>
    (run_loop bm i (int n) x = Inl OutOfBounds \<and> length bm < i + n \<and> (\<forall>k. i \<le> k \<longrightarrow> k < length bm \<longrightarrow> bm ! k))"
  using assms
proof (induction "n - x" arbitrary: x)
  case 0
  then have "n = x" by simp
  then show ?case using 0 by (simp add: run_loop.simps [of bm i "int x" x])
next
  case (Suc m)
  then have xn: "x < n" by simp
  show ?case
  proof (cases "i + x \<ge> length bm")
    case True
    have "bm ! k" if "i \<le> k" "k < length bm" for k using Suc.prems(2) [rule_format, of "k - i"] that True by auto
    then show ?thesis using True xn by (simp add: run_loop.simps [of bm i "int n" x])
  next
    case False
    show ?thesis
    proof (cases "bm ! (i + x)")
      case True
      have "m = n - (x + 1)" "x + 1 \<le> n" "\<forall>j<x + 1. i + j < length bm \<and> bm ! (i + j)"
        using Suc xn False True by (auto simp: less_Suc_eq)
      from Suc.hyps(1) [OF this] show ?thesis
        using False True xn by (simp add: run_loop.simps [of bm i "int n" x])
    qed (use False xn in \<open>auto simp: run_loop.simps [of bm i "int n" x]\<close>)
  qed
qed

definition fits :: "bool list \<Rightarrow> nat \<Rightarrow> nat \<Rightarrow> bool" where
  "fits bm i n \<longleftrightarrow> i + n \<le> length bm \<and> (\<forall>j<n. bm ! (i + j))"

text \<open>First fit, or no room, or a free end of the page that is too short.\<close>

lemma chunk_loop_spec:
  assumes "length (a_bits a) = NUM_ELE" "0 < n" "\<forall>i'<i. \<not> fits (a_bits a) i' n"
  shows "case chunk_loop (int n) i a of
      Inl e \<Rightarrow> e = OutOfBounds \<and> a_bits a ! (NUM_ELE - 1) \<and> (\<forall>i'. \<not> fits (a_bits a) i' n)
    | Inr (None, a') \<Rightarrow> a' = a \<and> (\<forall>i'. \<not> fits (a_bits a) i' n)
    | Inr (Some p, a') \<Rightarrow> \<exists>s. p = s * 8 \<and> fits (a_bits a) s n \<and> (\<forall>i' < s. \<not> fits (a_bits a) i' n) \<and>
        a' = a\<lparr>a_many := (a_many a)[s := a_many a ! s + n], a_bits := mark False s n (a_bits a)\<rparr>"
  using assms
proof (induction "NUM_ELE - i" arbitrary: i)
  case 0
  then have "\<not> fits (a_bits a) i' n" for i' by (cases "i' < i") (auto simp: fits_def)
  then show ?case using 0 by (simp add: chunk_loop.simps [of "int n" i a])
next
  case (Suc m)
  then have i: "i < NUM_ELE" by simp
  let ?bm = "a_bits a"
  have "(run_loop ?bm i (int n) 0 = Inr n \<and> (\<forall>j<n. i + j < length ?bm \<and> ?bm ! (i + j))) \<or>
    (\<exists>y<n. run_loop ?bm i (int n) 0 = Inr y \<and> i + y < length ?bm \<and> \<not> ?bm ! (i + y)) \<or>
    (run_loop ?bm i (int n) 0 = Inl OutOfBounds \<and> length ?bm < i + n \<and> (\<forall>k. i \<le> k \<longrightarrow> k < length ?bm \<longrightarrow> ?bm ! k))"
    by (rule run_loop_spec) auto
  then show ?case
  proof (elim disjE exE conjE)
    assume r: "run_loop ?bm i (int n) 0 = Inr n" "\<forall>j<n. i + j < length ?bm \<and> ?bm ! (i + j)"
    have "i + (n - 1) < length ?bm" using r(2) [rule_format, of "n - 1"] Suc.prems(2) by simp
    then have "fits ?bm i n" using r(2) Suc.prems(2) by (simp add: fits_def)
    then show ?thesis using r(1) i Suc.prems by (simp add: chunk_loop.simps [of "int n" i a])
  next
    fix y assume r: "y < n" "run_loop ?bm i (int n) 0 = Inr y" "i + y < length ?bm" "\<not> ?bm ! (i + y)"
    then have "\<not> fits ?bm i n" by (auto simp: fits_def)
    then have "\<forall>i'<i + 1. \<not> fits ?bm i' n" using Suc.prems(3) by (auto simp: less_Suc_eq)
    moreover have "chunk_loop (int n) i a = chunk_loop (int n) (i + 1) a" using r i by (simp add: chunk_loop.simps [of "int n" i a])
    moreover have "m = NUM_ELE - (i + 1)" using Suc.hyps(2) by simp
    ultimately show ?thesis using Suc.hyps(1) [of "i + 1"] Suc.prems(1,2) by simp
  next
    assume r: "run_loop ?bm i (int n) 0 = Inl OutOfBounds" "length ?bm < i + n" "\<forall>k. i \<le> k \<longrightarrow> k < length ?bm \<longrightarrow> ?bm ! k"
    have "\<not> fits ?bm i' n" for i' using r(2) Suc.prems(3) by (cases "i' < i") (auto simp: fits_def)
    moreover have "?bm ! (NUM_ELE - 1)" using r(3) i Suc.prems(1) by simp
    ultimately show ?thesis using r(1) i by (simp add: chunk_loop.simps [of "int n" i a])
  qed
qed

section \<open>Blocks\<close>

definition chunks :: "arena \<Rightarrow> nat \<Rightarrow> nat set" where
  "chunks a i = {i..<i + a_many a ! i}"

text \<open>The blocks lie in the page and apart from each other, a chunk is free exactly when it is in none of them, and
  the bytes of free chunks are zero.\<close>

definition arena_ok :: "arena \<Rightarrow> bool" where
  "arena_ok a \<longleftrightarrow> length (a_bits a) = NUM_ELE \<and> length (a_many a) = NUM_ELE \<and>
     (\<forall>i<NUM_ELE. i + a_many a ! i \<le> NUM_ELE) \<and>
     (\<forall>i<NUM_ELE. \<forall>j<NUM_ELE. i \<noteq> j \<longrightarrow> chunks a i \<inter> chunks a j = {}) \<and>
     (\<forall>k<NUM_ELE. a_bits a ! k \<longleftrightarrow> (\<forall>i<NUM_ELE. k \<notin> chunks a i)) \<and>
     (\<forall>p<NUM_ELE * 8. a_bits a ! (p div 8) \<longrightarrow> a_mem a p = 0)"

inductive arena_step :: "arena \<Rightarrow> arena \<Rightarrow> bool" where
  gets: "alloc n a = Inr (r, a') \<Longrightarrow> arena_step a a'"
| gives: "i < NUM_ELE \<Longrightarrow> 0 < a_many a ! i \<Longrightarrow> dealloc (i * 8) a = Inr a' \<Longrightarrow> arena_step a a'"
| stores: "i < NUM_ELE \<Longrightarrow> p div 8 \<in> chunks a i \<Longrightarrow> arena_step a (a\<lparr>a_mem := (a_mem a)(p := v)\<rparr>)"

inductive arena_use :: "arena \<Rightarrow> bool" where
  start: "arena_use init_alloc"
| step: "arena_use a \<Longrightarrow> arena_step a a' \<Longrightarrow> arena_use a'"

lemma arena_okD:
  assumes "arena_ok a"
  shows "length (a_bits a) = NUM_ELE" "length (a_many a) = NUM_ELE" "i < NUM_ELE \<Longrightarrow> i + a_many a ! i \<le> NUM_ELE"
    "i < NUM_ELE \<Longrightarrow> j < NUM_ELE \<Longrightarrow> i \<noteq> j \<Longrightarrow> chunks a i \<inter> chunks a j = {}"
    "k < NUM_ELE \<Longrightarrow> a_bits a ! k \<longleftrightarrow> (\<forall>i<NUM_ELE. k \<notin> chunks a i)"
    "p < NUM_ELE * 8 \<Longrightarrow> a_bits a ! (p div 8) \<Longrightarrow> a_mem a p = 0"
  using assms unfolding arena_ok_def by blast+

lemma init_ok: "arena_ok init_alloc"
  by (simp add: arena_ok_def init_alloc_def chunks_def)

lemma take_run_ok:
  assumes a: "arena_ok a" and f: "fits (a_bits a) s n" "0 < n"
  defines "a' \<equiv> a\<lparr>a_many := (a_many a)[s := a_many a ! s + n], a_bits := mark False s n (a_bits a)\<rparr>"
  shows "a_many a ! s = 0" "arena_ok a'"
proof -
  note A = arena_okD [OF a]
  have s: "s + n \<le> NUM_ELE" "s < NUM_ELE" using f A(1) by (auto simp: fits_def)
  have free: "s \<le> k \<Longrightarrow> k < s + n \<Longrightarrow> a_bits a ! k" for k using f(1) by (auto simp: fits_def dest: spec [of _ "k - s"])
  show z: "a_many a ! s = 0"
  proof (rule ccontr)
    assume "a_many a ! s \<noteq> 0"
    then have "s \<in> chunks a s" by (simp add: chunks_def)
    then show False using A(5) [OF s(2)] free [of s] f(2) s(2) by auto
  qed
  have ch: "chunks a' i = (if i = s then {s..<s + n} else chunks a i)" if "i < NUM_ELE" for i
    using that A(2) z s by (auto simp: chunks_def a'_def)
  have bits: "a_bits a' ! k = (if s \<le> k \<and> k < s + n then False else a_bits a ! k)" if "k < NUM_ELE" for k
    using that A(1) s by (simp add: a'_def nth_mark)
  have apart: "chunks a i \<inter> {s..<s + n} = {}" if "i < NUM_ELE" for i
    using A(5) free s that by (meson atLeastLessThan_iff disjoint_iff less_le_trans)
  show "arena_ok a'"
    unfolding arena_ok_def
  proof (intro conjI allI impI)
    show "length (a_bits a') = NUM_ELE" "length (a_many a') = NUM_ELE" using A(1,2) by (simp_all add: a'_def)
    show "i + a_many a' ! i \<le> NUM_ELE" if "i < NUM_ELE" for i using that A(2) A(3) [OF that] z s by (cases "i = s") (auto simp: a'_def)
    show "chunks a' i \<inter> chunks a' j = {}" if "i < NUM_ELE" "j < NUM_ELE" "i \<noteq> j" for i j
      using that ch apart A(4) [OF that] by (auto simp: Int_commute)
    show "a_bits a' ! k \<longleftrightarrow> (\<forall>i<NUM_ELE. k \<notin> chunks a' i)" if "k < NUM_ELE" for k
    proof (cases "s \<le> k \<and> k < s + n")
      case True
      then have "k \<in> chunks a' s" using ch [OF s(2)] by simp
      then show ?thesis using bits [OF that] True s(2) by auto
    next
      case False
      have "k \<in> chunks a' i \<longleftrightarrow> k \<in> chunks a i" if "i < NUM_ELE" for i
        using ch [OF that] False by (auto simp: chunks_def [of a s] z)
      then show ?thesis using bits [OF that] A(5) [OF that] False by auto
    qed
    show "a_mem a' p = 0" if "p < NUM_ELE * 8" "a_bits a' ! (p div 8)" for p
    proof -
      have "p div 8 < NUM_ELE" using that(1) by (simp add: less_mult_imp_div_less)
      then show ?thesis using that bits [of "p div 8"] A(6) [of p] by (auto simp: a'_def split: if_splits)
    qed
  qed
qed

lemma alloc_ok:
  assumes a: "arena_ok a" and n: "0 < n"
  shows "case alloc (int n * MINALLOC) a of
      Inl e \<Rightarrow> e = OutOfBounds \<and> a_bits a ! (NUM_ELE - 1) \<and> (\<forall>i. \<not> fits (a_bits a) i n)
    | Inr (None, a') \<Rightarrow> a' = a \<and> (\<forall>i. \<not> fits (a_bits a) i n)
    | Inr (Some p, a') \<Rightarrow> \<exists>s. p = s * 8 \<and> s + n \<le> NUM_ELE \<and> fits (a_bits a) s n \<and> (\<forall>i < s. \<not> fits (a_bits a) i n) \<and>
        chunks a' s = {s..<s + n} \<and> chunks a s = {} \<and> (\<forall>q. p \<le> q \<and> q < p + n * 8 \<longrightarrow> a_mem a' q = 0) \<and>
        (\<forall>i<NUM_ELE. i \<noteq> s \<longrightarrow> chunks a' i = chunks a i) \<and> arena_ok a'"
proof -
  note A = arena_okD [OF a]
  have al: "alloc (int n * MINALLOC) a = chunk_loop (int n) 0 a" by (simp add: alloc_def MINALLOC_def)
  have L: "case chunk_loop (int n) 0 a of
      Inl e \<Rightarrow> e = OutOfBounds \<and> a_bits a ! (NUM_ELE - 1) \<and> (\<forall>i'. \<not> fits (a_bits a) i' n)
    | Inr (None, a') \<Rightarrow> a' = a \<and> (\<forall>i'. \<not> fits (a_bits a) i' n)
    | Inr (Some p, a') \<Rightarrow> \<exists>s. p = s * 8 \<and> fits (a_bits a) s n \<and> (\<forall>i' < s. \<not> fits (a_bits a) i' n) \<and>
        a' = a\<lparr>a_many := (a_many a)[s := a_many a ! s + n], a_bits := mark False s n (a_bits a)\<rparr>"
    using chunk_loop_spec [OF A(1) n, of 0] by simp
  have S: "p = s * 8 \<Longrightarrow> fits (a_bits a) s n \<Longrightarrow> a' = a\<lparr>a_many := (a_many a)[s := a_many a ! s + n], a_bits := mark False s n (a_bits a)\<rparr> \<Longrightarrow>
     s + n \<le> NUM_ELE \<and> chunks a' s = {s..<s + n} \<and> chunks a s = {} \<and> (\<forall>q. p \<le> q \<and> q < p + n * 8 \<longrightarrow> a_mem a' q = 0) \<and>
     (\<forall>i<NUM_ELE. i \<noteq> s \<longrightarrow> chunks a' i = chunks a i) \<and> arena_ok a'" for p s a'
  proof -
    assume p: "p = s * 8" and f: "fits (a_bits a) s n" and a': "a' = a\<lparr>a_many := (a_many a)[s := a_many a ! s + n], a_bits := mark False s n (a_bits a)\<rparr>"
    note T = take_run_ok [OF a f n, folded a']
    have s: "s + n \<le> NUM_ELE" "s < NUM_ELE" using f n A(1) by (auto simp: fits_def)
    have "a_mem a q = 0" if "p \<le> q" "q < p + n * 8" for q
    proof (rule A(6))
      have "s \<le> q div 8" "q div 8 < s + n" using that p by auto
      then show "a_bits a ! (q div 8)" using f by (auto simp: fits_def dest: spec [of _ "q div 8 - s"])
      show "q < NUM_ELE * 8" using that p s by simp
    qed
    then show ?thesis using T s A(2) by (auto simp: chunks_def a')
  qed
  show ?thesis
  proof (cases "chunk_loop (int n) 0 a")
    case (Inl e)
    then show ?thesis using L al by simp
  next
    case (Inr y)
    obtain r a' where y: "y = (r, a')" by (cases y)
    show ?thesis
    proof (cases r)
      case None
      then show ?thesis using L al Inr y by simp
    next
      case (Some p)
      then obtain s where s: "p = s * 8" "fits (a_bits a) s n" "\<forall>i' < s. \<not> fits (a_bits a) i' n"
        "a' = a\<lparr>a_many := (a_many a)[s := a_many a ! s + n], a_bits := mark False s n (a_bits a)\<rparr>"
        using L Inr y by auto
      have "alloc (int n * MINALLOC) a = Inr (Some p, a')" using al Inr y Some by simp
      then show ?thesis using s(1-3) S [OF s(1,2,4)] by auto
    qed
  qed
qed

lemma dealloc_ok:
  assumes a: "arena_ok a" and i: "i < NUM_ELE"
  shows "\<exists>a'. dealloc (i * 8) a = Inr a' \<and> arena_ok a' \<and> chunks a' i = {} \<and> (\<forall>j<NUM_ELE. j \<noteq> i \<longrightarrow> chunks a' j = chunks a j) \<and>
    (\<forall>k<NUM_ELE. a_bits a' ! k \<longleftrightarrow> a_bits a ! k \<or> k \<in> chunks a i)"
proof -
  note A = arena_okD [OF a]
  define x where "x = a_many a ! i"
  define a' where "a' = a\<lparr>a_many := (a_many a)[i := 0], a_mem := (\<lambda>p. if i * 8 \<le> p \<and> p < i * 8 + x * 8 then 0 else a_mem a p),
     a_bits := mark True i x (a_bits a)\<rparr>"
  have d: "dealloc (i * 8) a = Inr a'" using i by (simp add: dealloc_def a'_def x_def Let_def)
  have x: "i + x \<le> NUM_ELE" using A(3) [OF i] by (simp add: x_def)
  have ch: "chunks a' j = (if j = i then {} else chunks a j)" if "j < NUM_ELE" for j
    using that A(2) i by (auto simp: chunks_def a'_def)
  have ci: "k \<in> chunks a i \<longleftrightarrow> i \<le> k \<and> k < i + x" for k by (auto simp: chunks_def x_def)
  have bits: "a_bits a' ! k \<longleftrightarrow> a_bits a ! k \<or> k \<in> chunks a i" if "k < NUM_ELE" for k
    using that A(1) x ci by (auto simp: a'_def nth_mark)
  have "arena_ok a'"
    unfolding arena_ok_def
  proof (intro conjI allI impI)
    show "length (a_bits a') = NUM_ELE" "length (a_many a') = NUM_ELE" using A(1,2) by (simp_all add: a'_def)
    show "j + a_many a' ! j \<le> NUM_ELE" if "j < NUM_ELE" for j using that A(2) A(3) [OF that] by (cases "j = i") (auto simp: a'_def)
    show "chunks a' j \<inter> chunks a' l = {}" if "j < NUM_ELE" "l < NUM_ELE" "j \<noteq> l" for j l using that ch A(4) [OF that] by auto
    show "a_bits a' ! k \<longleftrightarrow> (\<forall>j<NUM_ELE. k \<notin> chunks a' j)" if k: "k < NUM_ELE" for k
    proof
      assume "a_bits a' ! k"
      then consider "\<forall>j<NUM_ELE. k \<notin> chunks a j" | "k \<in> chunks a i" using bits [OF k] A(5) [OF k] by blast
      then show "\<forall>j<NUM_ELE. k \<notin> chunks a' j"
      proof cases
        case 2
        then have "k \<notin> chunks a j" if "j < NUM_ELE" "j \<noteq> i" for j using A(4) [OF that(1) i that(2)] by blast
        then show ?thesis using ch by auto
      qed (use ch in auto)
    next
      assume "\<forall>j<NUM_ELE. k \<notin> chunks a' j"
      then have "k \<notin> chunks a j" if "j < NUM_ELE" "j \<noteq> i" for j using ch that by auto
      then show "a_bits a' ! k" using bits [OF k] A(5) [OF k] by blast
    qed
    show "a_mem a' p = 0" if p: "p < NUM_ELE * 8" "a_bits a' ! (p div 8)" for p
    proof (cases "i * 8 \<le> p \<and> p < i * 8 + x * 8")
      case False
      then have "p div 8 \<notin> chunks a i" unfolding ci by auto
      moreover have "p div 8 < NUM_ELE" using p(1) by auto
      ultimately have "a_bits a ! (p div 8)" using p(2) bits by blast
      then show ?thesis using A(6) [OF p(1)] False by (simp add: a'_def)
    qed (simp add: a'_def)
  qed
  then show ?thesis using d ch i bits by auto
qed

lemma arena_step_ok: "arena_step a a' \<Longrightarrow> arena_ok a \<Longrightarrow> arena_ok a'"
proof (induction rule: arena_step.induct)
  case (gets n a r a')
  show ?case
  proof (cases "n mod MINALLOC = 0 \<and> 0 < n")
    case True
    then obtain m where "n = int m * MINALLOC" "0 < m"
      by (metis MINALLOC_def mod_0_imp_dvd dvd_div_mult_self zero_less_imp_eq_int pos_imp_zdiv_pos_iff zdvd_imp_le zero_less_numeral)
    then show ?thesis using alloc_ok [OF gets(2), of m] gets by (auto split: option.splits)
  next
    case False
    show ?thesis
    proof (cases "n mod MINALLOC = 0")
      case True
      define q where "q = n div MINALLOC"
      have q: "q \<le> 0" using False True by (auto simp: q_def MINALLOC_def)
      have r0: "run_loop bm i q 0 = Inr 0" for bm i using q by (simp add: run_loop.simps [of bm i q 0])
      have al: "alloc n a = chunk_loop q 0 a" using True by (simp add: alloc_def q_def)
      show ?thesis
      proof (cases "q = 0")
        case True
        have "chunk_loop 0 0 a = Inr (Some 0, a\<lparr>a_many := (a_many a)[0 := a_many a ! 0], a_bits := a_bits a\<rparr>)"
          using r0 True by (simp add: chunk_loop.simps [of 0 0 a] NUM_ELE_def)
        then have "a' = a" using gets(1) al True by simp
        then show ?thesis using gets(2) by simp
      next
        case False
        have "chunk_loop q i a = Inr (None, a)" for i
        proof (induction "NUM_ELE - i" arbitrary: i)
          case (Suc m)
          then have "m = NUM_ELE - (i + 1)" by simp
          then show ?case using Suc.hyps(1) [of "i + 1"] r0 False q by (simp add: chunk_loop.simps [of q i a])
        qed (simp add: chunk_loop.simps)
        then show ?thesis using gets al by simp
      qed
    qed (use gets in \<open>simp add: alloc_def\<close>)
  qed
next
  case (gives i a a')
  then show ?case using dealloc_ok [of a i] by auto
next
  case (stores i p a v)
  note A = arena_okD [OF stores(3)]
  have "chunks (a\<lparr>a_mem := m\<rparr>) j = chunks a j" for m j by (simp add: chunks_def)
  moreover have "\<not> a_bits a ! (p div 8)" if "p < NUM_ELE * 8"
    using A(5) [of "p div 8"] stores(1,2) that by auto
  ultimately show ?case using A unfolding arena_ok_def by auto
qed

lemma arena_use_ok: "arena_use a \<Longrightarrow> arena_ok a"
  by (induction rule: arena_use.induct) (auto intro: init_ok arena_step_ok)

text \<open>
  C25. The page allocator. In every state that calls of \<open>alloc\<close>, calls of \<open>dealloc\<close> on blocks and stores into
  blocks lead to, the blocks are disjoint and a chunk is free exactly when no block has it. A request for \<open>n\<close>
  chunks takes the first \<open>n\<close> free chunks in a row, gives memory that is zero and leaves all other blocks alone; it fails
  without any change when no such run exists, except that it reads past the array of flags when a free end of the page
  is too short. Giving a block back frees exactly its chunks.
\<close>

theorem alloc_first_fit:
  assumes "arena_use a" "0 < n" "b < NUM_ELE"
  shows "(case alloc (int n * MINALLOC) a of
      Inl e \<Rightarrow> e = OutOfBounds \<and> a_bits a ! (NUM_ELE - 1) \<and> (\<forall>i. \<not> fits (a_bits a) i n)
    | Inr (None, a') \<Rightarrow> a' = a \<and> (\<forall>i. \<not> fits (a_bits a) i n)
    | Inr (Some p, a') \<Rightarrow> \<exists>s. p = s * 8 \<and> s + n \<le> NUM_ELE \<and> fits (a_bits a) s n \<and> (\<forall>i < s. \<not> fits (a_bits a) i n) \<and>
        chunks a' s = {s..<s + n} \<and> chunks a s = {} \<and> (\<forall>q. p \<le> q \<and> q < p + n * 8 \<longrightarrow> a_mem a' q = 0) \<and>
        (\<forall>i<NUM_ELE. i \<noteq> s \<longrightarrow> chunks a' i = chunks a i)) \<and>
    (\<forall>i<NUM_ELE. \<forall>j<NUM_ELE. i \<noteq> j \<longrightarrow> chunks a i \<inter> chunks a j = {}) \<and>
    (\<forall>k<NUM_ELE. a_bits a ! k \<longleftrightarrow> (\<forall>i<NUM_ELE. k \<notin> chunks a i)) \<and>
    (\<exists>a'. dealloc (b * 8) a = Inr a' \<and> chunks a' b = {} \<and> (\<forall>j<NUM_ELE. j \<noteq> b \<longrightarrow> chunks a' j = chunks a j) \<and>
      (\<forall>k<NUM_ELE. a_bits a' ! k \<longleftrightarrow> a_bits a ! k \<or> k \<in> chunks a b))"
proof -
  have a: "arena_ok a" by (rule arena_use_ok [OF assms(1)])
  have 1: "case alloc (int n * MINALLOC) a of
      Inl e \<Rightarrow> e = OutOfBounds \<and> a_bits a ! (NUM_ELE - 1) \<and> (\<forall>i. \<not> fits (a_bits a) i n)
    | Inr (None, a') \<Rightarrow> a' = a \<and> (\<forall>i. \<not> fits (a_bits a) i n)
    | Inr (Some p, a') \<Rightarrow> \<exists>s. p = s * 8 \<and> s + n \<le> NUM_ELE \<and> fits (a_bits a) s n \<and> (\<forall>i < s. \<not> fits (a_bits a) i n) \<and>
        chunks a' s = {s..<s + n} \<and> chunks a s = {} \<and> (\<forall>q. p \<le> q \<and> q < p + n * 8 \<longrightarrow> a_mem a' q = 0) \<and>
        (\<forall>i<NUM_ELE. i \<noteq> s \<longrightarrow> chunks a' i = chunks a i)"
    using alloc_ok [OF a assms(2)] by (auto split: sum.splits prod.splits option.splits)
  have 2: "\<forall>i<NUM_ELE. \<forall>j<NUM_ELE. i \<noteq> j \<longrightarrow> chunks a i \<inter> chunks a j = {}"
    and 3: "\<forall>k<NUM_ELE. a_bits a ! k \<longleftrightarrow> (\<forall>i<NUM_ELE. k \<notin> chunks a i)" using a by (simp_all add: arena_ok_def)
  have 4: "\<exists>a'. dealloc (b * 8) a = Inr a' \<and> chunks a' b = {} \<and> (\<forall>j<NUM_ELE. j \<noteq> b \<longrightarrow> chunks a' j = chunks a j) \<and>
      (\<forall>k<NUM_ELE. a_bits a' ! k \<longleftrightarrow> a_bits a ! k \<or> k \<in> chunks a b)" using dealloc_ok [OF a assms(3)] by blast
  show ?thesis by (intro conjI 1 2 3 4)
qed

theorem alloc_first_fit_witness:
  "\<exists>a'. alloc 24 init_alloc = Inr (Some 0, a') \<and> chunks a' 0 = {0..<3}"
proof -
  have n: "0 < (3 :: nat)" "0 < NUM_ELE" by (simp_all add: NUM_ELE_def)
  have f: "fits (a_bits init_alloc) 0 3" by (auto simp: fits_def init_alloc_def NUM_ELE_def)
  from alloc_first_fit [OF arena_use.start n, THEN conjunct1] have
    "\<exists>a' s. alloc (int 3 * MINALLOC) init_alloc = Inr (Some (s * 8), a') \<and> (\<forall>i < s. \<not> fits (a_bits init_alloc) i 3) \<and> chunks a' s = {s..<s + 3}"
    using f by (auto split: sum.splits prod.splits option.splits)
  then obtain a' s where "alloc (int 3 * MINALLOC) init_alloc = Inr (Some (s * 8), a')" "\<forall>i < s. \<not> fits (a_bits init_alloc) i 3" "chunks a' s = {s..<s + 3}"
    by blast
  moreover from this(2) f have "s = 0" by (cases s) auto
  ultimately show ?thesis by (simp add: MINALLOC_def)
qed

section \<open>Four pages\<close>

text \<open>The row of page \<open>j\<close> starts at \<open>16 * j\<close>. A page holds the address that \<open>mmap\<close> gave, also when that was
  \<open>MAP_FAILED\<close>, which is -1.\<close>

definition MAX_PAGES :: nat where "MAX_PAGES = 4"
definition ROW :: nat where "ROW = 16"

record earena =
  e_used :: nat
  e_bits :: "bool list"
  e_many :: "nat list"
  e_ptr :: "int list"
  e_mem :: "int \<Rightarrow> u8"

definition einit_alloc :: "earena \<Rightarrow> earena" where
  "einit_alloc a = a\<lparr>e_bits := replicate 64 True, e_many := replicate 64 0, e_ptr := replicate 4 0, e_used := 0\<rparr>"

definition ecleanup :: "earena \<Rightarrow> earena" where
  "ecleanup a = a\<lparr>e_bits := replicate 64 True, e_many := replicate 64 0\<rparr>"

text \<open>The loop over the chunks of one page.\<close>

function epage_loop :: "int \<Rightarrow> nat \<Rightarrow> nat \<Rightarrow> earena \<Rightarrow> (int option \<times> earena) res" where
  "epage_loop req j i a =
     (if i < ROW then
        bindR (run_loop (e_bits a) (ROW * j + i) req 0) (\<lambda>x.
          if int x = req
          then Inr (Some (e_ptr a ! j + int i * 256),
                 a\<lparr>e_many := (e_many a)[ROW * j + i := e_many a ! (ROW * j + i) + x], e_bits := mark False (ROW * j + i) x (e_bits a)\<rparr>)
          else epage_loop req j (i + 1) a)
      else Inr (None, a))"
  by pat_completeness auto
termination by (relation "measure (\<lambda>(req, j, i, a). ROW - i)") auto

declare epage_loop.simps [simp del]

text \<open>The loop over the pages in use.\<close>

function eused_loop :: "int \<Rightarrow> nat \<Rightarrow> earena \<Rightarrow> (int option \<times> earena) res" where
  "eused_loop req j a =
     (if j < e_used a then
        bindR (epage_loop req j 0 a) (\<lambda>(r, a1).
          case r of Some p \<Rightarrow> Inr (Some p, a1) | None \<Rightarrow> eused_loop req (j + 1) a)
      else Inr (None, a))"
  by pat_completeness auto
termination by (relation "measure (\<lambda>(req, j, a). e_used a - j)") auto

declare eused_loop.simps [simp del]

text \<open>With all pages in use the function ends without a value.\<close>

definition ealloc :: "int \<Rightarrow> int \<Rightarrow> earena \<Rightarrow> (int option \<times> earena) res" where
  "ealloc mapped n a =
     (if n mod 256 \<noteq> 0 then Inr (None, a)
      else let req = n div 256 in
        bindR (eused_loop req 0 a) (\<lambda>(r, a1).
          case r of
            Some p \<Rightarrow> Inr (Some p, a1)
          | None \<Rightarrow>
              let j = e_used a1 in
              if j < MAX_PAGES then
                let a2 = a1\<lparr>e_ptr := (e_ptr a1)[j := mapped], e_used := j + 1\<rparr> in
                if mapped = - 1 then Inr (None, a2)
                else epage_loop req j 0 (a2\<lparr>e_mem := (\<lambda>q. if mapped \<le> q \<and> q < mapped + 4096 then 0 else e_mem a2 q)\<rparr>)
              else Inl OutOfBounds))"

text \<open>The page of a pointer, page 0 when there is none.\<close>

definition epage_of :: "int \<Rightarrow> earena \<Rightarrow> nat" where
  "epage_of pos a =
     (case scan (\<lambda>p. 0 \<le> pos - p \<and> pos - p < 4096) (take (e_used a) (e_ptr a)) of None \<Rightarrow> 0 | Some i \<Rightarrow> i)"

definition edealloc :: "int \<Rightarrow> earena \<Rightarrow> earena res" where
  "edealloc pos a =
     (let p = epage_of pos a; d = pos - e_ptr a ! p; chunk = int (ROW * p) + d div 256 in
      if d < 0 \<or> chunk \<ge> 64 then Inl OutOfBounds
      else let c = nat chunk; x = e_many a ! c in
        if c + x > 64 then Inl OutOfBounds
        else Inr (a\<lparr>e_many := (e_many a)[c := 0], e_mem := (\<lambda>q. if pos \<le> q \<and> q < pos + int x * 8 then 0 else e_mem a q),
                    e_bits := mark True c x (e_bits a)\<rparr>))"

lemma run_loop_free:
  "x \<le> n \<Longrightarrow> i + n \<le> length bm \<Longrightarrow> \<forall>j<n. bm ! (i + j) \<Longrightarrow> run_loop bm i (int n) x = Inr n"
proof (induction "n - x" arbitrary: x)
  case (Suc m)
  then have "m = n - (x + 1)" "x + 1 \<le> n" by simp_all
  then show ?case using Suc by (simp add: run_loop.simps [of bm i "int n" x])
qed (simp add: run_loop.simps)

text \<open>
  A block of \<open>ealloc\<close> can lie across the end of its page. After a block of fifteen of the sixteen chunks of
  a page, a request for two chunks is not served from a second page: the search runs on into the flags of the
  next page, which is not mapped yet, and returns the last chunk of the first page, so that the second half of the
  block is outside the memory that was mapped, wherever \<open>mmap\<close> has placed it.
\<close>

lemma ealloc_crosses_page:
  "p \<noteq> - 1 \<Longrightarrow> \<exists>a1 a2. ealloc p 3840 (einit_alloc a) = Inr (Some p, a1) \<and> ealloc q 512 a1 = Inr (Some (p + 3840), a2) \<and>
     e_used a2 = 1 \<and> e_many a2 ! 15 = 2 \<and> \<not> p + 3840 + 512 \<le> p + 4096"
proof -
  assume p: "p \<noteq> - 1"
  define b where "b = (einit_alloc a)\<lparr>e_ptr := (e_ptr (einit_alloc a))[0 := p], e_used := 0 + 1,
      e_mem := (\<lambda>q. if p \<le> q \<and> q < p + 4096 then 0 else e_mem (einit_alloc a) q)\<rparr>"
  have b: "e_bits b = replicate 64 True" "e_many b = replicate 64 0" "e_ptr b ! 0 = p" "e_used b = 1"
    by (simp_all add: b_def einit_alloc_def)
  have "run_loop (e_bits b) 0 (int 15) 0 = Inr 15" unfolding b by (rule run_loop_free) auto
  then have r1: "run_loop (e_bits b) 0 15 0 = Inr 15" by simp
  define a1 where "a1 = b\<lparr>e_many := (e_many b)[0 := 15], e_bits := mark False 0 15 (e_bits b)\<rparr>"
  have "epage_loop 15 0 0 b = Inr (Some p, a1)"
    using r1 b by (simp add: epage_loop.simps [of 15 0 0 b] ROW_def a1_def)
  moreover have "eused_loop 15 0 (einit_alloc a) = Inr (None, einit_alloc a)"
    by (subst eused_loop.simps) (simp add: einit_alloc_def)
  moreover have "(einit_alloc a)\<lparr>e_ptr := (e_ptr (einit_alloc a))[0 := p], e_used := 0 + 1,
      e_mem := (\<lambda>q. if p \<le> q \<and> q < p + 4096 then 0 else e_mem (einit_alloc a) q)\<rparr> = b"
    by (simp only: b_def)
  moreover have u: "e_used (einit_alloc a) = 0" by (simp add: einit_alloc_def)
  ultimately have one: "ealloc p 3840 (einit_alloc a) = Inr (Some p, a1)"
    using p u by (simp add: ealloc_def MAX_PAGES_def Let_def cong: if_cong)
  have bits: "e_bits a1 ! k \<longleftrightarrow> 15 \<le> k" if "k < 64" for k using that by (simp add: a1_def nth_mark b)
  have "e_used a1 = 1" by (simp add: a1_def b)
  have l: "length (e_bits a1) = 64" by (simp add: a1_def b)
  have skip: "epage_loop 2 0 i a1 = epage_loop 2 0 (i + 1) a1" if "i < 15" for i
  proof -
    have "run_loop (e_bits a1) i 2 0 = Inr 0" using that bits [of i] l by (simp add: run_loop.simps [of "e_bits a1" i 2 0])
    then show ?thesis using that by (simp add: epage_loop.simps [of 2 0 i a1] ROW_def)
  qed
  have "epage_loop 2 0 0 a1 = epage_loop 2 0 i a1" if "i \<le> 15" for i
    using that by (induction i) (use skip in simp_all)
  then have s: "epage_loop 2 0 0 a1 = epage_loop 2 0 15 a1" by simp
  have "run_loop (e_bits a1) 15 (int 2) 0 = Inr 2" by (rule run_loop_free) (use bits l in auto)
  then have r2: "run_loop (e_bits a1) 15 2 0 = Inr 2" by simp
  define a2 where "a2 = a1\<lparr>e_many := (e_many a1)[15 := e_many a1 ! 15 + 2], e_bits := mark False 15 2 (e_bits a1)\<rparr>"
  have "epage_loop 2 0 15 a1 = Inr (Some (p + 3840), a2)"
    using r2 b by (simp add: epage_loop.simps [of 2 0 15 a1] ROW_def a2_def) (simp add: a1_def)
  then have "eused_loop 2 0 a1 = Inr (Some (p + 3840), a2)"
    using s \<open>e_used a1 = 1\<close> by (simp add: eused_loop.simps [of 2 0 a1])
  then have two: "ealloc q 512 a1 = Inr (Some (p + 3840), a2)" by (simp add: ealloc_def Let_def)
  have "e_used a2 = 1" "e_many a2 ! 15 = 2" by (simp_all add: a2_def a1_def b)
  with one two show ?thesis by auto
qed

lemma ealloc_crosses_page_witness:
  "\<exists>a1 a2. ealloc 0x10000 3840 (einit_alloc undefined) = Inr (Some 0x10000, a1) \<and> ealloc 0x20000 512 a1 = Inr (Some 0x10F00, a2)"
  using ealloc_crosses_page [of "0x10000" undefined "0x20000"] by auto

end
