(* ===== verification/Trap.thy ===== *)
theory Trap
  imports Proc Sysargs
begin

text \<open>
  System calls on processes, \<open>sysproc.c\<close>, their dispatch, \<open>syscall.c\<close>, and the trap handler, \<open>trap.c\<close>. The
  state is the process table with the memory manager, the clock, and the memory that user pointers of the
  current process reach. The system calls on files and the interrupt routines of the devices, modelled in
  other theories on their own states, are arguments of the dispatch and of the handler. \<open>exit\<close> does not return
  and \<open>yield\<close> returns after other processes have run: the handler says that it has come to one of them.
\<close>

unbundle bit_operations_syntax

record kernel =
  kp :: kproc
  tks :: u32
  tks_at :: u32
  um :: mem

abbreviation this_proc :: "nat \<Rightarrow> kernel \<Rightarrow> proc" where
  "this_proc cur k \<equiv> ptab (kp k) ! cur"

definition upd_kp :: "nat \<Rightarrow> (proc \<Rightarrow> proc) \<Rightarrow> kernel \<Rightarrow> kernel" where
  "upd_kp cur f k = k\<lparr>kp := upd cur f (kp k)\<rparr>"

text \<open>Where \<open>argint\<close> and its kin look.\<close>

definition args :: "nat \<Rightarrow> kernel \<Rightarrow> uproc" where
  "args cur k = \<lparr>u_mem = um k, u_sz = p_sz (this_proc cur k), u_esp = tf_esp (p_tf (this_proc cur k))\<rparr>"

section \<open>System calls on processes\<close>

definition sys_kill :: "nat \<Rightarrow> kernel \<Rightarrow> (u32 \<times> kernel) res" where
  "sys_kill cur k =
     (case argint 0 (args cur k) of
        None \<Rightarrow> Inr (- 1, k)
      | Some pid \<Rightarrow> let (r, p) = kill (sint pid) (kp k) in Inr (word_of_int r, k\<lparr>kp := p\<rparr>))"

definition sys_getpid :: "nat \<Rightarrow> kernel \<Rightarrow> (u32 \<times> kernel) res" where
  "sys_getpid cur k = Inr (word_of_int (p_pid (this_proc cur k)), k)"

definition sys_sbrk :: "nat \<Rightarrow> kernel \<Rightarrow> (u32 \<times> kernel) res" where
  "sys_sbrk cur k =
     (case argint 0 (args cur k) of
        None \<Rightarrow> Inr (- 1, k)
      | Some n \<Rightarrow>
          let addr = p_sz (this_proc cur k) in
          bindR (growproc cur (sint n) (kp k)) (\<lambda>(r, p). Inr (if r < 0 then - 1 else addr, k\<lparr>kp := p\<rparr>)))"

text \<open>\<open>sys_sleep\<close>: its start, and one round of its loop, which sleeps, gives up or ends.\<close>

definition sleep_start :: "nat \<Rightarrow> kernel \<Rightarrow> (u32 \<times> u32) option" where
  "sleep_start cur k = (case argint 0 (args cur k) of None \<Rightarrow> None | Some n \<Rightarrow> Some (n, tks k))"

definition sleep_round :: "u32 \<Rightarrow> u32 \<Rightarrow> nat \<Rightarrow> kernel \<Rightarrow> u32 option \<times> kernel" where
  "sleep_round n ticks0 cur k =
     (if tks k - ticks0 < n then
        if p_killed (this_proc cur k) then (Some (- 1), k)
        else (None, k\<lparr>kp := sleep_on cur (Addr (tks_at k)) (kp k)\<rparr>)
      else (Some 0, k))"

definition sys_uptime :: "nat \<Rightarrow> kernel \<Rightarrow> (u32 \<times> kernel) res" where
  "sys_uptime cur k = Inr (tks k, k)"

definition sys_getNumProc :: "nat \<Rightarrow> kernel \<Rightarrow> (u32 \<times> kernel) res" where
  "sys_getNumProc cur k = Inr (of_nat (getNum (kp k)), k)"

definition sys_getMaxPid :: "nat \<Rightarrow> kernel \<Rightarrow> (u32 \<times> kernel) res" where
  "sys_getMaxPid cur k = Inr (word_of_int (MaxPid (kp k)), k)"

definition store32 :: "u32 \<Rightarrow> u32 \<Rightarrow> mem \<Rightarrow> mem" where
  "store32 a w m = m(a := ucast w, a + 1 := ucast (drop_bit 8 w), a + 2 := ucast (drop_bit 16 w), a + 3 := ucast (drop_bit 24 w))"

text \<open>The three words of \<open>struct processInfo\<close> go to the caller's pointer, wherever it points.\<close>

definition sys_getProcInfo :: "nat \<Rightarrow> kernel \<Rightarrow> (u32 \<times> kernel) res" where
  "sys_getProcInfo cur k =
     (case argint 0 (args cur k) of
        None \<Rightarrow> Inr (- 1, k)
      | Some pid \<Rightarrow>
          (case argint 1 (args cur k) of
             None \<Rightarrow> Inr (- 1, k)
           | Some a \<Rightarrow>
               bindR (ProcInfo (sint pid) (kp k)) (\<lambda>r.
                 case r of
                   None \<Rightarrow> Inr (- 1, k)
                 | Some (ppid, sz, n) \<Rightarrow>
                     Inr (0, k\<lparr>um := store32 (a + 8) (word_of_int n) (store32 (a + 4) sz (store32 a (word_of_int ppid) (um k)))\<rparr>))))"

definition sys_setprio :: "nat \<Rightarrow> kernel \<Rightarrow> (u32 \<times> kernel) res" where
  "sys_setprio cur k =
     (case argint 0 (args cur k) of
        None \<Rightarrow> Inr (- 1, k)
      | Some i \<Rightarrow> Inr (0, upd_kp cur (\<lambda>p. p\<lparr>p_prio := sint i\<rparr>) k))"

definition sys_getprio :: "nat \<Rightarrow> kernel \<Rightarrow> (u32 \<times> kernel) res" where
  "sys_getprio cur k = Inr (word_of_int (p_prio (this_proc cur k)), k)"

definition sys_welcomeFunction :: "nat \<Rightarrow> kernel \<Rightarrow> (u32 \<times> kernel) res" where
  "sys_welcomeFunction cur k =
     (case argint 0 (args cur k) of
        None \<Rightarrow> Inr (- 1, k)
      | Some a \<Rightarrow> Inr (0, upd_kp cur (\<lambda>p. p\<lparr>p_welcome := a\<rparr>) k))"

definition sys_welcomeDone :: "nat \<Rightarrow> kernel \<Rightarrow> (u32 \<times> kernel) res" where
  "sys_welcomeDone cur k =
     (if p_return (this_proc cur k) \<noteq> 0
      then Inr (0, upd_kp cur (\<lambda>p. p\<lparr>p_tf := (p_tf p)\<lparr>tf_eip := p_return p\<rparr>\<rparr>) k)
      else Inr (- 1, k))"

definition sys_numvp :: "nat \<Rightarrow> kernel \<Rightarrow> (u32 \<times> kernel) res" where
  "sys_numvp cur k = Inr (PGROUNDUP (p_sz (this_proc cur k)) div PGSIZE, k)"

definition sys_numpp :: "nat \<Rightarrow> kernel \<Rightarrow> (u32 \<times> kernel) res" where
  "sys_numpp cur k =
     bindR (num_phy_page (p_pgdir (this_proc cur k)) (p_sz (this_proc cur k)) (kmm (kp k))) (\<lambda>n. Inr (of_nat n, k))"

definition sys_map :: "nat \<Rightarrow> kernel \<Rightarrow> (u32 \<times> kernel) res" where
  "sys_map cur k =
     (let (r, u) = sys_mmap (args cur k)
      in Inr (case r of None \<Rightarrow> - 1 | Some a \<Rightarrow> a, upd_kp cur (\<lambda>p. p\<lparr>p_sz := u_sz u\<rparr>) k))"

text \<open>The table of system calls: those above at their numbers, the others as an argument.\<close>

type_synonym call = "nat \<Rightarrow> kernel \<Rightarrow> (u32 \<times> kernel) res"

definition syscalls :: "(nat \<Rightarrow> call option) \<Rightarrow> nat \<Rightarrow> call option" where
  "syscalls rest n =
     (if n = 6 then Some sys_kill else if n = 11 then Some sys_getpid else if n = 12 then Some sys_sbrk
      else if n = 14 then Some sys_uptime else if n = 24 then Some sys_getNumProc else if n = 25 then Some sys_getMaxPid
      else if n = 26 then Some sys_getProcInfo else if n = 27 then Some sys_setprio else if n = 28 then Some sys_getprio
      else if n = 29 then Some sys_welcomeFunction else if n = 30 then Some sys_welcomeDone
      else if n = 31 then Some sys_numvp else if n = 32 then Some sys_numpp else if n = 33 then Some sys_map
      else if 0 < n \<and> n < 34 then rest n else None)"

definition syscall :: "(nat \<Rightarrow> call option) \<Rightarrow> nat \<Rightarrow> kernel \<Rightarrow> kernel res" where
  "syscall rest cur k =
     (let num = sint (tf_eax (p_tf (this_proc cur k)));
          ret = (\<lambda>r. upd_kp cur (\<lambda>p. p\<lparr>p_tf := (p_tf p)\<lparr>tf_eax := r\<rparr>\<rparr>)) in
      if num > 0 \<and> num < 34 then
        (case syscalls rest (nat num) of
           Some f \<Rightarrow> bindR (f cur k) (\<lambda>(r, k1). Inr (ret r k1))
         | None \<Rightarrow> Inr (ret (- 1) k))
      else Inr (ret (- 1) k))"

section \<open>Traps\<close>

definition T_PGFLT :: u32 where "T_PGFLT = 14"
definition T_SYSCALL :: u32 where "T_SYSCALL = 64"
definition T_IRQ0 :: u32 where "T_IRQ0 = 32"
definition IRQ_TIMER :: u32 where "IRQ_TIMER = 0"
definition IRQ_KBD :: u32 where "IRQ_KBD = 1"
definition IRQ_COM1 :: u32 where "IRQ_COM1 = 4"
definition IRQ_IDE :: u32 where "IRQ_IDE = 14"
definition IRQ_SPURIOUS :: u32 where "IRQ_SPURIOUS = 31"
definition DPL_USER :: "16 word" where "DPL_USER = 3"

datatype trap_end = Returns_to_user | Exits | Yields

text \<open>The switch on the trap number, \<open>None\<close> for the call of \<open>exit\<close>. \<open>cpu\<close> is the processor, \<open>me\<close> its
  process if it runs one, \<open>cr2\<close> the faulting address.\<close>

definition trap_switch :: "(u32 \<Rightarrow> kernel \<Rightarrow> kernel res) \<Rightarrow> nat \<Rightarrow> nat option \<Rightarrow> u32 \<Rightarrow> trapframe \<Rightarrow> kernel \<Rightarrow> kernel option res" where
  "trap_switch dev cpu me cr2 tf k =
     (let n = tf_trapno tf in
      if n = T_IRQ0 + IRQ_TIMER then
        Inr (Some (if cpu = 0 then let k1 = k\<lparr>tks := tks k + 1\<rparr> in k1\<lparr>kp := wakeup (Addr (tks_at k1)) (kp k1)\<rparr> else k))
      else if n = T_IRQ0 + IRQ_IDE \<or> n = T_IRQ0 + IRQ_KBD \<or> n = T_IRQ0 + IRQ_COM1 then
        bindR (dev n k) (\<lambda>k1. Inr (Some k1))
      else if n = T_IRQ0 + IRQ_IDE + 1 \<or> n = T_IRQ0 + 7 \<or> n = T_IRQ0 + IRQ_SPURIOUS then Inr (Some k)
      else if n = T_PGFLT then
        (case me of
           None \<Rightarrow> Inl OutOfBounds
         | Some cur \<Rightarrow>
             let pg = PGROUNDDOWN cr2 in
             if pg > p_sz (this_proc cur k) then Inr None
             else bindR (allocate_on_pgflt (p_pgdir (this_proc cur k)) pg (kmm (kp k))) (\<lambda>m.
                  Inr (Some (k\<lparr>kp := (kp k)\<lparr>kmm := m\<rparr>\<rparr>))))
      else
        (case me of
           None \<Rightarrow> Inl (Panic ''trap'')
         | Some cur \<Rightarrow>
             if tf_cs tf AND 3 = 0 then Inl (Panic ''trap'')
             else Inr (Some (upd_kp cur (\<lambda>p. p\<lparr>p_killed := True\<rparr>) k))))"

definition dies :: "nat option \<Rightarrow> trapframe \<Rightarrow> kernel \<Rightarrow> bool" where
  "dies me tf k = (case me of None \<Rightarrow> False | Some cur \<Rightarrow> p_killed (this_proc cur k) \<and> tf_cs tf AND 3 = DPL_USER)"

text \<open>\<open>trap\<close> up to the point where it ends or gives the processor away, and its end after \<open>yield\<close> has returned.\<close>

definition trap :: "(nat \<Rightarrow> call option) \<Rightarrow> (u32 \<Rightarrow> kernel \<Rightarrow> kernel res) \<Rightarrow> nat \<Rightarrow> nat option \<Rightarrow> u32 \<Rightarrow> trapframe \<Rightarrow> kernel \<Rightarrow> (trap_end \<times> kernel) res" where
  "trap rest dev cpu me cr2 tf k =
     (if tf_trapno tf = T_SYSCALL then
        (case me of
           None \<Rightarrow> Inl OutOfBounds
         | Some cur \<Rightarrow>
             if p_killed (this_proc cur k) then Inr (Exits, k)
             else bindR (syscall rest cur (upd_kp cur (\<lambda>p. p\<lparr>p_tf := tf\<rparr>) k)) (\<lambda>k1.
                  Inr (if p_killed (this_proc cur k1) then Exits else Returns_to_user, k1)))
      else
        bindR (trap_switch dev cpu me cr2 tf k) (\<lambda>r.
          case r of
            None \<Rightarrow> Inr (Exits, k)
          | Some k1 \<Rightarrow>
              if dies me tf k1 then Inr (Exits, k1)
              else (case me of
                      None \<Rightarrow> Inr (Returns_to_user, k1)
                    | Some cur \<Rightarrow>
                        if p_state (this_proc cur k1) = RUNNING \<and> tf_trapno tf = T_IRQ0 + IRQ_TIMER
                        then Inr (Yields, k1\<lparr>kp := yield cur (kp k1)\<rparr>)
                        else Inr (Returns_to_user, k1))))"

definition trap_resume :: "nat option \<Rightarrow> trapframe \<Rightarrow> kernel \<Rightarrow> trap_end" where
  "trap_resume me tf k = (if dies me tf k then Exits else Returns_to_user)"

section \<open>Page faults\<close>

lemma fault_spec:
  assumes inv: "kmem_inv m" and wf: "pt_wf m pgdir" and va: "va mod PGSIZE = 0" and f: "freelist m = p # ps"
  shows "if present (pte_of m pgdir va) then allocate_on_pgflt pgdir va m = Inl (Panic ''remap'')
    else ps \<noteq> [] \<longrightarrow> (\<exists>m'. allocate_on_pgflt pgdir va m = Inr m' \<and> kmem_inv m' \<and> pt_wf m' pgdir \<and> pm m' p = zeros \<and>
       (\<forall>va'. pte_of m' pgdir va' = (if same_page va va' then p OR (PTE_W OR PTE_U) OR PTE_P else pte_of m pgdir va')))"
proof -
  obtain m1 where k: "kalloc m = Inr (Some p, m1)" "freelist m = p # freelist m1" "pm m1 = pm m" "p \<notin> set (freelist m1)" "kmem_inv m1"
    using kalloc_spec [OF inv] f by auto
  let ?m = "set_page p zeros m1"
  note W = pt_wf_kalloc [OF wf k(2,3), of zeros]
  have al: "allocate_on_pgflt pgdir va m = bindR (mappages pgdir va PGSIZE p (PTE_W OR PTE_U) ?m) (\<lambda>(ok, m2). if ok then Inr m2 else kfree p m2)"
    by (simp add: allocate_on_pgflt_def k(1))
  have fl: "freelist ?m = ps" using f k(2) by (simp add: set_page_def)
  have ki: "kmem_inv ?m" using k(5) by simp
  from mappages_page [OF ki W(1) va, of p "PTE_W OR PTE_U"] show ?thesis
  proof (elim disjE exE conjE)
    assume "present (pte_of ?m pgdir va)" "mappages pgdir va PGSIZE p (PTE_W OR PTE_U) ?m = Inl (Panic ''remap'')"
    then show ?thesis using al by (simp add: W(2))
  next
    assume a: "\<not> present (entry ?m (pgdir, PDX va))" "freelist ?m = []"
    then have "\<not> present (pte_of m pgdir va)" using W(3) by (simp add: pte_of_def Let_def)
    then show ?thesis using a fl by simp
  next
    fix m' assume a: "\<not> present (pte_of ?m pgdir va)" "mappages pgdir va PGSIZE p (PTE_W OR PTE_U) ?m = Inr (True, m')" "kmem_inv m'" "pt_wf m' pgdir"
      "\<forall>va'. pte_of m' pgdir va' = (if same_page va va' then p OR (PTE_W OR PTE_U) OR PTE_P else pte_of ?m pgdir va')"
    have "pm m' p = pm ?m p"
    proof (rule mappages_frame [OF a(2) va _ _ _ ki])
      show "p \<notin> set (freelist ?m)" using k(4) by (simp add: set_page_def)
      show "p \<noteq> pgdir" using wf f by (auto simp: pt_wf_def)
      show "p \<noteq> PTE_ADDR (entry ?m (pgdir, PDX va))" if "present (entry ?m (pgdir, PDX va))"
        using that wf f unfolding W(3) by (auto simp: pt_wf_def)
    qed
    then have "pm m' p = zeros" by (simp add: set_page_def)
    then show ?thesis using a al by (auto simp: W(2))
  qed
qed

lemma PGROUNDDOWN_aligned: "PGROUNDDOWN a mod PGSIZE = 0"
proof -
  have m: "(0xFFF :: u32) = mask 12" by (simp add: mask_eq_exp_minus_1)
  have "(x :: u32) mod PGSIZE = x AND mask 12" for x
    using take_bit_eq_mask [of 12 x] take_bit_eq_mod [of 12 x] by (simp add: PGSIZE_def)
  moreover have "PGROUNDDOWN a = a AND NOT (mask 12)" by (simp add: PGROUNDDOWN_def PGSIZE_def m [symmetric])
  ultimately show ?thesis by (simp add: and.assoc)
qed

text \<open>
  C19. Lazy allocation. A page fault in user mode at an address whose page is not mapped and lies not above the
  end of the process maps a fresh page of zeros there, writable and accessible to the user, provided two free
  pages are left (one may become a page table); every other address maps to what it mapped to, and the process
  goes on. The test admits the page that starts at the end of the process, one beyond its memory.
\<close>

theorem lazy_fault_maps_zero_page:
  assumes "kmem_inv (kmm (kp k))" "pt_wf (kmm (kp k)) (p_pgdir (this_proc cur k))" "freelist (kmm (kp k)) = p # p' # ps"
    and "PGROUNDDOWN cr2 \<le> p_sz (this_proc cur k)" "\<not> present (pte_of (kmm (kp k)) (p_pgdir (this_proc cur k)) (PGROUNDDOWN cr2))"
    and "tf_trapno tf = T_PGFLT" "\<not> p_killed (this_proc cur k)"
  shows "\<exists>m'. trap rest dev cpu (Some cur) cr2 tf k = Inr (Returns_to_user, k\<lparr>kp := (kp k)\<lparr>kmm := m'\<rparr>\<rparr>) \<and>
    kmem_inv m' \<and> pt_wf m' (p_pgdir (this_proc cur k)) \<and> pm m' p = zeros \<and>
    (\<forall>va. pte_of m' (p_pgdir (this_proc cur k)) va =
      (if same_page (PGROUNDDOWN cr2) va then p OR (PTE_W OR PTE_U) OR PTE_P else pte_of (kmm (kp k)) (p_pgdir (this_proc cur k)) va))"
proof -
  obtain m' where m: "allocate_on_pgflt (p_pgdir (this_proc cur k)) (PGROUNDDOWN cr2) (kmm (kp k)) = Inr m'" "kmem_inv m'" "pt_wf m' (p_pgdir (this_proc cur k))"
      "pm m' p = zeros" "\<forall>va. pte_of m' (p_pgdir (this_proc cur k)) va =
        (if same_page (PGROUNDDOWN cr2) va then p OR (PTE_W OR PTE_U) OR PTE_P else pte_of (kmm (kp k)) (p_pgdir (this_proc cur k)) va)"
    using fault_spec [OF assms(1,2) PGROUNDDOWN_aligned [of cr2] assms(3)] unfolding if_not_P [OF assms(5)] by blast
  have "trap_switch dev cpu (Some cur) cr2 tf k = Inr (Some (k\<lparr>kp := (kp k)\<lparr>kmm := m'\<rparr>\<rparr>))"
    using assms(4,6) m(1) by (simp add: trap_switch_def T_PGFLT_def T_IRQ0_def IRQ_TIMER_def IRQ_KBD_def IRQ_IDE_def IRQ_COM1_def IRQ_SPURIOUS_def Let_def not_less)
  then have "trap rest dev cpu (Some cur) cr2 tf k = Inr (Returns_to_user, k\<lparr>kp := (kp k)\<lparr>kmm := m'\<rparr>\<rparr>)"
    using assms(6,7) by (simp add: trap_def dies_def T_SYSCALL_def T_PGFLT_def T_IRQ0_def IRQ_TIMER_def)
  with m(2-5) show ?thesis by blast
qed

text \<open>
  C20. A program can stop the kernel by overflowing its stack. \<open>exec\<close> puts a page without user access below the
  stack with \<open>clearpteu\<close>; the page stays present, so the fault of an access to it goes to lazy allocation, which tries to
  map the page again, and \<open>mappages\<close> panics. (The handler means such faults to end the process.)
\<close>

theorem guard_page_fault_panics:
  assumes "kmem_inv m" "pt_wf m pgdir" "guard mod PGSIZE = 0" "present (pte_of m pgdir guard)" "freelist m \<noteq> []"
    and "clearpteu pgdir guard m = Inr (kmm (kp k))" "pgdir = p_pgdir (this_proc cur k)"
    and "PGROUNDDOWN cr2 = guard" "guard \<le> p_sz (this_proc cur k)" "tf_trapno tf = T_PGFLT"
  shows "trap rest dev cpu (Some cur) cr2 tf k = Inl (Panic ''remap'')"
proof -
  have pr: "present (entry m (pgdir, PDX guard))" using assms(4) by (simp add: pte_of_def Let_def split: if_splits)
  define l where "l = (PTE_ADDR (entry m (pgdir, PDX guard)), PTX guard)"
  have m1: "kmm (kp k) = set_entry l (entry m l AND NOT PTE_U) m"
    using assms(6) pr by (simp add: clearpteu_def walkpgdir_def Let_def l_def)
  have W: "pt_wf (kmm (kp k)) pgdir" "pte_of (kmm (kp k)) pgdir guard = entry m l AND NOT PTE_U"
    using set_pte [OF assms(2) pr l_def, of "entry m l AND NOT PTE_U"] by (simp_all add: m1 same_page_def)
  have "present (entry m l)" using assms(4) pr by (simp add: pte_of_def Let_def l_def)
  moreover have "(w AND NOT PTE_U) AND PTE_P = w AND PTE_P" for w :: u32 by (simp add: and.assoc PTE_U_def PTE_P_def)
  ultimately have P: "present (pte_of (kmm (kp k)) pgdir guard)" by (simp add: W(2) present_def)
  have K: "kmem_inv (kmm (kp k))" "freelist (kmm (kp k)) \<noteq> []" using assms(1,5) by (simp_all add: m1 kmem_inv_def set_entry_def)
  then obtain p ps where "freelist (kmm (kp k)) = p # ps" by (cases "freelist (kmm (kp k))") auto
  from fault_spec [OF K(1) W(1) assms(3) this] P have "allocate_on_pgflt pgdir guard (kmm (kp k)) = Inl (Panic ''remap'')" by simp
  then have "trap_switch dev cpu (Some cur) cr2 tf k = Inl (Panic ''remap'')"
    using assms(7-10) by (simp add: trap_switch_def T_PGFLT_def T_IRQ0_def IRQ_TIMER_def IRQ_KBD_def IRQ_IDE_def IRQ_COM1_def IRQ_SPURIOUS_def Let_def not_less)
  then show ?thesis using assms(10) by (simp add: trap_def T_SYSCALL_def T_PGFLT_def)
qed

definition demo_kernel :: kernel where
  "demo_kernel = \<lparr>kp = demo_procs\<lparr>kmm := demo_vm, ptab := [null_proc\<lparr>p_pgdir := 0x300000, p_sz := 0x6000\<rparr>]\<rparr>, tks = 0, tks_at = 0x80115000, um = \<lambda>_. 0\<rparr>"

lemma demo_idx: "PDX 0x5000 = 0" "PTX 0x5000 = 5" "PDX 0x1000 = 0" "PTX 0x1000 = 1"
  by (simp_all add: PDX_def PTX_def)

lemma demo_kernel:
  "kmm (kp demo_kernel) = demo_vm" "p_pgdir (this_proc 0 demo_kernel) = 0x300000" "p_sz (this_proc 0 demo_kernel) = 0x6000"
  "\<not> p_killed (this_proc 0 demo_kernel)"
  by (simp_all add: demo_kernel_def null_proc_def)

lemma demo_pte: "pte_of demo_vm 0x300000 0x5000 = 0" "pte_of demo_vm 0x300000 0x1000 = 0x302105"
proof -
  have "entry demo_vm (0x301000, 5) = 0" by (simp add: entry_def demo_vm_def) (simp add: zeros_def get32_def)
  then show "pte_of demo_vm 0x300000 0x5000 = 0" "pte_of demo_vm 0x300000 0x1000 = 0x302105"
    by (simp_all add: pte_of_def demo_idx demo_entries present_def PTE_P_def PTE_ADDR_def)
qed

theorem lazy_fault_maps_zero_page_witness:
  "\<exists>m'. trap (\<lambda>_. None) (\<lambda>_. Inr) 0 (Some 0) 0x5123 (null_tf\<lparr>tf_trapno := T_PGFLT, tf_cs := 0x1B\<rparr>) demo_kernel =
      Inr (Returns_to_user, demo_kernel\<lparr>kp := (kp demo_kernel)\<lparr>kmm := m'\<rparr>\<rparr>) \<and>
    pm m' 0x200000 = zeros \<and> pte_of m' 0x300000 0x5000 = 0x200007"
proof -
  have pg: "PGROUNDDOWN 0x5123 = 0x5000" by (simp add: PGROUNDDOWN_def PGSIZE_def)
  have "freelist demo_vm = 0x200000 # 0x201000 # []" by (simp add: demo_vm(3))
  with lazy_fault_maps_zero_page [where k = demo_kernel and cur = 0 and p = "0x200000" and p' = "0x201000" and ps = "[]" and ?cr2.0 = "0x5123"
      and tf = "null_tf\<lparr>tf_trapno := T_PGFLT, tf_cs := 0x1B\<rparr>" and rest = "\<lambda>_. None" and dev = "\<lambda>_. Inr" and cpu = 0]
  obtain m' where "trap (\<lambda>_. None) (\<lambda>_. Inr) 0 (Some 0) 0x5123 (null_tf\<lparr>tf_trapno := T_PGFLT, tf_cs := 0x1B\<rparr>) demo_kernel =
      Inr (Returns_to_user, demo_kernel\<lparr>kp := (kp demo_kernel)\<lparr>kmm := m'\<rparr>\<rparr>)" "pm m' 0x200000 = zeros"
      "\<forall>va. pte_of m' 0x300000 va = (if same_page 0x5000 va then 0x200000 OR (PTE_W OR PTE_U) OR PTE_P else pte_of demo_vm 0x300000 va)"
    by (auto simp: demo_kernel demo_vm demo_tables pg demo_pte)
  then show ?thesis by (auto simp: same_page_def PTE_W_def PTE_U_def PTE_P_def)
qed

theorem guard_page_fault_panics_witness:
  "\<exists>k. trap (\<lambda>_. None) (\<lambda>_. Inr) 0 (Some 0) 0x1FF0 (null_tf\<lparr>tf_trapno := T_PGFLT, tf_cs := 0x1B\<rparr>) k = Inl (Panic ''remap'')"
proof -
  have pr: "present (entry demo_vm (0x300000, 0))" by (simp add: demo_entries present_def PTE_P_def)
  obtain m1 where m1: "clearpteu 0x300000 0x1000 demo_vm = Inr m1"
    using pr by (simp add: clearpteu_def walkpgdir_def Let_def demo_idx)
  define k where "k = demo_kernel\<lparr>kp := (kp demo_kernel)\<lparr>kmm := m1\<rparr>\<rparr>"
  have k: "kmm (kp k) = m1" "p_pgdir (this_proc 0 k) = 0x300000" "p_sz (this_proc 0 k) = 0x6000"
    using demo_kernel by (simp_all add: k_def)
  have "trap (\<lambda>_. None) (\<lambda>_. Inr) 0 (Some 0) 0x1FF0 (null_tf\<lparr>tf_trapno := T_PGFLT, tf_cs := 0x1B\<rparr>) k = Inl (Panic ''remap'')"
  proof (rule guard_page_fault_panics [OF demo_vm(1) demo_tables])
    show "clearpteu 0x300000 0x1000 demo_vm = Inr (kmm (kp k))" using m1 k by simp
  qed (simp_all add: k demo_pte demo_vm PGSIZE_def present_def PTE_P_def PGROUNDDOWN_def)
  then show ?thesis by blast
qed

end
