(* ===== verification/Sync.thy ===== *)
theory Sync
  imports OS_Prelude "HOL-Library.Multiset"
begin

text \<open>
  The synchronisation exercises of \<open>pthreads-sync-code\<close> as step relations over any number of threads: the counting
  semaphore of \<open>zemaphore.c\<close>, and the producers and consumers of \<open>master-worker.c\<close>. A section between
  locking and unlocking (or waiting on) the mutex is one step of the thread that holds it, since every variable is
  touched only there. Of the threads library we use what POSIX says: one holder of a mutex at a time; a wait gives up
  the mutex and blocks in one action; a signal wakes one waiter if there is one, a broadcast all; a woken thread
  takes the mutex again before it goes on; a waiter may wake without a signal.
\<close>

section \<open>The semaphore\<close>

datatype zpc = Idle | In_down | In_up | Blocked | Woken | Granted

record zem =
  z_value :: int
  z_holder :: "nat option"
  z_pc :: "nat \<Rightarrow> zpc"
  z_ups :: nat
  z_granted :: nat

definition zem_init :: "int \<Rightarrow> zem" where
  "zem_init v = \<lparr>z_value = v, z_holder = None, z_pc = \<lambda>_. Idle, z_ups = 0, z_granted = 0\<rparr>"

definition set_zpc :: "nat \<Rightarrow> zpc \<Rightarrow> zem \<Rightarrow> zem" where
  "set_zpc t p s = s\<lparr>z_pc := (z_pc s)(t := p)\<rparr>"

text \<open>\<open>zem_down\<close> with the mutex: the test is an \<open>if\<close>, so a woken thread goes on without looking at the value.\<close>

definition zem_down :: "nat \<Rightarrow> zem \<Rightarrow> zem" where
  "zem_down t s =
     (let s1 = s\<lparr>z_value := z_value s - 1, z_holder := None\<rparr> in
      if z_value s1 < 0 then set_zpc t Blocked s1
      else (set_zpc t Granted s1)\<lparr>z_granted := z_granted s1 + 1\<rparr>)"

definition zem_down_woken :: "nat \<Rightarrow> zem \<Rightarrow> zem" where
  "zem_down_woken t s = (set_zpc t Granted s)\<lparr>z_granted := z_granted s + 1\<rparr>"

text \<open>\<open>zem_up\<close> with the mutex; the signal goes to the waiter \<open>w\<close>, if there is one.\<close>

definition zem_up :: "nat \<Rightarrow> nat option \<Rightarrow> zem \<Rightarrow> zem" where
  "zem_up t w s =
     (let s1 = s\<lparr>z_value := z_value s + 1, z_holder := None, z_ups := z_ups s + 1\<rparr>;
          s2 = (case w of None \<Rightarrow> s1 | Some u \<Rightarrow> set_zpc u Woken s1)
      in set_zpc t Idle s2)"

definition blocked :: "zem \<Rightarrow> nat set" where
  "blocked s = {t. z_pc s t = Blocked}"

text \<open>A thread may call \<open>zem_down\<close> or \<open>zem_up\<close> at any time it is in neither. With \<open>sp\<close> the library makes use of its
  right to wake waiters without a signal.\<close>

inductive zem_step :: "bool \<Rightarrow> zem \<Rightarrow> zem \<Rightarrow> bool" for sp where
  lock_down: "z_holder s = None \<Longrightarrow> z_pc s t \<in> {Idle, Granted} \<Longrightarrow> zem_step sp s (set_zpc t In_down (s\<lparr>z_holder := Some t\<rparr>))"
| lock_up: "z_holder s = None \<Longrightarrow> z_pc s t \<in> {Idle, Granted} \<Longrightarrow> zem_step sp s (set_zpc t In_up (s\<lparr>z_holder := Some t\<rparr>))"
| down: "z_holder s = Some t \<Longrightarrow> z_pc s t = In_down \<Longrightarrow> zem_step sp s (zem_down t s)"
| up: "z_holder s = Some t \<Longrightarrow> z_pc s t = In_up \<Longrightarrow> (case w of None \<Rightarrow> blocked s = {} | Some u \<Rightarrow> u \<in> blocked s) \<Longrightarrow>
    zem_step sp s (zem_up t w s)"
| relock: "z_holder s = None \<Longrightarrow> z_pc s t = Woken \<Longrightarrow> zem_step sp s (zem_down_woken t s)"
| spurious: "sp \<Longrightarrow> z_pc s t = Blocked \<Longrightarrow> zem_step sp s (set_zpc t Woken s)"

inductive zem_reach :: "bool \<Rightarrow> int \<Rightarrow> zem \<Rightarrow> bool" for sp v where
  init: "zem_reach sp v (zem_init v)"
| step: "zem_reach sp v s \<Longrightarrow> zem_step sp s s' \<Longrightarrow> zem_reach sp v s'"

definition woken :: "zem \<Rightarrow> nat set" where
  "woken s = {t. z_pc s t = Woken}"

text \<open>Every negative unit of the value is a blocked thread; what was granted or is on its way is what was put in.\<close>

definition zem_inv :: "int \<Rightarrow> zem \<Rightarrow> bool" where
  "zem_inv v s \<longleftrightarrow> finite (blocked s) \<and> finite (woken s) \<and> int (card (blocked s)) = max 0 (- z_value s) \<and>
     int (z_granted s) + int (card (woken s)) + max 0 (z_value s) = v + int (z_ups s) \<and>
     (\<forall>t. z_pc s t \<in> {In_down, In_up} \<longleftrightarrow> z_holder s = Some t)"

lemma set_zpc_sel [simp]:
  "z_pc (set_zpc t p s) = (z_pc s)(t := p)" "z_value (set_zpc t p s) = z_value s" "z_holder (set_zpc t p s) = z_holder s"
  "z_ups (set_zpc t p s) = z_ups s" "z_granted (set_zpc t p s) = z_granted s"
  by (simp_all add: set_zpc_def)

lemma blocked_upd:
  "z_pc s' = (z_pc s)(t := p) \<Longrightarrow> blocked s' = (if p = Blocked then insert t (blocked s) else blocked s - {t})"
  "z_pc s' = (z_pc s)(t := p) \<Longrightarrow> woken s' = (if p = Woken then insert t (woken s) else woken s - {t})"
  by (auto simp: blocked_def woken_def)

lemma zem_inv_init: "0 \<le> v \<Longrightarrow> zem_inv v (zem_init v)"
  by (simp add: zem_inv_def zem_init_def blocked_def woken_def)

lemma zem_inv_step:
  assumes "zem_step False s s'" "zem_inv v s"
  shows "zem_inv v s'"
proof -
  have fin: "finite (blocked s)" "finite (woken s)" and card: "int (card (blocked s)) = max 0 (- z_value s)"
    and sum: "int (z_granted s) + int (card (woken s)) + max 0 (z_value s) = v + int (z_ups s)"
    and hold: "\<And>t. z_pc s t \<in> {In_down, In_up} \<longleftrightarrow> z_holder s = Some t" using assms(2) by (simp_all add: zem_inv_def)
  from assms(1) show ?thesis
  proof cases
    case (lock_down t)
    then have "blocked s' = blocked s" "woken s' = woken s" by (auto simp: blocked_def woken_def)
    then show ?thesis using lock_down fin card sum hold by (auto simp: zem_inv_def)
  next
    case (lock_up t)
    then have "blocked s' = blocked s" "woken s' = woken s" by (auto simp: blocked_def woken_def)
    then show ?thesis using lock_up fin card sum hold by (auto simp: zem_inv_def)
  next
    case (down t)
    have t: "t \<notin> blocked s" "t \<notin> woken s" using down by (auto simp: blocked_def woken_def)
    have h: "z_pc s u \<in> {In_down, In_up} \<longleftrightarrow> u = t" for u using hold down by auto
    show ?thesis
    proof (cases "z_value s - 1 < 0")
      case True
      then have s': "s' = set_zpc t Blocked (s\<lparr>z_value := z_value s - 1, z_holder := None\<rparr>)" using down by (simp add: zem_down_def Let_def)
      then have b: "blocked s' = insert t (blocked s)" "woken s' = woken s" using t by (auto simp: blocked_def woken_def)
      then show ?thesis using fin card sum h t True by (auto simp: zem_inv_def s')
    next
      case False
      then have s': "s' = (set_zpc t Granted (s\<lparr>z_value := z_value s - 1, z_holder := None\<rparr>))\<lparr>z_granted := z_granted s + 1\<rparr>"
        using down by (simp add: zem_down_def Let_def)
      then have b: "blocked s' = blocked s" "woken s' = woken s" using t by (auto simp: blocked_def woken_def)
      then show ?thesis using fin card sum h False by (auto simp: zem_inv_def s')
    qed
  next
    case (up t w)
    have t: "t \<notin> blocked s" "t \<notin> woken s" using up by (auto simp: blocked_def woken_def)
    have h: "z_pc s u \<in> {In_down, In_up} \<longleftrightarrow> u = t" for u using hold up by auto
    show ?thesis
    proof (cases w)
      case None
      then have "blocked s = {}" using up by simp
      moreover from this have "0 \<le> z_value s" using card by simp
      moreover have "blocked s' = blocked s" "woken s' = woken s" using t up None by (auto simp: blocked_def woken_def zem_up_def Let_def)
      ultimately show ?thesis using fin card sum h up None by (auto simp: zem_inv_def zem_up_def Let_def)
    next
      case (Some u)
      then have u: "u \<in> blocked s" "u \<notin> woken s" "u \<noteq> t" using up t by (auto simp: blocked_def woken_def)
      have s': "s' = set_zpc t Idle (set_zpc u Woken (s\<lparr>z_value := z_value s + 1, z_holder := None, z_ups := z_ups s + 1\<rparr>))"
        using up Some by (simp add: zem_up_def Let_def)
      have b: "blocked s' = blocked s - {u}" "woken s' = insert u (woken s)" using t u by (auto simp: s' blocked_def woken_def)
      have "0 < card (blocked s)" using u(1) fin(1) by (auto simp: card_gt_0_iff)
      then have "z_value s < 0" "int (card (blocked s - {u})) = int (card (blocked s)) - 1" using card u(1) fin(1) by (auto simp: card_Diff_singleton)
      moreover have "card (woken s') = card (woken s) + 1" using b(2) u(2) fin(2) by simp
      ultimately show ?thesis using fin card sum h b u(3) by (auto simp: zem_inv_def s')
    qed
  next
    case (relock t)
    have t: "t \<in> woken s" "t \<notin> blocked s" using relock by (auto simp: blocked_def woken_def)
    have b: "blocked s' = blocked s" "woken s' = woken s - {t}" using t relock by (auto simp: blocked_def woken_def zem_down_woken_def)
    have "0 < card (woken s)" using t(1) fin(2) by (auto simp: card_gt_0_iff)
    then have "int (card (woken s')) = int (card (woken s)) - 1" using b(2) t(1) fin(2) by (simp add: card_Diff_singleton)
    then show ?thesis using fin card sum hold b relock by (auto simp: zem_inv_def zem_down_woken_def)
  qed simp
qed

lemma zem_reach_inv: "zem_reach False v s \<Longrightarrow> 0 \<le> v \<Longrightarrow> zem_inv v s"
  by (induction rule: zem_reach.induct) (auto intro: zem_inv_init zem_inv_step)


lemma zem_first_down: "zem_reach sp 1 (zem_down 0 (set_zpc 0 In_down (zem_init 1\<lparr>z_holder := Some 0\<rparr>)))"
proof -
  have "zem_reach sp 1 (set_zpc 0 In_down (zem_init 1\<lparr>z_holder := Some 0\<rparr>))"
    by (rule zem_reach.step [OF zem_reach.init zem_step.lock_down]) (simp_all add: zem_init_def)
  then show ?thesis by (rule zem_reach.step [OF _ zem_step.down]) (simp_all add: zem_init_def)
qed


text \<open>With wake-ups that nobody sent, which POSIX allows, two threads are let in where there was room for one.\<close>

lemma zemaphore_spurious: "\<exists>s. zem_reach True 1 s \<and> z_ups s = 0 \<and> z_granted s = 2"
proof -
  define s1 where "s1 = zem_down 0 (set_zpc 0 In_down (zem_init 1\<lparr>z_holder := Some 0\<rparr>))"
  have 1: "zem_reach True 1 s1" unfolding s1_def by (rule zem_first_down)
  have p1: "z_holder s1 = None" "z_value s1 = 0" "z_pc s1 1 = Idle" "z_ups s1 = 0" "z_granted s1 = 1"
    by (simp_all add: s1_def zem_down_def zem_init_def Let_def)
  define s2 where "s2 = set_zpc 1 In_down (s1\<lparr>z_holder := Some 1\<rparr>)"
  have 2: "zem_reach True 1 s2" unfolding s2_def by (rule zem_reach.step [OF 1 zem_step.lock_down]) (simp_all add: p1 del: One_nat_def)
  define s3 where "s3 = zem_down 1 s2"
  have 3: "zem_reach True 1 s3" unfolding s3_def by (rule zem_reach.step [OF 2 zem_step.down]) (simp_all add: s2_def del: One_nat_def)
  have p3: "z_pc s3 1 = Blocked" "z_holder s3 = None" "z_granted s3 = 1" "z_ups s3 = 0"
    by (simp_all add: s3_def s2_def zem_down_def p1 Let_def del: One_nat_def)
  have 4: "zem_reach True 1 (set_zpc 1 Woken s3)" by (rule zem_reach.step [OF 3 zem_step.spurious]) (simp_all add: p3 del: One_nat_def)
  have "zem_reach True 1 (zem_down_woken 1 (set_zpc 1 Woken s3))" by (rule zem_reach.step [OF 4 zem_step.relock]) (simp_all add: p3 del: One_nat_def)
  then show ?thesis by (intro exI conjI) (auto simp: zem_down_woken_def p3)
qed

section \<open>Masters and workers\<close>

datatype thread = Master nat | Worker nat

text \<open>Where a thread is: before the mutex at the top of its loop, in the section from the top or from the inner
  loop, waiting, woken, or returned.\<close>

datatype mpc = At_lock | Top | Inner | Waits | Wakes | Done

record shop =
  item_to_produce :: nat
  item_read :: nat
  buffer :: "nat list"
  consumed :: "nat list"
  m_holder :: "thread option"
  m_pc :: "thread \<Rightarrow> mpc"

definition shop_init :: shop where
  "shop_init = \<lparr>item_to_produce = 0, item_read = 0, buffer = [], consumed = [], m_holder = None, m_pc = \<lambda>_. At_lock\<rparr>"

definition go :: "thread \<Rightarrow> mpc \<Rightarrow> shop \<Rightarrow> shop" where
  "go t p s = s\<lparr>m_pc := (m_pc s)(t := p), m_holder := None\<rparr>"

text \<open>A broadcast wakes all waiting masters, or all waiting workers.\<close>

definition wake_masters :: "shop \<Rightarrow> shop" where
  "wake_masters s = s\<lparr>m_pc := (\<lambda>t. case t of Master _ \<Rightarrow> if m_pc s t = Waits then Wakes else m_pc s t | Worker _ \<Rightarrow> m_pc s t)\<rparr>"

definition wake_workers :: "shop \<Rightarrow> shop" where
  "wake_workers s = s\<lparr>m_pc := (\<lambda>t. case t of Worker _ \<Rightarrow> if m_pc s t = Waits then Wakes else m_pc s t | Master _ \<Rightarrow> m_pc s t)\<rparr>"

text \<open>\<open>generate_requests_loop\<close> from the inner loop to where it gives up the mutex, and from the top.\<close>

definition master_inner :: "nat \<Rightarrow> nat \<Rightarrow> thread \<Rightarrow> shop \<Rightarrow> shop" where
  "master_inner tot cap t s =
     (if length (buffer s) = cap \<and> item_to_produce s < tot then go t Waits s
      else if item_to_produce s \<ge> tot then go t Done s
      else go t At_lock (wake_workers (s\<lparr>buffer := buffer s @ [item_to_produce s], item_to_produce := item_to_produce s + 1\<rparr>)))"

definition master_top :: "nat \<Rightarrow> nat \<Rightarrow> thread \<Rightarrow> shop \<Rightarrow> shop" where
  "master_top tot cap t s = (if item_to_produce s \<ge> tot then go t Done s else master_inner tot cap t s)"

text \<open>\<open>worker_thread_create\<close>: the last item of the buffer is taken.\<close>

definition worker_inner :: "nat \<Rightarrow> thread \<Rightarrow> shop \<Rightarrow> shop" where
  "worker_inner tot t s =
     (if buffer s = [] \<and> item_read s < tot then go t Waits s
      else if item_read s \<ge> tot then go t Done s
      else go t At_lock (wake_masters (s\<lparr>consumed := consumed s @ [last (buffer s)], buffer := butlast (buffer s), item_read := item_read s + 1\<rparr>)))"

definition worker_top :: "nat \<Rightarrow> thread \<Rightarrow> shop \<Rightarrow> shop" where
  "worker_top tot t s = (if item_read s \<ge> tot then go t Done s else worker_inner tot t s)"

definition section_of :: "nat \<Rightarrow> nat \<Rightarrow> thread \<Rightarrow> shop \<Rightarrow> shop" where
  "section_of tot cap t s =
     (case t of
        Master _ \<Rightarrow> if m_pc s t = Top then master_top tot cap t s else master_inner tot cap t s
      | Worker _ \<Rightarrow> if m_pc s t = Top then worker_top tot t s else worker_inner tot t s)"

inductive shop_step :: "thread set \<Rightarrow> nat \<Rightarrow> nat \<Rightarrow> shop \<Rightarrow> shop \<Rightarrow> bool" for T tot cap where
  lock: "t \<in> T \<Longrightarrow> m_holder s = None \<Longrightarrow> m_pc s t = At_lock \<Longrightarrow> shop_step T tot cap s (s\<lparr>m_holder := Some t, m_pc := (m_pc s)(t := Top)\<rparr>)"
| relock: "t \<in> T \<Longrightarrow> m_holder s = None \<Longrightarrow> m_pc s t = Wakes \<Longrightarrow> shop_step T tot cap s (s\<lparr>m_holder := Some t, m_pc := (m_pc s)(t := Inner)\<rparr>)"
| run: "m_holder s = Some t \<Longrightarrow> shop_step T tot cap s (section_of tot cap t s)"
| spurious: "t \<in> T \<Longrightarrow> m_pc s t = Waits \<Longrightarrow> shop_step T tot cap s (s\<lparr>m_pc := (m_pc s)(t := Wakes)\<rparr>)"

inductive shop_reach :: "thread set \<Rightarrow> nat \<Rightarrow> nat \<Rightarrow> shop \<Rightarrow> bool" for T tot cap where
  init: "shop_reach T tot cap shop_init"
| step: "shop_reach T tot cap s \<Longrightarrow> shop_step T tot cap s s' \<Longrightarrow> shop_reach T tot cap s'"

text \<open>A master waits only while the buffer is full and items are left, a worker only while it is empty and items are
  left, and who has returned has seen the end of the work.\<close>

definition shop_inv :: "nat \<Rightarrow> nat \<Rightarrow> shop \<Rightarrow> bool" where
  "shop_inv tot cap s \<longleftrightarrow>
     length (buffer s) \<le> cap \<and> item_to_produce s \<le> tot \<and> item_read s = length (consumed s) \<and>
     mset (buffer s) + mset (consumed s) = mset [0..<item_to_produce s] \<and>
     (\<forall>i. m_pc s (Master i) = Waits \<longrightarrow> length (buffer s) = cap \<and> item_to_produce s < tot) \<and>
     (\<forall>i. m_pc s (Worker i) = Waits \<longrightarrow> buffer s = [] \<and> item_read s < tot) \<and>
     (\<forall>i. m_pc s (Master i) = Done \<longrightarrow> tot \<le> item_to_produce s) \<and>
     (\<forall>i. m_pc s (Worker i) = Done \<longrightarrow> tot \<le> item_read s) \<and>
     (\<forall>t. m_pc s t \<in> {Top, Inner} \<longleftrightarrow> m_holder s = Some t)"
lemma shop_invI:
  assumes "length (buffer s) \<le> cap" "item_to_produce s \<le> tot" "item_read s = length (consumed s)"
    "mset (buffer s) + mset (consumed s) = mset [0..<item_to_produce s]"
    "\<And>i. m_pc s (Master i) = Waits \<Longrightarrow> length (buffer s) = cap \<and> item_to_produce s < tot"
    "\<And>i. m_pc s (Worker i) = Waits \<Longrightarrow> buffer s = [] \<and> item_read s < tot"
    "\<And>i. m_pc s (Master i) = Done \<Longrightarrow> tot \<le> item_to_produce s"
    "\<And>i. m_pc s (Worker i) = Done \<Longrightarrow> tot \<le> item_read s"
    "\<And>t. m_pc s t \<in> {Top, Inner} \<longleftrightarrow> m_holder s = Some t"
  shows "shop_inv tot cap s"
  using assms unfolding shop_inv_def by blast

lemma shop_invD:
  assumes "shop_inv tot cap s"
  shows "length (buffer s) \<le> cap" "item_to_produce s \<le> tot" "item_read s = length (consumed s)"
    "mset (buffer s) + mset (consumed s) = mset [0..<item_to_produce s]"
    "m_pc s (Master i) = Waits \<Longrightarrow> length (buffer s) = cap \<and> item_to_produce s < tot"
    "m_pc s (Worker i) = Waits \<Longrightarrow> buffer s = [] \<and> item_read s < tot"
    "m_pc s (Master i) = Done \<Longrightarrow> tot \<le> item_to_produce s"
    "m_pc s (Worker i) = Done \<Longrightarrow> tot \<le> item_read s"
    "m_pc s t \<in> {Top, Inner} \<longleftrightarrow> m_holder s = Some t"
  using assms unfolding shop_inv_def by blast+

lemma item_count: "shop_inv tot cap s \<Longrightarrow> length (buffer s) + item_read s = item_to_produce s"
proof -
  assume "shop_inv tot cap s"
  then have "size (mset (buffer s) + mset (consumed s)) = size (mset [0..<item_to_produce s])" "item_read s = length (consumed s)"
    by (simp_all add: shop_inv_def)
  then show ?thesis by simp
qed

lemma go_inv:
  assumes inv: "shop_inv tot cap s" and h: "m_holder s = Some t" and p: "p \<notin> {Top, Inner}"
    and w: "p = Waits \<Longrightarrow> (case t of Master _ \<Rightarrow> length (buffer s) = cap \<and> item_to_produce s < tot | Worker _ \<Rightarrow> buffer s = [] \<and> item_read s < tot)"
    and d: "p = Done \<Longrightarrow> (case t of Master _ \<Rightarrow> tot \<le> item_to_produce s | Worker _ \<Rightarrow> tot \<le> item_read s)"
  shows "shop_inv tot cap (go t p s)"
proof (rule shop_invI)
  note I = shop_invD [OF inv]
  show "m_pc (go t p s) u \<in> {Top, Inner} \<longleftrightarrow> m_holder (go t p s) = Some u" for u
    using I(9) [of u] h p by (auto simp: go_def)
  show "length (buffer (go t p s)) = cap \<and> item_to_produce (go t p s) < tot" if "m_pc (go t p s) (Master i) = Waits" for i
    using that I(5) [of i] w by (auto simp: go_def split: if_splits)
  show "buffer (go t p s) = [] \<and> item_read (go t p s) < tot" if "m_pc (go t p s) (Worker i) = Waits" for i
    using that I(6) [of i] w by (auto simp: go_def split: if_splits)
  show "tot \<le> item_to_produce (go t p s)" if "m_pc (go t p s) (Master i) = Done" for i
    using that I(7) [of i] d by (auto simp: go_def split: if_splits)
  show "tot \<le> item_read (go t p s)" if "m_pc (go t p s) (Worker i) = Done" for i
    using that I(8) [of i] d by (auto simp: go_def split: if_splits)
qed (use shop_invD(1-4) [OF inv] in \<open>simp_all add: go_def\<close>)

lemma wake_pc:
  "m_pc (wake_workers s) t \<in> {Top, Inner} \<longleftrightarrow> m_pc s t \<in> {Top, Inner}" "m_pc (wake_masters s) t \<in> {Top, Inner} \<longleftrightarrow> m_pc s t \<in> {Top, Inner}"
  "m_pc (wake_workers s) t = Done \<longleftrightarrow> m_pc s t = Done" "m_pc (wake_masters s) t = Done \<longleftrightarrow> m_pc s t = Done"
  by (auto simp: wake_workers_def wake_masters_def split: thread.splits)

lemma produce_inv:
  assumes inv: "shop_inv tot cap s" and p: "length (buffer s) \<noteq> cap" "item_to_produce s < tot"
  shows "shop_inv tot cap (wake_workers (s\<lparr>buffer := buffer s @ [item_to_produce s], item_to_produce := item_to_produce s + 1\<rparr>))"
    (is "shop_inv tot cap (wake_workers ?s)")
proof (rule shop_invI)
  note I = shop_invD [OF inv]
  have sel: "buffer (wake_workers x) = buffer x" "item_to_produce (wake_workers x) = item_to_produce x" "item_read (wake_workers x) = item_read x"
    "consumed (wake_workers x) = consumed x" "m_holder (wake_workers x) = m_holder x" for x by (simp_all add: wake_workers_def)
  show "length (buffer (wake_workers ?s)) \<le> cap" "item_to_produce (wake_workers ?s) \<le> tot" "item_read (wake_workers ?s) = length (consumed (wake_workers ?s))"
    using I(1,3) p by (simp_all add: sel)
  show "mset (buffer (wake_workers ?s)) + mset (consumed (wake_workers ?s)) = mset [0..<item_to_produce (wake_workers ?s)]"
    using I(4) by (simp add: sel)
  show "m_pc (wake_workers ?s) t \<in> {Top, Inner} \<longleftrightarrow> m_holder (wake_workers ?s) = Some t" for t
    using I(9) [of t] by (simp add: wake_pc sel del: insert_iff)
  show "length (buffer (wake_workers ?s)) = cap \<and> item_to_produce (wake_workers ?s) < tot" if "m_pc (wake_workers ?s) (Master i) = Waits" for i
    using that I(5) [of i] p by (simp add: wake_workers_def)
  show "buffer (wake_workers ?s) = [] \<and> item_read (wake_workers ?s) < tot" if "m_pc (wake_workers ?s) (Worker i) = Waits" for i
    using that by (simp add: wake_workers_def split: if_splits)
  show "tot \<le> item_to_produce (wake_workers ?s)" if "m_pc (wake_workers ?s) (Master i) = Done" for i
    using that I(7) [of i] by (simp add: wake_pc sel)
  show "tot \<le> item_read (wake_workers ?s)" if "m_pc (wake_workers ?s) (Worker i) = Done" for i
    using that I(8) [of i] by (simp add: wake_pc sel)
qed

lemma consume_inv:
  assumes inv: "shop_inv tot cap s" and p: "buffer s \<noteq> []"
  shows "shop_inv tot cap (wake_masters (s\<lparr>consumed := consumed s @ [last (buffer s)], buffer := butlast (buffer s), item_read := item_read s + 1\<rparr>))"
    (is "shop_inv tot cap (wake_masters ?s)")
proof (rule shop_invI)
  note I = shop_invD [OF inv]
  have sel: "buffer (wake_masters x) = buffer x" "item_to_produce (wake_masters x) = item_to_produce x" "item_read (wake_masters x) = item_read x"
    "consumed (wake_masters x) = consumed x" "m_holder (wake_masters x) = m_holder x" for x by (simp_all add: wake_masters_def)
  show "length (buffer (wake_masters ?s)) \<le> cap" "item_to_produce (wake_masters ?s) \<le> tot" "item_read (wake_masters ?s) = length (consumed (wake_masters ?s))"
    using I(1-3) by (simp_all add: sel)
  have eq: "mset (butlast (buffer s)) + {#last (buffer s)#} = mset (buffer s)" using p by (metis append_butlast_last_id mset_append mset_single_iff_right)
  show "mset (buffer (wake_masters ?s)) + mset (consumed (wake_masters ?s)) = mset [0..<item_to_produce (wake_masters ?s)]"
    using I(4) unfolding eq [symmetric] by (simp add: sel ac_simps)
  show "m_pc (wake_masters ?s) t \<in> {Top, Inner} \<longleftrightarrow> m_holder (wake_masters ?s) = Some t" for t
    using I(9) [of t] by (simp add: wake_pc sel del: insert_iff)
  show "length (buffer (wake_masters ?s)) = cap \<and> item_to_produce (wake_masters ?s) < tot" if "m_pc (wake_masters ?s) (Master i) = Waits" for i
    using that by (simp add: wake_masters_def split: if_splits)
  show "buffer (wake_masters ?s) = [] \<and> item_read (wake_masters ?s) < tot" if "m_pc (wake_masters ?s) (Worker i) = Waits" for i
    using that I(6) [of i] p by (simp add: wake_masters_def)
  show "tot \<le> item_to_produce (wake_masters ?s)" if "m_pc (wake_masters ?s) (Master i) = Done" for i
    using that I(7) [of i] by (simp add: wake_pc sel)
  show "tot \<le> item_read (wake_masters ?s)" if "m_pc (wake_masters ?s) (Worker i) = Done" for i
    using that I(8) [of i] by (simp add: wake_pc sel)
qed

lemma section_inv:
  assumes inv: "shop_inv tot cap s" and h: "m_holder s = Some t"
  shows "shop_inv tot cap (section_of tot cap t s)"
proof (cases t)
  case (Master i)
  have wk: "shop_inv tot cap (go t At_lock (wake_workers (s\<lparr>buffer := buffer s @ [item_to_produce s], item_to_produce := item_to_produce s + 1\<rparr>)))"
    if "length (buffer s) \<noteq> cap" "item_to_produce s < tot"
    by (rule go_inv [OF produce_inv [OF inv that]]) (use h in \<open>simp_all add: wake_workers_def\<close>)
  have "shop_inv tot cap (master_inner tot cap t s)"
    using wk go_inv [OF inv h, of Waits] go_inv [OF inv h, of Done] Master by (auto simp: master_inner_def)
  then show ?thesis using go_inv [OF inv h, of Done] Master by (auto simp: section_of_def master_top_def)
next
  case (Worker i)
  have wk: "shop_inv tot cap (go t At_lock (wake_masters (s\<lparr>consumed := consumed s @ [last (buffer s)], buffer := butlast (buffer s), item_read := item_read s + 1\<rparr>)))"
    if "buffer s \<noteq> []"
    by (rule go_inv [OF consume_inv [OF inv that]]) (use h in \<open>simp_all add: wake_masters_def\<close>)
  have "shop_inv tot cap (worker_inner tot t s)"
    using wk go_inv [OF inv h, of Waits] go_inv [OF inv h, of Done] Worker by (auto simp: worker_inner_def)
  then show ?thesis using go_inv [OF inv h, of Done] Worker by (auto simp: section_of_def worker_top_def)
qed

lemma pc_inv:
  assumes inv: "shop_inv tot cap s" and p: "p \<notin> {Waits, Done}"
    and h: "\<And>u. ((m_pc s)(t := p)) u \<in> {Top, Inner} \<longleftrightarrow> h = Some u"
  shows "shop_inv tot cap (s\<lparr>m_holder := h, m_pc := (m_pc s)(t := p)\<rparr>)"
proof (rule shop_invI)
  note I = shop_invD [OF inv]
  let ?s = "s\<lparr>m_holder := h, m_pc := (m_pc s)(t := p)\<rparr>"
  show "length (buffer ?s) = cap \<and> item_to_produce ?s < tot" if "m_pc ?s (Master i) = Waits" for i
    using that I(5) [of i] p by (auto split: if_splits)
  show "buffer ?s = [] \<and> item_read ?s < tot" if "m_pc ?s (Worker i) = Waits" for i
    using that I(6) [of i] p by (auto split: if_splits)
  show "tot \<le> item_to_produce ?s" if "m_pc ?s (Master i) = Done" for i using that I(7) [of i] p by (auto split: if_splits)
  show "tot \<le> item_read ?s" if "m_pc ?s (Worker i) = Done" for i using that I(8) [of i] p by (auto split: if_splits)
  show "m_pc ?s u \<in> {Top, Inner} \<longleftrightarrow> m_holder ?s = Some u" for u using h [of u] by simp
qed (use shop_invD(1-4) [OF inv] in simp_all)

lemma shop_step_inv: "shop_step T tot cap s s' \<Longrightarrow> shop_inv tot cap s \<Longrightarrow> shop_inv tot cap s'"
proof (induction rule: shop_step.induct)
  case (lock t s)
  have "((m_pc s)(t := Top)) u \<in> {Top, Inner} \<longleftrightarrow> Some t = Some u" for u using shop_invD(9) [OF lock(4), of u] lock(2) by auto
  from pc_inv [OF lock(4) _ this] show ?case by simp
next
  case (relock t s)
  have "((m_pc s)(t := Inner)) u \<in> {Top, Inner} \<longleftrightarrow> Some t = Some u" for u using shop_invD(9) [OF relock(4), of u] relock(2) by auto
  from pc_inv [OF relock(4) _ this] show ?case by simp
next
  case (run s t)
  then show ?case by (rule section_inv [rotated])
next
  case (spurious t s)
  have "((m_pc s)(t := Wakes)) u \<in> {Top, Inner} \<longleftrightarrow> m_holder s = Some u" for u
    using shop_invD(9) [OF spurious(3), of u] spurious(2) by auto
  from pc_inv [OF spurious(3) _ this] have "shop_inv tot cap (s\<lparr>m_holder := m_holder s, m_pc := (m_pc s)(t := Wakes)\<rparr>)" by simp
  then show ?case by simp
qed

lemma shop_reach_inv: "shop_reach T tot cap s \<Longrightarrow> shop_inv tot cap s"
proof (induction rule: shop_reach.induct)
  case init
  show ?case by (simp add: shop_inv_def shop_init_def)
next
  case (step s s')
  then show ?case by (elim shop_step_inv)
qed

lemma enabled:
  assumes "t \<in> T" "m_pc s t \<notin> {Waits, Done}" "shop_inv tot cap s"
  shows "\<exists>s'. shop_step T tot cap s s'"
proof (cases "m_holder s")
  case None
  then have "m_pc s t = At_lock \<or> m_pc s t = Wakes" using assms(2) shop_invD(9) [OF assms(3), of t] by (cases "m_pc s t") auto
  then show ?thesis using None assms(1) shop_step.lock shop_step.relock by metis
next
  case (Some u)
  then show ?thesis using shop_step.run by blast
qed

text \<open>
  C18. The masters and workers deliver every item exactly once and cannot block each other. Under every interleaving,
  also with wake-ups that nobody sent, the items produced so far are exactly those in the buffer and those consumed,
  the buffer never holds more than its size, and as long as some thread has not returned, some thread that does not
  wait for a signal can go on, for any numbers of masters and workers but zero and any buffer size but zero. When
  all have returned, the consumed items are 0 to the total, each once.
\<close>

theorem master_worker_delivers:
  assumes "shop_reach T tot cap s" "0 < cap" "Master m \<in> T" "Worker w \<in> T"
  shows "length (buffer s) \<le> cap \<and> mset (buffer s) + mset (consumed s) = mset [0..<item_to_produce s] \<and>
    ((\<exists>t\<in>T. m_pc s t \<noteq> Done) \<longrightarrow> (\<exists>t\<in>T. m_pc s t \<notin> {Waits, Done}) \<and> (\<exists>s'. shop_step T tot cap s s')) \<and>
    ((\<forall>t\<in>T. m_pc s t = Done) \<longrightarrow> mset (consumed s) = mset [0..<tot])"
proof -
  have inv: "shop_inv tot cap s" by (rule shop_reach_inv [OF assms(1)])
  note I = shop_invD [OF inv] and n = item_count [OF inv]
  have live: "\<exists>t\<in>T. m_pc s t \<notin> {Waits, Done}" if "t \<in> T" "m_pc s t \<noteq> Done" for t
  proof (rule ccontr)
    assume "\<not> (\<exists>t\<in>T. m_pc s t \<notin> {Waits, Done})"
    then have all: "m_pc s u = Waits \<or> m_pc s u = Done" if "u \<in> T" for u using that by auto
    have m: "m_pc s (Master m) = Waits \<or> m_pc s (Master m) = Done" and w: "m_pc s (Worker w) = Waits \<or> m_pc s (Worker w) = Done"
      using all assms(3,4) by auto
    have t: "m_pc s t = Waits" using all that by auto
    show False
    proof (cases t)
      case (Master i)
      then have f: "length (buffer s) = cap" "item_to_produce s < tot" using I(5) t by auto
      then have "m_pc s (Worker w) \<noteq> Waits" using I(6) assms(2) by auto
      then have "tot \<le> item_read s" using w I(8) by auto
      then show False using n f by simp
    next
      case (Worker i)
      then have f: "buffer s = []" "item_read s < tot" using I(6) t by auto
      then have "m_pc s (Master m) \<noteq> Waits" using I(5) [of m] assms(2) by auto
      then have "tot \<le> item_to_produce s" using m I(7) by auto
      then show False using n f by simp
    qed
  qed
  have fin: "mset (consumed s) = mset [0..<tot]" if "\<forall>t\<in>T. m_pc s t = Done"
  proof -
    have "tot \<le> item_read s" using that I(8) assms(4) by blast
    then have "item_to_produce s = tot" "length (buffer s) = 0" using n I(2) by linarith+
    then show ?thesis using I(4) by simp
  qed
  show ?thesis using I(1,4) live fin enabled [OF _ _ inv] by blast
qed

theorem master_worker_delivers_witness:
  "\<exists>s s'. shop_reach {Master 0, Worker 0} 1 1 s \<and> item_to_produce s = 1 \<and> buffer s = [0] \<and> shop_step {Master 0, Worker 0} 1 1 s s'"
proof -
  let ?T = "{Master 0, Worker 0}"
  define s1 where "s1 = shop_init\<lparr>m_holder := Some (Master 0), m_pc := (m_pc shop_init)(Master 0 := Top)\<rparr>"
  have 1: "shop_reach ?T 1 1 s1" unfolding s1_def by (rule shop_reach.step [OF shop_reach.init shop_step.lock]) (simp_all add: shop_init_def)
  define s2 where "s2 = section_of 1 1 (Master 0) s1"
  have 2: "shop_reach ?T 1 1 s2" unfolding s2_def by (rule shop_reach.step [OF 1 shop_step.run]) (simp add: s1_def)
  have s2: "item_to_produce s2 = 1" "buffer s2 = [0]" "m_pc s2 (Worker 0) = At_lock"
    by (simp_all add: s2_def s1_def section_of_def master_top_def master_inner_def go_def wake_workers_def shop_init_def)
  have "(0 :: nat) < 1" "Master 0 \<in> ?T" "Worker 0 \<in> ?T" by simp_all
  from master_worker_delivers [OF 2 this, THEN conjunct2, THEN conjunct2, THEN conjunct1] s2(3)
  have "\<exists>s'. shop_step ?T 1 1 s2 s'" by auto
  with 2 s2 show ?thesis by blast
qed

end
