(* ===== verification/User_Mem.thy ===== *)
theory User_Mem
  imports Vm
begin

text \<open>
  Page tables of \<open>Vm\<close> seen from the program: the bytes of a process as a partial function of its addresses, the
  invariant of an address space whose first pages are mapped, each to a frame of its own, and what growing the space and
  copying into it do to that view.
\<close>

unbundle bit_operations_syntax

section \<open>Page numbers\<close>

definition pg :: "u32 \<Rightarrow> nat" where "pg va = unat va div 4096"

definition pbase :: "nat \<Rightarrow> u32" where "pbase n = of_nat (4096 * n)"

lemma AND_mask_nat: "unat (w AND 0x3FF :: u32) = unat w mod 1024"
proof -
  have "w AND 0x3FF = take_bit 10 w" by (simp add: take_bit_eq_mask mask_eq_exp_minus_1)
  then show ?thesis by (simp add: take_bit_eq_mod unat_mod)
qed

lemma same_page_iff: "same_page a b \<longleftrightarrow> pg a = pg b"
proof -
  have "unat (drop_bit n w) = unat w div 2 ^ n" for w :: u32 and n
    using unat_drop_bit_eq [of n w] by (simp only: drop_bit_eq_div)
  then have d: "PDX w = unat w div 4194304 mod 1024" "PTX w = unat w div 4096 mod 1024" for w
    by (simp_all add: PDX_def PTX_def AND_mask_nat)
  have u: "unat w < 4294967296" for w :: u32 using unsigned_less [where 'a = nat and w = w] by simp
  have pd: "PDX w = pg w div 1024" for w
    unfolding d pg_def using u [of w] by (simp add: div_mult2_eq [symmetric])
  have pt: "PTX w = pg w mod 1024" for w unfolding d pg_def ..
  show ?thesis unfolding same_page_def pd pt by (metis div_mult_mod_eq)
qed

lemma pbase:
  assumes "n < 2 ^ 20"
  shows "unat (pbase n) = 4096 * n" "pg (pbase n) = n" "pbase n mod PGSIZE = 0"
proof -
  show u: "unat (pbase n) = 4096 * n" using assms by (simp add: pbase_def unat_of_nat del: of_nat_mult)
  then show "pg (pbase n) = n" by (simp add: pg_def)
  have "unat (pbase n mod PGSIZE) = 0" by (simp add: unat_mod u PGSIZE_def)
  then show "pbase n mod PGSIZE = 0" by (simp add: unat_eq_0)
qed

lemma pbase_Suc: "pbase n + PGSIZE = pbase (Suc n)"
  by (simp add: pbase_def PGSIZE_def)

lemma PGROUNDDOWN_pg: "PGROUNDDOWN va = pbase (pg va)" "unat va = unat (PGROUNDDOWN va) + unat va mod 4096"
proof -
  have "va AND NOT (PGSIZE - 1) = va - (va AND 0xFFF)"
  proof -
    have "va = (va AND NOT 0xFFF) OR (va AND 0xFFF)" by (simp flip: bit.conj_disj_distrib)
    moreover have "(va AND NOT 0xFFF) AND (va AND 0xFFF) = 0" by (rule bit_eqI) (auto simp: bit_simps)
    ultimately have "va = (va AND NOT 0xFFF) + (va AND 0xFFF)" by (simp add: disjunctive_add_eq_or)
    then show ?thesis by (simp add: PGSIZE_def algebra_simps)
  qed
  moreover have "va AND 0xFFF = of_nat (unat va mod 4096)"
  proof -
    have "va AND 0xFFF = take_bit 12 va" by (simp add: take_bit_eq_mask mask_eq_exp_minus_1)
    then have "unat (va AND 0xFFF) = unat va mod 4096" by (simp add: take_bit_eq_mod unat_mod)
    then have "of_nat (unat (va AND 0xFFF)) = (of_nat (unat va mod 4096) :: u32)" by (rule arg_cong)
    then show ?thesis by simp
  qed
  moreover have "va = of_nat (4096 * pg va + unat va mod 4096)" by (simp add: pg_def)
  ultimately show eq: "PGROUNDDOWN va = pbase (pg va)"
    unfolding PGROUNDDOWN_def pbase_def by (metis add_diff_cancel_right' of_nat_add)
  have "pg va < 2 ^ 20" using unsigned_less [where 'a = nat and w = va] by (simp add: pg_def less_mult_imp_div_less)
  then show "unat va = unat (PGROUNDDOWN va) + unat va mod 4096" by (simp add: eq pbase) (simp add: pg_def)
qed

lemma PGROUNDUP_pg:
  assumes "unat va \<le> 2 ^ 31"
  shows "PGROUNDUP va = pbase ((unat va + 4095) div 4096)"
proof -
  have "PGROUNDUP va = PGROUNDDOWN (va + (PGSIZE - 1))" by (simp add: PGROUNDUP_def PGROUNDDOWN_def add_diff_eq)
  moreover have "unat (va + (PGSIZE - 1)) = unat va + 4095" using assms 
    by (simp add: unat_word_ariths PGSIZE_def)
  ultimately show ?thesis by (simp only: PGROUNDDOWN_pg(1) pg_def)
qed

section \<open>The view of a program\<close>

definition frame :: "kmem \<Rightarrow> u32 \<Rightarrow> u32 \<Rightarrow> u32" where
  "frame m pgdir va = PTE_ADDR (pte_of m pgdir va)"

definition ubyte :: "kmem \<Rightarrow> u32 \<Rightarrow> u32 \<Rightarrow> u8" where
  "ubyte m pgdir va = pm m (frame m pgdir va) (unat va mod 4096)"

definition user :: "kmem \<Rightarrow> u32 \<Rightarrow> u32 \<Rightarrow> bool" where
  "user m pgdir va \<longleftrightarrow> pte_of m pgdir va AND PTE_U \<noteq> 0"

definition tables :: "kmem \<Rightarrow> u32 \<Rightarrow> u32 set" where
  "tables m pgdir = {PTE_ADDR (entry m (pgdir, i)) | i. present (entry m (pgdir, i))}"

text \<open>The first \<open>n\<close> pages are mapped and no other below the kernel; their frames are in use, apart from each other and
  from the tables; the kernel's part is closed to the user.\<close>

definition aspace :: "kmem \<Rightarrow> u32 \<Rightarrow> nat \<Rightarrow> bool" where
  "aspace m pgdir n \<longleftrightarrow> kmem_inv m \<and> pt_wf m pgdir \<and> n \<le> 2 ^ 19 \<and>
     (\<forall>va. pg va < 2 ^ 19 \<longrightarrow> (present (pte_of m pgdir va) \<longleftrightarrow> pg va < n)) \<and>
     (\<forall>va. pg va < n \<longrightarrow> frame m pgdir va \<notin> set (freelist m) \<and> frame m pgdir va \<noteq> pgdir \<and>
        frame m pgdir va \<notin> tables m pgdir) \<and>
     (\<forall>va vb. pg va < n \<longrightarrow> pg vb < n \<longrightarrow> frame m pgdir va = frame m pgdir vb \<longrightarrow> pg va = pg vb) \<and>
     (\<forall>va. 2 ^ 19 \<le> pg va \<longrightarrow> \<not> user m pgdir va)"

lemma pte_of_page: "pg va = pg vb \<Longrightarrow> pte_of m pgdir va = pte_of m pgdir vb"
  unfolding same_page_iff [symmetric] by (auto simp: same_page_def pte_of_def Let_def)

lemma frame_page: "pg va = pg vb \<Longrightarrow> frame m pgdir va = frame m pgdir vb"
  unfolding frame_def by (simp only: pte_of_page [of va vb])

lemma user_page: "pg va = pg vb \<Longrightarrow> user m pgdir va = user m pgdir vb"
  unfolding user_def by (simp only: pte_of_page [of va vb])

lemma walk_frame:
  assumes inv: "kmem_inv m" and wf: "pt_wf m pgdir" and w: "walkpgdir pgdir va True m = Inr (Some l, m')"
  shows "\<exists>qs. freelist m = qs @ freelist m' \<and> length qs \<le> 1 \<and> tables m' pgdir \<subseteq> tables m pgdir \<union> set qs \<and>
    fst l \<in> tables m' pgdir \<and> (\<forall>q. q \<noteq> pgdir \<longrightarrow> q \<notin> set qs \<longrightarrow> pm m' q = pm m q)"
proof (cases "present (entry m (pgdir, PDX va))")
  case True
  then have "m' = m" "l = (PTE_ADDR (entry m (pgdir, PDX va)), PTX va)" using w by (auto simp: walkpgdir_def Let_def)
  then show ?thesis using True by (intro exI [of _ "[]"]) (auto simp: tables_def)
next
  case False
  then obtain p m1 where k: "kalloc m = Inr (Some p, m1)" and l: "l = (p, PTX va)"
      "m' = set_entry (pgdir, PDX va) (p OR PTE_P OR PTE_W OR PTE_U) (set_page p zeros m1)"
    using w by (auto simp: walkpgdir_def Let_def bindR_Inr_iff split: option.splits)
  then have k': "freelist m = p # freelist m1" "pm m1 = pm m" "\<not> bad_page p m" using kalloc_spec [OF inv] by auto
  have "p mod PGSIZE = 0" using k'(3) by (simp add: bad_page_def)
  then have pa: "PTE_ADDR (p OR PTE_P OR PTE_W OR PTE_U) = p"
    by (rule PTE_ADDR_OR) (simp add: PTE_P_def PTE_W_def PTE_U_def)
  have pr: "present (p OR PTE_P OR PTE_W OR PTE_U)" using present_OR [of "p OR PTE_W OR PTE_U"] by (simp add: ac_simps)
  have np: "p \<noteq> pgdir" using wf k'(1) by (auto simp: pt_wf_def)
  have e: "entry m1 = entry m" using k'(2) by (rule entry_cong)
  have dir: "entry m' (pgdir, i) = (if i = PDX va then p OR PTE_P OR PTE_W OR PTE_U else entry m (pgdir, i))" for i
    using np by (auto simp: l entry_set_other entry_set_page e)
  have "tables m' pgdir \<subseteq> tables m pgdir \<union> {p}" "p \<in> tables m' pgdir"
    using pa pr unfolding tables_def dir by auto
  moreover have "pm m' q = pm m q" if "q \<noteq> pgdir" "q \<noteq> p" for q
    using that k'(2) by (simp add: l set_entry_def set_page_def)
  moreover have "freelist m' = freelist m1" by (simp add: l)
  ultimately show ?thesis using k'(1) l(1) by (intro exI [of _ "[p]"]) auto
qed

lemma tables_set_entry: "fst l \<noteq> pgdir \<Longrightarrow> tables (set_entry l w m) pgdir = tables m pgdir"
proof -
  assume "fst l \<noteq> pgdir"
  then have "entry (set_entry l w m) (pgdir, i) = entry m (pgdir, i)" for i by (intro entry_set_other) auto
  then show ?thesis by (simp add: tables_def)
qed

text \<open>Mapping a page takes at most one page, for a table, and writes to nothing but the tables.\<close>

lemma mappages_mapped:
  assumes inv: "kmem_inv m" and wf: "pt_wf m pgdir" and va: "va mod PGSIZE = 0"
    and np: "\<not> present (pte_of m pgdir va)" and fr: "freelist m \<noteq> []"
  shows "\<exists>m' qs. mappages pgdir va PGSIZE pa perm m = Inr (True, m') \<and> kmem_inv m' \<and> pt_wf m' pgdir \<and>
    (\<forall>va'. pte_of m' pgdir va' = (if same_page va va' then pa OR perm OR PTE_P else pte_of m pgdir va')) \<and>
    freelist m = qs @ freelist m' \<and> length qs \<le> 1 \<and> tables m' pgdir \<subseteq> tables m pgdir \<union> set qs \<and>
    (\<forall>q. q \<noteq> pgdir \<longrightarrow> q \<notin> tables m pgdir \<longrightarrow> q \<notin> set qs \<longrightarrow> pm m' q = pm m q)"
proof -
  obtain m' where m: "mappages pgdir va PGSIZE pa perm m = Inr (True, m')" "kmem_inv m'" "pt_wf m' pgdir"
      "\<forall>va'. pte_of m' pgdir va' = (if same_page va va' then pa OR perm OR PTE_P else pte_of m pgdir va')"
    using mappages_page [OF inv wf va, of pa perm] np fr by blast
  obtain r m1 where wr: "walkpgdir pgdir va True m = Inr (r, m1)" and c: "(case r of None \<Rightarrow> Inr (False, m1)
       | Some l \<Rightarrow> if present (entry m1 l) then Inl (Panic ''remap'') else Inr (True, set_entry l (pa OR perm OR PTE_P) m1)) = Inr (True, m')"
    using m(1) unfolding mappages_one [OF va] by (auto simp: bindR_Inr_iff)
  then obtain l where w: "walkpgdir pgdir va True m = Inr (Some l, m1)" and m': "m' = set_entry l (pa OR perm OR PTE_P) m1"
    by (auto split: option.splits if_splits)
  obtain qs where q: "freelist m = qs @ freelist m1" "length qs \<le> 1" "tables m1 pgdir \<subseteq> tables m pgdir \<union> set qs"
      "fst l \<in> tables m1 pgdir" "\<forall>q. q \<noteq> pgdir \<longrightarrow> q \<notin> set qs \<longrightarrow> pm m1 q = pm m q"
    using walk_frame [OF inv wf w] by blast
  have "pt_wf m1 pgdir" using walk_spec [OF inv wf, of va] w by auto
  then have "fst l \<noteq> pgdir" using q(4) by (auto simp: tables_def pt_wf_def)
  then have t: "tables m' pgdir = tables m1 pgdir" unfolding m' by (rule tables_set_entry)
  have "pm m' x = pm m x" if "x \<noteq> pgdir" "x \<notin> tables m pgdir" "x \<notin> set qs" for x
    using that q(3-5) by (auto simp: m' set_entry_def)
  moreover have "freelist m' = freelist m1" by (simp add: m')
  ultimately show ?thesis using m q(1-3) t by (intro exI [of _ m'] exI [of _ qs]) simp
qed

section \<open>Growing\<close>

text \<open>From \<open>a\<close> pages to \<open>b\<close>: the new pages are zero and open to the user, the old ones are as they were, and nothing is
  written but the tables and pages that were free.\<close>

definition grown :: "u32 \<Rightarrow> nat \<Rightarrow> nat \<Rightarrow> kmem \<Rightarrow> kmem \<Rightarrow> bool" where
  "grown pgdir a b m m' \<longleftrightarrow> aspace m' pgdir b \<and> length (freelist m) \<le> length (freelist m') + 2 * (b - a) \<and>
     set (freelist m') \<subseteq> set (freelist m) \<and> tables m' pgdir \<subseteq> tables m pgdir \<union> set (freelist m) \<and>
     (\<forall>va. pg va < a \<longrightarrow> pte_of m' pgdir va = pte_of m pgdir va \<and> ubyte m' pgdir va = ubyte m pgdir va) \<and>
     (\<forall>va. a \<le> pg va \<longrightarrow> pg va < b \<longrightarrow>
        user m' pgdir va \<and> ubyte m' pgdir va = 0 \<and> frame m' pgdir va \<in> set (freelist m)) \<and>
     (\<forall>q. q \<notin> set (freelist m) \<longrightarrow> q \<noteq> pgdir \<longrightarrow> q \<notin> tables m pgdir \<longrightarrow> pm m' q = pm m q)"

lemma as_grown_refl: "aspace m pgdir a \<Longrightarrow> grown pgdir a a m m"
  by (auto simp: grown_def)

lemma as_grown_trans:
  assumes g: "grown pgdir a b m m1" and h: "grown pgdir b c m1 m2" and le: "a \<le> b" "b \<le> c"
  shows "grown pgdir a c m m2"
proof -
  have "user m2 pgdir va \<and> ubyte m2 pgdir va = 0 \<and> frame m2 pgdir va \<in> set (freelist m)" if "a \<le> pg va" "pg va < c" for va
  proof (cases "pg va < b")
    case True
    then have "pte_of m2 pgdir va = pte_of m1 pgdir va" "ubyte m2 pgdir va = ubyte m1 pgdir va"
        "user m1 pgdir va" "ubyte m1 pgdir va = 0" "frame m1 pgdir va \<in> set (freelist m)"
      using g h that(1) by (auto simp: grown_def)
    then show ?thesis by (simp add: user_def frame_def)
  next
    case False
    then show ?thesis using g h that(2) by (auto simp: grown_def)
  qed
  moreover have "pte_of m2 pgdir va = pte_of m pgdir va \<and> ubyte m2 pgdir va = ubyte m pgdir va" if "pg va < a" for va
    using g h that le unfolding grown_def by (metis order_less_le_trans)
  moreover have "pm m2 q = pm m q" if "q \<notin> set (freelist m)" "q \<noteq> pgdir" "q \<notin> tables m pgdir" for q
  proof -
    have "q \<notin> set (freelist m1)" "q \<notin> tables m1 pgdir" "pm m1 q = pm m q" using g that by (auto simp: grown_def)
    then show ?thesis using h that(2) by (auto simp: grown_def)
  qed
  moreover have "set (freelist m2) \<subseteq> set (freelist m)" "tables m2 pgdir \<subseteq> tables m pgdir \<union> set (freelist m)"
    using g h unfolding grown_def by blast+
  moreover have "length (freelist m) \<le> length (freelist m2) + 2 * (c - a)"
    using g h le unfolding grown_def by linarith
  ultimately show ?thesis using h unfolding grown_def by blast
qed

lemma user_bits: "(p OR (PTE_W OR PTE_U) OR PTE_P) AND PTE_U \<noteq> 0"
proof -
  have "bit ((p OR (PTE_W OR PTE_U) OR PTE_P) AND PTE_U) 2" by (simp add: PTE_P_def PTE_W_def PTE_U_def bit_simps)
  then show ?thesis by auto
qed

lemma grow_page:
  assumes as: "aspace m pgdir n" and n: "n < 2 ^ 19" and fl: "freelist m = p # f # fs"
  shows "\<exists>m1 m'. kalloc m = Inr (Some p, m1) \<and>
    mappages pgdir (pbase n) PGSIZE p (PTE_W OR PTE_U) (set_page p zeros m1) = Inr (True, m') \<and> grown pgdir n (Suc n) m m'"
proof -
  note A = as [unfolded aspace_def]
  have inv: "kmem_inv m" and wf: "pt_wf m pgdir" using A by blast+
  obtain m1 where k: "kalloc m = Inr (Some p, m1)" "freelist m = p # freelist m1" "pm m1 = pm m" "p \<notin> set (freelist m1)"
      "kmem_inv m1" "\<not> bad_page p m"
    using kalloc_spec [OF inv] fl by auto
  define m0 where "m0 = set_page p zeros m1"
  note W = pt_wf_kalloc [OF wf k(2,3), of zeros, folded m0_def]
  have n': "n < 2 ^ 20" using n by simp
  have pgn: "pg (pbase n) = n" using pbase [OF n'] by simp
  have "\<not> present (pte_of m0 pgdir (pbase n))" using A n pgn by (simp add: W(2))
  moreover have "kmem_inv m0" "freelist m0 = freelist m1" by (simp_all add: m0_def k(5))
  moreover have "freelist m1 \<noteq> []" using fl k(2) by simp
  ultimately obtain m' qs where m': "mappages pgdir (pbase n) PGSIZE p (PTE_W OR PTE_U) m0 = Inr (True, m')" "kmem_inv m'" "pt_wf m' pgdir"
      "\<forall>va'. pte_of m' pgdir va' = (if same_page (pbase n) va' then p OR (PTE_W OR PTE_U) OR PTE_P else pte_of m0 pgdir va')"
      "freelist m1 = qs @ freelist m'" "length qs \<le> 1" "tables m' pgdir \<subseteq> tables m0 pgdir \<union> set qs"
      "\<forall>q. q \<noteq> pgdir \<longrightarrow> q \<notin> tables m0 pgdir \<longrightarrow> q \<notin> set qs \<longrightarrow> pm m' q = pm m0 q"
    using mappages_mapped [OF _ W(1) pbase(3) [OF n'], of p "PTE_W OR PTE_U"] by auto
  have t0: "tables m0 pgdir = tables m pgdir" by (simp add: tables_def W(3))
  have pte: "pte_of m' pgdir va = (if pg va = n then p OR (PTE_W OR PTE_U) OR PTE_P else pte_of m pgdir va)" for va
    using m'(4) by (auto simp: same_page_iff pgn W(2))
  have "PTE_ADDR (p OR ((PTE_W OR PTE_U) OR PTE_P)) = p"
    using k(6) by (intro PTE_ADDR_OR) (auto simp: bad_page_def PTE_P_def PTE_W_def PTE_U_def)
  then have frame: "frame m' pgdir va = (if pg va = n then p else frame m pgdir va)" for va
    by (simp add: frame_def pte)
  have pT: "p \<notin> tables m pgdir" "p \<noteq> pgdir" using wf fl by (auto simp: pt_wf_def tables_def)
  have dis: "p \<notin> set qs" "set qs \<subseteq> set (freelist m)" "set qs \<inter> set (freelist m') = {}" "set (freelist m') \<subseteq> set (freelist m)"
      "p \<notin> set (freelist m')"
    using inv k(2,4) m'(5) by (auto simp: kmem_inv_def)
  have tab: "x \<in> tables m pgdir \<or> x \<in> set qs" if "x \<in> tables m' pgdir" for x using m'(7) that by (auto simp: t0)
  have old: "frame m pgdir va \<notin> set (freelist m)" "frame m pgdir va \<noteq> pgdir" "frame m pgdir va \<notin> tables m pgdir"
      "frame m pgdir va \<noteq> p" "frame m pgdir va \<notin> set qs" if "pg va < n" for va
    using A that fl dis(2) by auto
  have pmq: "pm m' q = (if q = p then zeros else pm m q)" if "q \<noteq> pgdir" "q \<notin> tables m pgdir" "q \<notin> set qs" for q
    using m'(8) [unfolded t0, rule_format, OF that] by (simp add: m0_def set_page_def k(3))
  have pr: "present (p OR (PTE_W OR PTE_U) OR PTE_P)"
    using present_OR [of "p OR PTE_W OR PTE_U"] by (simp add: ac_simps)
  have "aspace m' pgdir (Suc n)"
    unfolding aspace_def
  proof (intro conjI allI impI)
    show "kmem_inv m'" "pt_wf m' pgdir" "Suc n \<le> 2 ^ 19" using m' n by simp_all
    show "present (pte_of m' pgdir va) \<longleftrightarrow> pg va < Suc n" if "pg va < 2 ^ 19" for va
      using A that pr by (auto simp: pte)
    fix va assume v: "pg va < Suc n"
    show "frame m' pgdir va \<notin> set (freelist m')" "frame m' pgdir va \<noteq> pgdir" "frame m' pgdir va \<notin> tables m' pgdir"
      using old [of va] v dis pT tab [of "frame m' pgdir va"] by (auto simp: frame less_Suc_eq)
    fix vb assume "pg vb < Suc n" "frame m' pgdir va = frame m' pgdir vb"
    then show "pg va = pg vb" using v old [of va] old [of vb] A by (auto simp: frame less_Suc_eq split: if_splits)
  next
    show "\<not> user m' pgdir va" if "2 ^ 19 \<le> pg va" for va
      using A that n by (auto simp: user_def pte)
  qed
  moreover have "pte_of m' pgdir va = pte_of m pgdir va \<and> ubyte m' pgdir va = ubyte m pgdir va" if "pg va < n" for va
    using old [OF that] that dis pmq [of "frame m pgdir va"] by (auto simp: pte ubyte_def frame)
  moreover have "user m' pgdir va \<and> ubyte m' pgdir va = 0 \<and> frame m' pgdir va \<in> set (freelist m)" if "pg va = n" for va
    using that pT dis pmq [of p] user_bits [of p] fl by (simp add: user_def ubyte_def pte frame zeros_def)
  moreover have "pm m' q = pm m q" if "q \<notin> set (freelist m)" "q \<noteq> pgdir" "q \<notin> tables m pgdir" for q
    using that dis fl by (subst pmq) auto
  moreover have "length (freelist m) \<le> length (freelist m') + 2" using k(2) m'(5,6) by simp
  moreover have "tables m' pgdir \<subseteq> tables m pgdir \<union> set (freelist m)" using m'(7) dis(2) by (auto simp: t0)
  ultimately have "grown pgdir n (Suc n) m m'" using dis(4) by (auto simp: grown_def less_Suc_eq)
  with k(1) m'(1) show ?thesis unfolding m0_def by blast
qed

definition npages :: "u32 \<Rightarrow> nat" where "npages sz = (unat sz + 4095) div 4096"

lemma npages_mono: "a \<le> b \<Longrightarrow> npages a \<le> npages b"
  by (simp add: npages_def div_le_mono word_le_nat_alt)

lemma alloc_loop_grows:
  assumes "aspace m pgdir a" "newsz < KERNBASE" "a \<le> npages newsz" "npages newsz - a \<le> fuel"
    "2 * (npages newsz - a) \<le> length (freelist m)"
  shows "\<exists>m'. alloc_loop fuel pgdir (pbase a) oldsz newsz m = Inr (newsz, m') \<and> grown pgdir a (npages newsz) m m'"
  using assms
proof (induction fuel arbitrary: a m)
  case 0
  have nz: "unat newsz < 2 ^ 31" using 0(2) by (simp add: KERNBASE_def word_less_nat_alt)
  then have "a < 2 ^ 20" "unat newsz \<le> 4096 * a" using 0(3,4) by (simp_all add: npages_def)
  then have "\<not> pbase a < newsz" by (simp add: word_less_nat_alt pbase)
  then show ?case using 0 as_grown_refl [OF 0(1)] by simp
next
  case (Suc fuel)
  have nz: "unat newsz < 2 ^ 31" using Suc.prems(2) by (simp add: KERNBASE_def word_less_nat_alt)
  then have b: "npages newsz \<le> 2 ^ 19" by (simp add: npages_def)
  have a: "a < 2 ^ 20" using b Suc.prems(3) by simp
  show ?case
  proof (cases "a < npages newsz")
    case False
    then have "npages newsz = a" using Suc.prems(3) by simp
    then have "\<not> pbase a < newsz" unfolding word_less_nat_alt pbase [OF a] npages_def by linarith
    then show ?thesis using False Suc.prems as_grown_refl [OF Suc.prems(1)] by simp
  next
    case True
    then have lt: "pbase a < newsz" by (simp add: word_less_nat_alt pbase [OF a] npages_def)
    have "2 \<le> length (freelist m)" using True Suc.prems(5) by simp
    then obtain p f fs where fl: "freelist m = p # f # fs" by (auto simp: numeral_2_eq_2 Suc_le_length_iff)
    have "a < 2 ^ 19" using True b by simp
    from grow_page [OF Suc.prems(1) this fl] obtain m1 m2 where g: "kalloc m = Inr (Some p, m1)"
        "mappages pgdir (pbase a) PGSIZE p (PTE_W OR PTE_U) (set_page p zeros m1) = Inr (True, m2)" "grown pgdir a (Suc a) m m2"
      by blast
    have "npages newsz - Suc a \<le> fuel" using Suc.prems(4) by linarith
    moreover have "aspace m2 pgdir (Suc a)" "2 * (npages newsz - Suc a) \<le> length (freelist m2)"
      using g(3) Suc.prems(5) by (auto simp: grown_def)
    ultimately obtain m' where m': "alloc_loop fuel pgdir (pbase (Suc a)) oldsz newsz m2 = Inr (newsz, m')" "grown pgdir (Suc a) (npages newsz) m2 m'"
      using Suc.IH [of m2 "Suc a"] Suc.prems True by auto
    have "grown pgdir a (npages newsz) m m'" using as_grown_trans [OF g(3) m'(2)] True by simp
    with m'(1) lt g(1,2) show ?thesis by (simp add: pbase_Suc)
  qed
qed

lemma allocuvm_grows:
  assumes "aspace m pgdir (npages oldsz)" "newsz < KERNBASE" "oldsz \<le> newsz"
    "2 * (npages newsz - npages oldsz) \<le> length (freelist m)"
  shows "\<exists>m'. allocuvm pgdir oldsz newsz m = Inr (newsz, m') \<and> grown pgdir (npages oldsz) (npages newsz) m m'"
proof -
  have u: "unat oldsz \<le> unat newsz" "unat newsz < 2 ^ 31" using assms(2,3) by (simp_all add: KERNBASE_def word_less_nat_alt word_le_nat_alt)
  then have "PGROUNDUP oldsz = pbase (npages oldsz)" by (simp add: PGROUNDUP_pg npages_def)
  moreover have "npages newsz - npages oldsz \<le> 2 ^ 20" using u by (simp add: npages_def)
  ultimately show ?thesis
    using alloc_loop_grows [OF assms(1,2) npages_mono [OF assms(3)] _ assms(4)] assms(2,3)
    by (simp add: allocuvm_def not_less [symmetric] del: power_numeral)
qed

lemma allocuvm_keeps: "newsz < KERNBASE \<Longrightarrow> newsz < oldsz \<Longrightarrow> allocuvm pgdir oldsz newsz m = Inr (oldsz, m)"
  by (simp add: allocuvm_def not_le [symmetric])

section \<open>Copying into a process\<close>

lemma walk_False: "walkpgdir pgdir va False m =
    (if present (entry m (pgdir, PDX va)) then Inr (Some (PTE_ADDR (entry m (pgdir, PDX va)), PTX va), m) else Inr (None, m))"
  by (simp add: walkpgdir_def Let_def)

text \<open>What a page that is mapped, or that the kernel's part holds, answers.\<close>

lemma uva2ka_mapped:
  assumes "present (pte_of m pgdir va)"
  shows "uva2ka pgdir va m = Inr (if user m pgdir va then Some (frame m pgdir va) else None)"
proof -
  have pr: "present (entry m (pgdir, PDX va))" using assms by (simp add: pte_of_def Let_def split: if_splits)
  then have "pte_of m pgdir va = entry m (PTE_ADDR (entry m (pgdir, PDX va)), PTX va)" by (simp add: pte_of_def Let_def)
  then show ?thesis using assms pr by (auto simp: uva2ka_def walk_False user_def frame_def present_def)
qed

text \<open>Writing to the frame of a user page changes only what the program sees in that page.\<close>

lemma set_frame:
  assumes as: "aspace m pgdir n" and va: "pg va < n"
    and m': "m' = set_page (frame m pgdir va) b m"
  shows "aspace m' pgdir n" "pte_of m' pgdir vb = pte_of m pgdir vb"
    "pg vb < n \<Longrightarrow> ubyte m' pgdir vb = (if pg vb = pg va then b (unat vb mod 4096) else ubyte m pgdir vb)"
    "tables m' pgdir = tables m pgdir" "freelist m' = freelist m"
proof -
  note A = as [unfolded aspace_def]
  have f: "frame m pgdir va \<noteq> pgdir" "frame m pgdir va \<notin> tables m pgdir" using A va by blast+
  have dir: "entry m' (pgdir, i) = entry m (pgdir, i)" for i using f by (simp add: m' entry_set_page)
  have pte: "pte_of m' pgdir vb = pte_of m pgdir vb" for vb
  proof (cases "present (entry m (pgdir, PDX vb))")
    case True
    then have "PTE_ADDR (entry m (pgdir, PDX vb)) \<noteq> frame m pgdir va" using f(2) by (auto simp: tables_def)
    then show ?thesis using True by (simp add: pte_of_def Let_def dir) (simp add: m' entry_set_page)
  qed (simp add: pte_of_def Let_def dir)
  then show "pte_of m' pgdir vb = pte_of m pgdir vb" .
  show tb: "tables m' pgdir = tables m pgdir" by (simp add: tables_def dir)
  show fl: "freelist m' = freelist m" by (simp add: m')
  have fr: "frame m' pgdir v = frame m pgdir v" for v by (simp add: frame_def pte)
  have wf: "pt_wf m' pgdir" using A unfolding pt_wf_def dir fl by blast
  have inv: "kmem_inv m'" using A by (simp add: m')
  show "aspace m' pgdir n"
    using A inv wf unfolding aspace_def user_def pte fr tb fl by simp
  show "ubyte m' pgdir vb = (if pg vb = pg va then b (unat vb mod 4096) else ubyte m pgdir vb)" if "pg vb < n"
  proof (cases "pg vb = pg va")
    case True
    then show ?thesis unfolding ubyte_def fr frame_page [OF True, of m pgdir] by (simp add: m' set_page_def)
  next
    case False
    then have "frame m pgdir vb \<noteq> frame m pgdir va" using A va that by blast
    with False show ?thesis by (simp add: ubyte_def fr) (simp add: m' set_page_def)
  qed
qed

text \<open>Writing to user pages leaves the tables, the free pages and everybody else's pages alone.\<close>

definition kept :: "u32 \<Rightarrow> nat \<Rightarrow> kmem \<Rightarrow> kmem \<Rightarrow> bool" where
  "kept pgdir n m m' \<longleftrightarrow> aspace m' pgdir n \<and> freelist m' = freelist m \<and> tables m' pgdir = tables m pgdir \<and>
     (\<forall>v. pte_of m' pgdir v = pte_of m pgdir v) \<and>
     (\<forall>q. (\<forall>v. pg v < n \<longrightarrow> q \<noteq> frame m pgdir v) \<longrightarrow> pm m' q = pm m q)"

lemma kept_refl: "aspace m pgdir n \<Longrightarrow> kept pgdir n m m"
  by (simp add: kept_def)

lemma kept_trans: "kept pgdir n m m1 \<Longrightarrow> kept pgdir n m1 m2 \<Longrightarrow> kept pgdir n m m2"
  by (simp add: kept_def frame_def)

lemma kept_user: "kept pgdir n m m' \<Longrightarrow> user m' pgdir v = user m pgdir v"
  by (simp add: kept_def user_def)

lemma kept_set_frame:
  assumes "aspace m pgdir n" "pg va < n"
  shows "kept pgdir n m (set_page (frame m pgdir va) b m)"
  using set_frame [OF assms refl, where b = b] assms by (auto simp: kept_def) (auto simp: set_page_def)

text \<open>One turn of the loop of \<open>copyout\<close> in a page that is mapped.\<close>

lemma copyout_page:
  assumes as: "aspace m pgdir n" and va: "pg va < n" "pg va < 2 ^ 19" and buf: "buf \<noteq> []"
  shows "copyout pgdir va buf m =
    (if user m pgdir va then
       copyout pgdir (pbase (Suc (pg va))) (drop (4096 - unat va mod 4096) buf)
         (set_page (frame m pgdir va) (\<lambda>i. if unat va mod 4096 \<le> i \<and> i < unat va mod 4096 + min (4096 - unat va mod 4096) (length buf)
            then buf ! (i - unat va mod 4096) else pm m (frame m pgdir va) i) m)
     else Inr (False, m))"
proof -
  have lt: "pg va < 2 ^ 20" using va(2) by simp
  have base: "PGROUNDDOWN va = pbase (pg va)" "pg (pbase (pg va)) = pg va"
    using PGROUNDDOWN_pg(1) pbase [OF lt] by simp_all
  have off: "unat (va - pbase (pg va)) = unat va mod 4096"
    using PGROUNDDOWN_pg(2) [of va] by (simp add: base(1) unat_sub_if')
  have "present (pte_of m pgdir (pbase (pg va)))" using as va base(2) by (simp add: aspace_def)
  then have ka: "uva2ka pgdir (pbase (pg va)) m = Inr (if user m pgdir va then Some (frame m pgdir va) else None)"
    using uva2ka_mapped user_page [OF base(2)] frame_page [OF base(2)] by simp
  define k where "k = min (4096 - unat va mod 4096) (length buf)"
  have k0: "k \<noteq> 0" using buf by (simp add: k_def)
  have d: "drop (4096 - unat va mod 4096) buf = drop k buf" by (simp add: min_def k_def)
  show ?thesis
    unfolding d k_def [symmetric]
    by (subst copyout.simps) (simp add: buf base(1) ka off Let_def pbase_Suc k_def [symmetric] k0 cong: if_cong)
qed

lemma copyout_writes:
  assumes "aspace m pgdir n" "unat va + length buf \<le> 4096 * n"
    "\<forall>v. unat va \<le> unat v \<longrightarrow> unat v < unat va + length buf \<longrightarrow> user m pgdir v"
  shows "\<exists>m'. copyout pgdir va buf m = Inr (True, m') \<and> kept pgdir n m m' \<and>
    (\<forall>v. pg v < n \<longrightarrow> ubyte m' pgdir v =
      (if unat va \<le> unat v \<and> unat v < unat va + length buf then buf ! (unat v - unat va) else ubyte m pgdir v))"
  using assms
proof (induction "length buf" arbitrary: va buf m rule: less_induct)
  case less
  show ?case
  proof (cases "buf = []")
    case True
    then show ?thesis using less.prems(1) kept_refl by (subst copyout.simps) auto
  next
    case False
    have n: "n \<le> 2 ^ 19" using less.prems(1) by (simp add: aspace_def)
    have "4096 * pg va \<le> unat va" by (simp add: pg_def)
    then have va: "pg va < n" "pg va < 2 ^ 19" using less.prems(2) False n by (cases buf; simp)+
    define o' where "o' = unat va mod 4096"
    have uv: "unat v = 4096 * pg v + unat v mod 4096" for v by (simp add: pg_def)
    have o': "o' < 4096" "unat va = 4096 * pg va + o'" using uv [of va] by (simp_all add: o'_def)
    define page where "page = (\<lambda>i. if o' \<le> i \<and> i < o' + min (4096 - o') (length buf)
            then buf ! (i - o') else pm m (frame m pgdir va) i)"
    let ?m1 = "set_page (frame m pgdir va) page m" and ?va = "pbase (Suc (pg va))" and ?buf = "drop (4096 - o') buf"
    have "user m pgdir va" using less.prems(3) False by simp
    then have c: "copyout pgdir va buf m = copyout pgdir ?va ?buf ?m1"
      unfolding page_def o'_def using copyout_page [OF less.prems(1) va False] by simp
    have k: "kept pgdir n m ?m1" using less.prems(1) va(1) by (rule kept_set_frame)
    have "Suc (pg va) < 2 ^ 20" using va(2) by simp
    then have uva: "unat ?va = 4096 * Suc (pg va)" by (rule pbase)
    have len: "length ?buf < length buf" using False o'(1) by (cases buf) auto
    have b1: "unat ?va + length ?buf \<le> 4096 * n"
      using less.prems(2) o' uva va(1) by (cases "length buf \<le> 4096 - o'") auto
    have b2: "\<forall>v. unat ?va \<le> unat v \<longrightarrow> unat v < unat ?va + length ?buf \<longrightarrow> user ?m1 pgdir v"
      using less.prems(3) o' uva kept_user [OF k] by auto
    have "aspace ?m1 pgdir n" using k by (simp add: kept_def)
    from less.hyps [OF len this b1 b2] obtain m' where m': "copyout pgdir ?va ?buf ?m1 = Inr (True, m')" "kept pgdir n ?m1 m'"
      "\<forall>v. pg v < n \<longrightarrow> ubyte m' pgdir v = (if unat ?va \<le> unat v \<and> unat v < unat ?va + length ?buf
         then ?buf ! (unat v - unat ?va) else ubyte ?m1 pgdir v)" by blast
    have "ubyte m' pgdir v = (if unat va \<le> unat v \<and> unat v < unat va + length buf then buf ! (unat v - unat va) else ubyte m pgdir v)"
      if v: "pg v < n" for v
    proof -
      have u1: "ubyte ?m1 pgdir v = (if pg v = pg va then page (unat v mod 4096) else ubyte m pgdir v)"
        using set_frame(3) [OF less.prems(1) va(1) refl v] .
      have vm: "unat v mod 4096 < 4096" by simp
      consider "pg v = pg va" | "pg v < pg va" | "pg va < pg v" by linarith
      then show ?thesis
      proof cases
        case 1
        have "frame m pgdir va = frame m pgdir v" using 1 frame_page by metis
        then have "page (unat v mod 4096) = (if unat va \<le> unat v \<and> unat v < unat va + length buf then buf ! (unat v - unat va) else ubyte m pgdir v)"
        proof (cases "unat va \<le> unat v \<and> unat v < unat va + length buf")
          case True
          then have "o' \<le> unat v mod 4096" "unat v mod 4096 < o' + min (4096 - o') (length buf)" "unat v - unat va = unat v mod 4096 - o'"
            using 1 o' uv [of v] vm by linarith+
          with True show ?thesis by (simp add: page_def)
        next
          case False
          then have "\<not> (o' \<le> unat v mod 4096 \<and> unat v mod 4096 < o' + min (4096 - o') (length buf))"
            using 1 o' uv [of v] vm by linarith
          then have "page (unat v mod 4096) = pm m (frame m pgdir v) (unat v mod 4096)"
            unfolding page_def \<open>frame m pgdir va = frame m pgdir v\<close> by (rule if_not_P)
          then show ?thesis unfolding if_not_P [OF False] by (simp add: ubyte_def)
        qed
        moreover have "\<not> unat ?va \<le> unat v" unfolding not_le uva mult_Suc_right using uv [of v, unfolded 1] vm by linarith
        ultimately show ?thesis using m'(3) v u1 1 by simp
      next
        case 2
        then have "4096 * pg v + 4096 \<le> 4096 * pg va" by simp
        then have "unat v < unat va" "\<not> unat ?va \<le> unat v"
          unfolding not_le uva mult_Suc_right using uv [of v] vm o'(2) by linarith+
        then show ?thesis using m'(3) v u1 2 by simp
      next
        case 3
        then have "4096 * Suc (pg va) \<le> 4096 * pg v" by simp
        then have "unat ?va \<le> unat v" "unat va \<le> unat v"
          unfolding uva using uv [of v] o' mult_Suc_right [of 4096 "pg va"] by linarith+
        then show ?thesis using m'(3) v u1 3 uva o' by (auto simp: nth_drop ac_simps)
      qed
    qed
    moreover have "kept pgdir n m m'" using k m'(2) by (rule kept_trans)
    ultimately show ?thesis using c m'(1) by auto
  qed
qed

text \<open>A copy that comes to a page closed to the user answers -1; what precedes that page may have been written.\<close>

lemma copyout_blocked:
  assumes "aspace m pgdir n" "pg va \<le> g" "g < n" "4096 * g < unat va + length buf" "buf \<noteq> []" "\<not> user m pgdir (pbase g)"
  shows "\<exists>m'. copyout pgdir va buf m = Inr (False, m') \<and> kept pgdir n m m'"
  using assms
proof (induction "length buf" arbitrary: va buf m rule: less_induct)
  case less
  have n: "n \<le> 2 ^ 19" using less.prems(1) by (simp add: aspace_def)
  have va: "pg va < n" "pg va < 2 ^ 19" using less.prems n by linarith+
  define o' where "o' = unat va mod 4096"
  have o': "o' < 4096" "unat va = 4096 * pg va + o'" by (simp_all add: o'_def pg_def)
  note c = copyout_page [OF less.prems(1) va less.prems(5), folded o'_def]
  show ?case
  proof (cases "user m pgdir va")
    case False
    then show ?thesis using c kept_refl [OF less.prems(1)] by simp
  next
    case True
    define m1 where "m1 = set_page (frame m pgdir va) (\<lambda>i. if o' \<le> i \<and> i < o' + min (4096 - o') (length buf)
            then buf ! (i - o') else pm m (frame m pgdir va) i) m"
    let ?va = "pbase (Suc (pg va))" and ?buf = "drop (4096 - o') buf"
    have c': "copyout pgdir va buf m = copyout pgdir ?va ?buf m1" using c True by (simp add: m1_def)
    have k: "kept pgdir n m m1" unfolding m1_def using less.prems(1) va(1) by (rule kept_set_frame)
    have s: "Suc (pg va) < 2 ^ 20" using va(2) by simp
    have g: "g < 2 ^ 20" using less.prems(3) n by simp
    have "pg va \<noteq> g" using True less.prems(6) user_page [of va "pbase g"] pbase(2) [OF g] by auto
    then have gt: "Suc (pg va) \<le> g" using less.prems(2) by simp
    then have "4096 * Suc (pg va) \<le> 4096 * g" by (rule mult_le_mono2)
    then have "4096 + 4096 * pg va \<le> 4096 * g" by simp
    then have lb: "4096 - o' < length buf" using less.prems(4) o' by linarith
    have "\<exists>m'. copyout pgdir ?va ?buf m1 = Inr (False, m') \<and> kept pgdir n m1 m'"
    proof (rule less.hyps)
      show "length ?buf < length buf" "?buf \<noteq> []" using lb o' by auto
      show "aspace m1 pgdir n" using k by (simp add: kept_def)
      show "pg ?va \<le> g" using gt pbase(2) [OF s] by simp
      show "g < n" by (rule less.prems)
      show "4096 * g < unat ?va + length ?buf" using less.prems(4) lb o' pbase(1) [OF s] by simp
      show "\<not> user m1 pgdir (pbase g)" using less.prems(6) kept_user [OF k] by simp
    qed
    then show ?thesis using c' k kept_trans by metis
  qed
qed

section \<open>Changes of an address space\<close>

text \<open>From \<open>a\<close> pages to \<open>b\<close>, the byte at \<open>v\<close> becoming \<open>F v x\<close> of what it was, zero on a new page; the mapping of the
  old pages stays, and only pages of this address space and pages that were free are written.\<close>

definition evolves :: "u32 \<Rightarrow> nat \<Rightarrow> nat \<Rightarrow> (u32 \<Rightarrow> u8 \<Rightarrow> u8) \<Rightarrow> kmem \<Rightarrow> kmem \<Rightarrow> bool" where
  "evolves pgdir a b F m m' \<longleftrightarrow> aspace m' pgdir b \<and> a \<le> b \<and> length (freelist m) \<le> length (freelist m') + 2 * (b - a) \<and>
     set (freelist m') \<subseteq> set (freelist m) \<and> tables m' pgdir \<subseteq> tables m pgdir \<union> set (freelist m) \<and>
     (\<forall>v. pg v < b \<longrightarrow> ubyte m' pgdir v = F v (if pg v < a then ubyte m pgdir v else 0)) \<and>
     (\<forall>v. pg v < a \<longrightarrow> pte_of m' pgdir v = pte_of m pgdir v) \<and>
     (\<forall>v. a \<le> pg v \<longrightarrow> pg v < b \<longrightarrow> user m' pgdir v \<and> frame m' pgdir v \<in> set (freelist m)) \<and>
     (\<forall>q. q \<notin> set (freelist m) \<longrightarrow> q \<noteq> pgdir \<longrightarrow> q \<notin> tables m pgdir \<longrightarrow> (\<forall>v. pg v < a \<longrightarrow> q \<noteq> frame m pgdir v) \<longrightarrow> pm m' q = pm m q)"

lemma grown_evolves: "grown pgdir a b m m' \<Longrightarrow> a \<le> b \<Longrightarrow> evolves pgdir a b (\<lambda>v x. x) m m'"
  by (auto simp: grown_def evolves_def)

lemma kept_evolves:
  assumes "kept pgdir n m m'" "\<forall>v. pg v < n \<longrightarrow> ubyte m' pgdir v = F v (ubyte m pgdir v)"
  shows "evolves pgdir n n F m m'"
  using assms by (auto simp: kept_def evolves_def)

lemma evolves_refl: "aspace m pgdir n \<Longrightarrow> evolves pgdir n n (\<lambda>v x. x) m m"
  by (auto simp: evolves_def)

lemma evolves_cong:
  "evolves pgdir a b F m m' \<Longrightarrow> (\<And>v x. pg v < b \<Longrightarrow> F v x = G v x) \<Longrightarrow> evolves pgdir a b G m m'"
  by (simp add: evolves_def)

lemma evolves_trans:
  assumes g: "evolves pgdir a b F m m1" and h: "evolves pgdir b c G m1 m2" and id: "\<And>v. b \<le> pg v \<Longrightarrow> F v 0 = 0"
  shows "evolves pgdir a c (\<lambda>v x. G v (F v x)) m m2"
proof -
  have le: "a \<le> b" "b \<le> c" using g h by (simp_all add: evolves_def)
  have "ubyte m2 pgdir v = G v (F v (if pg v < a then ubyte m pgdir v else 0))" if "pg v < c" for v
  proof (cases "pg v < b")
    case True
    then have "ubyte m2 pgdir v = G v (ubyte m1 pgdir v)" "ubyte m1 pgdir v = F v (if pg v < a then ubyte m pgdir v else 0)"
      using g h that by (simp_all add: evolves_def)
    then show ?thesis by simp
  next
    case False
    then show ?thesis using h that le id [of v] by (simp add: evolves_def)
  qed
  moreover have "user m2 pgdir v \<and> frame m2 pgdir v \<in> set (freelist m)" if "a \<le> pg v" "pg v < c" for v
  proof (cases "pg v < b")
    case True
    then have "pte_of m2 pgdir v = pte_of m1 pgdir v" "user m1 pgdir v" "frame m1 pgdir v \<in> set (freelist m)"
      using g h that by (simp_all add: evolves_def)
    then show ?thesis by (simp add: user_def frame_def)
  next
    case False
    then show ?thesis using g h that by (auto simp: evolves_def)
  qed
  moreover have "pte_of m2 pgdir v = pte_of m pgdir v" if "pg v < a" for v
    using g h that le by (simp add: evolves_def)
  moreover have "pm m2 q = pm m q"
    if q: "q \<notin> set (freelist m)" "q \<noteq> pgdir" "q \<notin> tables m pgdir" "\<forall>v. pg v < a \<longrightarrow> q \<noteq> frame m pgdir v" for q
  proof -
    have "pm m1 q = pm m q" "q \<notin> set (freelist m1)" "q \<notin> tables m1 pgdir" using g q by (auto simp: evolves_def)
    moreover have "q \<noteq> frame m1 pgdir v" if "pg v < b" for v
    proof (cases "pg v < a")
      case True
      then have "frame m1 pgdir v = frame m pgdir v" using g by (simp add: evolves_def frame_def)
      with True q(4) show ?thesis by simp
    next
      case False
      then show ?thesis using g q(1) that by (auto simp: evolves_def)
    qed
    ultimately show ?thesis using h q(2) by (simp add: evolves_def)
  qed
  moreover have "length (freelist m) \<le> length (freelist m2) + 2 * (c - a)"
    using g h le unfolding evolves_def by linarith
  moreover have "set (freelist m2) \<subseteq> set (freelist m)" "tables m2 pgdir \<subseteq> tables m pgdir \<union> set (freelist m)"
    using g h unfolding evolves_def by blast+
  ultimately show ?thesis using h le unfolding evolves_def by auto
qed

section \<open>Closing a page\<close>

lemma clearpteu_spec:
  assumes as: "aspace m pgdir n" and va: "pg va < n"
  shows "\<exists>m'. clearpteu pgdir va m = Inr m' \<and> aspace m' pgdir n \<and> freelist m' = freelist m \<and> tables m' pgdir = tables m pgdir \<and>
    (\<forall>v. pg v < n \<longrightarrow> frame m' pgdir v = frame m pgdir v \<and> ubyte m' pgdir v = ubyte m pgdir v) \<and>
    (\<forall>v. user m' pgdir v \<longleftrightarrow> user m pgdir v \<and> pg v \<noteq> pg va) \<and>
    (\<forall>q. q \<notin> tables m pgdir \<longrightarrow> pm m' q = pm m q)"
proof -
  note A = as [unfolded aspace_def]
  have wf: "pt_wf m pgdir" using A by blast
  have lt: "pg va < 2 ^ 19" using A va by simp
  then have "present (pte_of m pgdir va)" using A va by blast
  then have pr: "present (entry m (pgdir, PDX va))" by (simp add: pte_of_def Let_def split: if_splits)
  define l where "l = (PTE_ADDR (entry m (pgdir, PDX va)), PTX va)"
  define w where "w = entry m l AND NOT PTE_U"
  define m' where "m' = set_entry l w m"
  have c: "clearpteu pgdir va m = Inr m'" using pr by (simp add: clearpteu_def walk_False l_def w_def m'_def)
  have lT: "fst l \<in> tables m pgdir" using pr by (auto simp: l_def tables_def)
  have lp: "fst l \<noteq> pgdir" using wf pr by (auto simp: l_def pt_wf_def)
  have el: "entry m l = pte_of m pgdir va" using pr by (simp add: l_def pte_of_def Let_def)
  have pte: "pte_of m' pgdir v = (if pg v = pg va then pte_of m pgdir v AND NOT PTE_U else pte_of m pgdir v)" for v
    using set_pte(2) [OF wf pr l_def, of w v] pte_of_page [of v va m pgdir] by (auto simp: m'_def same_page_iff w_def el)
  have keep: "PTE_ADDR (x AND NOT PTE_U) = PTE_ADDR x" "present (x AND NOT PTE_U) = present x" "(x AND NOT PTE_U) AND PTE_U = 0" for x
  proof -
    have "NOT PTE_U AND NOT 0xFFF = NOT 0xFFF" "NOT PTE_U AND PTE_P = PTE_P" by (simp_all add: PTE_U_def PTE_P_def)
    then show "PTE_ADDR (x AND NOT PTE_U) = PTE_ADDR x" "present (x AND NOT PTE_U) = present x"
      by (simp_all only: PTE_ADDR_def present_def and.assoc)
    show "(x AND NOT PTE_U) AND PTE_U = 0" by (simp add: and.assoc)
  qed
  have fr: "frame m' pgdir v = frame m pgdir v" for v by (simp add: frame_def pte keep)
  have us: "user m' pgdir v \<longleftrightarrow> user m pgdir v \<and> pg v \<noteq> pg va" for v by (simp add: user_def pte keep)
  have tb: "tables m' pgdir = tables m pgdir" unfolding m'_def using lp by (rule tables_set_entry)
  have pmq: "pm m' q = pm m q" if "q \<notin> tables m pgdir" for q using that lT by (auto simp: m'_def set_entry_def)
  have prs: "present (pte_of m' pgdir v) = present (pte_of m pgdir v)" for v by (simp add: pte keep)
  have "pt_wf m' pgdir" unfolding m'_def by (rule set_pte(1) [OF wf pr l_def])
  then have "aspace m' pgdir n" using A unfolding aspace_def us prs fr tb by (auto simp: m'_def)
  moreover have "ubyte m' pgdir v = ubyte m pgdir v" if "pg v < n" for v
    using pmq A that by (simp add: ubyte_def fr)
  moreover have "freelist m' = freelist m" by (simp add: m'_def)
  ultimately show ?thesis using c fr us tb pmq by blast
qed

section \<open>Words and strings of a program\<close>

definition uword :: "kmem \<Rightarrow> u32 \<Rightarrow> u32 \<Rightarrow> u32" where
  "uword m pgdir va = get32 (\<lambda>i. ubyte m pgdir (va + of_nat i)) 0"

definition ustring :: "kmem \<Rightarrow> u32 \<Rightarrow> u32 \<Rightarrow> u8 list \<Rightarrow> bool" where
  "ustring m pgdir va s \<longleftrightarrow> (\<forall>j\<le>length s. ubyte m pgdir (va + of_nat j) = (s @ [0]) ! j)"

end
