(* ===== verification/Exec.thy ===== *)
theory Exec
  imports User_Mem Trap Sysfile
begin

text \<open>
  Loading a program, \<open>exec.c\<close> with \<open>loaduvm\<close> of \<open>vm.c\<close> and the headers of \<open>elf.h\<close>: the segments of the file are
  read into a new address space, two pages are added for the stack, the lower one closed to the user, the arguments are
  pushed, and only then does the process change over. The inode layer is that of \<open>Directory\<close>; a jump to \<open>bad\<close> is the
  result \<open>None\<close>, with the address space and the inode to be released known from the place it comes from.
\<close>

unbundle bit_operations_syntax

section \<open>The headers of a file\<close>

definition ELF_MAGIC :: u32 where "ELF_MAGIC = 0x464C457F"
definition ELF_PROG_LOAD :: u32 where "ELF_PROG_LOAD = 1"

record elfhdr =
  e_magic :: u32
  e_elf :: "u8 list"
  e_type :: "16 word"
  e_machine :: "16 word"
  e_version :: u32
  e_entry :: u32
  e_phoff :: u32
  e_shoff :: u32
  e_flags :: u32
  e_ehsize :: "16 word"
  e_phentsize :: "16 word"
  e_phnum :: "16 word"
  e_shentsize :: "16 word"
  e_shnum :: "16 word"
  e_shstrndx :: "16 word"

record proghdr =
  ph_type :: u32
  ph_off :: u32
  ph_vaddr :: u32
  ph_paddr :: u32
  ph_filesz :: u32
  ph_memsz :: u32
  ph_flags :: u32
  ph_align :: u32

text \<open>The fields as the bytes read into the structures hold them.\<close>

definition elfhdr_of :: "u8 list \<Rightarrow> elfhdr" where
  "elfhdr_of bs = (let b = (\<lambda>i. bs ! i) in
     \<lparr>e_magic = get32 b 0, e_elf = take 12 (drop 4 bs), e_type = get16 b 16, e_machine = get16 b 18,
      e_version = get32 b 20, e_entry = get32 b 24, e_phoff = get32 b 28, e_shoff = get32 b 32,
      e_flags = get32 b 36, e_ehsize = get16 b 40, e_phentsize = get16 b 42, e_phnum = get16 b 44,
      e_shentsize = get16 b 46, e_shnum = get16 b 48, e_shstrndx = get16 b 50\<rparr>)"

definition proghdr_of :: "u8 list \<Rightarrow> proghdr" where
  "proghdr_of bs = (let b = (\<lambda>i. bs ! i) in
     \<lparr>ph_type = get32 b 0, ph_off = get32 b 4, ph_vaddr = get32 b 8, ph_paddr = get32 b 12,
      ph_filesz = get32 b 16, ph_memsz = get32 b 20, ph_flags = get32 b 24, ph_align = get32 b 28\<rparr>)"

section \<open>Segments\<close>

text \<open>One segment, a page at a time; \<open>False\<close> is -1. What \<open>readi\<close> delivers is stored even when it is too short.\<close>

primrec loaduvm_loop :: "nat \<Rightarrow> devsw \<Rightarrow> u32 \<Rightarrow> u32 \<Rightarrow> nat \<Rightarrow> u32 \<Rightarrow> u32 \<Rightarrow> u32 \<Rightarrow> fs \<Rightarrow> kmem \<Rightarrow>
    (bool \<times> fs \<times> kmem) res" where
  "loaduvm_loop 0 dv pgdir addr ip offset i sz s m = (if i < sz then Inl Blocks else Inr (True, s, m))"
| "loaduvm_loop (Suc f) dv pgdir addr ip offset i sz s m =
     (if \<not> i < sz then Inr (True, s, m)
      else bindR (walkpgdir pgdir (addr + i) False m) (\<lambda>(r, m1).
        case r of None \<Rightarrow> Inl (Panic ''loaduvm: address should exist'')
        | Some l \<Rightarrow>
            let pa = PTE_ADDR (entry m1 l); n = (if sz - i < PGSIZE then sz - i else PGSIZE) in
            bindR (readi dv ip (offset + i) n s) (\<lambda>(b, s1).
              case b of None \<Rightarrow> Inr (False, s1, m1)
              | Some bytes \<Rightarrow>
                  let m2 = set_page pa (blit (pm m1 pa) 0 bytes) m1 in
                  if length bytes \<noteq> unat n then Inr (False, s1, m2)
                  else loaduvm_loop f dv pgdir addr ip offset (i + PGSIZE) sz s1 m2)))"

definition loaduvm :: "devsw \<Rightarrow> u32 \<Rightarrow> u32 \<Rightarrow> nat \<Rightarrow> u32 \<Rightarrow> u32 \<Rightarrow> fs \<Rightarrow> kmem \<Rightarrow> (bool \<times> fs \<times> kmem) res" where
  "loaduvm dv pgdir addr ip offset sz s m =
     (if addr mod PGSIZE \<noteq> 0 then Inl (Panic ''loaduvm: addr must be page aligned'')
      else loaduvm_loop (2 ^ 20) dv pgdir addr ip offset 0 sz s m)"

text \<open>The loop over the \<open>n\<close> program headers that are left, at \<open>off\<close>.\<close>

primrec load_segments :: "nat \<Rightarrow> devsw \<Rightarrow> nat \<Rightarrow> u32 \<Rightarrow> u32 \<Rightarrow> u32 \<Rightarrow> fs \<Rightarrow> kmem \<Rightarrow> (u32 option \<times> fs \<times> kmem) res" where
  "load_segments 0 dv ip pgdir off sz s m = Inr (Some sz, s, m)"
| "load_segments (Suc n) dv ip pgdir off sz s m =
     bindR (readi dv ip off 32 s) (\<lambda>(b, s1).
       case b of None \<Rightarrow> Inr (None, s1, m)
       | Some bytes \<Rightarrow>
           if length bytes \<noteq> 32 then Inr (None, s1, m)
           else let ph = proghdr_of bytes in
           if ph_type ph \<noteq> ELF_PROG_LOAD then load_segments n dv ip pgdir (off + 32) sz s1 m
           else if ph_memsz ph < ph_filesz ph then Inr (None, s1, m)
           else if ph_vaddr ph + ph_memsz ph < ph_vaddr ph then Inr (None, s1, m)
           else bindR (allocuvm pgdir sz (ph_vaddr ph + ph_memsz ph) m) (\<lambda>(sz1, m1).
             if sz1 = 0 then Inr (None, s1, m1)
             else if ph_vaddr ph mod PGSIZE \<noteq> 0 then Inr (None, s1, m1)
             else bindR (loaduvm dv pgdir (ph_vaddr ph) ip (ph_off ph) (ph_filesz ph) s1 m1) (\<lambda>(ok, s2, m2).
               if ok then load_segments n dv ip pgdir (off + 32) sz1 s2 m2 else Inr (None, s2, m2))))"

text \<open>The checks of the file and the loading. The address space, when there is one, comes back also on a jump to
  \<open>bad\<close>.\<close>

definition load_image :: "devsw \<Rightarrow> nat \<Rightarrow> u32 \<Rightarrow> fs \<Rightarrow> kmem \<Rightarrow> (u32 option \<times> (elfhdr \<times> u32 \<times> u32) option \<times> fs \<times> kmem) res" where
  "load_image dv ip data s m =
     bindR (readi dv ip 0 52 s) (\<lambda>(b, s1).
       case b of None \<Rightarrow> Inr (None, None, s1, m)
       | Some bytes \<Rightarrow>
           if length bytes \<noteq> 52 then Inr (None, None, s1, m)
           else let elf = elfhdr_of bytes in
           if e_magic elf \<noteq> ELF_MAGIC then Inr (None, None, s1, m)
           else bindR (setupkvm data m) (\<lambda>(r, m1).
             case r of None \<Rightarrow> Inr (None, None, s1, m1)
             | Some pgdir \<Rightarrow>
                 bindR (load_segments (unat (e_phnum elf)) dv ip pgdir (e_phoff elf) 0 s1 m1) (\<lambda>(q, s2, m2).
                   Inr (Some pgdir, map_option (\<lambda>sz. (elf, pgdir, sz)) q, s2, m2))))"

section \<open>The stack\<close>

text \<open>The argument strings, copied downwards from \<open>sp\<close>; \<open>us\<close> are their addresses, kept in \<open>ustack\<close>.\<close>

fun push_args :: "u32 \<Rightarrow> u8 list list \<Rightarrow> u32 \<Rightarrow> u32 list \<Rightarrow> kmem \<Rightarrow> ((u32 \<times> u32 list) option \<times> kmem) res" where
  "push_args pgdir [] sp us m = Inr (Some (sp, us), m)"
| "push_args pgdir (a # as) sp us m =
     (if length us \<ge> MAXARG then Inr (None, m)
      else let sp1 = (sp - (of_nat (length a) + 1)) AND NOT 3 in
        bindR (copyout pgdir sp1 (a @ [0]) m) (\<lambda>(ok, m1).
          if ok then push_args pgdir as sp1 (us @ [sp1]) m1 else Inr (None, m1)))"

definition bytes_of32 :: "u32 \<Rightarrow> u8 list" where
  "bytes_of32 w = [ucast w, ucast (drop_bit 8 w), ucast (drop_bit 16 w), ucast (drop_bit 24 w)]"

text \<open>The frame below the strings, which \<open>main\<close> is to find, and the whole stack.\<close>

definition push_frame :: "u32 \<Rightarrow> u32 \<Rightarrow> u32 \<Rightarrow> u32 list \<Rightarrow> kmem \<Rightarrow> ((u32 \<times> u32) option \<times> kmem) res" where
  "push_frame pgdir sz sp us m =
     (let argc = of_nat (length us);
          ustack = [0xFFFFFFFF, argc, sp - (argc + 1) * 4] @ us @ [0];
          sp1 = sp - (3 + argc + 1) * 4
      in bindR (copyout pgdir sp1 (concat (map bytes_of32 ustack)) m) (\<lambda>(ok, m1).
           Inr (if ok then Some (sz, sp1) else None, m1)))"

definition setup_stack :: "u32 \<Rightarrow> u32 \<Rightarrow> u8 list list \<Rightarrow> kmem \<Rightarrow> ((u32 \<times> u32) option \<times> kmem) res" where
  "setup_stack pgdir sz0 argv m =
     (let sz = PGROUNDUP sz0 in
      bindR (allocuvm pgdir sz (sz + 2 * PGSIZE) m) (\<lambda>(sz1, m1).
        if sz1 = 0 then Inr (None, m1)
        else bindR (clearpteu pgdir (sz1 - 2 * PGSIZE) m1) (\<lambda>m2.
          bindR (push_args pgdir argv sz1 [] m2) (\<lambda>(r, m3).
            case r of None \<Rightarrow> Inr (None, m3) | Some (sp, us) \<Rightarrow> push_frame pgdir sz1 sp us m3))))"

section \<open>Changing over\<close>

text \<open>The part of the path after its last slash.\<close>

fun last_part :: "u8 list \<Rightarrow> u8 list \<Rightarrow> u8 list" where
  "last_part ls [] = ls"
| "last_part ls (c # s) = last_part (if c = 47 then s else ls) s"

text \<open>The checks of \<open>switchuvm\<close>; what it does to the processor is not modelled.\<close>

definition switchuvm :: "proc \<Rightarrow> unit res" where
  "switchuvm p =
     (if p_kstack p = 0 then Inl (Panic ''switchuvm: no kstack'')
      else if p_pgdir p = 0 then Inl (Panic ''switchuvm: no pgdir'')
      else Inr ())"

definition exec_commit :: "nat \<Rightarrow> u8 list \<Rightarrow> u32 \<Rightarrow> u32 \<Rightarrow> u32 \<Rightarrow> u32 \<Rightarrow> kproc \<Rightarrow> kproc res" where
  "exec_commit me path pgdir sz sp ent k =
     (let oldpgdir = p_pgdir (ptab k ! me);
          k1 = upd me (\<lambda>p. p\<lparr>p_name := safe_name (last_part path path), p_pgdir := pgdir, p_sz := sz,
                 p_tf := (p_tf p)\<lparr>tf_eip := ent, tf_esp := sp\<rparr>\<rparr>) k in
      bindR (switchuvm (ptab k1 ! me)) (\<lambda>_.
      bindR (freevm oldpgdir (kmm k1)) (\<lambda>m. Inr (k1\<lparr>kmm := m\<rparr>))))"

text \<open>The part of \<open>exec\<close> after the file has been found, and \<open>exec\<close> of the process \<open>me\<close>, whose directory is \<open>cwd\<close>.\<close>

definition exec_file :: "devsw \<Rightarrow> nat \<Rightarrow> u8 list \<Rightarrow> u8 list list \<Rightarrow> nat \<Rightarrow> kproc \<Rightarrow> fs \<Rightarrow> (int \<times> kproc \<times> fs) res" where
  "exec_file dv me path argv ip k s =
     bindR (ilock ip s) (\<lambda>s2.
     bindR (load_image dv ip (kdata k) s2 (kmm k)) (\<lambda>(pg, q, s3, m).
       case q of
         None \<Rightarrow>
           bindR (case pg of None \<Rightarrow> Inr m | Some pgdir \<Rightarrow> freevm pgdir m) (\<lambda>m1.
           bindR (iunlockput ip s3) (\<lambda>s4. Inr (- 1, k\<lparr>kmm := m1\<rparr>, s4)))
       | Some (elf, pgdir, sz) \<Rightarrow>
           bindR (iunlockput ip s3) (\<lambda>s4.
           bindR (setup_stack pgdir sz argv m) (\<lambda>(t, m1).
             case t of
               None \<Rightarrow> bindR (freevm pgdir m1) (\<lambda>m2. Inr (- 1, k\<lparr>kmm := m2\<rparr>, s4))
             | Some (sz1, sp) \<Rightarrow>
                 bindR (exec_commit me path pgdir sz1 sp (e_entry elf) (k\<lparr>kmm := m1\<rparr>)) (\<lambda>k1. Inr (0, k1, s4))))))"

definition exec :: "devsw \<Rightarrow> nat \<Rightarrow> nat \<Rightarrow> u8 list \<Rightarrow> u8 list list \<Rightarrow> kproc \<Rightarrow> fs \<Rightarrow> (int \<times> kproc \<times> fs) res" where
  "exec dv me cwd path argv k s =
     bindR (namei dv cwd path (replicate DIRSIZ 0) s) (\<lambda>(r, s1).
       case r of None \<Rightarrow> Inr (- 1, k, s1) | Some ip \<Rightarrow> exec_file dv me path argv ip k s1)"

section \<open>What loading a segment does\<close>

text \<open>The file of the inode \<open>ip\<close>, ready to be read.\<close>

definition readable :: "nat \<Rightarrow> nat \<Rightarrow> fs \<Rightarrow> bool" where
  "readable dev ip s \<longleftrightarrow> inode_wf dev ip s \<and> i_type (icache s ! ip) \<noteq> T_DEV \<and> no_holes s ip"

lemma readi_exact:
  assumes "readable dev ip s" "unat off + unat n \<le> length (contents s ip)"
  shows "readi dv ip off n s = Inr (Some (take (unat n) (drop (unat off) (contents s ip))), s)"
proof -
  have "length (contents s ip) = unat (i_size (icache s ! ip))" by (simp add: contents_def)
  moreover have "unat (i_size (icache s ! ip)) < 2 ^ 32" using unsigned_less [of "i_size (icache s ! ip)"] by simp
  ultimately show ?thesis using assms by (intro readi_contents) (auto simp: readable_def)
qed

lemma walk_mapped:
  assumes "present (pte_of m pgdir va)"
  shows "\<exists>l. walkpgdir pgdir va False m = Inr (Some l, m) \<and> PTE_ADDR (entry m l) = frame m pgdir va"
  using assms by (auto simp: walk_False frame_def pte_of_def Let_def split: if_splits)

lemma loaduvm_loop_spec:
  assumes "aspace m pgdir n" "readable dev ip s" "unat addr mod 4096 = 0" "unat addr + unat sz \<le> 4096 * n"
    "unat offset + unat sz \<le> length (contents s ip)" "unat i mod 4096 = 0" "unat sz \<le> unat i + 4096 * f"
  shows "\<exists>m'. loaduvm_loop f dv pgdir addr ip offset i sz s m = Inr (True, s, m') \<and> kept pgdir n m m' \<and>
    (\<forall>v. pg v < n \<longrightarrow> ubyte m' pgdir v =
      (if unat addr + unat i \<le> unat v \<and> unat v < unat addr + unat sz
       then contents s ip ! (unat offset + (unat v - unat addr)) else ubyte m pgdir v))"
  using assms
proof (induction f arbitrary: i m)
  case 0
  then have "\<not> i < sz" by (simp add: word_less_nat_alt)
  then show ?case using 0 kept_refl [OF 0(1)] by (auto simp: word_less_nat_alt)
next
  case (Suc f)
  show ?case
  proof (cases "i < sz")
    case False
    then show ?thesis using kept_refl [OF Suc.prems(1)] by (auto simp: word_less_nat_alt)
  next
    case True
    then have lt: "unat i < unat sz" by (simp add: word_less_nat_alt)
    have n: "n \<le> 2 ^ 19" using Suc.prems(1) by (simp add: aspace_def)
    then have small: "unat addr + unat sz \<le> 2 ^ 31" using Suc.prems(4) by simp
    have ai: "unat (addr + i) = unat addr + unat i" using small lt by (simp add: unat_word_ariths)
    have al: "unat (addr + i) mod 4096 = 0" using Suc.prems(3,6) by (simp add: ai mod_add_eq [symmetric])
    define P where "P = pg (addr + i)"
    have P: "unat addr + unat i = 4096 * P" using al mult_div_mod_eq [of 4096 "unat addr + unat i"] by (simp add: P_def pg_def ai)
    have Pn: "P < n" using P lt Suc.prems(4) by linarith
    define k where "k = (if sz - i < PGSIZE then sz - i else PGSIZE)"
    have si: "unat (sz - i) = unat sz - unat i" using lt by (simp add: unat_sub word_le_nat_alt)
    have k: "unat k = min (unat sz - unat i) 4096"
      by (auto simp: k_def word_less_nat_alt si PGSIZE_def)
    have csz: "length (contents s ip) < 2 ^ 32"
      using unsigned_less [of "i_size (icache s ! ip)"] by (simp add: contents_def)
    have oi: "unat (offset + i) = unat offset + unat i" using Suc.prems(5) lt csz by (simp add: unat_word_ariths)
    define bytes where "bytes = take (unat k) (drop (unat offset + unat i) (contents s ip))"
    have lb: "length bytes = unat k" using Suc.prems(5) lt k by (simp add: bytes_def)
    have rd: "readi dv ip (offset + i) k s = Inr (Some bytes, s)"
      unfolding bytes_def oi [symmetric] using Suc.prems(2,5) lt k oi by (intro readi_exact) auto
    have pn: "pg (addr + i) < n" "pg (addr + i) < 2 ^ 19" using Pn n by (simp_all add: P_def)
    have "present (pte_of m pgdir (addr + i))" using Suc.prems(1) pn by (simp add: aspace_def)
    from walk_mapped [OF this] obtain l where l: "walkpgdir pgdir (addr + i) False m = Inr (Some l, m)"
        "PTE_ADDR (entry m l) = frame m pgdir (addr + i)" by blast
    define m2 where "m2 = set_page (frame m pgdir (addr + i)) (blit (pm m (frame m pgdir (addr + i))) 0 bytes) m"
    have kp: "kept pgdir n m m2" unfolding m2_def using Suc.prems(1) pn(1) by (rule kept_set_frame)
    have u2: "ubyte m2 pgdir v = (if pg v = P \<and> unat v mod 4096 < unat k then bytes ! (unat v mod 4096) else ubyte m pgdir v)"
      if "pg v < n" for v
    proof (cases "pg v = P")
      case True
      then have "frame m pgdir v = frame m pgdir (addr + i)" unfolding P_def by (rule frame_page)
      with True that show ?thesis
        using set_frame(3) [OF Suc.prems(1) pn(1) m2_def] by (simp add: P_def blit_def lb ubyte_def)
    next
      case False
      then show ?thesis using set_frame(3) [OF Suc.prems(1) pn(1) m2_def that] by (simp add: P_def)
    qed
    have step: "loaduvm_loop (Suc f) dv pgdir addr ip offset i sz s m = loaduvm_loop f dv pgdir addr ip offset (i + PGSIZE) sz s m2"
      using True by (simp add: l rd k_def [symmetric] lb m2_def Let_def)
    have iP: "unat (i + PGSIZE) = unat i + 4096" using lt small by (simp add: unat_word_ariths PGSIZE_def)
    have "aspace m2 pgdir n" using kp by (simp add: kept_def)
    then obtain m' where m': "loaduvm_loop f dv pgdir addr ip offset (i + PGSIZE) sz s m2 = Inr (True, s, m')" "kept pgdir n m2 m'"
        "\<forall>v. pg v < n \<longrightarrow> ubyte m' pgdir v =
          (if unat addr + unat (i + PGSIZE) \<le> unat v \<and> unat v < unat addr + unat sz
           then contents s ip ! (unat offset + (unat v - unat addr)) else ubyte m2 pgdir v)"
      using Suc.IH [of m2 "i + PGSIZE"] Suc.prems iP by auto
    have "ubyte m' pgdir v = (if unat addr + unat i \<le> unat v \<and> unat v < unat addr + unat sz
        then contents s ip ! (unat offset + (unat v - unat addr)) else ubyte m pgdir v)" if v: "pg v < n" for v
    proof -
      define r where "r = unat v mod 4096"
      have uv: "unat v = 4096 * pg v + r" "r < 4096" by (simp_all add: pg_def r_def)
      show ?thesis
      proof (cases "pg v = P \<and> r < unat k")
        case True
        then have "unat v - unat addr = unat i + r" "unat addr + unat i \<le> unat v" "unat v < unat addr + unat sz"
            "\<not> unat addr + unat (i + PGSIZE) \<le> unat v"
          unfolding iP using uv P k lt by linarith+
        moreover have "bytes ! r = contents s ip ! (unat offset + (unat i + r))"
          using True Suc.prems(5) lt k by (simp add: bytes_def add.assoc)
        ultimately show ?thesis using m'(3) v u2 [OF v] True by (simp add: r_def)
      next
        case False
        have "(unat addr + unat i \<le> unat v \<and> unat v < unat addr + unat sz) =
            (unat addr + unat (i + PGSIZE) \<le> unat v \<and> unat v < unat addr + unat sz)"
        proof (cases "pg v = P")
          case True
          then have "\<not> r < unat k" using False by simp
          then show ?thesis unfolding iP using True uv P k by linarith
        next
          case ne: False
          then consider "pg v < P" | "P < pg v" by linarith
          then show ?thesis
          proof cases
            case 1
            then have "4096 * pg v + 4096 \<le> 4096 * P" by simp
            then show ?thesis unfolding iP using uv P by linarith
          next
            case 2
            then have "4096 * P + 4096 \<le> 4096 * pg v" by simp
            then show ?thesis unfolding iP using uv P by linarith
          qed
        qed
        with False show ?thesis using m'(3) v u2 [OF v] by (auto simp: r_def)
      qed
    qed
    with step m'(1) kept_trans [OF kp m'(2)] show ?thesis by auto
  qed
qed

text \<open>\<open>loaduvm\<close> into mapped pages puts the part of the file at the address of the segment, and nothing else.\<close>

lemma loaduvm_spec:
  assumes as: "aspace m pgdir n" and rd: "readable dev ip s" and al: "addr mod PGSIZE = 0"
    and le: "unat addr + unat sz \<le> 4096 * n" and inf: "unat offset + unat sz \<le> length (contents s ip)"
  shows "\<exists>m'. loaduvm dv pgdir addr ip offset sz s m = Inr (True, s, m') \<and> kept pgdir n m m' \<and>
    (\<forall>v. pg v < n \<longrightarrow> ubyte m' pgdir v =
      (if unat addr \<le> unat v \<and> unat v < unat addr + unat sz
       then contents s ip ! (unat offset + (unat v - unat addr)) else ubyte m pgdir v))"
proof -
  have "unat addr mod 4096 = unat (addr mod PGSIZE)" by (simp add: unat_mod PGSIZE_def)
  then have "unat addr mod 4096 = 0" using al by simp
  moreover have "n \<le> 2 ^ 19" using as by (simp add: aspace_def)
  then have "unat sz \<le> unat (0 :: u32) + 4096 * 2 ^ 20" using le by simp
  ultimately show ?thesis
    using loaduvm_loop_spec [OF as rd _ le inf, of 0 "2 ^ 20" dv] al by (simp add: loaduvm_def del: power_numeral)
qed

section \<open>The image of a program\<close>

text \<open>The image that a file describes: its segments, in the order of their headers, over zeros.\<close>

definition headers :: "u8 list \<Rightarrow> u32 \<Rightarrow> nat \<Rightarrow> proghdr list" where
  "headers c off n = map (\<lambda>k. proghdr_of (take 32 (drop (unat off + 32 * k) c))) [0..<n]"

definition seg_byte :: "u8 list \<Rightarrow> proghdr \<Rightarrow> u32 \<Rightarrow> u8 \<Rightarrow> u8" where
  "seg_byte c ph v x =
     (if ph_type ph = ELF_PROG_LOAD \<and> unat (ph_vaddr ph) \<le> unat v \<and> unat v < unat (ph_vaddr ph) + unat (ph_filesz ph)
      then c ! (unat (ph_off ph) + (unat v - unat (ph_vaddr ph))) else x)"

definition image :: "u8 list \<Rightarrow> proghdr list \<Rightarrow> u32 \<Rightarrow> u8 \<Rightarrow> u8" where
  "image c phs v = fold (\<lambda>ph. seg_byte c ph v) phs"

definition image_end :: "proghdr list \<Rightarrow> u32 \<Rightarrow> u32" where
  "image_end = fold (\<lambda>ph e. if ph_type ph = ELF_PROG_LOAD then max e (ph_vaddr ph + ph_memsz ph) else e)"

text \<open>What \<open>exec\<close> requires of a header.\<close>

definition loadable :: "u8 list \<Rightarrow> proghdr \<Rightarrow> bool" where
  "loadable c ph \<longleftrightarrow> (ph_type ph = ELF_PROG_LOAD \<longrightarrow>
     ph_filesz ph \<le> ph_memsz ph \<and> ph_vaddr ph mod PGSIZE = 0 \<and> 0 < unat (ph_vaddr ph) + unat (ph_memsz ph) \<and>
     unat (ph_vaddr ph) + unat (ph_memsz ph) < 2 ^ 31 \<and> unat (ph_off ph) + unat (ph_filesz ph) \<le> length c)"

lemma headers_Suc: "headers c off (Suc n) = proghdr_of (take 32 (drop (unat off) c)) # map (\<lambda>k. proghdr_of (take 32 (drop (unat off + 32 + 32 * k) c))) [0..<n]"
  by (simp add: headers_def map_upt_Suc add.assoc del: upt_Suc)

lemma headers_next:
  assumes "unat off + 32 * Suc n \<le> length c" "length c < 2 ^ 32"
  shows "headers c off (Suc n) = proghdr_of (take 32 (drop (unat off) c)) # headers c (off + 32) n"
proof (cases n)
  case 0
  then show ?thesis by (simp add: headers_def)
next
  case (Suc k)
  then have "unat (off + 32) = unat off + 32" using assms by (simp add: unat_word_ariths)
  then show ?thesis unfolding headers_Suc by (simp add: headers_def)
qed

lemma image_end_ge: "e \<le> image_end phs e"
  unfolding image_end_def
proof (induction phs arbitrary: e)
  case (Cons ph phs)
  show ?case
  proof (cases "ph_type ph = ELF_PROG_LOAD")
    case True
    then show ?thesis using order_trans [OF max.cobounded1 Cons.IH [of "max e (ph_vaddr ph + ph_memsz ph)"]] by simp
  next
    case False
    then show ?thesis using Cons by simp
  qed
qed simp

lemma page_bound: "unat v < unat e \<Longrightarrow> pg v < npages e"
  unfolding pg_def npages_def by linarith

lemma image_end_segment: "ph \<in> set phs \<Longrightarrow> ph_type ph = ELF_PROG_LOAD \<longrightarrow> ph_vaddr ph + ph_memsz ph \<le> image_end phs e"
proof (induction phs arbitrary: e)
  case (Cons p phs)
  have c: "image_end (p # phs) e = image_end phs (if ph_type p = ELF_PROG_LOAD then max e (ph_vaddr p + ph_memsz p) else e)"
    by (simp add: image_end_def)
  show ?case
  proof (cases "ph = p")
    case True
    then show ?thesis unfolding c using order_trans [OF max.cobounded2 image_end_ge] by auto
  next
    case False
    then show ?thesis unfolding c using Cons by simp
  qed
qed simp

lemma image_beyond:
  assumes "\<forall>ph\<in>set phs. loadable c ph" "npages (image_end phs e) \<le> pg v"
  shows "image c phs v x = x"
  using assms unfolding image_def image_end_def
proof (induction phs arbitrary: e x)
  case (Cons ph phs)
  have "seg_byte c ph v x = x"
  proof (cases "ph_type ph = ELF_PROG_LOAD")
    case True
    then have l: "unat (ph_vaddr ph) + unat (ph_memsz ph) < 2 ^ 31" "unat (ph_filesz ph) \<le> unat (ph_memsz ph)"
      using Cons.prems(1) by (auto simp: loadable_def word_le_nat_alt)
    let ?e = "image_end phs (max e (ph_vaddr ph + ph_memsz ph))"
    have "ph_vaddr ph + ph_memsz ph \<le> ?e" by (rule order_trans [OF _ image_end_ge]) simp
    then have "unat (ph_vaddr ph) + unat (ph_memsz ph) \<le> unat ?e"
      using l(1) by (simp add: word_le_nat_alt unat_word_ariths)
    moreover have "\<not> unat v < unat ?e" using page_bound [of v ?e] Cons.prems(2) True by (auto simp: image_end_def)
    ultimately show ?thesis using l(2) by (auto simp: seg_byte_def)
  qed (simp add: seg_byte_def)
  then show ?case using Cons.IH Cons.prems by simp
qed simp

text \<open>
  Loading a well-formed program. The loop over the headers reads every segment and gives the process the image the
  file describes: mapped up to the end of the last segment, the bytes of the file where a segment has them, zeros
  elsewhere. Two free pages for each page of the image, one of them for a page table, are enough.
\<close>

lemma load_segments_image:
  assumes "aspace m pgdir (npages sz)" "sz < KERNBASE" "readable dev ip s" "unat off + 32 * n \<le> length (contents s ip)"
    "\<forall>ph\<in>set (headers (contents s ip) off n). loadable (contents s ip) ph"
    "2 * (npages (image_end (headers (contents s ip) off n) sz) - npages sz) \<le> length (freelist m)"
  shows "\<exists>m'. load_segments n dv ip pgdir off sz s m = Inr (Some (image_end (headers (contents s ip) off n) sz), s, m') \<and>
    evolves pgdir (npages sz) (npages (image_end (headers (contents s ip) off n) sz)) (image (contents s ip) (headers (contents s ip) off n)) m m'"
  using assms
proof (induction n arbitrary: off sz m)
  case 0
  have "image c [] = (\<lambda>v x. x)" for c by (simp add: image_def fun_eq_iff)
  then show ?case using evolves_refl [OF 0(1)] by (simp add: headers_def image_end_def)
next
  case (Suc n)
  let ?c = "contents s ip"
  have lc: "length ?c < 2 ^ 32" using unsigned_less [of "i_size (icache s ! ip)"] by (simp add: contents_def)
  define ph where "ph = proghdr_of (take 32 (drop (unat off) ?c))"
  let ?hs = "headers ?c (off + 32) n"
  have hs: "headers ?c off (Suc n) = ph # ?hs" unfolding ph_def using Suc.prems(4) lc by (rule headers_next)
  have rd: "readi dv ip off 32 s = Inr (Some (take 32 (drop (unat off) ?c)), s)"
    using readi_exact [OF Suc.prems(3), of off 32 dv] Suc.prems(4) by simp
  have l32: "length (take 32 (drop (unat off) ?c)) = 32" using Suc.prems(4) by simp
  have "unat (off + 32) = unat off + 32" using Suc.prems(4) lc by (simp add: unat_word_ariths)
  then have off: "unat (off + 32) + 32 * n \<le> length ?c" using Suc.prems(4) by simp
  have ok: "loadable ?c ph" "\<forall>p\<in>set ?hs. loadable ?c p" using Suc.prems(5) by (simp_all add: hs)
  show ?case
  proof (cases "ph_type ph = ELF_PROG_LOAD")
    case False
    then have "image ?c (ph # ?hs) = image ?c ?hs" "image_end (ph # ?hs) sz = image_end ?hs sz"
      by (simp_all add: image_def image_end_def seg_byte_def fun_eq_iff)
    moreover have "load_segments (Suc n) dv ip pgdir off sz s m = load_segments n dv ip pgdir (off + 32) sz s m"
      using False rd l32 by (simp add: ph_def [symmetric] Let_def)
    ultimately show ?thesis using Suc.IH [OF Suc.prems(1-3) off ok(2)] Suc.prems(6) by (simp add: hs)
  next
    case True
    let ?e = "ph_vaddr ph + ph_memsz ph"
    note L = ok(1) [unfolded loadable_def, rule_format, OF True]
    have ue: "unat ?e = unat (ph_vaddr ph) + unat (ph_memsz ph)" using L by (simp add: unat_word_ariths)
    have wk: "?e < KERNBASE" using L ue by (simp add: word_less_nat_alt KERNBASE_def)
    define e1 where "e1 = max sz ?e"
    have e1: "e1 < KERNBASE" "e1 \<noteq> 0" "?e \<le> e1" "sz \<le> e1"
      using wk Suc.prems(2) L ue by (auto simp: e1_def max_def word_le_nat_alt)
    have en: "image_end (ph # ?hs) sz = image_end ?hs e1" using True by (simp add: image_end_def e1_def)
    have np: "npages sz \<le> npages e1" "npages e1 \<le> npages (image_end ?hs e1)"
      using npages_mono e1(4) image_end_ge by blast+
    have mem: "2 * (npages (image_end ?hs e1) - npages sz) \<le> length (freelist m)" using Suc.prems(6) by (simp add: hs en)
    have "\<exists>m1. allocuvm pgdir sz ?e m = Inr (e1, m1) \<and> evolves pgdir (npages sz) (npages e1) (\<lambda>v x. x) m m1"
    proof (cases "sz \<le> ?e")
      case le: True
      then have "e1 = ?e" by (simp add: e1_def max_def)
      then show ?thesis using allocuvm_grows [OF Suc.prems(1) wk le] mem np grown_evolves by fastforce
    next
      case lt: False
      then have "e1 = sz" by (simp add: e1_def max_def)
      then show ?thesis using allocuvm_keeps [OF wk, of sz] lt evolves_refl [OF Suc.prems(1)] by auto
    qed
    then obtain m1 where m1: "allocuvm pgdir sz ?e m = Inr (e1, m1)" "evolves pgdir (npages sz) (npages e1) (\<lambda>v x. x) m m1" by blast
    have as1: "aspace m1 pgdir (npages e1)" using m1(2) by (simp add: evolves_def)
    have fs: "unat (ph_filesz ph) \<le> unat (ph_memsz ph)" using L by (simp add: word_le_nat_alt)
    have "unat ?e \<le> unat e1" using e1(3) by (simp add: word_le_nat_alt)
    moreover have "unat e1 \<le> 4096 * npages e1" unfolding npages_def by linarith
    ultimately have "unat (ph_vaddr ph) + unat (ph_filesz ph) \<le> 4096 * npages e1" using ue fs by linarith
    from loaduvm_spec [OF as1 Suc.prems(3) _ this, of "ph_off ph" dv] L
    obtain m2 where m2: "loaduvm dv pgdir (ph_vaddr ph) ip (ph_off ph) (ph_filesz ph) s m1 = Inr (True, s, m2)" "kept pgdir (npages e1) m1 m2"
        "\<forall>v. pg v < npages e1 \<longrightarrow> ubyte m2 pgdir v = seg_byte ?c ph v (ubyte m1 pgdir v)"
      using True unfolding seg_byte_def by auto
    have ev2: "evolves pgdir (npages e1) (npages e1) (seg_byte ?c ph) m1 m2" using m2(2,3) by (rule kept_evolves)
    have id: "seg_byte ?c ph v 0 = 0" if "npages e1 \<le> pg v" for v
      using image_beyond [of "[ph]" ?c sz v 0] ok(1) that True by (simp add: image_end_def image_def e1_def)
    have ev: "evolves pgdir (npages sz) (npages e1) (seg_byte ?c ph) m m2" using evolves_trans [OF m1(2) ev2] by simp
    have as2: "aspace m2 pgdir (npages e1)" using ev by (simp add: evolves_def)
    have "length (freelist m) \<le> length (freelist m2) + 2 * (npages e1 - npages sz)" using ev by (simp add: evolves_def)
    then have "2 * (npages (image_end ?hs e1) - npages e1) \<le> length (freelist m2)" using mem np by linarith
    from Suc.IH [OF as2 e1(1) Suc.prems(3) off ok(2) this] obtain m' where m':
        "load_segments n dv ip pgdir (off + 32) e1 s m2 = Inr (Some (image_end ?hs e1), s, m')"
        "evolves pgdir (npages e1) (npages (image_end ?hs e1)) (image ?c ?hs) m2 m'" by blast
    have "load_segments (Suc n) dv ip pgdir off sz s m = load_segments n dv ip pgdir (off + 32) e1 s m2"
      using True rd l32 L e1(2) m1(1) m2(1) ue by (simp add: ph_def [symmetric] Let_def word_less_nat_alt word_le_nat_alt)
    moreover have "image ?c (ph # ?hs) = (\<lambda>v x. image ?c ?hs v (seg_byte ?c ph v x))" by (simp add: image_def fun_eq_iff)
    ultimately show ?thesis using m'(1) evolves_trans [OF ev m'(2) id] by (simp add: hs en)
  qed
qed

section \<open>The stack of a program\<close>

definition up4 :: "nat \<Rightarrow> nat" where "up4 k = (k + 3) div 4 * 4"

definition arg_bytes :: "u8 list list \<Rightarrow> nat" where
  "arg_bytes argv = sum_list (map (\<lambda>a. up4 (Suc (length a))) argv)"

lemma up4: "k \<le> up4 k" "up4 k \<le> k + 3" "up4 k mod 4 = 0"
  unfolding up4_def by (linarith, linarith, simp)

lemma align4:
  fixes sp :: u32
  assumes "unat sp mod 4 = 0" "up4 k \<le> unat sp"
  shows "unat ((sp - of_nat k) AND NOT 3) = unat sp - up4 k"
proof -
  have k: "k \<le> unat sp" using assms(2) up4(1) [of k] by simp
  moreover have "unat sp < 2 ^ 32" using unsigned_less [where w = sp] by simp
  ultimately have "k < 2 ^ 32" by simp
  then have uk: "unat (of_nat k :: u32) = k" by (simp add: unat_of_nat)
  have d: "unat (sp - of_nat k) = unat sp - k" using k uk by (simp add: unat_sub_if')
  define w where "w = sp - of_nat k"
  have "w AND NOT 3 = w - (w AND 3)"
  proof -
    have "w = (w AND NOT 3) OR (w AND 3)" by (simp flip: bit.conj_disj_distrib)
    moreover have "(w AND NOT 3) AND (w AND 3) = 0" by (rule bit_eqI) (auto simp: bit_simps)
    ultimately have "w = (w AND NOT 3) + (w AND 3)" by (simp add: disjunctive_add_eq_or)
    then show ?thesis by (simp add: algebra_simps)
  qed
  moreover have "unat (w AND 3) = unat w mod 4"
  proof -
    have "w AND 3 = take_bit 2 w" by (simp add: take_bit_eq_mask mask_eq_exp_minus_1)
    then show ?thesis by (simp add: take_bit_eq_mod unat_mod)
  qed
  ultimately have "unat (w AND NOT 3) = unat w - unat w mod 4"
    by (simp add: unat_sub_if')
  moreover have "unat sp - k - (unat sp - k) mod 4 = unat sp - up4 k"
  proof -
    obtain q where q: "unat sp = 4 * q" using assms(1) by (metis mult_div_mod_eq add.right_neutral)
    define t r where "t = (k + 3) div 4" and "r = 4 * t - k"
    have tr: "k \<le> 4 * t" "4 * t \<le> k + 3" unfolding t_def by linarith+
    have "up4 k = 4 * t" by (simp add: up4_def t_def)
    moreover have "4 * q - k = r + 4 * (q - t)" "r < 4" using tr k assms(2) q calculation by (simp_all add: r_def)
    then have "(4 * q - k) mod 4 = r" by simp
    ultimately show ?thesis using tr k assms(2) q unfolding r_def by simp
  qed
  ultimately show ?thesis by (simp add: w_def d)
qed

text \<open>The stack page \<open>N + 1\<close> is open, the page below it closed.\<close>

definition stack_space :: "kmem \<Rightarrow> u32 \<Rightarrow> nat \<Rightarrow> bool" where
  "stack_space m pgdir N \<longleftrightarrow> aspace m pgdir (N + 2) \<and> (\<forall>v. pg v = N + 1 \<longrightarrow> user m pgdir v) \<and> \<not> user m pgdir (pbase N)"

lemma stack_space_kept: "stack_space m pgdir N \<Longrightarrow> kept pgdir (N + 2) m m' \<Longrightarrow> stack_space m' pgdir N"
  by (simp add: stack_space_def kept_user) (simp add: kept_def)

text \<open>A copy to the stack either fits the page and shows there, or runs into the closed page.\<close>

lemma stack_copy:
  assumes st: "stack_space m pgdir N" and top: "unat va + length buf \<le> 4096 * (N + 2)" and ne: "buf \<noteq> []"
    and lo: "4096 * N < unat va + length buf"
  shows "\<exists>m'. copyout pgdir va buf m = Inr (4096 * (N + 1) \<le> unat va, m') \<and> kept pgdir (N + 2) m m' \<and>
    (4096 * (N + 1) \<le> unat va \<longrightarrow> (\<forall>v. pg v < N + 2 \<longrightarrow> ubyte m' pgdir v =
      (if unat va \<le> unat v \<and> unat v < unat va + length buf then buf ! (unat v - unat va) else ubyte m pgdir v)))"
proof (cases "4096 * (N + 1) \<le> unat va")
  case True
  have "user m pgdir v" if "unat va \<le> unat v" "unat v < unat va + length buf" for v
  proof -
    have "pg v = N + 1" unfolding pg_def by (rule div_nat_eqI) (use that True top in simp_all)
    then show ?thesis using st by (simp add: stack_space_def)
  qed
  with True show ?thesis using copyout_writes [of m pgdir "N + 2" va buf] st top by (auto simp: stack_space_def)
next
  case False
  then have "pg va \<le> N" using less_mult_imp_div_less [of "unat va" "Suc N" 4096] by (simp add: pg_def)
  with False show ?thesis using copyout_blocked [of m pgdir "N + 2" va N buf] st lo ne by (auto simp: stack_space_def)
qed

lemma push_args_spec:
  assumes "stack_space m pgdir N" "unat sp mod 4 = 0" "4096 * (N + 1) \<le> unat sp" "unat sp \<le> 4096 * (N + 2)"
    "arg_bytes argv \<le> unat sp"
  shows "if length us + length argv \<le> MAXARG \<and> 4096 * (N + 1) + arg_bytes argv \<le> unat sp \<or> argv = []
    then \<exists>m' sp' ps. push_args pgdir argv sp us m = Inr (Some (sp', us @ ps), m') \<and> unat sp' = unat sp - arg_bytes argv \<and>
      kept pgdir (N + 2) m m' \<and> length ps = length argv \<and>
      (\<forall>i<length argv. unat sp' \<le> unat (ps ! i) \<and> unat (ps ! i) + Suc (length (argv ! i)) \<le> unat sp \<and> ustring m' pgdir (ps ! i) (argv ! i)) \<and>
      (\<forall>v. pg v < N + 2 \<longrightarrow> unat v < unat sp' \<or> unat sp \<le> unat v \<longrightarrow> ubyte m' pgdir v = ubyte m pgdir v)
    else \<exists>m'. push_args pgdir argv sp us m = Inr (None, m') \<and> kept pgdir (N + 2) m m'"
  using assms
proof (induction argv arbitrary: sp us m)
  case Nil
  then show ?case using kept_refl by (auto simp: arg_bytes_def stack_space_def)
next
  case (Cons a as)
  define k where "k = Suc (length a)"
  have ab: "arg_bytes (a # as) = up4 k + arg_bytes as" by (simp add: arg_bytes_def k_def)
  have u4: "up4 k \<le> unat sp" using Cons.prems(5) ab by simp
  define sp1 where "sp1 = (sp - (of_nat (length a) + 1)) AND NOT 3"
  then have fold1: "(sp - (of_nat (length a) + 1)) AND - 4 = sp1" by simp
  have sp1: "unat sp1 = unat sp - up4 k"
    using align4 [OF Cons.prems(2) u4] by (simp add: sp1_def k_def add.commute)
  have kk: "k \<le> up4 k" "up4 k \<le> k + 3" "up4 k mod 4 = 0" using up4 by blast+
  have lo: "4096 * N < unat sp1 + length (a @ [0])" and top: "unat sp1 + length (a @ [0]) \<le> 4096 * (N + 2)"
    using sp1 kk u4 Cons.prems(3,4) by (simp_all add: k_def)
  obtain m1 where m1: "copyout pgdir sp1 (a @ [0]) m = Inr (4096 * (N + 1) \<le> unat sp1, m1)" "kept pgdir (N + 2) m m1"
      "4096 * (N + 1) \<le> unat sp1 \<longrightarrow> (\<forall>v. pg v < N + 2 \<longrightarrow> ubyte m1 pgdir v =
        (if unat sp1 \<le> unat v \<and> unat v < unat sp1 + length (a @ [0]) then (a @ [0]) ! (unat v - unat sp1) else ubyte m pgdir v))"
    using stack_copy [OF Cons.prems(1) top _ lo] by auto
  show ?case
  proof (cases "length us \<ge> MAXARG")
    case True
    then show ?thesis using kept_refl Cons.prems(1) by (simp add: stack_space_def)
  next
    case us: False
    show ?thesis
    proof (cases "4096 * (N + 1) \<le> unat sp1")
      case False
      then have "push_args pgdir (a # as) sp us m = Inr (None, m1)"
        using us m1(1) by (simp add: fold1 Let_def)
      moreover have "\<not> 4096 * (N + 1) + arg_bytes (a # as) \<le> unat sp" using False sp1 ab by simp
      ultimately show ?thesis using m1(2) by simp
    next
      case True
      have st: "stack_space m1 pgdir N" using Cons.prems(1) m1(2) by (rule stack_space_kept)
      have m4: "unat sp1 mod 4 = 0" using sp1 kk(3) Cons.prems(2) u4 by presburger
      have step: "push_args pgdir (a # as) sp us m = push_args pgdir as sp1 (us @ [sp1]) m1"
        using us True m1(1) by (simp add: fold1 Let_def)
      have fit: "(length (us @ [sp1]) + length as \<le> MAXARG \<and> 4096 * (N + 1) + arg_bytes as \<le> unat sp1 \<or> as = []) =
          (length us + length (a # as) \<le> MAXARG \<and> 4096 * (N + 1) + arg_bytes (a # as) \<le> unat sp)"
        using sp1 ab u4 us True by (cases as) (auto simp: arg_bytes_def)
      have le: "unat sp1 \<le> 4096 * (N + 2)" "arg_bytes as \<le> unat sp1" using sp1 Cons.prems(4,5) ab by simp_all
      note IH = Cons.IH [OF st m4 True le, of "us @ [sp1]", unfolded fit]
      show ?thesis
      proof (cases "length us + length (a # as) \<le> MAXARG \<and> 4096 * (N + 1) + arg_bytes (a # as) \<le> unat sp")
        case False
        then show ?thesis using IH step kept_trans [OF m1(2)] by auto
      next
        case ok: True
        then obtain m' sp' ps where I: "push_args pgdir as sp1 (us @ [sp1]) m1 = Inr (Some (sp', (us @ [sp1]) @ ps), m')"
            "unat sp' = unat sp1 - arg_bytes as" "kept pgdir (N + 2) m1 m'" "length ps = length as"
            "\<forall>i<length as. unat sp' \<le> unat (ps ! i) \<and> unat (ps ! i) + Suc (length (as ! i)) \<le> unat sp1 \<and> ustring m' pgdir (ps ! i) (as ! i)"
            "\<forall>v. pg v < N + 2 \<longrightarrow> unat v < unat sp' \<or> unat sp1 \<le> unat v \<longrightarrow> ubyte m' pgdir v = ubyte m1 pgdir v"
          using IH by auto
        have str: "ustring m' pgdir sp1 a"
          unfolding ustring_def
        proof (intro allI impI)
          fix j assume j: "j \<le> length a"
          have n: "N + 2 \<le> 2 ^ 19" using Cons.prems(1) by (simp add: stack_space_def aspace_def)
          have "unat (sp1 + of_nat j) = unat sp1 + j"
            using j top n by (simp add: unat_word_ariths unat_of_nat)
          moreover have "pg (sp1 + of_nat j) < N + 2" unfolding pg_def calculation using j top by simp
          ultimately show "ubyte m' pgdir (sp1 + of_nat j) = (a @ [0]) ! j"
            using I(6) m1(3) True j by simp
        qed
        have rest: "ubyte m' pgdir v = ubyte m pgdir v" if "pg v < N + 2" "unat v < unat sp' \<or> unat sp \<le> unat v" for v
          using I(2,6) m1(3) True that sp1 kk by (auto simp: k_def)
        have "\<forall>i<length (a # as). unat sp' \<le> unat ((sp1 # ps) ! i) \<and> unat ((sp1 # ps) ! i) + Suc (length ((a # as) ! i)) \<le> unat sp \<and>
            ustring m' pgdir ((sp1 # ps) ! i) ((a # as) ! i)"
        proof (intro allI impI)
          fix i assume "i < length (a # as)"
          then show "unat sp' \<le> unat ((sp1 # ps) ! i) \<and> unat ((sp1 # ps) ! i) + Suc (length ((a # as) ! i)) \<le> unat sp \<and>
            ustring m' pgdir ((sp1 # ps) ! i) ((a # as) ! i)"
            using I(2,5) str sp1 kk u4 by (cases i) (auto simp: k_def)
        qed
        then have "push_args pgdir (a # as) sp us m = Inr (Some (sp', us @ (sp1 # ps)), m') \<and> unat sp' = unat sp - arg_bytes (a # as) \<and>
            kept pgdir (N + 2) m m' \<and> length (sp1 # ps) = length (a # as) \<and>
            (\<forall>i<length (a # as). unat sp' \<le> unat ((sp1 # ps) ! i) \<and> unat ((sp1 # ps) ! i) + Suc (length ((a # as) ! i)) \<le> unat sp \<and>
              ustring m' pgdir ((sp1 # ps) ! i) ((a # as) ! i)) \<and>
            (\<forall>v. pg v < N + 2 \<longrightarrow> unat v < unat sp' \<or> unat sp \<le> unat v \<longrightarrow> ubyte m' pgdir v = ubyte m pgdir v)"
          using step I(1,2,4) sp1 ab kept_trans [OF m1(2) I(3)] rest by simp
        then show ?thesis unfolding if_P [OF disjI1 [OF ok]] by blast
      qed
    qed
  qed
qed

lemma concat_bytes: "length (concat (map bytes_of32 ws)) = 4 * length ws"
  "i < length ws \<Longrightarrow> k < 4 \<Longrightarrow> concat (map bytes_of32 ws) ! (4 * i + k) = bytes_of32 (ws ! i) ! k"
proof -
  have l: "length (bytes_of32 w) = 4" for w by (simp add: bytes_of32_def)
  show "length (concat (map bytes_of32 ws)) = 4 * length ws" by (induction ws) (simp_all add: l)
  show "concat (map bytes_of32 ws) ! (4 * i + k) = bytes_of32 (ws ! i) ! k" if "i < length ws" "k < 4"
    using that
  proof (induction ws arbitrary: i)
    case (Cons w ws)
    then show ?case by (cases i) (auto simp: nth_append l)
  qed simp
qed

lemma uword_copied:
  assumes b: "\<And>v. unat va \<le> unat v \<Longrightarrow> unat v < unat va + 4 * length ws \<Longrightarrow> ubyte m pgdir v = concat (map bytes_of32 ws) ! (unat v - unat va)"
    and top: "unat va + 4 * length ws \<le> 2 ^ 31" and i: "i < length ws"
  shows "uword m pgdir (va + of_nat (4 * i)) = ws ! i"
proof -
  have byte: "ubyte m pgdir (va + of_nat (4 * i) + of_nat k) = bytes_of32 (ws ! i) ! k" if k: "k < 4" for k
  proof -
    have "unat (va + of_nat (4 * i + k)) = unat va + (4 * i + k)"
      using top i k by (simp add: unat_word_ariths unat_of_nat del: of_nat_add of_nat_mult)
    then show ?thesis using b [of "va + of_nat (4 * i + k)"] concat_bytes(2) [OF i k] i k by (simp add: add.assoc)
  qed
  show ?thesis
    using byte [of 0] byte [of 1] byte [of 2] byte [of 3] bytes_of_word [of "ws ! i"]
    by (simp add: uword_def get32_def bytes_of32_def)
qed

definition stack_need :: "u8 list list \<Rightarrow> nat" where
  "stack_need argv = arg_bytes argv + 4 * (4 + length argv)"

text \<open>The stack that \<open>main\<close> finds at \<open>sp\<close>: a return address, the number of arguments, the address of the vector of
  arguments, which follows, and a null pointer at its end.\<close>

definition main_frame :: "kmem \<Rightarrow> u32 \<Rightarrow> u32 \<Rightarrow> u8 list list \<Rightarrow> bool" where
  "main_frame m pgdir sp argv \<longleftrightarrow>
     uword m pgdir sp = 0xFFFFFFFF \<and> uword m pgdir (sp + 4) = of_nat (length argv) \<and> uword m pgdir (sp + 8) = sp + 12 \<and>
     (\<forall>i<length argv. ustring m pgdir (uword m pgdir (sp + 12 + of_nat (4 * i))) (argv ! i)) \<and>
     uword m pgdir (sp + 12 + of_nat (4 * length argv)) = 0"

lemma pbase_add2: "pbase n + 2 * PGSIZE = pbase (n + 2)"
  by (simp add: pbase_def PGSIZE_def)

lemma setup_room:
  assumes as: "aspace m pgdir (npages sz)" and n: "npages sz + 2 < 2 ^ 19" and fl: "4 \<le> length (freelist m)"
  shows "\<exists>m1 m2. allocuvm pgdir (PGROUNDUP sz) (PGROUNDUP sz + 2 * PGSIZE) m = Inr (pbase (npages sz + 2), m1) \<and>
    pbase (npages sz + 2) \<noteq> 0 \<and> clearpteu pgdir (pbase (npages sz + 2) - 2 * PGSIZE) m1 = Inr m2 \<and> stack_space m2 pgdir (npages sz) \<and>
    (\<forall>v. pg v < npages sz \<longrightarrow> ubyte m2 pgdir v = ubyte m pgdir v \<and> user m2 pgdir v = user m pgdir v)"
proof -
  define N where "N = npages sz"
  have N: "N < 2 ^ 20" "N + 2 < 2 ^ 20" "N + 2 < 2 ^ 19" using n by (simp_all add: N_def)
  have "unat sz \<le> 2 ^ 31" using n unfolding npages_def by simp
  then have up: "PGROUNDUP sz = pbase N" by (simp add: PGROUNDUP_pg N_def npages_def)
  have np: "npages (pbase N) = N" "npages (pbase (N + 2)) = N + 2"
    unfolding npages_def pbase(1) [OF N(1)] pbase(1) [OF N(2)] by simp_all
  have lt: "pbase (N + 2) < KERNBASE" unfolding word_less_nat_alt pbase(1) [OF N(2)] using N by (simp add: KERNBASE_def)
  have le: "pbase N \<le> pbase (N + 2)" unfolding word_le_nat_alt pbase(1) [OF N(1)] pbase(1) [OF N(2)] by simp
  obtain m1 where m1: "allocuvm pgdir (pbase N) (pbase (N + 2)) m = Inr (pbase (N + 2), m1)" "grown pgdir N (N + 2) m m1"
    using allocuvm_grows [OF _ lt le] as fl np by (auto simp: N_def)
  have nz: "pbase (N + 2) \<noteq> 0" using pbase(1) [OF N(2)] by (metis add_is_0 mult_is_0 unat_0 zero_neq_numeral)
  have sub: "pbase (N + 2) - 2 * PGSIZE = pbase N" unfolding pbase_add2 [symmetric] by simp
  have as1: "aspace m1 pgdir (N + 2)" using m1(2) by (simp add: grown_def)
  have pN: "pg (pbase N) = N" by (rule pbase(2) [OF N(1)])
  then obtain m2 where m2: "clearpteu pgdir (pbase N) m1 = Inr m2" "aspace m2 pgdir (N + 2)"
      "\<forall>v. pg v < N + 2 \<longrightarrow> frame m2 pgdir v = frame m1 pgdir v \<and> ubyte m2 pgdir v = ubyte m1 pgdir v"
      "\<forall>v. user m2 pgdir v \<longleftrightarrow> user m1 pgdir v \<and> pg v \<noteq> N"
    using clearpteu_spec [OF as1, of "pbase N"] by auto
  have "stack_space m2 pgdir N" using m1(2) m2(2,4) pN by (auto simp: stack_space_def grown_def)
  moreover have "ubyte m2 pgdir v = ubyte m pgdir v \<and> user m2 pgdir v = user m pgdir v" if "pg v < N" for v
    using that m1(2) m2(3,4) by (auto simp: grown_def user_def)
  ultimately show ?thesis
    unfolding N_def [symmetric] up pbase_add2 sub using m1(1) m2(1) nz by blast
qed

lemma setup_stack_spec:
  assumes "aspace m pgdir (npages sz)" "npages sz + 2 < 2 ^ 19" "4 \<le> length (freelist m)" "stack_need argv \<le> 4096 * (npages sz + 2)"
  shows "if length argv \<le> MAXARG \<and> stack_need argv \<le> 4096
    then \<exists>m' sp. setup_stack pgdir sz argv m = Inr (Some (pbase (npages sz + 2), sp), m') \<and>
      unat sp = 4096 * (npages sz + 2) - stack_need argv \<and> stack_space m' pgdir (npages sz) \<and> main_frame m' pgdir sp argv \<and>
      (\<forall>v. pg v < npages sz \<longrightarrow> ubyte m' pgdir v = ubyte m pgdir v \<and> user m' pgdir v = user m pgdir v)
    else \<exists>m'. setup_stack pgdir sz argv m = Inr (None, m') \<and> aspace m' pgdir (npages sz + 2)"
proof -
  define N where "N = npages sz"
  define top where "top = pbase (N + 2)"
  obtain m1 m2 where room: "allocuvm pgdir (PGROUNDUP sz) (PGROUNDUP sz + 2 * PGSIZE) m = Inr (top, m1)" "top \<noteq> 0"
      "clearpteu pgdir (top - 2 * PGSIZE) m1 = Inr m2" "stack_space m2 pgdir N"
      "\<forall>v. pg v < N \<longrightarrow> ubyte m2 pgdir v = ubyte m pgdir v \<and> user m2 pgdir v = user m pgdir v"
    using setup_room [OF assms(1-3)] by (auto simp: N_def top_def)
  have N: "N + 2 < 2 ^ 20" "N + 2 < 2 ^ 19" using assms(2) by (simp_all add: N_def)
  have utop: "unat top = 4096 * (N + 2)" unfolding top_def by (rule pbase(1) [OF N(1)])
  have need: "arg_bytes argv + 4 * (4 + length argv) \<le> 4096 * (N + 2)" using assms(4) by (simp add: stack_need_def N_def)
  have t: "unat top mod 4 = 0" "4096 * (N + 1) \<le> unat top" "unat top \<le> 4096 * (N + 2)" "arg_bytes argv \<le> unat top"
    using need unfolding utop by auto
  note P = push_args_spec [OF room(4) t, of "[]"]
  define fit where "fit \<longleftrightarrow> length argv \<le> MAXARG \<and> 4096 * (N + 1) + arg_bytes argv \<le> unat top \<or> argv = []"
  have S: "setup_stack pgdir sz argv m = bindR (push_args pgdir argv top [] m2) (\<lambda>(r, m3).
      case r of None \<Rightarrow> Inr (None, m3) | Some (sp, us) \<Rightarrow> push_frame pgdir top sp us m3)"
    using room(1-3) by (simp add: setup_stack_def Let_def)
  show ?thesis
  proof (cases fit)
    case False
    then obtain m' where m': "push_args pgdir argv top [] m2 = Inr (None, m')" "kept pgdir (N + 2) m2 m'"
      using P unfolding fit_def by auto
    have "\<not> (length argv \<le> MAXARG \<and> stack_need argv \<le> 4096)" using False utop by (auto simp: fit_def stack_need_def)
    then show ?thesis using S m' by (simp add: kept_def N_def)
  next
    case True
    then obtain m3 sp ps where I: "push_args pgdir argv top [] m2 = Inr (Some (sp, ps), m3)" "unat sp = unat top - arg_bytes argv"
        "kept pgdir (N + 2) m2 m3" "length ps = length argv"
        "\<forall>i<length argv. unat sp \<le> unat (ps ! i) \<and> unat (ps ! i) + Suc (length (argv ! i)) \<le> unat top \<and> ustring m3 pgdir (ps ! i) (argv ! i)"
        "\<forall>v. pg v < N + 2 \<longrightarrow> unat v < unat sp \<or> unat top \<le> unat v \<longrightarrow> ubyte m3 pgdir v = ubyte m2 pgdir v"
      using P unfolding fit_def by auto
    define n where "n = length argv"
    define ws where "ws = [0xFFFFFFFF, of_nat n, sp - (of_nat n + 1) * 4] @ ps @ [0 :: u32]"
    define sp1 where "sp1 = sp - (3 + of_nat n + 1) * 4"
    have lw: "length ws = 4 + n" using I(4) by (simp add: ws_def n_def)
    have lb: "length (concat (map bytes_of32 ws)) = 4 * (4 + n)" by (simp add: concat_bytes lw)
    have K1: "push_frame pgdir top sp ps m3 = bindR (copyout pgdir sp1 (concat (map bytes_of32 ws)) m3) (\<lambda>(ok, m4). Inr (if ok then Some (top, sp1) else None, m4))"
      by (simp only: push_frame_def Let_def ws_def sp1_def n_def I(4))
    have sm: "unat sp \<le> 2 ^ 31" "4 * (4 + n) \<le> unat sp" using I(2) need utop N(2) by (simp_all add: n_def)
    have "sp1 = sp - of_nat (4 * (4 + n))" by (simp add: sp1_def algebra_simps)
    moreover have "unat (of_nat (4 * (4 + n)) :: u32) = 4 * (4 + n)" using sm by (simp add: unat_of_nat del: of_nat_mult of_nat_add)
    ultimately have usp1: "unat sp1 = unat sp - 4 * (4 + n)" using sm(2) by (simp add: unat_sub_if' del: of_nat_mult of_nat_add)
    have st3: "stack_space m3 pgdir N" using room(4) I(3) by (rule stack_space_kept)
    have range: "unat sp1 + 4 * (4 + n) = unat sp" using usp1 sm by simp
    have ne: "concat (map bytes_of32 ws) \<noteq> []" by (simp add: ws_def bytes_of32_def)
    have spl: "4096 * (N + 1) \<le> unat sp" using True I(2) t(2) by (auto simp: fit_def arg_bytes_def)
    have in_top: "unat sp1 + length (concat (map bytes_of32 ws)) \<le> 4096 * (N + 2)"
      unfolding lb range using I(2) utop by linarith
    have in_low: "4096 * N < unat sp1 + length (concat (map bytes_of32 ws))"
      unfolding lb range using spl by simp
    obtain m4 where m4: "copyout pgdir sp1 (concat (map bytes_of32 ws)) m3 = Inr (4096 * (N + 1) \<le> unat sp1, m4)" "kept pgdir (N + 2) m3 m4"
        "4096 * (N + 1) \<le> unat sp1 \<longrightarrow> (\<forall>v. pg v < N + 2 \<longrightarrow> ubyte m4 pgdir v =
          (if unat sp1 \<le> unat v \<and> unat v < unat sp then concat (map bytes_of32 ws) ! (unat v - unat sp1) else ubyte m3 pgdir v))"
      using stack_copy [OF st3 in_top ne in_low, unfolded lb range] by blast
    have st4: "stack_space m4 pgdir N" using st3 m4(2) by (rule stack_space_kept)
    have us: "stack_need argv = unat top - unat sp1" "unat sp1 \<le> unat top"
      using I(2) usp1 sm utop need by (simp_all add: stack_need_def n_def)
    show ?thesis
    proof (cases "length argv \<le> MAXARG \<and> stack_need argv \<le> 4096")
      case False
      then have "\<not> 4096 * (N + 1) \<le> unat sp1" using True us utop MAXARG_def by (auto simp: fit_def)
      then show ?thesis unfolding if_not_P [OF False] using S I(1) K1 m4 st4 by (auto simp: stack_space_def N_def)
    next
      case ok: True
      then have "unat top \<le> unat sp1 + 4096" using us by (simp add: le_diff_conv add.commute)
      then have lo: "4096 * (N + 1) \<le> unat sp1" unfolding utop by simp
      have "setup_stack pgdir sz argv m = Inr (Some (pbase (npages sz + 2), sp1), m4)"
        using S I(1) K1 m4(1) lo by (simp add: top_def N_def)
      moreover have "unat sp1 = 4096 * (npages sz + 2) - stack_need argv" using us utop by (simp add: N_def)
      moreover have "main_frame m4 pgdir sp1 argv"
      proof -
        have low: "pg v < N + 2" if "unat v < unat top" for v
          using that less_mult_imp_div_less [of "unat v" "N + 2" 4096] by (simp add: pg_def utop)
        have "unat sp \<le> unat top" using I(2) by simp
        then have ub: "ubyte m4 pgdir v = concat (map bytes_of32 ws) ! (unat v - unat sp1)"
          if "unat sp1 \<le> unat v" "unat v < unat sp1 + 4 * length ws" for v
          using m4(3) lo low [of v] that range lw by simp
        have w: "uword m4 pgdir (sp1 + of_nat (4 * i)) = ws ! i" if "i < 4 + n" for i
          using uword_copied [OF ub] that range sm(1) lw by simp
        have v: "uword m4 pgdir (sp1 + 12 + of_nat (4 * i)) = (ps @ [0]) ! i" if "i \<le> n" for i
          using w [of "3 + i"] that by (simp add: ws_def add.assoc)
        have argv: "sp1 + 12 = sp - (of_nat n + 1) * 4" by (simp add: sp1_def algebra_simps)
        have "ustring m4 pgdir (ps ! i) (argv ! i)" if i: "i < n" for i
          unfolding ustring_def
        proof (intro allI impI)
          fix j assume j: "j \<le> length (argv ! i)"
          have b: "unat sp \<le> unat (ps ! i)" "unat (ps ! i) + Suc (length (argv ! i)) \<le> unat top"
              "ubyte m3 pgdir (ps ! i + of_nat j) = (argv ! i @ [0]) ! j"
            using I(5) i j by (auto simp: n_def ustring_def)
          have "unat (ps ! i + of_nat j) = unat (ps ! i) + j"
            using b(2) j N(2) utop by (simp add: unat_word_ariths unat_of_nat)
          then show "ubyte m4 pgdir (ps ! i + of_nat j) = (argv ! i @ [0]) ! j"
            using m4(3) lo low [of "ps ! i + of_nat j"] b j by simp
        qed
        moreover have "uword m4 pgdir (sp1 + 12 + of_nat (4 * i)) = ps ! i" if "i < n" for i
          using v [of i] that I(4) by (simp add: nth_append n_def)
        moreover have "uword m4 pgdir (sp1 + 12 + of_nat (4 * n)) = 0"
          using v [of n] I(4) by (simp add: nth_append n_def)
        moreover have "uword m4 pgdir sp1 = 0xFFFFFFFF" "uword m4 pgdir (sp1 + 4) = of_nat n"
          using w [of 0] w [of 1] by (simp_all add: ws_def)
        moreover have "uword m4 pgdir (sp1 + 8) = sp1 + 12" unfolding argv using w [of 2] by (simp add: ws_def)
        ultimately show ?thesis unfolding main_frame_def n_def [symmetric] by simp
      qed
      moreover have "ubyte m4 pgdir v = ubyte m pgdir v \<and> user m4 pgdir v = user m pgdir v" if v: "pg v < npages sz" for v
      proof -
        have "unat v < 4096 * N" using v unfolding pg_def N_def by linarith
        then have "unat v < unat sp1" "pg v < N + 2" "pg v < N" using lo v by (simp_all add: N_def)
        moreover from this have "unat v < unat sp" using range by simp
        ultimately show ?thesis
          using m4(3) lo I(6) room(5) kept_user [OF I(3)] kept_user [OF m4(2)] by simp
      qed
      ultimately show ?thesis unfolding if_P [OF ok] using st4 N_def by blast
    qed
  qed
qed

text \<open>
  C7. \<open>exec\<close> gives \<open>main\<close> its arguments. Two pages are added above the image; the lower one is closed to the user. If
  there are at most 32 arguments and their strings, each rounded up to whole words, fit into the upper page together with the
  words of the frame, the loading goes on, and at the stack pointer the program finds a return address, the number of
  its arguments, and the address of a vector of pointers to copies of the strings, in order, each with its terminator,
  and closed by a null pointer; the image below is as it was. In every other case, as long as the arguments do not reach below address
  0, the result is \<open>bad\<close>, because a copy runs into the closed page, and the address space is still well formed.
\<close>

theorem exec_builds_stack:
  assumes "aspace m pgdir (npages sz)" "npages sz + 2 < 2 ^ 19" "4 \<le> length (freelist m)" "stack_need argv \<le> 4096 * (npages sz + 2)"
  shows "if length argv \<le> MAXARG \<and> stack_need argv \<le> 4096
    then \<exists>m' sp. setup_stack pgdir sz argv m = Inr (Some (pbase (npages sz + 2), sp), m') \<and>
      unat sp = 4096 * (npages sz + 2) - stack_need argv \<and> stack_space m' pgdir (npages sz) \<and> main_frame m' pgdir sp argv \<and>
      (\<forall>v. pg v < npages sz \<longrightarrow> ubyte m' pgdir v = ubyte m pgdir v \<and> user m' pgdir v = user m pgdir v)
    else \<exists>m'. setup_stack pgdir sz argv m = Inr (None, m') \<and> aspace m' pgdir (npages sz + 2)"
  using setup_stack_spec [OF assms] .

text \<open>
  C6. A program is loaded and given its arguments. For a file of well-formed segments, a fresh address space and two
  free pages for each page of the image and of the stack, the loop over the program headers and the building of the stack both
  succeed, and then the program sees, up to the end of its last segment, the image the file describes (the
  bytes of the file where a segment has them, later segments over earlier ones, zeros elsewhere), every page of it open to
  the user, and, above the closed page, the frame of \<open>main\<close> with its arguments.
\<close>

theorem exec_prepares_program:
  assumes "aspace m pgdir 0" "readable dev ip s" "unat off + 32 * n \<le> length (contents s ip)"
    "\<forall>ph\<in>set (headers (contents s ip) off n). loadable (contents s ip) ph"
    "2 * npages (image_end (headers (contents s ip) off n) 0) + 4 \<le> length (freelist m)"
    "npages (image_end (headers (contents s ip) off n) 0) + 2 < 2 ^ 19" "length argv \<le> MAXARG" "stack_need argv \<le> 4096"
  shows "let e = image_end (headers (contents s ip) off n) 0 in
    \<exists>m1 m2 sp. load_segments n dv ip pgdir off 0 s m = Inr (Some e, s, m1) \<and>
      setup_stack pgdir e argv m1 = Inr (Some (pbase (npages e + 2), sp), m2) \<and> stack_space m2 pgdir (npages e) \<and>
      (\<forall>v. pg v < npages e \<longrightarrow> user m2 pgdir v \<and>
         ubyte m2 pgdir v = image (contents s ip) (headers (contents s ip) off n) v 0) \<and>
      (\<forall>ph\<in>set (headers (contents s ip) off n). ph_type ph = ELF_PROG_LOAD \<longrightarrow> ph_vaddr ph + ph_memsz ph \<le> e) \<and>
      main_frame m2 pgdir sp argv"
proof -
  let ?hs = "headers (contents s ip) off n"
  define e where "e = image_end ?hs 0"
  have z: "npages 0 = 0" by (simp add: npages_def)
  have "(0 :: u32) < KERNBASE" by (simp add: KERNBASE_def)
  then obtain m1 where m1: "load_segments n dv ip pgdir off 0 s m = Inr (Some e, s, m1)"
      "evolves pgdir 0 (npages e) (image (contents s ip) ?hs) m m1"
    using load_segments_image [OF _ _ assms(2-4), of m pgdir 0 dv] assms(1,5) z by (auto simp: e_def)
  have a1: "aspace m1 pgdir (npages e)" "4 \<le> length (freelist m1)"
    using m1(2) assms(5) by (auto simp: evolves_def e_def)
  have "stack_need argv \<le> 4096 * (npages e + 2)" using assms(8) by simp
  from setup_stack_spec [OF a1(1) assms(6) [folded e_def] a1(2) this] obtain m2 sp where m2:
      "setup_stack pgdir e argv m1 = Inr (Some (pbase (npages e + 2), sp), m2)" "stack_space m2 pgdir (npages e)" "main_frame m2 pgdir sp argv"
      "\<forall>v. pg v < npages e \<longrightarrow> ubyte m2 pgdir v = ubyte m1 pgdir v \<and> user m2 pgdir v = user m1 pgdir v"
    unfolding if_P [OF conjI [OF assms(7,8)]] by blast
  have "user m2 pgdir v \<and> ubyte m2 pgdir v = image (contents s ip) ?hs v 0" if "pg v < npages e" for v
    using that m1(2) m2(4) by (simp add: evolves_def)
  moreover have "\<forall>ph\<in>set ?hs. ph_type ph = ELF_PROG_LOAD \<longrightarrow> ph_vaddr ph + ph_memsz ph \<le> e"
    unfolding e_def using image_end_segment by blast
  ultimately show ?thesis unfolding Let_def e_def [symmetric] using m1(1) m2(1-3) by blast
qed

section \<open>Outcomes of \<open>exec\<close>\<close>

text \<open>When it fails, \<open>exec\<close> leaves the processes as they were; when it succeeds, it changes the name, the address space, the
  size, the program counter and the stack pointer of the process that called it, and nothing else of any process.\<close>

lemma exec_commit_outcome:
  assumes "exec_commit me path pgdir sz sp ent k = Inr k'"
  shows "k' = (upd me (\<lambda>p. p\<lparr>p_name := safe_name (last_part path path), p_pgdir := pgdir, p_sz := sz,
      p_tf := (p_tf p)\<lparr>tf_eip := ent, tf_esp := sp\<rparr>\<rparr>) k)\<lparr>kmm := kmm k'\<rparr>"
  using assms by (auto simp: exec_commit_def Let_def bindR_Inr_iff)

lemma exec_file_outcome:
  assumes "exec_file dv me path argv ip k s = Inr (r, k', s')"
  shows "r = - 1 \<and> k' = k\<lparr>kmm := kmm k'\<rparr> \<or>
    r = 0 \<and> (\<exists>pgdir sz sp ent. k' = (upd me (\<lambda>p. p\<lparr>p_name := safe_name (last_part path path), p_pgdir := pgdir, p_sz := sz,
      p_tf := (p_tf p)\<lparr>tf_eip := ent, tf_esp := sp\<rparr>\<rparr>) k)\<lparr>kmm := kmm k'\<rparr>)"
proof -
  obtain s2 pgo q s3 m where l: "load_image dv ip (kdata k) s2 (kmm k) = Inr (pgo, q, s3, m)" and c: "(case q of
         None \<Rightarrow>
           bindR (case pgo of None \<Rightarrow> Inr m | Some pgdir \<Rightarrow> freevm pgdir m) (\<lambda>m1.
           bindR (iunlockput ip s3) (\<lambda>s4. Inr (- 1, k\<lparr>kmm := m1\<rparr>, s4)))
       | Some (elf, pgdir, sz) \<Rightarrow>
           bindR (iunlockput ip s3) (\<lambda>s4.
           bindR (setup_stack pgdir sz argv m) (\<lambda>(t, m1).
             case t of
               None \<Rightarrow> bindR (freevm pgdir m1) (\<lambda>m2. Inr (- 1, k\<lparr>kmm := m2\<rparr>, s4))
             | Some (sz1, sp) \<Rightarrow>
                 bindR (exec_commit me path pgdir sz1 sp (e_entry elf) (k\<lparr>kmm := m1\<rparr>)) (\<lambda>k1. Inr (0, k1, s4))))) = Inr (r, k', s')"
    using assms unfolding exec_file_def bindR_Inr_iff by fastforce
  show ?thesis
  proof (cases q)
    case None
    then show ?thesis using c by (auto simp: bindR_Inr_iff)
  next
    case (Some e)
    obtain elf pgdir sz where e: "e = (elf, pgdir, sz)" by (cases e)
    obtain s4 t m1 where "(case t of
               None \<Rightarrow> bindR (freevm pgdir m1) (\<lambda>m2. Inr (- 1, k\<lparr>kmm := m2\<rparr>, s4))
             | Some (sz1, sp) \<Rightarrow>
                 bindR (exec_commit me path pgdir sz1 sp (e_entry elf) (k\<lparr>kmm := m1\<rparr>)) (\<lambda>k1. Inr (0, k1, s4))) = Inr (r, k', s')"
      using c unfolding Some e by (auto simp: bindR_Inr_iff)
    then show ?thesis
      by (cases t) (auto simp: bindR_Inr_iff upd_def dest!: exec_commit_outcome)
  qed
qed

lemma exec_outcome:
  assumes "exec dv me cwd path argv k s = Inr (r, k', s')"
  shows "r = - 1 \<and> k' = k\<lparr>kmm := kmm k'\<rparr> \<or>
    r = 0 \<and> (\<exists>pgdir sz sp ent. k' = (upd me (\<lambda>p. p\<lparr>p_name := safe_name (last_part path path), p_pgdir := pgdir, p_sz := sz,
      p_tf := (p_tf p)\<lparr>tf_eip := ent, tf_esp := sp\<rparr>\<rparr>) k)\<lparr>kmm := kmm k'\<rparr>)"
proof -
  obtain q s1 where "(case q of None \<Rightarrow> Inr (- 1, k, s1) | Some ip \<Rightarrow> exec_file dv me path argv ip k s1) = Inr (r, k', s')"
    using assms unfolding exec_def bindR_Inr_iff by fastforce
  then show ?thesis by (cases q) (auto dest: exec_file_outcome)
qed

text \<open>A file that is too short for a header, or has another magic number, is refused before any memory is taken.\<close>

lemma not_a_program:
  assumes "readable dev ip s"
    "length (contents s ip) < 52 \<or> e_magic (elfhdr_of (take 52 (contents s ip))) \<noteq> ELF_MAGIC"
  shows "load_image dv ip data s m = Inr (None, None, s, m)"
proof -
  have "readi dv ip 0 52 s = Inr (Some (take 52 (contents s ip)), s)"
    using readi_contents [of dev ip s 0 52 dv] assms(1) by (simp add: readable_def)
  then show ?thesis using assms(2) by (auto simp: load_image_def Let_def)
qed

text \<open>\<open>uva2ka\<close> does not test what \<open>walkpgdir\<close> returns. An argument string longer than the new program's memory puts \<open>sp\<close>
  below 0, into addresses without a page table, and the copy then reads an entry through a null pointer.\<close>

lemma copyout_without_table:
  assumes "\<not> present (entry m (pgdir, PDX (PGROUNDDOWN va)))" "buf \<noteq> []"
  shows "copyout pgdir va buf m = Inl OutOfBounds"
  using assms by (subst copyout.simps) (simp add: uva2ka_def walk_False Let_def)

lemma long_argument_reads_null:
  assumes "sp1 = (sp - (of_nat (length a) + 1)) AND NOT 3" "\<not> present (entry m (pgdir, PDX (PGROUNDDOWN sp1)))"
  shows "push_args pgdir (a # as) sp [] m = Inl OutOfBounds"
  using copyout_without_table [OF assms(2), of "a @ [0]"] assms(1) by (simp add: Let_def MAXARG_def)

section \<open>A fresh address space\<close>

text \<open>Tables that map nothing below the kernel and let the user reach nothing.\<close>

definition kernel_only :: "kmem \<Rightarrow> u32 \<Rightarrow> bool" where
  "kernel_only m pgdir \<longleftrightarrow> kmem_inv m \<and> pt_wf m pgdir \<and>
     (\<forall>v. pg v < 2 ^ 19 \<longrightarrow> \<not> present (pte_of m pgdir v)) \<and> (\<forall>v. \<not> user m pgdir v)"

lemma kernel_only_aspace: "kernel_only m pgdir \<Longrightarrow> aspace m pgdir 0"
  by (simp add: kernel_only_def aspace_def)

lemma kernel_pte:
  assumes "pa mod PGSIZE = 0" "perm AND PTE_U = 0"
  shows "(pa OR perm OR PTE_P) AND PTE_U = 0"
proof -
  have "pa AND PTE_U = (pa AND 0xFFF) AND PTE_U" by (simp add: and.assoc PTE_U_def)
  then have "pa AND PTE_U = 0" using aligned_AND [OF assms(1)] by simp
  then show ?thesis using assms(2) by (simp add: bit.conj_disj_distrib2) (simp add: PTE_P_def PTE_U_def)
qed

lemma kernel_only_step:
  assumes k: "kernel_only m pgdir" and w: "walkpgdir pgdir a True m = Inr (Some l, m1)" and a: "2 ^ 19 \<le> pg a"
    and p: "pa mod PGSIZE = 0" "perm AND PTE_U = 0"
  shows "kernel_only (set_entry l (pa OR perm OR PTE_P) m1) pgdir"
proof -
  have inv: "kmem_inv m" "pt_wf m pgdir" using k by (simp_all add: kernel_only_def)
  from walk_spec [OF inv, of a] w have W: "kmem_inv m1" "pt_wf m1 pgdir" "present (entry m1 (pgdir, PDX a))"
      "l = (PTE_ADDR (entry m1 (pgdir, PDX a)), PTX a)" "\<forall>v. pte_of m1 pgdir v = pte_of m pgdir v" by auto
  note S = set_pte [OF W(2-4)]
  have "pte_of (set_entry l w m1) pgdir v = (if pg v = pg a then w else pte_of m pgdir v)" for v w
    using S(2) W(5) by (auto simp: same_page_iff)
  then show ?thesis
    using k a W(1) S(1) kernel_pte [OF p] by (simp add: kernel_only_def user_def)
qed

lemma kernel_only_walk_None:
  "kernel_only m pgdir \<Longrightarrow> walkpgdir pgdir a True m = Inr (None, m1) \<Longrightarrow> m1 = m"
  using walk_spec [of m pgdir a] by (auto simp: kernel_only_def)

lemma mod_page_add: "(x :: u32) mod PGSIZE = 0 \<Longrightarrow> (x + PGSIZE) mod PGSIZE = 0"
proof -
  assume "x mod PGSIZE = 0"
  then have "x = pbase (pg x)" using round_page(1) [of x] PGROUNDDOWN_pg(1) [of x] by simp
  then have x: "x + PGSIZE = pbase (Suc (pg x))" using pbase_Suc by metis
  have "pg x < 2 ^ 20" using unsigned_less [where 'a = nat and w = x] by (simp add: pg_def less_mult_imp_div_less)
  then consider "Suc (pg x) < 2 ^ 20" | "Suc (pg x) = 2 ^ 20" by linarith
  then show ?thesis
  proof cases
    case 2
    have "pbase (2 ^ 20) = 0" by (simp add: pbase_def)
    then show ?thesis unfolding x 2 by simp
  qed (simp only: x pbase)
qed

lemma map_loop_kernel:
  assumes "kernel_only m pgdir" "map_loop n pgdir a pa perm m = Inr (r, m')" "2 ^ 19 \<le> pg a" "pg a + n < 2 ^ 20"
    "a mod PGSIZE = 0" "pa mod PGSIZE = 0" "perm AND PTE_U = 0"
  shows "kernel_only m' pgdir"
  using assms
proof (induction n arbitrary: a pa m)
  case 0
  obtain q m1 where w: "walkpgdir pgdir a True m = Inr (q, m1)" using 0(2) by (auto simp: bindR_Inr_iff)
  show ?case
  proof (cases q)
    case None
    then show ?thesis using 0 w kernel_only_walk_None by auto
  next
    case (Some l)
    then have "m' = set_entry l (pa OR perm OR PTE_P) m1" using 0(2) w by (auto split: if_splits)
    then show ?thesis using kernel_only_step [OF 0(1) w [unfolded Some] 0(3,6,7)] by simp
  qed
next
  case (Suc n)
  obtain q m1 where w: "walkpgdir pgdir a True m = Inr (q, m1)" using Suc.prems(2) by (auto simp: bindR_Inr_iff)
  show ?case
  proof (cases q)
    case None
    then show ?thesis using Suc.prems(1,2) w kernel_only_walk_None by auto
  next
    case (Some l)
    have k: "kernel_only (set_entry l (pa OR perm OR PTE_P) m1) pgdir"
      using kernel_only_step [OF Suc.prems(1) w [unfolded Some] Suc.prems(3,6,7)] .
    have rest: "map_loop n pgdir (a + PGSIZE) (pa + PGSIZE) perm (set_entry l (pa OR perm OR PTE_P) m1) = Inr (r, m')"
      using Suc.prems(2) w Some by (auto split: if_splits)
    have al: "(a + PGSIZE) mod PGSIZE = 0" "(pa + PGSIZE) mod PGSIZE = 0"
      by (rule mod_page_add [OF Suc.prems(5)], rule mod_page_add [OF Suc.prems(6)])
    have "unat a < 4096 * (2 ^ 20 - 1)" using Suc.prems(4) unfolding pg_def by linarith
    then have "pg (a + PGSIZE) = Suc (pg a)" by (simp add: pg_def PGSIZE_def unat_word_ariths)
    then show ?thesis using Suc.IH [OF k rest] Suc.prems(3,4,7) al by simp
  qed
qed

lemma mappages_kernel:
  assumes "kernel_only m pgdir" "mappages pgdir va len pa perm m = Inr (r, m')" "2 ^ 19 \<le> pg va" "va \<le> va + len - 1"
    "pa mod PGSIZE = 0" "perm AND PTE_U = 0"
  shows "kernel_only m' pgdir"
proof -
  define a where "a = PGROUNDDOWN va"
  define b where "b = PGROUNDDOWN (va + len - 1)"
  have lt: "pg w < 2 ^ 20" for w using unsigned_less [where 'a = nat and w = w] by (simp add: pg_def less_mult_imp_div_less)
  have le: "pg va \<le> pg (va + len - 1)" using assms(4) by (simp add: pg_def word_le_nat_alt div_le_mono)
  have ab: "a = pbase (pg va)" "b = pbase (pg (va + len - 1))" by (simp_all add: a_def b_def PGROUNDDOWN_pg)
  then have u: "unat a = 4096 * pg va" "unat b = 4096 * pg (va + len - 1)" using pbase(1) lt by simp_all
  then have "unat (b - a) = 4096 * (pg (va + len - 1) - pg va)" using le by (simp add: unat_sub_if' diff_mult_distrib2)
  then have m: "map_loop (pg (va + len - 1) - pg va) pgdir a pa perm m = Inr (r, m')"
    using assms(2) by (simp add: mappages_def Let_def a_def [symmetric] b_def [symmetric])
  have pa: "pg a = pg va" "a mod PGSIZE = 0" using pbase(2,3) lt by (simp_all add: ab(1))
  show ?thesis
    by (rule map_loop_kernel [OF assms(1) m]) (use assms(3,5,6) pa lt [of "va + len - 1"] le in simp_all)
qed

text \<open>What \<open>setupkvm\<close> returns is an empty address space: nothing is mapped below the kernel, and the user can reach nothing of
  the kernel's part. \<open>data\<close> is the page where the kernel's data begins.\<close>

lemma setupkvm_fresh:
  assumes "kmem_inv m" "setupkvm data m = Inr (Some pgdir, m')"
    "data mod PGSIZE = 0" "KERNBASE + EXTMEM < data" "data < KERNBASE + PHYSTOP"
  shows "kernel_only m' pgdir"
proof -
  obtain m1 where k: "kalloc m = Inr (Some pgdir, m1)" "kmap_loop pgdir (kmap data) (set_page pgdir zeros m1) = Inr (True, m')"
    using assms(2) by (auto simp: setupkvm_def bindR_Inr_iff split: option.splits if_splits prod.splits)
  have m1: "kmem_inv m1" "pgdir \<notin> set (freelist m1)" using kalloc_spec [OF assms(1)] k(1) by auto
  let ?m = "set_page pgdir zeros m1"
  have e: "entry ?m (pgdir, i) = 0" for i by (rule entry_zeros)
  then have k0: "kernel_only ?m pgdir" using m1 by (simp add: kernel_only_def pt_wf_def pte_of_def user_def)
  have ok: "kernel_only m'' pgdir" if "kmap_loop pgdir ks mm = Inr (r, m'')" "kernel_only mm pgdir"
      "\<forall>(virt, start, ende, perm)\<in>set ks. 2 ^ 19 \<le> pg virt \<and> virt \<le> virt + (ende - start) - 1 \<and> start mod PGSIZE = 0 \<and> perm AND PTE_U = 0"
    for ks mm r m''
    using that
  proof (induction ks arbitrary: mm)
    case (Cons q ks)
    obtain virt start ende perm where q: "q = (virt, start, ende, perm)" by (cases q)
    obtain okb mm1 where s: "mappages pgdir virt (ende - start) start perm mm = Inr (okb, mm1)"
        "(if okb then kmap_loop pgdir ks mm1 else Inr (False, mm1)) = Inr (r, m'')"
      using Cons.prems(1) by (auto simp: q bindR_Inr_iff)
    have "kernel_only mm1 pgdir" using mappages_kernel [OF Cons.prems(2) s(1)] Cons.prems(3) by (simp add: q)
    then show ?case using Cons.IH [of mm1] Cons.prems(3) s(2) by (auto simp: q split: if_splits)
  qed simp
  have u: "unat data < 0x8E000000" "0x80100000 < unat data"
    using assms(4,5) by (simp_all add: KERNBASE_def PHYSTOP_def EXTMEM_def word_less_nat_alt)
  have pd: "2 ^ 19 \<le> pg data" unfolding pg_def using div_le_mono [of "0x80000000" "unat data" 4096] u(2) by simp
  have al: "(data - KERNBASE) mod PGSIZE = 0"
  proof -
    have "KERNBASE \<le> data" using u(2) by (simp add: KERNBASE_def word_le_nat_alt)
    then have "unat (data - KERNBASE) = unat data - 0x80000000" by (simp add: unat_sub KERNBASE_def)
    moreover have "unat data mod 4096 = unat (data mod PGSIZE)" by (simp add: unat_mod PGSIZE_def)
    then have "4096 dvd unat data" using assms(3) by (simp add: mod_eq_0_iff_dvd)
    ultimately have "unat (data - KERNBASE) mod 4096 = 0" by (simp add: dvd_diff_nat)
    then have "unat ((data - KERNBASE) mod PGSIZE) = 0" by (simp add: unat_mod PGSIZE_def)
    then show ?thesis by (simp only: unat_eq_0)
  qed
  have r2: "KERNBASE + EXTMEM \<le> KERNBASE + EXTMEM + (data - KERNBASE - EXTMEM) - 1"
  proof -
    have "KERNBASE + EXTMEM + (data - KERNBASE - EXTMEM) - 1 = data - 1" by simp
    moreover have "unat (data - 1) = unat data - 1" using u(2) by (simp add: unat_sub_if')
    ultimately show ?thesis using u(2) by (simp add: word_le_nat_alt KERNBASE_def EXTMEM_def)
  qed
  have r3: "data \<le> data + (PHYSTOP - (data - KERNBASE)) - 1"
  proof -
    have "data + (PHYSTOP - (data - KERNBASE)) - 1 = KERNBASE + PHYSTOP - 1" by simp
    then show ?thesis using u(1) by (simp add: word_le_nat_alt KERNBASE_def PHYSTOP_def)
  qed
  have "\<forall>(virt, start, ende, perm)\<in>set (kmap data). 2 ^ 19 \<le> pg virt \<and> virt \<le> virt + (ende - start) - 1 \<and>
      start mod PGSIZE = 0 \<and> perm AND PTE_U = 0"
    unfolding kmap_def using pd al r2 r3
    by (simp add: pg_def) (simp add: KERNBASE_def EXTMEM_def DEVSPACE_def PGSIZE_def PTE_W_def PTE_U_def)
  from ok [OF k(2) k0 this] show ?thesis .
qed

section \<open>A concrete program\<close>

text \<open>Four bytes of code at address 0, in a file on the demonstration disk, and a machine with ten free pages.\<close>

definition demo_program :: "u8 list" where
  "demo_program = [1, 0, 0, 0,  32, 0, 0, 0,  0, 0, 0, 0,  0, 0, 0, 0,  4, 0, 0, 0,  8, 0, 0, 0,  5, 0, 0, 0,  0, 16, 0, 0,
     106, 42, 205, 64]"

definition demo_pages :: kmem where
  "demo_pages = \<lparr>kend = 0x100000, freelist = [0x200000, 0x201000, 0x202000, 0x203000, 0x204000, 0x205000, 0x206000,
     0x207000, 0x208000, 0x209000], rc_on = True, refcnt = (\<lambda>_. 0), pm = (\<lambda>_. zeros)\<rparr>"

lemma demo_aspace: "aspace demo_pages 0x300000 0"
proof -
  have e: "entry demo_pages (p, i) = 0" for p i by (simp add: entry_def demo_pages_def zeros_def get32_def)
  have "pte_of demo_pages 0x300000 v = 0" for v by (simp add: pte_of_def e)
  moreover have "kmem_inv demo_pages" by (simp add: demo_pages_def kmem_inv_def bad_page_def PGSIZE_def PHYSTOP_def)
  moreover have "pt_wf demo_pages 0x300000" unfolding pt_wf_def e by (simp add: demo_pages_def)
  ultimately show ?thesis by (simp add: aspace_def user_def)
qed

lemma demo_header: "headers demo_program 0 1 =
    [\<lparr>ph_type = 1, ph_off = 32, ph_vaddr = 0, ph_paddr = 0, ph_filesz = 4, ph_memsz = 8, ph_flags = 5, ph_align = 4096\<rparr>]"
  by (simp add: headers_def demo_program_def proghdr_of_def get32_def)

lemma demo_program_file: "\<exists>s. readable 1 0 s \<and> contents s 0 = demo_program"
proof -
  have sz: "i_size (icache demo_fs ! 0) = 0" by (simp add: demo_fs_def demo_inode_def)
  have ty: "i_type (icache demo_fs ! 0) \<noteq> T_DEV" by (simp add: demo_fs_def demo_inode_def T_FILE_def T_DEV_def)
  have ib: "IBLOCK (i_inum (icache demo_fs ! 0)) (fsb demo_fs) < unat (sb_bmapstart (fsb demo_fs))"
    by (simp add: IBLOCK_def demo_fs_def demo_inode_def sizes)
  have len: "length demo_program = 36" by (simp add: demo_program_def)
  have room: "unat (0 :: u32) \<le> unat (i_size (icache demo_fs ! 0))" "unat (0 :: u32) + length demo_program \<le> MAXFILE * BSIZE"
    "missing_indirect demo_fs 0 + span (unat (0 :: u32)) (length demo_program) \<le> free_count 1 demo_fs"
    using demo_file(3,4) by (simp_all add: sizes span_def len)
  obtain s' where "inode_wf 1 0 s'" "no_holes s' 0" "same_kind 0 demo_fs s'"
      "contents s' 0 = take (unat (0 :: u32)) (contents demo_fs 0) @ demo_program @ drop (unat (0 :: u32) + length demo_program) (contents demo_fs 0)"
    using writei_spec [OF demo_file(1) ty demo_file(2) ib room, of "\<lambda>_. None" "\<lambda>_. None"] by blast
  moreover have "contents demo_fs 0 = []" by (simp add: contents_def sz)
  ultimately have "readable 1 0 s' \<and> contents s' 0 = demo_program" using ty by (simp add: readable_def same_kind_def)
  then show ?thesis ..
qed

theorem exec_builds_stack_witness:
  "\<exists>m' sp. setup_stack 0x300000 0 [[104, 105], [33]] demo_pages = Inr (Some (pbase 2, sp), m') \<and> unat sp = 8160 \<and>
     uword m' 0x300000 (sp + 4) = 2 \<and> ustring m' 0x300000 (uword m' 0x300000 (sp + 16)) [33]"
proof -
  have n: "npages 0 = 0" by (simp add: npages_def)
  have need: "stack_need [[104, 105], [33]] = 32" by (simp add: stack_need_def arg_bytes_def up4_def)
  have fl: "4 \<le> length (freelist demo_pages)" by (simp add: demo_pages_def)
  have c: "length [[104, 105], [33 :: u8]] \<le> MAXARG \<and> stack_need [[104, 105], [33]] \<le> 4096" by (simp add: need MAXARG_def)
  have "aspace demo_pages 0x300000 (npages 0)" "npages 0 + 2 < 2 ^ 19" "stack_need [[104, 105], [33]] \<le> 4096 * (npages 0 + 2)"
    using demo_aspace by (simp_all add: n need)
  from exec_builds_stack [OF this(1,2) fl this(3)] obtain m' sp where
      a: "setup_stack 0x300000 0 [[104, 105], [33]] demo_pages = Inr (Some (pbase (npages 0 + 2), sp), m')"
        "unat sp = 4096 * (npages 0 + 2) - stack_need [[104, 105], [33]]" "main_frame m' 0x300000 sp [[104, 105], [33]]"
    unfolding if_P [OF c] by blast
  have "\<forall>i<length [[104, 105], [33 :: u8]]. ustring m' 0x300000 (uword m' 0x300000 (sp + 12 + of_nat (4 * i))) ([[104, 105], [33]] ! i)"
    using a(3) unfolding main_frame_def by blast
  then have "ustring m' 0x300000 (uword m' 0x300000 (sp + 12 + of_nat (4 * 1))) ([[104, 105], [33]] ! 1)"
    by (rule allE [of _ 1]) simp
  moreover have "npages 0 + 2 = 2" "unat sp = 8160" "uword m' 0x300000 (sp + 4) = 2"
    using a(2,3) by (simp_all add: n need main_frame_def)
  moreover have "sp + 12 + of_nat (4 * 1) = sp + 16" "[[104, 105], [33 :: u8]] ! 1 = [33]" by simp_all
  ultimately show ?thesis using a(1) by metis
qed

theorem exec_prepares_program_witness:
  "\<exists>s m1 m2 sp. load_segments 1 (\<lambda>_. None) 0 0x300000 0 0 s demo_pages = Inr (Some 8, s, m1) \<and>
     setup_stack 0x300000 8 [[97]] m1 = Inr (Some (pbase 3, sp), m2) \<and> ubyte m2 0x300000 1 = 42 \<and> ubyte m2 0x300000 5 = 0 \<and>
     uword m2 0x300000 (sp + 4) = 1"
proof -
  obtain s where s: "readable 1 0 s" "contents s 0 = demo_program" using demo_program_file by blast
  have e: "image_end (headers demo_program 0 1) 0 = 8" unfolding demo_header by (simp add: image_end_def ELF_PROG_LOAD_def)
  have n: "npages 8 = 1" by (simp add: npages_def)
  have l: "\<forall>ph\<in>set (headers demo_program 0 1). loadable demo_program ph"
    unfolding demo_header by (simp add: loadable_def) (simp add: demo_program_def PGSIZE_def)
  have x: "unat (0 :: u32) + 32 * 1 \<le> length demo_program" by (simp add: demo_program_def)
  have y: "2 * npages 8 + 4 \<le> length (freelist demo_pages)" "npages 8 + 2 < 2 ^ 19" "length [[97 :: u8]] \<le> MAXARG" "stack_need [[97]] \<le> 4096"
    by (simp_all add: n demo_pages_def MAXARG_def stack_need_def arg_bytes_def up4_def)
  from exec_prepares_program [of demo_pages "0x300000" 1 0 s 0 1 "[[97]]" "\<lambda>_. None", OF demo_aspace s(1), unfolded s(2) e, OF x l y]
  obtain m1 m2 sp where P: "load_segments 1 (\<lambda>_. None) 0 0x300000 0 0 s demo_pages = Inr (Some 8, s, m1)"
      "setup_stack 0x300000 8 [[97]] m1 = Inr (Some (pbase (npages 8 + 2), sp), m2)"
      "\<forall>v. pg v < npages 8 \<longrightarrow> user m2 0x300000 v \<and> ubyte m2 0x300000 v = image demo_program (headers demo_program 0 1) v 0"
      "main_frame m2 0x300000 sp [[97]]"
    unfolding Let_def by blast
  have "ubyte m2 0x300000 1 = 42" "ubyte m2 0x300000 5 = 0"
    using P(3) unfolding demo_header n by (simp_all add: pg_def image_def seg_byte_def ELF_PROG_LOAD_def demo_program_def)
  moreover have "npages 8 + 2 = 3" "uword m2 0x300000 (sp + 4) = 1" using P(4) by (simp_all add: n main_frame_def)
  ultimately show ?thesis using P(1,2) by metis
qed

end
