(* ===== verification/Mkfs.thy ===== *)
theory Mkfs
  imports Directory
begin

text \<open>
  The program that builds a file system image, \<open>mkfs.c\<close>. The image is a function from sectors to blocks; a
  \<open>struct dinode\<close> in memory is the on-disk part of the record \<open>inode\<close>. The host's words are little-endian, so that
  \<open>xint\<close> and \<open>xshort\<close>, which store bytes and read them back as a word, are computed as such. Errors of the host's
  file operations, which end the program, are not modelled; what \<open>read\<close> delivers from each file is an argument.
\<close>

unbundle bit_operations_syntax

section \<open>Layout\<close>

definition NINODES :: nat where "NINODES = 200"
definition nbitmap :: nat where "nbitmap = FSSIZE div (BSIZE * 8) + 1"
definition ninodeblocks :: nat where "ninodeblocks = NINODES div IPB + 1"
definition nlog :: nat where "nlog = LOGSIZE"
definition nmeta :: nat where "nmeta = 2 + nlog + ninodeblocks + nbitmap"
definition nblocks :: nat where "nblocks = FSSIZE - nmeta"

record disk_image =
  im :: "nat \<Rightarrow> block"
  isb :: superblock
  freeinode :: u32
  freeblock :: u32

definition xshort :: "16 word \<Rightarrow> 16 word" where "xshort x = get16 (put16 (\<lambda>_. 0) 0 x) 0"

definition xint :: "u32 \<Rightarrow> u32" where "xint x = get32 (put32 (\<lambda>_. 0) 0 x) 0"

definition mk_superblock :: superblock where
  "mk_superblock = \<lparr>sb_size = xint (of_nat FSSIZE), sb_nblocks = xint (of_nat nblocks), sb_ninodes = xint (of_nat NINODES),
     sb_nlog = xint (of_nat nlog), sb_logstart = xint 2, sb_inodestart = xint (of_nat (2 + nlog)),
     sb_bmapstart = xint (of_nat (2 + nlog + ninodeblocks))\<rparr>"

section \<open>Sectors and inodes\<close>

definition rsect :: "nat \<Rightarrow> disk_image \<Rightarrow> block" where "rsect sec m = im m sec"

definition wsect :: "nat \<Rightarrow> block \<Rightarrow> disk_image \<Rightarrow> disk_image" where
  "wsect sec b m = m\<lparr>im := (im m)(sec := b)\<rparr>"

definition zero_dinode :: inode where
  "zero_dinode = \<lparr>i_dev = 0, i_inum = 0, i_ref = 0, i_locked = False, i_valid = False, i_type = 0, i_major = 0,
     i_minor = 0, i_nlink = 0, i_size = 0, i_addrs = replicate (NDIRECT + 1) 0\<rparr>"

definition rinode :: "u32 \<Rightarrow> disk_image \<Rightarrow> inode" where
  "rinode inum m = load_dinode (rsect (IBLOCK inum (isb m)) m) (zero_dinode\<lparr>i_inum := inum\<rparr>)"

definition winode :: "u32 \<Rightarrow> inode \<Rightarrow> disk_image \<Rightarrow> disk_image" where
  "winode inum ip m =
     (let bn = IBLOCK inum (isb m) in wsect bn (put_dinode (ip\<lparr>i_inum := inum\<rparr>) (rsect bn m)) m)"

definition mk_ialloc :: "16 word \<Rightarrow> disk_image \<Rightarrow> u32 \<times> disk_image" where
  "mk_ialloc type m =
     (let inum = freeinode m;
          din = zero_dinode\<lparr>i_type := xshort type, i_nlink := xshort 1, i_size := xint 0\<rparr>
      in (inum, winode inum din (m\<lparr>freeinode := inum + 1\<rparr>)))"

text \<open>The bitmap with the first \<open>n\<close> bits set.\<close>

definition first_bits :: "nat \<Rightarrow> block" where
  "first_bits n = fold (\<lambda>i b. b(i div 8 := b (i div 8) OR bmask i)) [0..<n] (\<lambda>_. 0)"

definition mk_balloc :: "nat \<Rightarrow> disk_image \<Rightarrow> disk_image res" where
  "mk_balloc n m =
     (if n < BSIZE * 8 then Inr (wsect (unat (sb_bmapstart (isb m))) (first_bits n) m) else Inl Abort)"

section \<open>Appending to a file\<close>

text \<open>\<open>freeblock++\<close> and the sector of block \<open>fbn\<close> of the file, allocated if it is missing.\<close>

definition take_freeblock :: "disk_image \<Rightarrow> u32 \<times> disk_image" where
  "take_freeblock m = (freeblock m, m\<lparr>freeblock := freeblock m + 1\<rparr>)"

definition dir_addr :: "nat \<Rightarrow> inode \<Rightarrow> disk_image \<Rightarrow> inode \<times> disk_image" where
  "dir_addr j din m =
     (if xint (i_addrs din ! j) = 0
      then let (b, m1) = take_freeblock m in (din\<lparr>i_addrs := (i_addrs din)[j := xint b]\<rparr>, m1)
      else (din, m))"

definition sector_of :: "nat \<Rightarrow> inode \<Rightarrow> disk_image \<Rightarrow> u32 \<times> inode \<times> disk_image" where
  "sector_of fbn din m =
     (if fbn < NDIRECT then
        let (din1, m1) = dir_addr fbn din m in (xint (i_addrs din1 ! fbn), din1, m1)
      else
        let (din1, m1) = dir_addr NDIRECT din m;
            ib = unat (xint (i_addrs din1 ! NDIRECT));
            indirect = rsect ib m1
        in if get32 indirect (4 * (fbn - NDIRECT)) = 0 then
             let (b, m2) = take_freeblock m1; ind1 = put32 indirect (4 * (fbn - NDIRECT)) (xint b)
             in (xint (get32 ind1 (4 * (fbn - NDIRECT))), din1, wsect ib ind1 m2)
           else (xint (get32 indirect (4 * (fbn - NDIRECT))), din1, m1))"

function append_loop :: "u8 list \<Rightarrow> nat \<Rightarrow> inode \<Rightarrow> disk_image \<Rightarrow> (nat \<times> inode \<times> disk_image) res" where
  "append_loop p off din m =
     (if p = [] then Inr (off, din, m)
      else if \<not> off div BSIZE < MAXFILE then Inl Abort
      else let fbn = off div BSIZE;
               (x, din1, m1) = sector_of fbn din m;
               n1 = min (length p) ((fbn + 1) * BSIZE - off);
               buf = blit (rsect (unat x) m1) (off - fbn * BSIZE) (take n1 p)
           in append_loop (drop n1 p) (off + n1) din1 (wsect (unat x) buf m1))"
  by pat_completeness auto
termination
proof (relation "measure (\<lambda>(p, _, _, _). length p)", goal_cases)
  case (2 p off din m fbn)
  have "0 < BSIZE" by (simp add: BSIZE_def)
  then have "off < (off div BSIZE + 1) * BSIZE" using dividend_less_div_times [of BSIZE off] by simp
  with 2 show ?case by auto
qed simp

declare append_loop.simps [simp del]

definition iappend :: "u32 \<Rightarrow> u8 list \<Rightarrow> disk_image \<Rightarrow> disk_image res" where
  "iappend inum p m =
     (let din = rinode inum m in
      bindR (append_loop p (unat (xint (i_size din))) din m) (\<lambda>(off, din1, m1).
        Inr (winode inum (din1\<lparr>i_size := xint (of_nat off)\<rparr>) m1)))"

section \<open>The program\<close>

text \<open>The superblock as it is written, and the empty image with the root directory.\<close>

definition put_superblock :: "superblock \<Rightarrow> block" where
  "put_superblock sb = put32 (put32 (put32 (put32 (put32 (put32 (put32 (\<lambda>_. 0) 0 (sb_size sb)) 4 (sb_nblocks sb))
     8 (sb_ninodes sb)) 12 (sb_nlog sb)) 16 (sb_logstart sb)) 20 (sb_inodestart sb)) 24 (sb_bmapstart sb)"

definition empty_image :: disk_image where
  "empty_image = wsect 1 (put_superblock mk_superblock)
     \<lparr>im = \<lambda>_ _. 0, isb = mk_superblock, freeinode = 1, freeblock = of_nat nmeta\<rparr>"

definition mk_dirent :: "u32 \<Rightarrow> u8 list \<Rightarrow> u8 list" where
  "mk_dirent inum name = dirent (xshort (ucast inum)) (str_ncpy DIRSIZ name)"

definition mk_root :: "disk_image \<Rightarrow> (u32 \<times> disk_image) res" where
  "mk_root m =
     (let (rootino, m1) = mk_ialloc T_DIR m in
      if rootino \<noteq> ROOTINO then Inl Abort
      else bindR (iappend rootino (mk_dirent rootino [46]) m1) (\<lambda>m2.
           bindR (iappend rootino (mk_dirent rootino [46, 46]) m2) (\<lambda>m3. Inr (rootino, m3))))"

fun append_all :: "u32 \<Rightarrow> u8 list list \<Rightarrow> disk_image \<Rightarrow> disk_image res" where
  "append_all inum [] m = Inr m"
| "append_all inum (piece # pieces) m = bindR (iappend inum piece m) (append_all inum pieces)"

text \<open>One file of the command line, with the pieces in which it is read.\<close>

definition mk_file :: "u32 \<Rightarrow> u8 list \<times> u8 list list \<Rightarrow> disk_image \<Rightarrow> disk_image res" where
  "mk_file rootino nf m =
     (let (arg, pieces) = nf in
      if 47 \<in> set arg then Inl Abort
      else let name = (if char0 arg = 95 then tl arg else arg);
               (inum, m1) = mk_ialloc T_FILE m
           in bindR (iappend rootino (mk_dirent inum name) m1) (append_all inum pieces))"

fun mk_files :: "u32 \<Rightarrow> (u8 list \<times> u8 list list) list \<Rightarrow> disk_image \<Rightarrow> disk_image res" where
  "mk_files rootino [] m = Inr m"
| "mk_files rootino (nf # nfs) m = bindR (mk_file rootino nf m) (mk_files rootino nfs)"

definition fix_root :: "u32 \<Rightarrow> disk_image \<Rightarrow> disk_image" where
  "fix_root rootino m =
     (let din = rinode rootino m; off = (xint (i_size din) div of_nat BSIZE + 1) * of_nat BSIZE
      in winode rootino (din\<lparr>i_size := xint off\<rparr>) m)"

definition mkfs :: "(u8 list \<times> u8 list list) list \<Rightarrow> disk_image res" where
  "mkfs nfs =
     bindR (mk_root empty_image) (\<lambda>(rootino, m).
     bindR (mk_files rootino nfs m) (\<lambda>m1.
       let m2 = fix_root rootino m1 in mk_balloc (unat (freeblock m2)) m2))"

section \<open>The image as the kernel will see it\<close>

lemma xint [simp]: "xint x = x" and xshort [simp]: "xshort y = y"
  by (simp_all add: xint_def xshort_def)

lemma mk_sb: "unat (sb_size mk_superblock) = 1000" "unat (sb_bmapstart mk_superblock) = 58" "sb_inodestart mk_superblock = 32"
  by (simp_all add: mk_superblock_def FSSIZE_def nlog_def ninodeblocks_def NINODES_def LOGSIZE_def sizes)

text \<open>The file system with the bitmap that \<open>mk_balloc\<close> is going to write, and one inode in the cache.\<close>

definition kview :: "disk_image \<Rightarrow> inode \<Rightarrow> fs" where
  "kview m din =
     \<lparr>fb = (\<lambda>(d, b). if d \<noteq> 1 then (\<lambda>_. 0) else if b = 58 then first_bits (unat (freeblock m)) else im m b),
      fsb = isb m, icache = [din\<lparr>i_dev := 1\<rparr>]\<rparr>"

definition building :: "disk_image \<Rightarrow> bool" where
  "building m \<longleftrightarrow> isb m = mk_superblock \<and> nmeta \<le> unat (freeblock m) \<and> unat (freeblock m) \<le> FSSIZE \<and>
     (\<forall>b<FSSIZE. unat (freeblock m) \<le> b \<longrightarrow> im m b = (\<lambda>_. 0))"

lemma meta: "nmeta = 59" "FSSIZE = 1000"
  by (simp_all add: nmeta_def nlog_def ninodeblocks_def nbitmap_def NINODES_def LOGSIZE_def FSSIZE_def sizes)

lemma kview_sel [simp]: "fsb (kview m din) = isb m" "icache (kview m din) = [din\<lparr>i_dev := 1\<rparr>]"
  by (simp_all add: kview_def)

lemma fb_kview: "b \<noteq> 58 \<Longrightarrow> fb (kview m din) (1, b) = im m b"
  by (simp add: kview_def)

lemma first_bits_Suc: "first_bits (Suc n) = (first_bits n)(n div 8 := first_bits n (n div 8) OR bmask n)"
  by (simp add: first_bits_def)

lemma bit_first_bits: "j < 8 \<Longrightarrow> bit (first_bits n k) j \<longleftrightarrow> 8 * k + j < n"
proof (induction n)
  case 0
  then show ?case by (simp add: first_bits_def)
next
  case (Suc n)
  have "8 * k + j = n \<longleftrightarrow> k = n div 8 \<and> j = n mod 8" using Suc.prems by auto
  then show ?case using Suc by (auto simp: first_bits_Suc bit_or_iff bit_bmask)
qed

lemma used_kview:
  assumes "isb m = mk_superblock" "c < 4096"
  shows "used 1 (kview m din) c \<longleftrightarrow> c < unat (freeblock m)"
proof -
  have "bm_key 1 (kview m din) c = (1, 58)" using assms by (simp add: bm_key_def sizes mk_sb)
  then have "used 1 (kview m din) c \<longleftrightarrow> bit (first_bits (unat (freeblock m)) (c div 8)) (c mod 8)"
    using assms(2) by (simp add: used_def kview_def sizes)
  then show ?thesis by (simp add: bit_first_bits)
qed

lemma kview_layout:
  assumes "building m"
  shows "data_start (kview m din) = 59" "fs_size (kview m din) = 1000" "layout_ok 1 (kview m din)"
    "free_count 1 (kview m din) = 1000 - unat (freeblock m)"
proof -
  have s: "isb m = mk_superblock" using assms by (simp add: building_def)
  have u: "used 1 (kview m din) c \<longleftrightarrow> c < unat (freeblock m)" if "c < 1000" for c
    using used_kview [OF s] that by simp
  show d: "data_start (kview m din) = 59" "fs_size (kview m din) = 1000" by (simp_all add: data_start_def s mk_sb sizes)
  show "layout_ok 1 (kview m din)" using assms u unfolding layout_ok_def d by (auto simp: building_def meta)
  have "{b. b < 1000 \<and> \<not> used 1 (kview m din) b} = {unat (freeblock m)..<1000}" using u by auto
  then show "free_count 1 (kview m din) = 1000 - unat (freeblock m)" unfolding free_count_def d by simp
qed

section \<open>Allocation\<close>

text \<open>Taking the next free block is what the kernel's allocator does on this view.\<close>

lemma take_freeblock_kview:
  assumes b: "building m" and free: "unat (freeblock m) < FSSIZE"
  shows "balloc 1 (kview m din) = Inr (unat (freeblock m), kview (snd (take_freeblock m)) din)"
    "building (snd (take_freeblock m))" "unat (freeblock (snd (take_freeblock m))) = Suc (unat (freeblock m))"
proof -
  let ?n = "unat (freeblock m)" and ?s = "kview m din"
  have s: "isb m = mk_superblock" using b by (simp add: building_def)
  note L = kview_layout [OF b, of din]
  show f: "unat (freeblock (snd (take_freeblock m))) = Suc ?n"
    using free meta by (simp add: take_freeblock_def unat_word_ariths)
  then show "building (snd (take_freeblock m))"
    using b free by (simp add: building_def take_freeblock_def)
  have u: "used 1 ?s c \<longleftrightarrow> c < ?n" if "c < 1000" for c using used_kview [OF s] that by simp
  have "free_count 1 ?s > 0" using L(4) free meta by simp
  then obtain c s' where c: "balloc 1 ?s = Inr (c, s')" "allocs 1 ?s c s'"
    using balloc_some [OF L(3)] by blast
  have cn: "c = ?n"
  proof -
    have "c < 1000" "\<not> used 1 ?s c" "\<forall>b'<c. used 1 ?s b'" using c(2) s by (simp_all add: allocs_def mk_sb)
    then have "\<not> c < ?n" "?n < c \<longrightarrow> used 1 ?s ?n" using u [of c] by simp_all
    moreover have "\<not> used 1 ?s ?n" using u [of ?n] free meta by simp
    ultimately show ?thesis by linarith
  qed
  have k: "bm_key 1 ?s ?n = (1, 58)" using free meta by (simp add: bm_key_def sizes s mk_sb)
  have bm: "fb ?s (1, 58) = first_bits ?n" by (simp add: kview_def)
  have "?n mod 4096 = ?n" using free meta by simp
  then have "set_bit_at 1 ?n ?s = set_blk (1, 58) (first_bits (Suc ?n)) ?s"
    unfolding set_bit_at_def k Let_def bm by (simp add: sizes first_bits_Suc)
  then have "s' = bzero 1 ?n (set_blk (1, 58) (first_bits (Suc ?n)) ?s)" using c(2) cn by (simp add: allocs_def)
  also have "\<dots> = kview (snd (take_freeblock m)) din"
  proof (rule fs.equality)
    have z: "59 \<le> ?n" "im m ?n = (\<lambda>_. 0)" using b free by (simp_all add: building_def meta)
    show "fb (bzero 1 ?n (set_blk (1, 58) (first_bits (Suc ?n)) ?s)) = fb (kview (snd (take_freeblock m)) din)"
      using z f by (auto simp: fun_eq_iff bzero_def kview_def take_freeblock_def)
  qed (simp_all add: bzero_def take_freeblock_def)
  finally show "balloc 1 ?s = Inr (?n, kview (snd (take_freeblock m)) din)" using c(1) cn by simp
qed

lemma set_addr_kview: "set_addr 0 j a (kview m din) = kview m (din\<lparr>i_addrs := (i_addrs din)[j := a]\<rparr>)"
  by (rule fs.equality) (simp_all add: set_addr_def kview_def)

lemma wsect_kview: "b \<noteq> 58 \<Longrightarrow> set_blk (1, b) d (kview m din) = kview (wsect b d m) din"
  by (rule fs.equality) (auto simp: kview_def wsect_def fun_eq_iff)

lemma building_wsect: "building m \<Longrightarrow> b < unat (freeblock m) \<Longrightarrow> building (wsect b d m)"
  by (auto simp: building_def wsect_def)

definition block_ok :: "disk_image \<Rightarrow> u32 \<Rightarrow> bool" where
  "block_ok m x \<longleftrightarrow> 59 \<le> unat x \<and> unat x < unat (freeblock m)"

lemma data_block_kview:
  assumes "building m" "data_block 1 (kview m din) x"
  shows "block_ok m x"
proof -
  have "isb m = mk_superblock" using assms(1) by (simp add: building_def)
  then show ?thesis
    using assms kview_layout [OF assms(1), of din] used_kview [of m "unat x" din]
    by (simp add: data_block_def block_ok_def)
qed

lemma dir_addr_kview:
  assumes b: "building m" and free: "unat (freeblock m) < FSSIZE" and j: "j < length (i_addrs din)"
    and ok: "i_addrs din ! j \<noteq> 0 \<longrightarrow> block_ok m (i_addrs din ! j)"
  shows "case dir_addr j din m of (din1, m1) \<Rightarrow>
    addr_or_alloc 0 j (kview m din) = Inr (i_addrs din1 ! j, kview m1 din1) \<and> building m1 \<and>
    unat (freeblock m1) = unat (freeblock m) + (if i_addrs din ! j = 0 then 1 else 0) \<and> block_ok m1 (i_addrs din1 ! j) \<and>
    (\<exists>as. din1 = din\<lparr>i_addrs := as\<rparr> \<and> length as = length (i_addrs din)) \<and> isb m1 = isb m"
proof (cases "i_addrs din ! j = 0")
  case True
  note T = take_freeblock_kview(1) [OF b free, of din] take_freeblock_kview(2,3) [OF b free]
  have n: "59 \<le> unat (freeblock m)" using b by (simp add: building_def meta)
  have "of_nat (unat (freeblock m)) = freeblock m" by simp
  then have "addr_or_alloc 0 j (kview m din) = Inr (freeblock m, kview (snd (take_freeblock m)) (din\<lparr>i_addrs := (i_addrs din)[j := freeblock m]\<rparr>))"
    using True T(1) by (simp add: addr_or_alloc_def Let_def set_addr_kview)
  then show ?thesis
    using True T(2,3) n j by (auto simp: dir_addr_def take_freeblock_def block_ok_def)
next
  case False
  then show ?thesis using b ok by (auto simp: dir_addr_def addr_or_alloc_def Let_def intro!: exI [of _ "i_addrs din"])
qed

text \<open>Finding or making the sector of a block is the kernel's \<open>bmap\<close>.\<close>

lemma sector_kview:
  assumes b: "building m" and wf: "inode_wf 1 0 (kview m din)" and fbn: "fbn < MAXFILE"
    and free: "unat (freeblock m) + 1 + missing_indirect (kview m din) 0 \<le> FSSIZE"
  shows "case sector_of fbn din m of (x, din1, m1) \<Rightarrow>
    bmap 0 fbn (kview m din) = Inr (x, kview m1 din1) \<and> building m1 \<and> block_ok m1 x \<and>
    (\<exists>as. din1 = din\<lparr>i_addrs := as\<rparr> \<and> length as = length (i_addrs din)) \<and> isb m1 = isb m"
proof (cases "fbn < NDIRECT")
  case True
  have "addr_of (kview m din) 0 fbn = i_addrs din ! fbn" using True by (simp add: addr_of_def)
  then have ok: "i_addrs din ! fbn \<noteq> 0 \<longrightarrow> block_ok m (i_addrs din ! fbn)"
    using inode_wfD(6) [OF wf fbn] data_block_kview [OF b] by metis
  have j: "fbn < length (i_addrs din)" using inode_wfD(4) [OF wf] True by (simp add: sizes)
  show ?thesis
    using dir_addr_kview [OF b _ j ok] free True by (auto simp: sector_of_def bmap_def Let_def split: prod.splits)
next
  case False
  have ind: "indirect (kview m din) 0 = i_addrs din ! NDIRECT" by (simp add: indirect_def)
  have ok: "i_addrs din ! NDIRECT \<noteq> 0 \<longrightarrow> block_ok m (i_addrs din ! NDIRECT)"
    using inode_wfD(5) [OF wf] data_block_kview [OF b] unfolding ind by metis
  have j: "NDIRECT < length (i_addrs din)" using inode_wfD(4) [OF wf] by simp
  obtain din1 m1 where d: "dir_addr NDIRECT din m = (din1, m1)" by fastforce
  have D: "addr_or_alloc 0 NDIRECT (kview m din) = Inr (i_addrs din1 ! NDIRECT, kview m1 din1)" "building m1"
      "unat (freeblock m1) = unat (freeblock m) + (if i_addrs din ! NDIRECT = 0 then 1 else 0)" "block_ok m1 (i_addrs din1 ! NDIRECT)"
      "\<exists>as. din1 = din\<lparr>i_addrs := as\<rparr> \<and> length as = length (i_addrs din)" "isb m1 = isb m"
    using dir_addr_kview [OF b _ j ok] free by (simp_all add: d)
  define ib where "ib = unat (i_addrs din1 ! NDIRECT)"
  have ib: "59 \<le> ib" "ib < unat (freeblock m1)" "ib \<noteq> 58" using D(4) by (simp_all add: block_ok_def ib_def)
  have fb: "fb (kview m1 din1) (1, ib) = im m1 ib" using ib(3) by (rule fb_kview)
  have off: "fbn - NDIRECT < NINDIRECT" using fbn False by (simp add: sizes)
  define a where "a = get32 (im m1 ib) (4 * (fbn - NDIRECT))"
  have so: "sector_of fbn din m = (if a = 0 then
      (freeblock m1, din1, wsect ib (put32 (im m1 ib) (4 * (fbn - NDIRECT)) (freeblock m1)) (snd (take_freeblock m1))) else (a, din1, m1))"
    using False by (simp add: sector_of_def d ib_def a_def rsect_def Let_def take_freeblock_def)
  have bm: "bmap 0 fbn (kview m din) = (if a = 0 then bindR (balloc 1 (kview m1 din1)) (\<lambda>(b, s2).
        Inr (of_nat b, set_blk (1, ib) (put32 (im m1 ib) (4 * (fbn - NDIRECT)) (of_nat b)) s2)) else Inr (a, kview m1 din1))"
    using False off D(1) fb by (simp add: bmap_def Let_def ib_def a_def)
  show ?thesis
  proof (cases "a = 0")
    case True
    have free1: "unat (freeblock m1) < FSSIZE" using D(3) free by (auto simp: missing_indirect_def ind split: if_splits)
    note T = take_freeblock_kview(1) [OF D(2) free1, of din1] take_freeblock_kview(2,3) [OF D(2) free1]
    have "of_nat (unat (freeblock m1)) = freeblock m1" by simp
    then have "bmap 0 fbn (kview m din) = Inr (freeblock m1, kview (wsect ib (put32 (im m1 ib) (4 * (fbn - NDIRECT)) (freeblock m1)) (snd (take_freeblock m1))) din1)"
      using True bm T(1) wsect_kview [OF ib(3)] by simp
    moreover have "building (wsect ib d (snd (take_freeblock m1)))" for d
      using T(2,3) ib(2) by (intro building_wsect) simp_all
    moreover have "59 \<le> unat (freeblock m1)" using ib by simp
    ultimately show ?thesis
      using True D(5,6) T(3) by (simp add: so block_ok_def) (simp add: wsect_def take_freeblock_def)
  next
    case nz: False
    have "i_addrs din ! NDIRECT \<noteq> 0"
    proof
      assume z: "i_addrs din ! NDIRECT = 0"
      then have "ib = unat (freeblock m)" "m1 = snd (take_freeblock m)" using d j by (auto simp: ib_def dir_addr_def take_freeblock_def)
      moreover have "unat (freeblock m) < FSSIZE" using free by simp
      ultimately have "im m1 ib = (\<lambda>_. 0)" using b by (simp add: take_freeblock_def building_def)
      then show False using nz by (simp add: a_def get32_def)
    qed
    then have same: "din1 = din" "m1 = m" using d by (simp_all add: dir_addr_def)
    then have "addr_of (kview m din) 0 fbn = a"
      using False fb \<open>i_addrs din ! NDIRECT \<noteq> 0\<close> by (simp add: addr_of_def ind a_def ib_def)
    then have "block_ok m a" using inode_wfD(6) [OF wf fbn] data_block_kview [OF b] nz by metis
    then show ?thesis
      using nz bm b same D(5) by (simp add: so)
  qed
qed

section \<open>Appending\<close>

lemma append_loop_kview:
  assumes "building m" "inode_wf 1 0 (kview m din)" "off + length p \<le> MAXFILE * BSIZE"
    "unat (freeblock m) + (missing_indirect (kview m din) 0 + span off (length p)) \<le> FSSIZE"
  shows "\<exists>as m'. append_loop p off din m = Inr (off + length p, din\<lparr>i_addrs := as\<rparr>, m') \<and>
    write_blocks 0 off p (kview m din) = Inr (kview m' (din\<lparr>i_addrs := as\<rparr>)) \<and> building m' \<and>
    length as = length (i_addrs din)"
  using assms
proof (induction "length p" arbitrary: p off din m rule: less_induct)
  case (less p off din m)
  show ?case
  proof (cases "p = []")
    case True
    then have "append_loop p off din m = Inr (off + length p, din\<lparr>i_addrs := i_addrs din\<rparr>, m)"
        "write_blocks 0 off p (kview m din) = Inr (kview m (din\<lparr>i_addrs := i_addrs din\<rparr>))"
      by (subst append_loop.simps, simp) (subst write_blocks.simps, simp add: True)
    then show ?thesis using less.prems(1) by blast
  next
    case False
    define k where "k = min (length p) (BSIZE - off mod BSIZE)"
    have B: "0 < BSIZE" by (simp add: BSIZE_def)
    have pos: "0 < length p" using False by simp
    note sp = span_step [OF pos k_def]
    have lt: "off < MAXFILE * BSIZE" using less.prems(3) pos by linarith
    then have bn: "off div BSIZE < MAXFILE" by (simp add: less_mult_imp_div_less)
    note L = kview_layout [OF less.prems(1), of din]
    have fc: "free_count 1 (kview m din) \<ge> 1 + missing_indirect (kview m din) 0"
      unfolding L(4) using less.prems(4) sp(1) by (simp add: meta)
    obtain x din1 m1 where so: "sector_of (off div BSIZE) din m = (x, din1, m1)" by (metis prod_cases3)
    have S: "bmap 0 (off div BSIZE) (kview m din) = Inr (x, kview m1 din1)" "building m1" "block_ok m1 x"
        "\<exists>as. din1 = din\<lparr>i_addrs := as\<rparr> \<and> length as = length (i_addrs din)"
      using sector_kview [OF less.prems(1,2) bn] less.prems(4) sp(1) by (simp_all add: so)
    have lk: "length (take k p) = k" by (simp add: k_def)
    have le: "off mod BSIZE + length (take k p) \<le> BSIZE" using sp(2) lk by simp
    obtain a s1 where w: "bmap 0 (off div BSIZE) (kview m din) = Inr (a, s1)"
        "let s2 = set_blk (1, unat a) (blit (fb s1 (1, unat a)) (off mod BSIZE) (take k p)) s1 in
           inode_wf 1 0 s2 \<and> written 1 0 off (take k p) (kview m din) s2 \<and>
           free_count 1 (kview m din) + missing_indirect s2 0 \<le> free_count 1 s2 + 1 + missing_indirect (kview m din) 0"
      using write_step [OF less.prems(2) bn le fc] by blast
    have x: "a = x" "s1 = kview m1 din1" using w(1) S(1) by simp_all
    have n58: "unat x \<noteq> 58" using S(3) by (simp add: block_ok_def)
    define m2 where "m2 = wsect (unat x) (blit (im m1 (unat x)) (off mod BSIZE) (take k p)) m1"
    have s2: "set_blk (1, unat a) (blit (fb s1 (1, unat a)) (off mod BSIZE) (take k p)) s1 = kview m2 din1"
      unfolding x m2_def using fb_kview [OF n58] wsect_kview [OF n58] by simp
    have W: "inode_wf 1 0 (kview m2 din1)"
        "free_count 1 (kview m din) + missing_indirect (kview m2 din1) 0 \<le> free_count 1 (kview m2 din1) + 1 + missing_indirect (kview m din) 0"
      using w(2) unfolding s2 Let_def by blast+
    have b2: "building m2" unfolding m2_def using S(2,3) by (intro building_wsect) (simp_all add: block_ok_def)
    have room: "unat (freeblock m2) + (missing_indirect (kview m2 din1) 0 + span (off + k) (length (drop k p))) \<le> FSSIZE"
    proof -
      have "unat (freeblock m2) \<le> 1000" using b2 by (simp add: building_def meta)
      moreover have "unat (freeblock m) \<le> 1000" using less.prems(1) by (simp add: building_def meta)
      ultimately show ?thesis
        using W(2) less.prems(4) sp(1) unfolding length_drop L(4) kview_layout(4) [OF b2, of din1] meta by linarith
    qed
    have step: "append_loop p off din m = append_loop (drop k p) (off + k) din1 m2"
    proof -
      have o1: "(off div BSIZE + 1) * BSIZE - off = BSIZE - off mod BSIZE"
        by (metis add.commute add_mult_distrib diff_add_inverse2 div_mult_mod_eq mult_1 diff_diff_left add_diff_cancel_left')
      have o2: "off - off div BSIZE * BSIZE = off mod BSIZE" by (simp add: minus_div_mult_eq_mod)
      show ?thesis
        by (subst append_loop.simps) (simp only: False bn so Let_def prod.case o1 o2 k_def [symmetric] m2_def rsect_def if_False if_True not_True_eq_False)
    qed
    have wb: "write_blocks 0 off p (kview m din) = write_blocks 0 (off + k) (drop k p) (kview m2 din1)"
    proof -
      have dv: "i_dev (icache (kview m din) ! 0) = 1" by simp
      show ?thesis
        by (subst write_blocks.simps)
          (simp only: False w(1) dv bindR_simps prod.case Let_def k_def [symmetric] s2 [unfolded One_nat_def] s2 if_False)
    qed
    have shorter: "length (drop k p) < length p" using sp(3) pos by simp
    have "off + k + length (drop k p) \<le> MAXFILE * BSIZE" using less.prems(3) by (simp add: k_def)
    from less.hyps [OF shorter b2 W(1) this room] obtain as m' where I:
        "append_loop (drop k p) (off + k) din1 m2 = Inr (off + k + length (drop k p), din1\<lparr>i_addrs := as\<rparr>, m')"
        "write_blocks 0 (off + k) (drop k p) (kview m2 din1) = Inr (kview m' (din1\<lparr>i_addrs := as\<rparr>))" "building m'"
        "length as = length (i_addrs din1)" by blast
    have "din1\<lparr>i_addrs := as\<rparr> = din\<lparr>i_addrs := as\<rparr>" "length (i_addrs din1) = length (i_addrs din)" using S(4) by auto
    moreover have "off + k + length (drop k p) = off + length p" by (simp add: k_def)
    ultimately show ?thesis using I step wb by metis
  qed
qed

lemma rinode_sel [simp]: "i_inum (rinode inum m) = inum" "i_dev (rinode inum m) = 0"
  by (simp_all add: rinode_def load_dinode_def Let_def zero_dinode_def)

lemma rinode_eq:
  assumes "same_dinode (rinode inum m') q" "q = (rinode inum m)\<lparr>i_addrs := as, i_size := z\<rparr>"
  shows "rinode inum m' = q"
  using assms by (intro inode.equality) (simp_all add: same_dinode_def rinode_def load_dinode_def Let_def zero_dinode_def)

lemma rinode_winode:
  assumes "length (i_addrs q) = NDIRECT + 1" "q = (rinode inum m)\<lparr>i_addrs := as, i_size := z\<rparr>"
  shows "rinode inum (winode inum q m1) = q"
proof (rule rinode_eq [OF _ assms(2)])
  have "same_dinode (load_dinode (put_dinode (q\<lparr>i_inum := inum\<rparr>) (rsect (IBLOCK inum (isb m1)) m1)) (zero_dinode\<lparr>i_inum := inum\<rparr>)) (q\<lparr>i_inum := inum\<rparr>)"
    using assms(1) by (intro load_put_dinode) simp_all
  then show "same_dinode (rinode inum (winode inum q m1)) q"
    by (simp add: rinode_def winode_def Let_def rsect_def wsect_def same_dinode_def)
qed

lemma inode_block:
  assumes "isb m = mk_superblock" "unat inum < 208"
  shows "IBLOCK inum (isb m) < 58"
proof -
  have "unat (inum div 8 + 32) = unat inum div 8 + 32" using assms(2) by (simp add: unat_word_ariths unat_div)
  then show ?thesis using assms by (simp add: IBLOCK_def mk_sb sizes)
qed

text \<open>Writing the inode back.\<close>

lemma winode_kview:
  assumes "building m1" "unat inum < 208" "i_inum q = inum"
  shows "iupdate 0 (kview m1 q) = kview (winode inum q m1) q" "building (winode inum q m1)"
proof -
  have s: "isb m1 = mk_superblock" using assms(1) by (simp add: building_def)
  note ib = inode_block [OF s assms(2)]
  have p: "put_dinode (q\<lparr>i_dev := 1\<rparr>) d = put_dinode (q\<lparr>i_inum := inum\<rparr>) d" for d using assms(3) by (simp add: put_dinode_def Let_def)
  have "iupdate 0 (kview m1 q) = set_blk (1, IBLOCK inum (isb m1)) (put_dinode (q\<lparr>i_inum := inum\<rparr>) (im m1 (IBLOCK inum (isb m1)))) (kview m1 q)"
    using ib fb_kview [of "IBLOCK inum (isb m1)" m1 q] p assms(3) by (simp add: iupdate_def Let_def)
  then show "iupdate 0 (kview m1 q) = kview (winode inum q m1) q"
    using ib wsect_kview [of "IBLOCK inum (isb m1)"] by (simp add: winode_def Let_def rsect_def)
  show "building (winode inum q m1)"
    using assms(1) ib unfolding winode_def Let_def by (intro building_wsect) (auto simp: building_def meta)
qed

text \<open>The bitmap that is written at the end makes the view real.\<close>

lemma mk_balloc_kview:
  assumes "building m"
  shows "\<exists>m'. mk_balloc (unat (freeblock m)) m = Inr m' \<and> (\<forall>b. im m' b = fb (kview m din) (1, b))"
  using assms by (simp add: mk_balloc_def building_def meta sizes mk_sb wsect_def kview_def)

text \<open>
  C13. \<open>mkfs\<close> appends to a file exactly as the kernel would. While the image is being built, let the kernel look at it with
  the bitmap that \<open>mkfs\<close> is going to write, the blocks below \<open>freeblock\<close> marked, and with the inode in its cache. Then on a
  well-formed file without holes, and with enough blocks left, \<open>iappend\<close> of some bytes succeeds, and the image it makes is
  the one that \<open>writei\<close> of these bytes at the end of the file makes, block for block, bitmap and inode included; so the kernel reads
  the old contents followed by the new bytes, the file is again well formed, and writing the bitmap turns the view
  into the image.
\<close>

theorem iappend_is_writei:
  assumes b: "building m" and i: "unat inum < NINODES" and p: "p \<noteq> []"
    and wf: "inode_wf 1 0 (kview m (rinode inum m))" and nh: "no_holes (kview m (rinode inum m)) 0"
    and ty: "i_type (rinode inum m) \<noteq> T_DEV"
    and sz: "unat (i_size (rinode inum m)) + length p \<le> MAXFILE * BSIZE"
    and room: "unat (freeblock m) + (missing_indirect (kview m (rinode inum m)) 0 + span (unat (i_size (rinode inum m))) (length p)) \<le> FSSIZE"
  shows "\<exists>m'. iappend inum p m = Inr m' \<and> building m' \<and>
    writei dw 0 p (i_size (rinode inum m)) (kview m (rinode inum m)) = Inr (Some (length p), kview m' (rinode inum m')) \<and>
    contents (kview m' (rinode inum m')) 0 = contents (kview m (rinode inum m)) 0 @ p \<and>
    inode_wf 1 0 (kview m' (rinode inum m')) \<and> no_holes (kview m' (rinode inum m')) 0 \<and>
    (\<exists>m''. mk_balloc (unat (freeblock m')) m' = Inr m'' \<and> (\<forall>c. im m'' c = fb (kview m' (rinode inum m')) (1, c)))"
proof -
  define din where "din = rinode inum m"
  define off where "off = unat (i_size din)"
  have max: "MAXFILE * BSIZE = 71680" by (simp add: sizes)
  have inum: "unat inum < 208" using i by (simp add: NINODES_def)
  obtain as m1 where A: "append_loop p off din m = Inr (off + length p, din\<lparr>i_addrs := as\<rparr>, m1)"
      "write_blocks 0 off p (kview m din) = Inr (kview m1 (din\<lparr>i_addrs := as\<rparr>))" "building m1" "length as = length (i_addrs din)"
    using append_loop_kview [OF b wf] sz room unfolding off_def din_def by blast
  define q where "q = din\<lparr>i_addrs := as, i_size := of_nat (off + length p)\<rparr>"
  define m' where "m' = winode inum q m1"
  have la: "length (i_addrs q) = NDIRECT + 1" using inode_wfD(4) [OF wf] A(4) by (simp add: q_def din_def)
  have iq: "i_inum q = inum" by (simp add: q_def din_def)
  note W = winode_kview [OF A(3) inum iq, folded m'_def]
  have rq: "rinode inum m' = q" unfolding m'_def by (rule rinode_winode [OF la]) (simp add: q_def din_def)
  have ia: "iappend inum p m = Inr m'" using A(1) by (simp add: iappend_def din_def [symmetric] off_def [symmetric] Let_def m'_def q_def)
  have un: "unat (of_nat (length p) :: u32) = length p" "unat (i_size din + of_nat (length p)) = off + length p"
    using sz max by (simp_all add: unat_of_nat unat_word_ariths off_def din_def)
  have le: "length p \<le> MAXFILE * BSIZE" "off + length p \<le> MAXFILE * BSIZE" using sz by (simp_all add: off_def din_def)
  have add: "i_size din + of_nat (length p) = of_nat (off + length p)" by (simp add: off_def)
  have kq: "upd_ip 0 (\<lambda>r. r\<lparr>i_size := of_nat (off + length p)\<rparr>) (kview m1 (din\<lparr>i_addrs := as\<rparr>)) = kview m1 q"
    by (rule fs.equality) (simp_all add: q_def kview_def)
  have wr: "writei dw 0 p (i_size din) (kview m din) = Inr (Some (length p), kview m' q)"
  proof -
    have "\<not> (i_size din > i_size din \<or> i_size din + of_nat (length p) < i_size din)" "\<not> (i_size din + of_nat (length p) > of_nat (MAXFILE * BSIZE))"
        "(0 :: u32) < of_nat (length p)" "i_size din + of_nat (length p) > i_size din"
      using le max un p by (simp_all add: word_less_nat_alt word_le_nat_alt off_def)
    then show ?thesis
      using ty A(2) kq [folded add] W(1) by (simp add: writei_def Let_def din_def [symmetric] off_def [symmetric])
  qed
  have "IBLOCK (i_inum (icache (kview m din) ! 0)) (fsb (kview m din)) < unat (sb_bmapstart (fsb (kview m din)))"
    using inode_block [of m inum] inum b by (simp add: building_def mk_sb din_def)
  moreover have "missing_indirect (kview m din) 0 + span off (length p) \<le> free_count 1 (kview m din)"
    using room unfolding kview_layout(4) [OF b] by (simp add: meta off_def din_def)
  ultimately obtain s' where "writei dw 0 p (i_size din) (kview m din) = Inr (Some (length p), s')" "inode_wf 1 0 s'" "no_holes s' 0"
      "contents s' 0 = take off (contents (kview m din) 0) @ p @ drop (off + length p) (contents (kview m din) 0)"
    using writei_spec [OF wf _ nh, of "i_size din" p dw "\<lambda>_. None"] ty le(2) unfolding din_def off_def by auto
  moreover have "length (contents (kview m din) 0) = off" by (simp add: contents_def off_def)
  ultimately show ?thesis
    using ia W(2) wr rq mk_balloc_kview [OF W(2)] unfolding din_def [symmetric] by auto
qed

text \<open>A new inode is an empty file, and the image starts well.\<close>

lemma mk_ialloc_fresh:
  assumes "building m" "unat (freeinode m) < 208"
    and m1_def: "m1 = snd (mk_ialloc type m)" and inum_def: "inum = fst (mk_ialloc type m)"
  shows "inum = freeinode m" "building m1" "freeblock m1 = freeblock m"
    "rinode inum m1 = zero_dinode\<lparr>i_inum := inum, i_type := type, i_nlink := 1\<rparr>"
    "inode_wf 1 0 (kview m1 (rinode inum m1))" "no_holes (kview m1 (rinode inum m1)) 0"
    "contents (kview m1 (rinode inum m1)) 0 = []" "missing_indirect (kview m1 (rinode inum m1)) 0 = 1"
proof -
  show in1: "inum = freeinode m" by (simp add: inum_def mk_ialloc_def Let_def)
  define din where "din = zero_dinode\<lparr>i_type := type, i_nlink := 1, i_size := 0\<rparr>"
  define m0 where "m0 = m\<lparr>freeinode := inum + 1\<rparr>"
  have m1: "m1 = winode inum din m0" by (simp add: m1_def in1 mk_ialloc_def Let_def din_def m0_def)
  have b0: "building m0" using assms(1) by (simp add: building_def m0_def)
  have q: "winode inum din m0 = winode inum (din\<lparr>i_inum := inum\<rparr>) m0" by (simp add: winode_def Let_def)
  show bm: "building m1"
    unfolding m1 q using winode_kview(2) [OF b0, of inum "din\<lparr>i_inum := inum\<rparr>"] assms(2) in1 by simp
  show "freeblock m1 = freeblock m" by (simp add: m1 m0_def winode_def wsect_def Let_def)
  have "same_dinode (load_dinode (put_dinode (din\<lparr>i_inum := inum\<rparr>) d) (zero_dinode\<lparr>i_inum := inum\<rparr>)) (din\<lparr>i_inum := inum\<rparr>)" for d
    by (rule load_put_dinode) (simp_all add: din_def zero_dinode_def)
  then have "same_dinode (rinode inum m1) din"
    by (simp add: m1 rinode_def winode_def Let_def rsect_def wsect_def same_dinode_def)
  then show rd: "rinode inum m1 = zero_dinode\<lparr>i_inum := inum, i_type := type, i_nlink := 1\<rparr>"
    by (intro inode.equality) (simp_all add: same_dinode_def din_def zero_dinode_def rinode_def load_dinode_def Let_def)
  let ?s = "kview m1 (rinode inum m1)"
  have ind: "indirect ?s 0 = 0" by (simp add: indirect_def rd zero_dinode_def sizes)
  have ad: "addr_of ?s 0 bn = 0" for bn using ind by (simp add: addr_of_def) (simp add: rd zero_dinode_def sizes)
  show "inode_wf 1 0 ?s" unfolding inode_wf_def ad using kview_layout(3) [OF bm] ind by (simp add: rd zero_dinode_def sizes)
  show "no_holes ?s 0" by (simp add: no_holes_def rd zero_dinode_def)
  show "contents ?s 0 = []" by (simp add: contents_def rd zero_dinode_def)
  show "missing_indirect ?s 0 = 1" by (simp add: missing_indirect_def ind)
qed

lemma empty_image_building: "building empty_image"
  by (simp add: building_def empty_image_def wsect_def meta)

text \<open>The kernel's \<open>readsb\<close> finds the superblock that was written.\<close>

lemma superblock_read_back:
  "get32 (put_superblock sb) 0 = sb_size sb" "get32 (put_superblock sb) 4 = sb_nblocks sb" "get32 (put_superblock sb) 8 = sb_ninodes sb"
  "get32 (put_superblock sb) 12 = sb_nlog sb" "get32 (put_superblock sb) 16 = sb_logstart sb"
  "get32 (put_superblock sb) 20 = sb_inodestart sb" "get32 (put_superblock sb) 24 = sb_bmapstart sb"
  by (simp_all add: put_superblock_def)

theorem iappend_is_writei_witness:
  "\<exists>m'. iappend 1 (mk_dirent 1 [46]) (snd (mk_ialloc T_DIR empty_image)) = Inr m' \<and>
     contents (kview m' (rinode 1 m')) 0 = mk_dirent 1 [46] \<and>
     writei (\<lambda>_. None) 0 (mk_dirent 1 [46]) 0 (kview (snd (mk_ialloc T_DIR empty_image)) (rinode 1 (snd (mk_ialloc T_DIR empty_image)))) =
       Inr (Some 16, kview m' (rinode 1 m'))"
proof -
  let ?m = "snd (mk_ialloc T_DIR empty_image)" and ?p = "mk_dirent 1 [46]"
  have fi: "freeinode empty_image = 1" "unat (freeblock empty_image) = 59" by (simp_all add: empty_image_def wsect_def meta)
  have "unat (freeinode empty_image) < 208" by (simp add: fi)
  note F = mk_ialloc_fresh [OF empty_image_building this refl refl, of T_DIR]
  have f1: "fst (mk_ialloc T_DIR empty_image) = 1" using F(1) fi by simp
  note F = F [unfolded f1]
  have len: "length ?p = 16" by (simp add: mk_dirent_def dirent_def DIRSIZ_def str_ncpy_def eval_nat_numeral char0_def)
  have z: "i_size (rinode 1 ?m) = 0" "i_type (rinode 1 ?m) \<noteq> T_DEV"
    unfolding F(4) by (simp_all add: zero_dinode_def T_DIR_def T_DEV_def)
  have room: "unat (i_size (rinode 1 ?m)) + length ?p \<le> MAXFILE * BSIZE"
      "unat (freeblock ?m) + (missing_indirect (kview ?m (rinode 1 ?m)) 0 + span (unat (i_size (rinode 1 ?m))) (length ?p)) \<le> FSSIZE"
    using F(3,8) fi by (simp_all add: z len sizes span_def meta)
  have i: "unat (1 :: u32) < NINODES" by (simp add: NINODES_def)
  have ne: "?p \<noteq> []" using len by auto
  show ?thesis
    using iappend_is_writei [OF F(2) i ne F(5,6) z(2) room, of "\<lambda>_. None"] F(7) by (auto simp: z(1) len)
qed

end
