(* ===== verification/Shell_Ex.thy ===== *)
theory Shell_Ex
  imports OS_Prelude "HOL-Library.Multiset" "HOL-Library.Sublist"
begin

text \<open>
  The shell of \<open>shell-code/soln.c\<close>: the tokenizer, the recognition of \<open>&\<close>, the forking and waiting of the process
  that runs a list of commands, and one round of the main loop with its three global variables. A line is the list of its
  characters, the array of tokens ended by \<open>NULL\<close> the list of its tokens; an access outside an array is \<open>None\<close>.
  What the system calls answer (the process number of a new child, how many children were reaped, whether \<open>chdir\<close>
  failed) is an argument, and a round returns the calls it makes. A \<open>fork\<close> that fails, the end of the input and the
  release of memory are not modelled.
\<close>

section \<open>Reading and splitting a line\<close>

definition MAX_INPUT_SIZE :: nat where "MAX_INPUT_SIZE = 1024"
definition MAX_TOKEN_SIZE :: nat where "MAX_TOKEN_SIZE = 64"
definition MAX_NUM_TOKENS :: nat where "MAX_NUM_TOKENS = 64"

definition is_blank :: "char \<Rightarrow> bool" where
  "is_blank c \<longleftrightarrow> c = CHR '' '' \<or> c = CHR 0x0A \<or> c = CHR 0x09"

text \<open>The loop, with what stands in \<open>token\<close> and the tokens so far.\<close>

fun tokenize_loop :: "string \<Rightarrow> string \<Rightarrow> string list \<Rightarrow> string list option" where
  "tokenize_loop [] token tokens = (if length tokens < MAX_NUM_TOKENS then Some tokens else None)"
| "tokenize_loop (c # line) token tokens =
     (if length token < MAX_TOKEN_SIZE then
        if is_blank c then
          if token \<noteq> [] then
            if length tokens < MAX_NUM_TOKENS then tokenize_loop line [] (tokens @ [token]) else None
          else tokenize_loop line [] tokens
        else tokenize_loop line (token @ [c]) tokens
      else None)"

definition tokenize :: "string \<Rightarrow> string list option" where
  "tokenize line = tokenize_loop line [] []"

text \<open>\<open>scanf\<close> stores the line and a 0 in the cleared array; the newline then replaces that 0, and the next
  byte must be there to end the string.\<close>

definition read_tokens :: "string \<Rightarrow> string list option" where
  "read_tokens input = (if length input + 1 < MAX_INPUT_SIZE then tokenize (input @ [CHR 0x0A]) else None)"

section \<open>The process of a command list\<close>

text \<open>\<open>Fork_exec argv name\<close> forks a child that executes \<open>argv\<close> and, when that fails, prints \<open>name\<close> in its
  message and ends; \<open>None\<close> is a null pointer. \<open>Wait_child\<close> waits for any child.\<close>

datatype list_op = Fork_exec "string list" "string option" | Wait_child

definition first_word :: "string list \<Rightarrow> string option" where
  "first_word ws = (case ws of [] \<Rightarrow> None | w # _ \<Rightarrow> if w = ''&&'' \<or> w = ''&&&'' then None else Some w)"

text \<open>\<open>cur\<close> holds the tokens from \<open>prev\<close> on, \<open>co\<close> is the counter, and \<open>name\<close> is \<open>tokens[0]\<close>
  after the separators have been overwritten, which the message of the last command uses.\<close>

fun list_loop :: "string option \<Rightarrow> nat \<Rightarrow> string list \<Rightarrow> string list \<Rightarrow> list_op list" where
  "list_loop name co cur [] = Fork_exec cur name # replicate co Wait_child"
| "list_loop name co cur (w # ws) =
     (if w = ''&&'' then Fork_exec cur (first_word cur) # Wait_child # list_loop name co [] ws
      else if w = ''&&&'' then Fork_exec cur (first_word cur) # list_loop name (co + 1) [] ws
      else list_loop name co (cur @ [w]) ws)"

definition command_list :: "string list \<Rightarrow> list_op list" where
  "command_list tokens = list_loop (first_word tokens) 1 [] tokens"

section \<open>A round of the main loop\<close>

datatype sh_signal = SIGINT | SIGTERM

text \<open>\<open>Fork_list pid pgid ops\<close>: the child \<open>pid\<close> puts itself into the process group \<open>pgid\<close>, where 0 is a group
  of its own, and runs \<open>ops\<close>. \<open>Kill pid sig\<close> with a negative \<open>pid\<close> signals a group; \<open>Kill_self\<close> signals the
  group named after the shell.\<close>

datatype sh_call =
    Message string
  | Kill int sh_signal
  | Kill_self sh_signal
  | Fork_list int int "list_op list"
  | Waitpid int
  | Chdir string

record shell =
  fore_pgid :: int
  back_num :: int
  back_pgid :: int

definition shell_init :: shell where
  "shell_init = \<lparr>fore_pgid = - 1, back_num = 0, back_pgid = - 1\<rparr>"

definition signal_handler :: "shell \<Rightarrow> sh_call list" where
  "signal_handler s = (if fore_pgid s = - 1 then [] else [Kill (- fore_pgid s) SIGTERM])"

definition exit_calls :: "shell \<Rightarrow> sh_call list" where
  "exit_calls s =
     (if fore_pgid s \<noteq> - 1 then [Kill (- fore_pgid s) SIGINT] else []) @
     (if back_pgid s \<noteq> - 1 then [Kill (- back_pgid s) SIGINT] else []) @ [Kill_self SIGTERM]"

definition reap :: "nat \<Rightarrow> shell \<Rightarrow> shell" where
  "reap n s = (let s1 = s\<lparr>back_num := back_num s - int n\<rparr> in
     if back_num s1 = 0 then s1\<lparr>back_pgid := - 1\<rparr> else s1)"

text \<open>The index of \<open>&\<close>, -1 when there is none, -2 when something follows it.\<close>

fun find_amp :: "nat \<Rightarrow> string list \<Rightarrow> int" where
  "find_amp i [] = - 1"
| "find_amp i (w # ws) = (if w = ''&'' then if ws = [] then int i else - 2 else find_amp (i + 1) ws)"

definition background_of :: "string list \<Rightarrow> int" where
  "background_of tokens = (let b = find_amp 0 tokens in
     if 0 < b \<and> list_ex (\<lambda>w. w = ''&&'' \<or> w = ''&&&'') tokens then - 2 else b)"

text \<open>Up to the wait for a foreground process, and with it.\<close>

definition start_command :: "string list \<Rightarrow> int \<Rightarrow> int \<Rightarrow> shell \<Rightarrow> sh_call list \<times> shell" where
  "start_command tokens background pid s =
     (let tokens' = (if 0 < background then take (nat background) tokens else tokens);
          s1 = (if 0 < background then s\<lparr>back_num := back_num s + 1\<rparr> else s);
          pgid = (if 0 < background \<and> back_num s1 \<noteq> 1 then back_pgid s1 else 0)
      in ([Fork_list pid pgid (command_list tokens')],
          if background = - 1 then s1\<lparr>fore_pgid := pid\<rparr>
          else if back_num s1 = 1 then s1\<lparr>back_pgid := pid\<rparr> else s1))"

definition run_command :: "string list \<Rightarrow> int \<Rightarrow> int \<Rightarrow> shell \<Rightarrow> sh_call list \<times> shell" where
  "run_command tokens background pid s =
     (let (cs, s1) = start_command tokens background pid s in
      (cs @ (if background = - 1 then [Waitpid pid] else []), s1\<lparr>fore_pgid := - 1\<rparr>))"

definition change_dir :: "string list \<Rightarrow> int \<Rightarrow> bool \<Rightarrow> sh_call list" where
  "change_dir tokens background fails =
     (if 0 < background then [Message ''Shell: cd cannot be executed in background :'']
      else if length tokens \<noteq> 2 then [Message ''Shell: Incorrect Command : cd'']
      else Chdir (tokens ! 1) # (if fails then [Message ''Shell: Incorrect Command : cd''] else []))"

text \<open>The new state is \<open>None\<close> when the shell has ended.\<close>

definition shell_round :: "string \<Rightarrow> nat \<Rightarrow> int \<Rightarrow> bool \<Rightarrow> shell \<Rightarrow> (sh_call list \<times> shell option) option" where
  "shell_round input reaped pid fails s =
     (case read_tokens input of
        None \<Rightarrow> None
      | Some tokens \<Rightarrow> Some (
          if tokens = [''exit''] then (exit_calls s, None)
          else
            let s1 = reap reaped s;
                finished = replicate reaped (Message ''Shell : Background Process Finished'');
                background = background_of tokens
            in if tokens = [] then (finished, Some s1)
               else if background = - 2 then (finished @ [Message ''Shell : Incorrect Usage of &''], Some s1)
               else if hd tokens \<noteq> ''cd'' then
                 let (cs, s2) = run_command tokens background pid s1 in (finished @ cs, Some s2)
               else (finished @ change_dir tokens background fails, Some s1)))"

section \<open>The tokenizer\<close>

lemma tokenize_word:
  "\<not> list_ex is_blank w \<Longrightarrow> length token + length w \<le> MAX_TOKEN_SIZE \<Longrightarrow>
     tokenize_loop (w @ rest) token tokens = tokenize_loop rest (token @ w) tokens"
  by (induction w arbitrary: token) auto

lemma tokenize_blanks: "list_all is_blank bs \<Longrightarrow> tokenize_loop (bs @ rest) [] tokens = tokenize_loop rest [] tokens"
  by (induction bs) (auto simp: MAX_TOKEN_SIZE_def)

definition word_and_blanks :: "string \<times> string \<Rightarrow> bool" where
  "word_and_blanks = (\<lambda>(w, bs). w \<noteq> [] \<and> \<not> list_ex is_blank w \<and> length w < MAX_TOKEN_SIZE \<and> bs \<noteq> [] \<and> list_all is_blank bs)"

lemma tokenize_word_and_blanks:
  assumes "word_and_blanks (w, bs)" "length tokens < MAX_NUM_TOKENS"
  shows "tokenize_loop (w @ bs @ rest) [] tokens = tokenize_loop rest [] (tokens @ [w])"
proof -
  obtain b bs' where bs: "bs = b # bs'" using assms(1) by (cases bs) (auto simp: word_and_blanks_def)
  have "tokenize_loop (w @ bs @ rest) [] tokens = tokenize_loop (bs @ rest) w tokens"
    using assms(1) tokenize_word [of w "[]"] by (simp add: word_and_blanks_def)
  also have "\<dots> = tokenize_loop (bs' @ rest) [] (tokens @ [w])" using assms by (simp add: bs word_and_blanks_def)
  also have "\<dots> = tokenize_loop rest [] (tokens @ [w])"
    using assms(1) by (simp add: bs word_and_blanks_def tokenize_blanks)
  finally show ?thesis .
qed

text \<open>A line of words separated by blanks gives its words, provided there are at most 63, of at most 63 characters; a
  longer word is written past the end of \<open>token\<close>.\<close>

lemma tokenize_words:
  assumes "list_all is_blank lead" "list_all word_and_blanks wbs" "length wbs < MAX_NUM_TOKENS"
  shows "tokenize (lead @ concat (map (\<lambda>(w, bs). w @ bs) wbs)) = Some (map fst wbs)"
proof -
  have "tokenize_loop (concat (map (\<lambda>(w, bs). w @ bs) wbs)) [] tokens = Some (tokens @ map fst wbs)"
    if "list_all word_and_blanks wbs" "length tokens + length wbs < MAX_NUM_TOKENS" for tokens
    using that
  proof (induction wbs arbitrary: tokens)
    case (Cons p wbs)
    obtain w bs where p: "p = (w, bs)" by fastforce
    then show ?case using Cons tokenize_word_and_blanks [of w bs tokens] by simp
  qed simp
  then show ?thesis using assms by (simp add: tokenize_def tokenize_blanks)
qed

lemma tokenize_long_word:
  assumes "\<not> list_ex is_blank w" "length w > MAX_TOKEN_SIZE"
  shows "tokenize (w @ rest) = None"
proof -
  define v where "v = take MAX_TOKEN_SIZE w"
  obtain c u where u: "drop MAX_TOKEN_SIZE w = c # u" using assms(2) by (cases "drop MAX_TOKEN_SIZE w") auto
  have v: "w = v @ c # u" "length v = MAX_TOKEN_SIZE" using assms(2) by (simp_all add: v_def flip: u)
  then have "tokenize (w @ rest) = tokenize_loop (c # u @ rest) v []"
    using assms(1) tokenize_word [of v "[]" "c # u @ rest" "[]"] by (simp add: tokenize_def)
  then show ?thesis using v by simp
qed

section \<open>Running a command list\<close>

text \<open>The process of a list beside its children, which end when they please: the operations left, the
  numbers of the running and of the ended but unreaped children, the number of the next one, and what happened.\<close>

datatype event = Began nat "string list" | Ended nat

record group =
  left_ops :: "list_op list"
  running :: "nat list"
  zombies :: "nat list"
  next_child :: nat
  events :: "event list"

definition group_start :: "string list \<Rightarrow> group" where
  "group_start tokens = \<lparr>left_ops = command_list tokens, running = [], zombies = [], next_child = 0, events = []\<rparr>"

text \<open>\<open>wait\<close> blocks while no child has ended, and returns at once when there is no child.\<close>

inductive group_step :: "group \<Rightarrow> group \<Rightarrow> bool" where
  fork: "left_ops g = Fork_exec argv name # os \<Longrightarrow>
    group_step g (g\<lparr>left_ops := os, running := running g @ [next_child g], next_child := Suc (next_child g),
      events := events g @ [Began (next_child g) argv]\<rparr>)"
| ended: "i \<in> set (running g) \<Longrightarrow>
    group_step g (g\<lparr>running := remove1 i (running g), zombies := zombies g @ [i], events := events g @ [Ended i]\<rparr>)"
| reap: "left_ops g = Wait_child # os \<Longrightarrow> i \<in> set (zombies g) \<Longrightarrow>
    group_step g (g\<lparr>left_ops := os, zombies := remove1 i (zombies g)\<rparr>)"
| no_child: "left_ops g = Wait_child # os \<Longrightarrow> running g = [] \<Longrightarrow> zombies g = [] \<Longrightarrow>
    group_step g (g\<lparr>left_ops := os\<rparr>)"

inductive_cases group_stepE: "group_step g g'"

definition argvs :: "list_op list \<Rightarrow> string list list" where
  "argvs os = concat (map (\<lambda>x. case x of Fork_exec a _ \<Rightarrow> [a] | Wait_child \<Rightarrow> []) os)"

definition waits :: "list_op list \<Rightarrow> nat" where
  "waits os = length (filter (\<lambda>x. x = Wait_child) os)"

definition began :: "event list \<Rightarrow> string list list" where
  "began es = concat (map (\<lambda>e. case e of Began _ a \<Rightarrow> [a] | Ended _ \<Rightarrow> []) es)"

definition ended_children :: "event list \<Rightarrow> nat list" where
  "ended_children es = concat (map (\<lambda>e. case e of Began _ _ \<Rightarrow> [] | Ended i \<Rightarrow> [i]) es)"

lemma ops_simps [simp]:
  "argvs [] = []" "argvs (Fork_exec a n # os) = a # argvs os" "argvs (Wait_child # os) = argvs os"
  "argvs (replicate k Wait_child) = []" "waits (replicate k Wait_child) = k"
  "waits [] = 0" "waits (Fork_exec a n # os) = waits os" "waits (Wait_child # os) = Suc (waits os)"
  "began [] = []" "began (es @ [Began i a]) = began es @ [a]" "began (es @ [Ended i]) = began es"
  "ended_children [] = []" "ended_children (es @ [Began i a]) = ended_children es"
  "ended_children (es @ [Ended i]) = ended_children es @ [i]"
  by (simp_all add: argvs_def waits_def began_def ended_children_def)

text \<open>Whatever is left, there is a wait for every child it forks.\<close>

fun covered :: "list_op list \<Rightarrow> bool" where
  "covered [] \<longleftrightarrow> True"
| "covered (x # os) \<longleftrightarrow> length (argvs (x # os)) \<le> waits (x # os) \<and> covered os"

lemma covered_waits [simp]: "covered (replicate k Wait_child)"
  by (induction k) simp_all

text \<open>Commands with what joins them: \<open>&&&\<close> where the flag is set, \<open>&&\<close> elsewhere.\<close>

definition plain_words :: "string list \<Rightarrow> bool" where
  "plain_words = list_all (\<lambda>w. w \<noteq> ''&&'' \<and> w \<noteq> ''&&&'')"

definition joined :: "(bool \<times> string list) list \<Rightarrow> string list" where
  "joined rest = concat (map (\<lambda>(par, c). (if par then ''&&&'' else ''&&'') # c) rest)"

primrec joined_ops :: "string option \<Rightarrow> nat \<Rightarrow> string list \<Rightarrow> (bool \<times> string list) list \<Rightarrow> list_op list" where
  "joined_ops name co cur [] = Fork_exec cur name # replicate co Wait_child"
| "joined_ops name co cur (p # rest) = Fork_exec cur (first_word cur) #
     (if fst p then joined_ops name (co + 1) (snd p) rest else Wait_child # joined_ops name co (snd p) rest)"

lemma list_loop_plain: "plain_words c \<Longrightarrow> list_loop name co cur (c @ ws) = list_loop name co (cur @ c) ws"
  by (induction c arbitrary: cur) (auto simp: plain_words_def)

lemma list_loop_joined:
  "\<forall>c\<in>set (map snd rest). plain_words c \<Longrightarrow> list_loop name co cur (joined rest) = joined_ops name co cur rest"
proof (induction rest arbitrary: co cur)
  case (Cons p rest)
  obtain par c where p: "p = (par, c)" by fastforce
  have "joined (p # rest) = (if par then ''&&&'' else ''&&'') # c @ joined rest" by (simp add: joined_def p)
  moreover have "plain_words c" using Cons.prems p by simp
  ultimately show ?case using Cons by (simp add: p list_loop_plain)
qed (simp add: joined_def)

lemma command_list_joined:
  "\<forall>c\<in>set (c0 # map snd rest). plain_words c \<Longrightarrow>
     command_list (c0 @ joined rest) = joined_ops (first_word (c0 @ joined rest)) 1 c0 rest"
  by (simp add: command_list_def list_loop_plain list_loop_joined)

lemma joined_ops_argvs: "argvs (joined_ops name co cur rest) = cur # map snd rest"
  by (induction rest arbitrary: co cur) auto

lemma joined_ops_waits: "waits (joined_ops name co cur rest) = co + length rest"
  by (induction rest arbitrary: co cur) auto

lemma joined_ops_length: "length (joined_ops name co cur rest) = 1 + co + 2 * length rest"
  by (induction rest arbitrary: co cur) auto

lemma joined_ops_covered: "1 \<le> co \<Longrightarrow> covered (joined_ops name co cur rest)"
  by (induction rest arbitrary: co cur) (auto simp: joined_ops_argvs joined_ops_waits)
text \<open>Every operation left is bought by what has happened, every child is accounted for, and no wait is without a
  child to wait for.\<close>

definition group_inv :: "string list list \<Rightarrow> group \<Rightarrow> bool" where
  "group_inv cmds g \<longleftrightarrow>
     covered (left_ops g) \<and> length (running g) + length (zombies g) + length (argvs (left_ops g)) = waits (left_ops g) \<and>
     next_child g \<le> length cmds \<and>
     began (events g) = take (next_child g) cmds \<and> argvs (left_ops g) = drop (next_child g) cmds \<and>
     mset (ended_children (events g)) + mset (running g) = mset [0..<next_child g]"

definition group_weight :: "group \<Rightarrow> nat" where
  "group_weight g = 3 * length (left_ops g) + 2 * length (running g) + length (zombies g)"

lemma group_start_inv:
  "\<forall>c\<in>set (c0 # map snd rest). plain_words c \<Longrightarrow> group_inv (c0 # map snd rest) (group_start (c0 @ joined rest))"
  by (simp add: group_inv_def group_start_def command_list_joined joined_ops_argvs joined_ops_waits joined_ops_covered)

lemma covered_tl: "covered (x # os) \<Longrightarrow> covered os \<and> length (argvs (x # os)) \<le> waits (x # os)"
  by simp

lemma covered_ge: "covered os \<Longrightarrow> length (argvs os) \<le> waits os"
  by (cases os) auto

lemma next_argv: "n \<le> length cmds \<Longrightarrow> a # as = drop n cmds \<Longrightarrow> n < length cmds \<and> cmds ! n = a \<and> as = drop (Suc n) cmds"
  by (metis Cons_nth_drop_Suc drop_all linorder_not_less list.distinct(1) list.inject)

lemma group_step_inv:
  assumes "group_step g g'" "group_inv cmds g"
  shows "group_inv cmds g' \<and> group_weight g' < group_weight g"
  using assms
proof cases
  case (fork argv name os)
  have "next_child g < length cmds" "cmds ! next_child g = argv" "argvs os = drop (Suc (next_child g)) cmds"
    using assms(2) next_argv [of "next_child g" cmds argv "argvs os"] by (simp_all add: group_inv_def fork)
  then show ?thesis using assms(2) by (simp add: group_inv_def group_weight_def fork take_Suc_conv_app_nth)
next
  case (ended i)
  obtain rs where rs: "mset (running g) = add_mset i rs" using ended(2) by (metis in_multiset_in_set insert_DiffM)
  have "length (running g) = Suc (length (remove1 i (running g)))"
    using ended(2) length_pos_if_in_set [of i "running g"] by (simp add: length_remove1)
  moreover have "mset (remove1 i (running g)) = rs" by (simp add: rs)
  ultimately show ?thesis using assms(2) rs by (auto simp: group_inv_def group_weight_def ended)
next
  case (reap os i)
  have "length (remove1 i (zombies g)) = length (zombies g) - 1" "zombies g \<noteq> []"
    using reap(3) by (auto simp: length_remove1)
  then show ?thesis using assms(2) by (cases "zombies g") (auto simp: group_inv_def group_weight_def reap)
next
  case (no_child os)
  have "length (argvs os) \<le> waits os" using assms(2) no_child by (intro covered_ge) (simp add: group_inv_def)
  then show ?thesis using assms(2) by (simp add: group_inv_def no_child)
qed

lemma group_steps_inv:
  "(group_step ^^ k) g g' \<Longrightarrow> group_inv cmds g \<Longrightarrow> group_inv cmds g' \<and> k + group_weight g' \<le> group_weight g"
proof (induction k arbitrary: g')
  case (Suc k)
  obtain h where h: "(group_step ^^ k) g h" "group_step h g'" using Suc.prems(1) by auto
  then show ?case using Suc.IH [OF h(1) Suc.prems(2)] group_step_inv [OF h(2)] by fastforce
qed simp

lemma group_stuck:
  assumes "group_inv cmds g" "\<nexists>g'. group_step g g'"
  shows "left_ops g = [] \<and> running g = [] \<and> zombies g = [] \<and> next_child g = length cmds"
proof -
  have run: "running g = []" using assms(2) group_step.ended [of _ g] by (cases "running g") auto
  have "left_ops g = []"
  proof (cases "left_ops g")
    case (Cons x os)
    show ?thesis
    proof (cases x)
      case (Fork_exec a n)
      then show ?thesis using assms(2) Cons group_step.fork by blast
    next
      case Wait_child
      then show ?thesis
        using assms(2) Cons run group_step.reap [of g os] group_step.no_child [of g os] by (cases "zombies g") auto
    qed
  qed
  then show ?thesis using assms(1) run by (simp add: group_inv_def)
qed

text \<open>A list without \<open>&&&\<close>: each fork is followed by its wait, and the commands run one after the other.\<close>

fun paired :: "list_op list \<Rightarrow> bool" where
  "paired [] \<longleftrightarrow> True"
| "paired (Fork_exec _ _ # Wait_child # os) \<longleftrightarrow> paired os"
| "paired _ \<longleftrightarrow> False"

definition in_turn :: "string list list \<Rightarrow> nat \<Rightarrow> event list" where
  "in_turn cmds k = concat (map (\<lambda>i. [Began i (cmds ! i), Ended i]) [0..<k])"

lemma in_turn_simps [simp]: "in_turn cmds 0 = []" "in_turn cmds (Suc k) = in_turn cmds k @ [Began k (cmds ! k), Ended k]"
  by (simp_all add: in_turn_def)

lemma in_turn_prefix: "k \<le> n \<Longrightarrow> prefix (in_turn cmds k) (in_turn cmds n)"
  by (induction n) (auto simp: le_Suc_eq intro: prefix_order.trans)

lemma joined_ops_paired: "list_all (\<lambda>p. \<not> fst p) rest \<Longrightarrow> paired (joined_ops name (Suc 0) cur rest)"
  by (induction rest arbitrary: cur) auto

definition turn_inv :: "string list list \<Rightarrow> group \<Rightarrow> bool" where
  "turn_inv cmds g \<longleftrightarrow>
     (paired (left_ops g) \<and> running g = [] \<and> zombies g = [] \<and> events g = in_turn cmds (next_child g)) \<or>
     (\<exists>k os. left_ops g = Wait_child # os \<and> paired os \<and> next_child g = Suc k \<and>
        (running g = [k] \<and> zombies g = [] \<and> events g = in_turn cmds k @ [Began k (cmds ! k)] \<or>
         running g = [] \<and> zombies g = [k] \<and> events g = in_turn cmds (Suc k)))"

lemma turn_step:
  assumes "group_step g g'" "group_inv cmds g" "turn_inv cmds g"
  shows "turn_inv cmds g'"
  using assms(1)
proof cases
  case (fork argv name os)
  then obtain os' where "os = Wait_child # os'" "paired os'"
    using assms(3) by (cases os; cases "hd os") (auto simp: turn_inv_def)
  moreover have "cmds ! next_child g = argv"
    using assms(2) next_argv [of "next_child g" cmds argv "argvs os"] by (simp add: group_inv_def fork)
  ultimately show ?thesis using assms(3) by (auto simp: turn_inv_def fork)
next
  case (ended i)
  then show ?thesis using assms(3) by (auto simp: turn_inv_def)
next
  case (reap os i)
  then show ?thesis using assms(3) by (auto simp: turn_inv_def)
next
  case (no_child os)
  then show ?thesis using assms(3) by (auto simp: turn_inv_def)
qed

lemma turn_steps:
  "(group_step ^^ k) g g' \<Longrightarrow> group_inv cmds g \<Longrightarrow> turn_inv cmds g \<Longrightarrow> turn_inv cmds g'"
proof (induction k arbitrary: g')
  case (Suc k)
  obtain h where h: "(group_step ^^ k) g h" "group_step h g'" using Suc.prems(1) by auto
  then show ?case using Suc turn_step group_steps_inv by blast
qed simp

lemma turn_prefix:
  assumes "turn_inv cmds g" "group_inv cmds g"
  shows "prefix (events g) (in_turn cmds (length cmds))"
proof -
  have n: "next_child g \<le> length cmds" using assms(2) by (simp add: group_inv_def)
  have "prefix (events g) (in_turn cmds (next_child g))"
    using assms(1) by (auto simp: turn_inv_def)
  then show ?thesis using in_turn_prefix [OF n] prefix_order.trans by blast
qed

text \<open>
  C22. A command list does what it says. For commands joined by \<open>&&\<close> and \<open>&&&\<close>, however the children are scheduled:
  the commands are started in the order of the line and each with its own words; the process never waits where it has no child;
  every run is finite, of at most six steps for each command, and when it can go no further every command
  has been started and has ended, exactly once, and no child is left unreaped; and when no
  \<open>&&&\<close> is on the line, no command starts before the one in front of it has ended.
\<close>

theorem command_list_runs:
  assumes "\<forall>c\<in>set (c0 # map snd rest). plain_words c"
    and "(group_step ^^ k) (group_start (c0 @ joined rest)) g"
  defines "cmds \<equiv> c0 # map snd rest"
  shows "began (events g) = take (next_child g) cmds \<and> k \<le> 6 * length cmds \<and>
    \<not> (\<exists>os. left_ops g = Wait_child # os \<and> running g = [] \<and> zombies g = []) \<and>
    ((\<nexists>g'. group_step g g') \<longrightarrow> left_ops g = [] \<and> running g = [] \<and> zombies g = [] \<and>
       began (events g) = cmds \<and> mset (ended_children (events g)) = mset [0..<length cmds]) \<and>
    (list_all (\<lambda>p. \<not> fst p) rest \<longrightarrow> prefix (events g) (in_turn cmds (length cmds)))"
proof -
  let ?g0 = "group_start (c0 @ joined rest)"
  have start: "group_inv cmds ?g0" unfolding cmds_def using assms(1) by (rule group_start_inv)
  have inv: "group_inv cmds g" and k: "k + group_weight g \<le> group_weight ?g0"
    using group_steps_inv [OF assms(2) start] by auto
  have "group_weight ?g0 = 6 * length cmds"
    using assms(1) by (simp add: group_weight_def group_start_def command_list_joined joined_ops_length cmds_def)
  moreover have "list_all (\<lambda>p. \<not> fst p) rest \<Longrightarrow> turn_inv cmds ?g0"
    using assms(1) by (simp add: turn_inv_def group_start_def command_list_joined joined_ops_paired)
  then have "list_all (\<lambda>p. \<not> fst p) rest \<Longrightarrow> prefix (events g) (in_turn cmds (length cmds))"
    using turn_prefix [OF _ inv] turn_steps [OF assms(2) start] by blast
  moreover have "\<not> (left_ops g = Wait_child # os \<and> running g = [] \<and> zombies g = [])" for os
    using inv covered_ge [of os] by (auto simp: group_inv_def)
  ultimately show ?thesis using inv k group_stuck [OF inv] by (auto simp: group_inv_def)
qed


theorem command_list_runs_witness:
  "\<exists>g. (group_step ^^ 2) (group_start [''a'', ''&&'', ''b'']) g \<and> events g = [Began 0 [''a''], Ended 0] \<and>
     prefix (events g) (in_turn [[''a''], [''b'']] 2) \<and> began (events g) = take (next_child g) [[''a''], [''b'']]"
proof -
  let ?g0 = "group_start [''a'', ''&&'', ''b'']"
  let ?ops = "[Wait_child, Fork_exec [''b''] (Some ''a''), Wait_child]"
  let ?g1 = "\<lparr>left_ops = ?ops, running = [0], zombies = [], next_child = 1, events = [Began 0 [''a'']]\<rparr>"
  let ?g2 = "\<lparr>left_ops = ?ops, running = [], zombies = [0], next_child = 1, events = [Began 0 [''a''], Ended 0]\<rparr>"
  have "left_ops ?g0 = Fork_exec [''a''] (Some ''a'') # ?ops"
    by (simp add: group_start_def command_list_def first_word_def)
  then have "group_step ?g0 ?g1" using group_step.fork [of ?g0] by (simp add: group_start_def)
  moreover have "group_step ?g1 ?g2" using group_step.ended [of 0 ?g1] by simp
  ultimately have "(group_step ^^ 2) ?g0 ?g2" unfolding numeral_2_eq_2 by auto
  then show ?thesis
    using command_list_runs [of "[''a'']" "[(False, [''b''])]" 2 ?g2]
    by (intro exI [of _ ?g2]) (simp add: plain_words_def joined_def numeral_2_eq_2)
qed

text \<open>When every separator is \<open>&&&\<close>, all the commands are started before the first wait.\<close>

lemma parallel_list:
  "list_all fst rest \<Longrightarrow> \<exists>names. joined_ops name co cur rest =
     map2 Fork_exec (cur # map snd rest) names @ replicate (co + length rest) Wait_child \<and> length names = Suc (length rest)"
proof (induction rest arbitrary: co cur)
  case Nil
  show ?case by (rule exI [of _ "[name]"]) simp
next
  case (Cons p rest)
  then obtain names where "joined_ops name (co + 1) (snd p) rest =
      map2 Fork_exec (snd p # map snd rest) names @ replicate (co + 1 + length rest) Wait_child" "length names = Suc (length rest)"
    by fastforce
  then show ?case using Cons.prems by (intro exI [of _ "first_word cur # names"]) simp
qed

text \<open>The wait of \<open>&&\<close> is for any child: where both separators are on a line, a command can start while the one in
  front of it still runs.\<close>

lemma five_steps: "r a b \<Longrightarrow> r b c \<Longrightarrow> r c d \<Longrightarrow> r d e \<Longrightarrow> r e f \<Longrightarrow> (r ^^ 5) a f"
proof -
  have n: "5 = Suc (Suc (Suc (Suc (Suc 0))))" by simp
  show "r a b \<Longrightarrow> r b c \<Longrightarrow> r c d \<Longrightarrow> r d e \<Longrightarrow> r e f \<Longrightarrow> (r ^^ 5) a f"
    unfolding n by (meson relpowp_0_I relpowp_Suc_I)
qed

lemma sequence_waits_for_any:
  "\<exists>g. (group_step ^^ 5) (group_start [''a'', ''&&&'', ''b'', ''&&'', ''c'']) g \<and> running g = [1, 2] \<and>
     events g = [Began 0 [''a''], Began 1 [''b''], Ended 0, Began 2 [''c'']]"
proof -
  let ?g0 = "group_start [''a'', ''&&&'', ''b'', ''&&'', ''c'']"
  let ?o3 = "[Wait_child, Wait_child]"
  let ?o2 = "Fork_exec [''c''] (Some ''a'') # ?o3"
  let ?o1 = "Fork_exec [''b''] (Some ''b'') # Wait_child # ?o2"
  let ?g1 = "\<lparr>left_ops = ?o1, running = [0], zombies = [], next_child = 1, events = [Began 0 [''a'']]\<rparr>"
  let ?g2 = "\<lparr>left_ops = Wait_child # ?o2, running = [0, 1], zombies = [], next_child = 2, events = [Began 0 [''a''], Began 1 [''b'']]\<rparr>"
  let ?g3 = "\<lparr>left_ops = Wait_child # ?o2, running = [1], zombies = [0], next_child = 2, events = [Began 0 [''a''], Began 1 [''b''], Ended 0]\<rparr>"
  let ?g4 = "\<lparr>left_ops = ?o2, running = [1], zombies = [], next_child = 2, events = [Began 0 [''a''], Began 1 [''b''], Ended 0]\<rparr>"
  let ?g5 = "\<lparr>left_ops = ?o3, running = [1, 2], zombies = [], next_child = 3,
    events = [Began 0 [''a''], Began 1 [''b''], Ended 0, Began 2 [''c'']]\<rparr>"
  have "left_ops ?g0 = Fork_exec [''a''] (Some ''a'') # ?o1"
    by (simp add: group_start_def command_list_def first_word_def numeral_2_eq_2)
  then have "group_step ?g0 ?g1" using group_step.fork [of ?g0] by (simp add: group_start_def)
  moreover have "group_step ?g1 ?g2" using group_step.fork [of ?g1] by (simp add: numeral_2_eq_2)
  moreover have "group_step ?g2 ?g3" using group_step.ended [of 0 ?g2] by simp
  moreover have "group_step ?g3 ?g4" using group_step.reap [of ?g3 ?o2 0] by simp
  moreover have "group_step ?g4 ?g5" using group_step.fork [of ?g4] by (simp add: numeral_eq_Suc)
  ultimately have "(group_step ^^ 5) ?g0 ?g5" by (rule five_steps)
  then show ?thesis by (intro exI [of _ ?g5]) simp
qed

section \<open>The shell and its background processes\<close>

text \<open>A line ends in a newline, so a line of words is read as its words.\<close>

lemma read_words:
  assumes "list_all word_and_blanks (wbs @ [(w, [CHR 0x0A])])" "length wbs + 1 < MAX_NUM_TOKENS"
    and "input = concat (map (\<lambda>(w, bs). w @ bs) wbs) @ w" "length input + 1 < MAX_INPUT_SIZE"
  shows "read_tokens input = Some (map fst wbs @ [w])"
  using assms tokenize_words [of "[]" "wbs @ [(w, [CHR 0x0A])]"] by (simp add: read_tokens_def)

lemma find_amp_range: "find_amp i ws = - 1 \<or> find_amp i ws = - 2 \<or> (\<exists>n. find_amp i ws = int (i + n) \<and> n < length ws \<and> take n ws @ [''&''] = ws)"
proof (induction ws arbitrary: i)
  case (Cons w ws)
  show ?case
  proof (cases "w = ''&''")
    case False
    then show ?thesis using Cons.IH [of "i + 1"] by (auto intro: exI [of _ "Suc _"])
  qed auto
qed simp

text \<open>The answers of \<open>background_of\<close>: a positive index is the place of a final \<open>&\<close>, and 0 comes from \<open>&\<close> alone.\<close>

lemma background_of_cases:
  "background_of ws = - 1 \<or> background_of ws = - 2 \<or> ws = [''&''] \<and> background_of ws = 0 \<or>
     0 < background_of ws \<and> take (nat (background_of ws)) ws @ [''&''] = ws"
  using find_amp_range [of 0 ws] by (auto simp: background_of_def Let_def)

text \<open>The children a round leaves running, with their process groups.\<close>

definition left_running :: "sh_call list \<Rightarrow> (int \<times> int) list" where
  "left_running calls = concat (map (\<lambda>c. case c of
     Fork_list pid pgid _ \<Rightarrow> if Waitpid pid \<in> set calls then [] else [(pid, if pgid = 0 then pid else pgid)]
   | _ \<Rightarrow> []) calls)"

lemma left_running_messages [simp]:
  "left_running (replicate n (Message m) @ calls) = left_running calls"
  by (simp add: left_running_def cong del: sh_call.case_cong_weak)

text \<open>The globals describe the unreaped background processes: their number, and the one group they are in.\<close>

definition shell_ok :: "(int \<times> int) list \<Rightarrow> shell \<Rightarrow> bool" where
  "shell_ok out s \<longleftrightarrow> fore_pgid s = - 1 \<and> back_num s = int (length out) \<and>
     list_all (\<lambda>p. snd p = back_pgid s) out \<and> (if out = [] then back_pgid s = - 1 else 0 < back_pgid s)"

lemma shell_init_ok: "shell_ok [] shell_init"
  by (simp add: shell_ok_def shell_init_def)

lemma reap_ok:
  assumes "shell_ok out s"
  shows "shell_ok (filter P out) (reap (length out - length (filter P out)) s)"
proof -
  have "length (filter P out) \<le> length out" by simp
  moreover have "list_all (\<lambda>p. snd p = back_pgid s) (filter P out)" using assms by (auto simp: shell_ok_def list_all_iff)
  ultimately show ?thesis using assms by (auto simp: shell_ok_def reap_def Let_def of_nat_diff split: if_splits)
qed

lemma run_command_ok:
  assumes "shell_ok out s" "0 < pid" "background = - 1 \<or> 0 < background" "run_command tokens background pid s = (cs, t)"
  shows "shell_ok (out @ left_running cs) t"
  using assms by (auto simp: shell_ok_def run_command_def start_command_def Let_def left_running_def split: if_splits)

lemma change_dir_leaves_none: "left_running (change_dir tokens background fails) = []"
  by (simp add: change_dir_def left_running_def)



text \<open>A lone \<open>&\<close> is run as a command that nobody waits for or counts: when it has been reaped, the counter is -1,
  and the next background process is told to join the group -1.\<close>

lemma lone_ampersand_not_counted:
  "\<exists>cs. shell_round ''&'' 0 7 False shell_init = Some (cs, Some shell_init) \<and> left_running cs = [(7, 7)]"
  "\<exists>ops. shell_round ''a &'' 1 8 False shell_init =
     Some ([Message ''Shell : Background Process Finished'', Fork_list 8 (- 1) ops], Some shell_init)"
proof -
  let ?cs = "[Fork_list 7 0 [Fork_exec [''&''] (Some ''&''), Wait_child]]"
  have "shell_round ''&'' 0 7 False shell_init = Some (?cs, Some shell_init)" by code_simp
  moreover have "left_running ?cs = [(7, 7)]" by (simp add: left_running_def)
  ultimately show "\<exists>cs. shell_round ''&'' 0 7 False shell_init = Some (cs, Some shell_init) \<and> left_running cs = [(7, 7)]" by blast
  have "shell_round ''a &'' 1 8 False shell_init =
     Some ([Message ''Shell : Background Process Finished'',
       Fork_list 8 (- 1) [Fork_exec [''a''] (Some ''a''), Wait_child]], Some shell_init)" by code_simp
  then show "\<exists>ops. shell_round ''a &'' 1 8 False shell_init =
     Some ([Message ''Shell : Background Process Finished'', Fork_list 8 (- 1) ops], Some shell_init)" by blast
qed

text \<open>While the shell waits for a foreground process, an interrupt terminates the group the process has made.\<close>

lemma interrupt_foreground:
  assumes "start_command tokens (- 1) pid s = (cs, t)" "pid \<noteq> - 1"
  shows "signal_handler t = [Kill (- pid) SIGTERM] \<and> (\<exists>ops. cs = [Fork_list pid 0 ops])"
  using assms by (auto simp: start_command_def signal_handler_def)

end
