(* ===== verification/Spec2Isabelle.thy ===== *)
theory Spec2Isabelle
  imports CString PrintNum Bio Log Pipe Console Kalloc Vm Proc SimpleFS Sh Directory Grep Kbd Locks File_Table
    Umalloc Malloc_Ex Trap Sync Exec Mkfs Shell_Ex
begin

text \<open>
  Verification of the operating-system programs of this repository: the teaching kernel xv6 (under
  \<open>xv6-public\<close>, with system calls for priorities, process information, lazy mapping and callbacks added; a
  variant with copy-on-write pages under \<open>xv6-public(1)\<close>), its user programs, and a file system that keeps
  its disk in a file of the host (\<open>simplefs-code\<close>).

  \<^bold>\<open>How the programs fit together.\<close> A user program traps into the kernel with a number and a stack of
  arguments. \<open>syscall.c\<close> fetches and checks the arguments; \<open>sysfile.c\<close> works on the table of open files
  (\<open>file.c\<close>), whose entries are pipes (\<open>pipe.c\<close>) or inodes (\<open>fs.c\<close>); devices are reached through inodes,
  the console (\<open>console.c\<close>) being the one that exists. Inodes and directories are stored in blocks of the
  disk, which \<open>fs.c\<close> reads through the buffer cache (\<open>bio.c\<close>) and writes through the log (\<open>log.c\<close>), which
  makes a group of writes atomic; the cache talks to the driver (\<open>ide.c\<close>). \<open>proc.c\<close> keeps the processes and
  schedules them; \<open>vm.c\<close> builds their page tables from pages of \<open>kalloc.c\<close>.

  \<^bold>\<open>Values and effects.\<close> Machine integers are words of their width (\<open>u8\<close>, \<open>u32\<close>), C \<open>int\<close>s that cannot
  overflow are \<open>int\<close>; arrays that are indexed in bounds are lists; strings are lists of bytes without their
  NUL, except in \<open>CString\<close> and \<open>Sh\<close>, where memory is a function from addresses to bytes and the terminator is
  a byte in it. A function that changes state returns the new state. An outcome that stops the kernel, or that C
  leaves undefined, is a value of the error type of \<open>OS_Prelude\<close> (\<open>Panic\<close> with its message, \<open>OutOfBounds\<close>), so
  a function that can fail has the type \<open>err + 'a\<close>, chained by \<open>bindR\<close>; a result of -1 is what the code has.
  A call that sleeps returns what it has done up to then and says that it sleeps.

  \<^bold>\<open>Theories.\<close>
  \<^item> \<open>OS_Prelude\<close>: the types, the error monad, \<open>scan\<close> (a search loop over a table) and lemmas on maps and lists.
  \<^item> \<open>CString\<close> (\<open>string.c\<close>, \<open>ulib.c\<close>, \<open>x86.h\<close>): copying, filling, comparing on a memory of bytes. Each
    loop is shown equal to its result: overlapping moves, the two paths of \<open>memset\<close>, terminated copies.
  \<^item> \<open>PrintNum\<close> (\<open>printint\<close> and the format loops of \<open>console.c\<close> and \<open>printf.c\<close>): numerals read back as the number
    printed and fit their buffer, and the two implementations agree.
  \<^item> \<open>Block_Cache\<close>, \<open>Bio\<close> (\<open>bio.c\<close>, \<open>ide.c\<close>): a locale for a disk with a cache in front, and its
    interpretation on the buffers, their lists and the request queue of the driver. The cache is transparent.
  \<^item> \<open>Log\<close> (\<open>log.c\<close>): transactions on the disk. A crash after any prefix of the disk writes of \<open>commit\<close>, followed by
    recovery, leaves all blocks of the transaction or none; recovery may itself be interrupted.
  \<^item> \<open>Ring\<close>, \<open>Pipe\<close> (\<open>pipe.c\<close>): a bounded queue in an array with counters that wrap at 32 bits, and pipes on it.
  \<^item> \<open>Console\<close> (\<open>console.c\<close>): the screen, the editing of a line in the interrupt handler, reading it.
  \<^item> \<open>Kalloc\<close> (\<open>kalloc.c\<close> of the copy-on-write kernel): the free list with a count of references per page.
  \<^item> \<open>Vm\<close> (both \<open>vm.c\<close>): two-level page tables in physical memory; mapping, growing, copying, the handler of
    copy-on-write faults, lazy allocation.
  \<^item> \<open>Proc\<close> (\<open>proc.c\<close>): the process table, \<open>fork\<close>, \<open>exit\<close>, \<open>wait\<close>, \<open>kill\<close>, sleeping and the scheduler.
  \<^item> \<open>Inode\<close>, \<open>File_Data\<close>, \<open>Dinode\<close>, \<open>Directory\<close> (\<open>fs.c\<close>): the bitmap of blocks, the inode cache and the
    layout of inodes on disk, the bytes of a file over direct and indirect blocks, directories and paths.
  \<^item> \<open>Mkfs\<close> (\<open>mkfs.c\<close>): the builder of the file system image, shown to append exactly as \<open>writei\<close> of the kernel does.
  \<^item> \<open>Sysargs\<close> (\<open>syscall.c\<close>): fetching arguments from user memory. \<open>Files\<close> (\<open>file.c\<close>, the first half of
    \<open>sysfile.c\<close>, \<open>pipealloc\<close>), \<open>Sysfile\<close> (the calls on paths), \<open>Proc_Files\<close> (what \<open>fork\<close> and
    \<open>exit\<close> do to open files): the operations; \<open>File_Table\<close>: the
    invariant of the table of open files over every sequence of calls.
  \<^item> \<open>Trap\<close> (\<open>sysproc.c\<close>, the dispatch of \<open>syscall.c\<close>, \<open>trap.c\<close>): the calls on processes and the trap handler, with
    page faults that allocate lazily.
  \<^item> \<open>User_Mem\<close>: a process's memory as its program sees it, and what growing, closing and copying do to it. \<open>Exec\<close>
    (\<open>exec.c\<close>, \<open>elf.h\<close>, \<open>loaduvm\<close>): a program file becomes the image its headers describe, with the arguments above it.
  \<^item> \<open>Locks\<close> (\<open>spinlock.c\<close>, \<open>sleeplock.c\<close>): a step relation at the grain of the atomic instructions.
  \<^item> \<open>Umalloc\<close> (\<open>umalloc.c\<close>): the allocator of user programs, a ring of free blocks; its searches are partial functions,
    and that they return is part of its invariant. \<open>Malloc_Ex\<close> (\<open>malloc-code\<close>): two allocators with arrays of flags.
  \<^item> \<open>Sync\<close> (\<open>pthreads-sync-code\<close>): a semaphore and a bounded buffer as step relations over any number of threads.
  \<^item> \<open>Shell_Ex\<close> (\<open>shell-code/soln.c\<close>): a shell with background commands and lists of commands; what it knows of its
    processes, and how a list runs beside its children, as a step relation.
  \<^item> \<open>SimpleFS\<close> (\<open>simplefs-ops.c\<close>, \<open>simplefs-disk.c\<close>): its tables and seven operations.
  \<^item> \<open>Sh\<close> (\<open>sh.c\<close>): the tokens, the recursive-descent parser and the termination of its strings in place.
  \<^item> \<open>Grep\<close> (\<open>grep.c\<close>, \<open>wc.c\<close>): the matcher, against the language of its patterns, and the loops over the input.
  \<^item> \<open>Kbd\<close> (\<open>kbd.c\<close>, \<open>kbd.h\<close>): the state machine of scan codes.

  \<^bold>\<open>What the groups of lemmas show.\<close> Each theory proves what its operations do on every branch, then the
  property that its callers rely on: an invariant of its state that every operation keeps (\<open>Bio\<close>, \<open>Log\<close>,
  \<open>Kalloc\<close>, \<open>Proc\<close>, \<open>SimpleFS\<close>, \<open>File_Table\<close>, \<open>Locks\<close>, \<open>Umalloc\<close>, \<open>Malloc_Ex\<close>, \<open>Sync\<close>), a refinement of an abstract structure (a transparent
  cache, a bounded queue, a line editor, a scrolling window, an array of bytes, a finite map of names), a round
  trip (numerals, typed lines, inodes, command lines), or an equivalence with a reference definition.

  \<^bold>\<open>Bounds and fuel.\<close> Loops are recursions with a measure wherever the code bounds them. Two places use fuel.
  The parser of the shell gets four units for each character of the line plus four (\<open>parse_fuel\<close>), and
  \<open>parsecmd_terminates\<close> shows that it never runs out. The scheduler, an endless loop, is run for a number of
  rounds; \<open>scheduler_runs_runnable\<close> shows that 101 are enough for any process whose priority is not negative.

  \<^bold>\<open>Parameters.\<close> The drivers behind device inodes are functions given to \<open>readi\<close> and \<open>writei\<close>; the numbers of
  the inode a path names, a user address space or a fresh page are given to the operations that use them.

  \<^bold>\<open>Not modelled.\<close> Port and memory-mapped programming of the boot path and the interrupt controllers; assembly
  and generated tables; the programs that only issue system calls and print. In \<open>fs.c\<close> and above, blocks are what the
  buffer cache shows: that the cache and the log make this so is the subject of \<open>Bio\<close> and \<open>Log\<close>. The kernel runs one
  call at a time except where a theory says otherwise (\<open>Locks\<close>, \<open>Pipe\<close>, \<open>Console\<close>, \<open>Proc\<close> split calls where they sleep
  or release a lock).
\<close>

end
